(* ===== verification/Prelude.thy ===== *)
theory Prelude
  imports Main "HOL-Library.Word" "HOL-Library.Multiset" "HOL-Library.Product_Lexorder"
begin

text \<open>
  Shared vocabulary of the development: the outcome type in which failed assertions and
  undefined behaviour are values, machine integer widths, decimal printing, the generic
  reachability predicate with the contract of an invariant, and the contract of a
  round-robin cursor.  The library theories that follow import this one and nothing else
  of the repository is modelled here.
\<close>

named_theorems outcome_simps \<open>equations that run the outcome type\<close>
named_theorems section_defs \<open>definitions of critical sections\<close>

section \<open>Machine integers\<close>

type_synonym u8 = "8 word"
type_synonym u32 = "32 word"
type_synonym u64 = "64 word"

section \<open>Outcomes\<close>

text \<open>
  \<open>Ok\<close>: the code returned.  \<open>Abort\<close>: an \<open>assert\<close> failed (the build flags of SConstruct do
  not define NDEBUG).  \<open>Undef\<close>: the C++ text has undefined behaviour there (a dangling pointer,
  a division by zero, an access past the end).
\<close>

datatype 'a outcome = Ok 'a | Abort | Undef

primrec bind_outcome :: "'a outcome \<Rightarrow> ('a \<Rightarrow> 'b outcome) \<Rightarrow> 'b outcome" where
  "bind_outcome (Ok x) f = f x"
| "bind_outcome Abort f = Abort"
| "bind_outcome Undef f = Undef"

primrec map_ok :: "('a \<Rightarrow> 'b) \<Rightarrow> 'a outcome \<Rightarrow> 'b outcome" where
  "map_ok f (Ok x) = Ok (f x)"
| "map_ok f Abort = Abort"
| "map_ok f Undef = Undef"

definition assert_ok :: "bool \<Rightarrow> 'a \<Rightarrow> 'a outcome" where
  "assert_ok b x = (if b then Ok x else Abort)"

lemma bind_outcome_Ok_iff [outcome_simps]:
  "bind_outcome m f = Ok y \<longleftrightarrow> (\<exists>x. m = Ok x \<and> f x = Ok y)"
  by (cases m) auto

lemma map_ok_Ok_iff [outcome_simps]: "map_ok f m = Ok y \<longleftrightarrow> (\<exists>x. m = Ok x \<and> y = f x)"
  by (cases m) auto

lemma assert_ok_Ok_iff [outcome_simps]: "assert_ok b x = Ok y \<longleftrightarrow> b \<and> y = x"
  by (auto simp: assert_ok_def)

lemma assert_ok_simps [simp]: "assert_ok True x = Ok x" "assert_ok False x = Abort"
  by (simp_all add: assert_ok_def)

lemma bind_outcome_cong [fundef_cong]:
  "m = m' \<Longrightarrow> (\<And>x. m' = Ok x \<Longrightarrow> f x = g x) \<Longrightarrow> bind_outcome m f = bind_outcome m' g"
  by (cases m') auto

section \<open>Decimal printing\<close>

text \<open>What \<open>operator<<\<close> and the \<open>%lu\<close>, \<open>%u\<close> formats print for an unsigned integer.\<close>

definition digit_char :: "nat \<Rightarrow> char" where
  "digit_char d = char_of (48 + d)"

fun string_of_nat :: "nat \<Rightarrow> string" where
  "string_of_nat n =
     (if n < 10 then [digit_char n] else string_of_nat (n div 10) @ [digit_char (n mod 10)])"

declare string_of_nat.simps [simp del]

definition string_of_int :: "int \<Rightarrow> string" where
  "string_of_int i = (if i < 0 then CHR ''-'' # string_of_nat (nat (- i)) else string_of_nat (nat i))"

definition digit_val :: "char \<Rightarrow> nat" where
  "digit_val c = of_char c - 48"

lemma digit_val_char: "d < 10 \<Longrightarrow> digit_val (digit_char d) = d"
  by (simp add: digit_val_def digit_char_def)

lemma string_of_nat_value:
  "foldl (\<lambda>acc c. 10 * acc + digit_val c) 0 (string_of_nat n) = n"
proof (induction n rule: string_of_nat.induct)
  case (1 n)
  then show ?case
    by (cases "n < 10")
      (simp_all add: string_of_nat.simps [of n] digit_val_char)
qed

lemma string_of_nat_inject: "string_of_nat m = string_of_nat n \<longleftrightarrow> m = n"
  by (metis string_of_nat_value)

lemma digit_char_neq_dash: "d < 10 \<Longrightarrow> digit_char d \<noteq> CHR ''-''"
proof
  assume d: "d < 10" and eq: "digit_char d = CHR ''-''"
  have "of_char (digit_char d) = (45 :: nat)" by (simp add: eq)
  with d show False by (simp add: digit_char_def)
qed

lemma hd_string_of_nat: "\<exists>d cs. d < 10 \<and> string_of_nat n = digit_char d # cs"
proof (induction n rule: string_of_nat.induct)
  case (1 n)
  then show ?case by (cases "n < 10") (auto simp: string_of_nat.simps [of n])
qed

lemma string_of_int_inject: "string_of_int i = string_of_int j \<longleftrightarrow> i = j"
proof -
  have "string_of_nat m \<noteq> CHR ''-'' # cs" for m cs
    using hd_string_of_nat [of m] digit_char_neq_dash by (metis list.inject)
  then show ?thesis
    by (auto simp: string_of_int_def string_of_nat_inject split: if_splits)
      (metis string_of_nat_inject)+
qed

section \<open>Reachable states and invariants\<close>

inductive reach :: "('s \<Rightarrow> bool) \<Rightarrow> ('s \<Rightarrow> 's \<Rightarrow> bool) \<Rightarrow> 's \<Rightarrow> bool" for init step where
  reach_init: "init s \<Longrightarrow> reach init step s"
| reach_step: "reach init step s \<Longrightarrow> step s t \<Longrightarrow> reach init step t"

text \<open>
  The contract of an invariant: it holds initially and every step keeps it.  Each component
  with a step relation interprets this locale.
\<close>

locale step_system =
  fixes init :: "'s \<Rightarrow> bool" and step :: "'s \<Rightarrow> 's \<Rightarrow> bool" and inv :: "'s \<Rightarrow> bool"
  assumes init_inv: "init s \<Longrightarrow> inv s"
    and step_inv: "inv s \<Longrightarrow> step s t \<Longrightarrow> inv t"
begin

lemma reachable_inv: "reach init step s \<Longrightarrow> inv s"
  by (induction rule: reach.induct) (auto intro: init_inv step_inv)

lemma star_inv: "step\<^sup>*\<^sup>* s t \<Longrightarrow> inv s \<Longrightarrow> inv t"
  by (induction rule: rtranclp_induct) (auto intro: step_inv)

end

section \<open>Round robin\<close>

fun picks :: "('s \<Rightarrow> nat \<times> 's) \<Rightarrow> nat \<Rightarrow> 's \<Rightarrow> nat list \<times> 's" where
  "picks pick 0 s = ([], s)"
| "picks pick (Suc k) s =
     (let (i, s') = pick s; (is, s'') = picks pick k s' in (i # is, s''))"

lemma mod_shift_less:
  assumes "(c + x) mod n = (c + y) mod (n::nat)" and "x \<le> y" and "y < n"
  shows "x = y"
proof -
  have "c + x \<le> c + y" using assms(2) by simp
  then obtain q where "c + y = c + x + n * q"
    using mod_eq_nat1E [OF assms(1) [symmetric]] by blast
  then have q: "y = x + n * q" by linarith
  with assms(3) have "q = 0" by (cases q) auto
  with q show ?thesis by simp
qed

lemma mset_rotation:
  assumes "0 < (n::nat)"
  shows "mset (map (\<lambda>k. (c + k) mod n) [0..<n]) = mset [0..<n]"
proof -
  have inj: "inj_on (\<lambda>k. (c + k) mod n) {0..<n}"
  proof (rule inj_onI)
    fix x y
    assume xy: "x \<in> {0..<n}" "y \<in> {0..<n}" and eq: "(c + x) mod n = (c + y) mod n"
    with xy show "x = y"
      using mod_shift_less [of c x n y] mod_shift_less [of c y n x]
      by (cases "x \<le> y") auto
  qed
  have "(\<lambda>k. (c + k) mod n) ` {0..<n} = {0..<n}"
    by (rule endo_inj_surj [OF _ _ inj]) (use assms in auto)
  then have set_eq: "set (map (\<lambda>k. (c + k) mod n) [0..<n]) = set [0..<n]" by simp
  have "distinct (map (\<lambda>k. (c + k) mod n) [0..<n])"
    using inj by (simp add: distinct_map)
  with set_eq show ?thesis
    by (metis distinct_upt set_eq_iff_mset_eq_distinct)
qed

text \<open>
  A cursor over \<open>size s\<close> slots: each pick returns the slot under the cursor and moves it on by
  one.  Three components select this way: the io\_service pool, the pool of server pools and the
  service manager.
\<close>

locale round_robin =
  fixes slots :: "'s \<Rightarrow> nat" and pick :: "'s \<Rightarrow> nat \<times> 's" and cursor :: "'s \<Rightarrow> nat"
    and inv :: "'s \<Rightarrow> bool"
  assumes slots_pos: "inv s \<Longrightarrow> 0 < slots s"
    and pick_slot: "inv s \<Longrightarrow> fst (pick s) = cursor s mod slots s"
    and pick_cursor: "inv s \<Longrightarrow> cursor (snd (pick s)) mod slots s = Suc (cursor s) mod slots s"
    and pick_slots: "inv s \<Longrightarrow> slots (snd (pick s)) = slots s"
    and pick_inv: "inv s \<Longrightarrow> inv (snd (pick s))"
begin

lemma picks_slots: "inv s \<Longrightarrow> slots (snd (picks pick k s)) = slots s"
proof (induction k arbitrary: s)
  case 0
  then show ?case by simp
next
  case (Suc k)
  then show ?case
    using pick_inv [of s] pick_slots [of s] by (simp add: split_beta Let_def)
qed

lemma picks_inv: "inv s \<Longrightarrow> inv (snd (picks pick k s))"
  by (induction k arbitrary: s) (simp_all add: split_beta Let_def pick_inv)

lemma picks_eq:
  "inv s \<Longrightarrow> fst (picks pick k s) = map (\<lambda>i. (cursor s + i) mod slots s) [0..<k]"
proof (induction k arbitrary: s)
  case 0
  then show ?case by simp
next
  case (Suc k)
  let ?t = "snd (pick s)"
  have shift: "(cursor ?t + i) mod slots s = (cursor s + Suc i) mod slots s" for i
    using pick_cursor [OF Suc.prems] by (metis add_Suc add_Suc_right mod_add_left_eq)
  have "fst (picks pick (Suc k) s)
      = cursor s mod slots s # map (\<lambda>i. (cursor ?t + i) mod slots s) [0..<k]"
    using Suc.IH [OF pick_inv [OF Suc.prems]] pick_slots [OF Suc.prems] pick_slot [OF Suc.prems]
    by (simp add: split_beta Let_def)
  also have "\<dots> = map (\<lambda>i. (cursor s + i) mod slots s) (0 # map Suc [0..<k])"
    by (simp add: shift)
  also have "0 # map Suc [0..<k] = [0..<Suc k]"
    by (simp add: map_Suc_upt upt_conv_Cons del: upt_Suc)
  finally show ?case .
qed

lemma full_turn:
  assumes "inv s"
  shows "mset (fst (picks pick (slots s) s)) = mset [0..<slots s]"
  using mset_rotation [OF slots_pos [OF assms], of "cursor s"] by (simp add: picks_eq [OF assms])

lemma pick_in_range: "inv s \<Longrightarrow> fst (pick s) < slots s"
  using slots_pos [of s] by (simp add: pick_slot)

end

section \<open>Lending\<close>

fun gets :: "('s \<Rightarrow> ('a option \<times> 's) outcome) \<Rightarrow> nat \<Rightarrow> 's \<Rightarrow> ('a list \<times> 's) outcome" where
  "gets get 0 s = Ok ([], s)"
| "gets get (Suc n) s = bind_outcome (get s) (\<lambda>(r, s).
     map_ok (\<lambda>(as, s). ((case r of None \<Rightarrow> [] | Some a \<Rightarrow> [a]) @ as, s)) (gets get n s))"

fun puts :: "('a \<Rightarrow> 's \<Rightarrow> 's outcome) \<Rightarrow> 'a list \<Rightarrow> 's \<Rightarrow> 's outcome" where
  "puts put [] s = Ok s"
| "puts put (a # as) s = bind_outcome (put a s) (puts put as)"

text \<open>
  The contract between a pool and its users: \<open>get\<close> lends something nobody holds or fails, and
  what is lent can be put back, in any order.
\<close>

locale lender =
  fixes inv :: "'s \<Rightarrow> bool" and lent :: "'s \<Rightarrow> 'a set"
    and get :: "'s \<Rightarrow> ('a option \<times> 's) outcome" and put :: "'a \<Rightarrow> 's \<Rightarrow> 's outcome"
  assumes get_lends: "inv s \<Longrightarrow> \<exists>r s'. get s = Ok (r, s') \<and> inv s' \<and> lent s' = set_option r \<union> lent s
      \<and> set_option r \<inter> lent s = {}"
    and put_returns: "inv s \<Longrightarrow> a \<in> lent s \<Longrightarrow> \<exists>s'. put a s = Ok s' \<and> inv s' \<and> lent s' = lent s - {a}"
begin

lemma gets_distinct:
  "inv s \<Longrightarrow> \<exists>as s'. gets get n s = Ok (as, s') \<and> inv s' \<and> distinct as \<and> set as \<inter> lent s = {}
     \<and> lent s' = set as \<union> lent s"
proof (induction n arbitrary: s)
  case (Suc n)
  from get_lends [OF Suc.prems] obtain r s1 where g: "get s = Ok (r, s1)" "inv s1"
    "lent s1 = set_option r \<union> lent s" "set_option r \<inter> lent s = {}" by blast
  from Suc.IH [OF g(2)] obtain as s2 where i: "gets get n s1 = Ok (as, s2)" "inv s2" "distinct as"
    "set as \<inter> lent s1 = {}" "lent s2 = set as \<union> lent s1" by blast
  from g i show ?case by (cases r) auto
qed simp

lemma puts_all:
  "inv s \<Longrightarrow> distinct as \<Longrightarrow> set as \<subseteq> lent s \<Longrightarrow>
     \<exists>s'. puts put as s = Ok s' \<and> inv s' \<and> lent s' = lent s - set as"
proof (induction as arbitrary: s)
  case (Cons a as)
  then have "a \<in> lent s" by simp
  from put_returns [OF Cons.prems(1) this] obtain s1 where p: "put a s = Ok s1" "inv s1" "lent s1 = lent s - {a}"
    by blast
  have "set as \<subseteq> lent s1" using Cons.prems(2,3) p(3) by auto
  from Cons.IH [OF p(2) _ this] Cons.prems(2) obtain s2 where "puts put as s1 = Ok s2" "inv s2"
    "lent s2 = lent s1 - set as" by auto
  with p show ?case by (auto simp: set_eq_iff)
qed simp

text \<open>Whatever was got can be put back in any order, and leaves what was lent before.\<close>

lemma gets_puts:
  assumes "inv s"
  shows "\<exists>as s'. gets get n s = Ok (as, s') \<and> distinct as \<and> (\<forall>bs. mset bs = mset as \<longrightarrow>
      (\<exists>s''. puts put bs s' = Ok s'' \<and> inv s'' \<and> lent s'' = lent s))"
proof -
  from gets_distinct [OF assms] obtain as s' where g: "gets get n s = Ok (as, s')" "inv s'" "distinct as"
    "set as \<inter> lent s = {}" "lent s' = set as \<union> lent s" by blast
  have "\<exists>s''. puts put bs s' = Ok s'' \<and> inv s'' \<and> lent s'' = lent s" if b: "mset bs = mset as" for bs
  proof -
    have e: "set bs = set as" "distinct bs" using b g(3) mset_eq_setD mset_eq_imp_distinct_iff by blast+
    from puts_all [OF g(2) e(2)] obtain s'' where "puts put bs s' = Ok s''" "inv s''" "lent s'' = lent s' - set bs"
      using g(5) e(1) by auto
    with g(4,5) e(1) show ?thesis by auto
  qed
  with g(1,3) show ?thesis by blast
qed

end

end
