(* ===== verification/AsyncException.thy ===== *)
theory AsyncException
  imports Prelude
begin

text \<open>
  src/async/async\_exception.h and async\_exception.cpp: the error codes that carry Thrift
  exceptions to the completion handlers.  The numeric values of the Thrift enumerations are
  constants of the Thrift library, which is not part of the repository: they are the argument
  \<open>thrift_enums\<close>, and the hypothesis \<open>enums_distinct\<close> is what C++ demands of the case labels of
  the four \<open>switch\<close> statements for them to compile.
\<close>

datatype error_cat = ThriftCategory | ApplicationCategory | ProtocolCategory | TransportCategory
  | PosixCategory | SystemCategory

text \<open>\<open>boost::system::error_code\<close>: a value and a category; it converts to true when the value is not 0.\<close>

record error_code =
  ec_value :: int
  ec_category :: error_cat

definition ec_is_error :: "error_code \<Rightarrow> bool" where
  "ec_is_error ec \<longleftrightarrow> ec_value ec \<noteq> 0"

definition ec_success :: error_code where
  "ec_success = \<lparr>ec_value = 0, ec_category = SystemCategory\<rparr>"

datatype kTException = kThriftUnknown | kThriftHasPendingOp

datatype kTApplicationException = kAppUnknown | kAppMethod | kAppInvalidMessageType
  | kAppWrongMethodName | kAppBadSequenceID | kAppMissingResult

datatype kTProtocolException = kProtoUnknown | kProtoInvalidData | kProtoNegativeSize
  | kProtoSizeLimit | kProtoBadVersion | kProtoNotImplemented

datatype kTTransportException = kTransUnknown | kTransNotOpen | kTransTimedOut | kTransEndOfFile
  | kTransInterrupted | kTransBadArgs | kTransCorruptedData | kTransInternalError

primrec thrift_value :: "kTException \<Rightarrow> int" where
  "thrift_value kThriftUnknown = 0"
| "thrift_value kThriftHasPendingOp = 1"

text \<open>The values of the Thrift library's own enumerations.\<close>

record thrift_enums =
  app_value :: "kTApplicationException \<Rightarrow> int"
  proto_value :: "kTProtocolException \<Rightarrow> int"
  trans_value :: "kTTransportException \<Rightarrow> int"

definition enums_distinct :: "thrift_enums \<Rightarrow> bool" where
  "enums_distinct E \<longleftrightarrow> inj (app_value E) \<and> inj (proto_value E) \<and> inj (trans_value E)"

section \<open>The categories\<close>

definition thrift_name :: "error_cat \<Rightarrow> string" where
  "thrift_name c = (case c of
       ThriftCategory \<Rightarrow> ''ThriftException''
     | ApplicationCategory \<Rightarrow> ''TApplicationException''
     | ProtocolCategory \<Rightarrow> ''TProtocolException''
     | TransportCategory \<Rightarrow> ''TTransportException''
     | _ \<Rightarrow> [])"

definition thrift_message :: "int \<Rightarrow> string" where
  "thrift_message v =
     (if v = thrift_value kThriftHasPendingOp
      then ''Thrift: There are pending asynchronous operations''
      else ''Thrift: Thrift exception'')"

definition application_message :: "thrift_enums \<Rightarrow> int \<Rightarrow> string" where
  "application_message E v =
     (if v = app_value E kAppUnknown then ''TApplicationException: Unknown application exception''
      else if v = app_value E kAppMethod then ''TApplicationException: Unknown method''
      else if v = app_value E kAppInvalidMessageType then ''TApplicationException: Invalid message type''
      else if v = app_value E kAppWrongMethodName then ''TApplicationException: Wrong method name''
      else if v = app_value E kAppBadSequenceID then ''TApplicationException: Bad sequence identifier''
      else if v = app_value E kAppMissingResult then ''TApplicationException: Missing result''
      else ''TApplicationException: (Invalid exception type)'')"

definition protocol_message :: "thrift_enums \<Rightarrow> int \<Rightarrow> string" where
  "protocol_message E v =
     (if v = proto_value E kProtoUnknown then ''TProtocolException: Unknown protocol exception''
      else if v = proto_value E kProtoInvalidData then ''TProtocolException: Invalid data''
      else if v = proto_value E kProtoNegativeSize then ''TProtocolException: Negative size''
      else if v = proto_value E kProtoSizeLimit then ''TProtocolException: Exceeded size limit''
      else if v = proto_value E kProtoBadVersion then ''TProtocolException: Invalid version''
      else if v = proto_value E kProtoNotImplemented then ''TProtocolException: Not implemented''
      else ''TProtocolException: (Invalid exception type)'')"

definition transport_message :: "thrift_enums \<Rightarrow> int \<Rightarrow> string" where
  "transport_message E v =
     (if v = trans_value E kTransUnknown then ''TTransportException: Unknown transport exception''
      else if v = trans_value E kTransNotOpen then ''TTransportException: Transport not open''
      else if v = trans_value E kTransTimedOut then ''TTransportException: Timed out''
      else if v = trans_value E kTransEndOfFile then ''TTransportException: End of file''
      else if v = trans_value E kTransInterrupted then ''TTransportException: Interrupted''
      else if v = trans_value E kTransBadArgs then ''TTransportException: Invalid arguments''
      else if v = trans_value E kTransCorruptedData then ''TTransportException: Corrupted Data''
      else if v = trans_value E kTransInternalError then ''TTransportException: Internal error''
      else ''TTransportException: (Invalid exception type)'')"

text \<open>\<open>error_code::message\<close> for the four categories; the other two are boost's own (argument).\<close>

definition ec_message :: "thrift_enums \<Rightarrow> (error_code \<Rightarrow> string) \<Rightarrow> error_code \<Rightarrow> string" where
  "ec_message E other ec = (case ec_category ec of
       ThriftCategory \<Rightarrow> thrift_message (ec_value ec)
     | ApplicationCategory \<Rightarrow> application_message E (ec_value ec)
     | ProtocolCategory \<Rightarrow> protocol_message E (ec_value ec)
     | TransportCategory \<Rightarrow> transport_message E (ec_value ec)
     | _ \<Rightarrow> other ec)"

section \<open>make\_error\_code\<close>

text \<open>
  The overloads: one per enumeration, one per exception class.  An exception is its class and,
  for the three typed classes, the value of \<open>getType()\<close>.
\<close>

datatype cpp_exception = TApplicationExn int | TProtocolExn int | TTransportExn int | TExn
  | StdExn | OtherExn

definition make_thrift :: "kTException \<Rightarrow> error_code" where
  "make_thrift k = \<lparr>ec_value = thrift_value k, ec_category = ThriftCategory\<rparr>"

definition make_app :: "thrift_enums \<Rightarrow> kTApplicationException \<Rightarrow> error_code" where
  "make_app E k = \<lparr>ec_value = app_value E k, ec_category = ApplicationCategory\<rparr>"

definition make_proto :: "thrift_enums \<Rightarrow> kTProtocolException \<Rightarrow> error_code" where
  "make_proto E k = \<lparr>ec_value = proto_value E k, ec_category = ProtocolCategory\<rparr>"

definition make_trans :: "thrift_enums \<Rightarrow> kTTransportException \<Rightarrow> error_code" where
  "make_trans E k = \<lparr>ec_value = trans_value E k, ec_category = TransportCategory\<rparr>"

text \<open>The exception overloads; the standard and unknown classes have none.\<close>

fun make_exn :: "cpp_exception \<Rightarrow> error_code option" where
  "make_exn (TApplicationExn t) = Some \<lparr>ec_value = t, ec_category = ApplicationCategory\<rparr>"
| "make_exn (TProtocolExn t) = Some \<lparr>ec_value = t, ec_category = ProtocolCategory\<rparr>"
| "make_exn (TTransportExn t) = Some \<lparr>ec_value = t, ec_category = TransportCategory\<rparr>"
| "make_exn TExn = Some \<lparr>ec_value = thrift_value kThriftUnknown, ec_category = ThriftCategory\<rparr>"
| "make_exn StdExn = None"
| "make_exn OtherExn = None"

section \<open>Properties\<close>

lemma app_value_eq: "enums_distinct E \<Longrightarrow> app_value E a = app_value E b \<longleftrightarrow> a = b"
  by (simp add: enums_distinct_def inj_eq)

lemma proto_value_eq: "enums_distinct E \<Longrightarrow> proto_value E a = proto_value E b \<longleftrightarrow> a = b"
  by (simp add: enums_distinct_def inj_eq)

lemma trans_value_eq: "enums_distinct E \<Longrightarrow> trans_value E a = trans_value E b \<longleftrightarrow> a = b"
  by (simp add: enums_distinct_def inj_eq)

lemmas enum_eqs = app_value_eq proto_value_eq trans_value_eq

lemma application_message_inj:
  assumes E: "enums_distinct E"
  shows "application_message E (app_value E a) = application_message E (app_value E b) \<longleftrightarrow> a = b"
  by (cases a; cases b) (simp_all add: application_message_def enum_eqs [OF E])

lemma protocol_message_inj:
  assumes E: "enums_distinct E"
  shows "protocol_message E (proto_value E a) = protocol_message E (proto_value E b) \<longleftrightarrow> a = b"
  by (cases a; cases b) (simp_all add: protocol_message_def enum_eqs [OF E])

lemma transport_message_inj:
  assumes E: "enums_distinct E"
  shows "transport_message E (trans_value E a) = transport_message E (trans_value E b) \<longleftrightarrow> a = b"
  by (cases a; cases b) (simp_all add: transport_message_def enum_eqs [OF E])

text \<open>Values that satisfy the hypothesis: the enumerations numbered in their order.\<close>

definition sample_enums :: thrift_enums where
  "sample_enums = \<lparr>
     app_value = (\<lambda>k. case k of kAppUnknown \<Rightarrow> 0 | kAppMethod \<Rightarrow> 1 | kAppInvalidMessageType \<Rightarrow> 2
        | kAppWrongMethodName \<Rightarrow> 3 | kAppBadSequenceID \<Rightarrow> 4 | kAppMissingResult \<Rightarrow> 5),
     proto_value = (\<lambda>k. case k of kProtoUnknown \<Rightarrow> 0 | kProtoInvalidData \<Rightarrow> 1 | kProtoNegativeSize \<Rightarrow> 2
        | kProtoSizeLimit \<Rightarrow> 3 | kProtoBadVersion \<Rightarrow> 4 | kProtoNotImplemented \<Rightarrow> 5),
     trans_value = (\<lambda>k. case k of kTransUnknown \<Rightarrow> 0 | kTransNotOpen \<Rightarrow> 1 | kTransTimedOut \<Rightarrow> 2
        | kTransEndOfFile \<Rightarrow> 3 | kTransInterrupted \<Rightarrow> 4 | kTransBadArgs \<Rightarrow> 5
        | kTransCorruptedData \<Rightarrow> 6 | kTransInternalError \<Rightarrow> 7)\<rparr>"

lemma sample_enums_distinct: "enums_distinct sample_enums"
  by (auto simp: enums_distinct_def sample_enums_def inj_def
      split: kTApplicationException.splits kTProtocolException.splits kTTransportException.splits)

text \<open>The error code made from an exception is the error code made from the enumeration
  constant of its type, and within each category the message identifies the constant: two codes
  of the same enumeration have the same message only if they are the same constant.\<close>

theorem error_code_messages:
  assumes "enums_distinct E"
  shows "make_exn (TApplicationExn (app_value E a)) = Some (make_app E a)
    \<and> make_exn (TProtocolExn (proto_value E p)) = Some (make_proto E p)
    \<and> make_exn (TTransportExn (trans_value E t)) = Some (make_trans E t)
    \<and> make_exn TExn = Some (make_thrift kThriftUnknown)
    \<and> (ec_message E other (make_app E a) = ec_message E other (make_app E a') \<longleftrightarrow> a = a')
    \<and> (ec_message E other (make_proto E p) = ec_message E other (make_proto E p') \<longleftrightarrow> p = p')
    \<and> (ec_message E other (make_trans E t) = ec_message E other (make_trans E t') \<longleftrightarrow> t = t')
    \<and> (ec_message E other (make_thrift k) = ec_message E other (make_thrift k') \<longleftrightarrow> k = k')"
proof -
  have "thrift_message (thrift_value k) = thrift_message (thrift_value k') \<longleftrightarrow> k = k'"
    by (cases k; cases k') (simp_all add: thrift_message_def)
  then show ?thesis
    by (simp add: ec_message_def make_app_def make_proto_def make_trans_def make_thrift_def
        application_message_inj [OF assms] protocol_message_inj [OF assms]
        transport_message_inj [OF assms])
qed

theorem error_code_messages_witness:
  "make_exn (TProtocolExn 3) = Some (make_proto sample_enums kProtoSizeLimit)
    \<and> ec_message sample_enums (\<lambda>_. []) (make_proto sample_enums kProtoSizeLimit)
      \<noteq> ec_message sample_enums (\<lambda>_. []) (make_proto sample_enums kProtoNegativeSize)"
  using error_code_messages [OF sample_enums_distinct, of kAppUnknown kProtoSizeLimit kTransUnknown
      "\<lambda>_. []" kAppUnknown kProtoNegativeSize kTransUnknown kThriftUnknown kThriftUnknown]
  by (simp add: sample_enums_def)

end
