(* ===== verification/AsyncConnection.thy ===== *)
theory AsyncConnection
  imports AsyncException
begin

text \<open>
  src/async/async\_connection.h: the framing state machine shared by the asynchronous server and
  client.  A connection owns a receive buffer; a completed read either completes a frame
  (\<open>on_handle_frame\<close>), shows an illegal length (\<open>on_close\<close>) or asks for more bytes.  The virtual
  functions are arguments (\<open>vtable\<close>); the asynchronous operations a handler starts are returned
  as actions, their completions are calls of \<open>on_handle_read\<close> and \<open>on_handle_write\<close>.
\<close>

section \<open>State\<close>

definition kBufferSize :: nat where "kBufferSize = 4 * 1024"
definition kFrameSize :: nat where "kFrameSize = 4"
definition kMaxFrameSize :: nat where "kMaxFrameSize = 100 * 1024 * 1024"

datatype kState = kReadFrameSize | kReadFrame

record conn =
  io_svc :: "nat option"
  sock :: "nat option"
  sock_open :: bool
  strand :: "nat option"
  recv_buffer :: "u8 list"
  bytes_recv :: u32
  frame_size :: u32
  state :: kState
  input_buffer :: "u8 list"
  output_buffer :: "u8 list"

text \<open>
  \<open>ARead s off len\<close>: \<open>async_read_some\<close> into \<open>len\<close> bytes at offset \<open>off\<close> of the receive buffer,
  the handler wrapped in the strand or not; \<open>AWrite s bs\<close>: \<open>async_write\<close> of all of \<open>bs\<close>;
  \<open>AExt x\<close>: an effect of the derived class.
\<close>

datatype 'x action = ARead bool nat nat | AWrite bool "u8 list" | AExt 'x

type_synonym ('c, 'x) handler = "'c \<Rightarrow> ('c \<times> 'x action list) outcome"

record ('c, 'x) vtable =
  vt_close :: "error_code \<Rightarrow> ('c, 'x) handler"
  vt_frame :: "('c, 'x) handler"

section \<open>Operations\<close>

definition vec_resize :: "nat \<Rightarrow> u8 list \<Rightarrow> u8 list" where
  "vec_resize n xs = take n xs @ replicate (n - length xs) 0"

definition common_init :: "'a conn_scheme \<Rightarrow> 'a conn_scheme" where
  "common_init c = c\<lparr>recv_buffer := vec_resize kBufferSize (recv_buffer c), bytes_recv := 0,
     frame_size := 0, state := kReadFrameSize, input_buffer := [], output_buffer := []\<rparr>"

definition raw_conn :: "nat option \<Rightarrow> nat option \<Rightarrow> bool \<Rightarrow> conn" where
  "raw_conn ios s opened = \<lparr>io_svc = ios, sock = s, sock_open = opened, strand = None,
     recv_buffer = [], bytes_recv = 0, frame_size = 0, state = kReadFrameSize,
     input_buffer = [], output_buffer = []\<rparr>"

text \<open>The three constructors: no socket; a new socket on a service; a given socket.\<close>

definition conn_default :: conn where
  "conn_default = common_init (raw_conn None None False)"

definition conn_on_service :: "nat \<Rightarrow> nat \<Rightarrow> conn" where
  "conn_on_service ios s = common_init (raw_conn (Some ios) (Some s) False)"

definition conn_on_socket :: "nat \<Rightarrow> nat \<Rightarrow> bool \<Rightarrow> conn" where
  "conn_on_socket ios s opened = common_init (raw_conn (Some ios) (Some s) opened)"

definition conn_is_open :: "'a conn_scheme \<Rightarrow> bool" where
  "conn_is_open c \<longleftrightarrow> sock c \<noteq> None \<and> sock_open c"

definition conn_close :: "'a conn_scheme \<Rightarrow> 'a conn_scheme" where
  "conn_close c = (if sock c \<noteq> None \<and> sock_open c then c\<lparr>sock_open := False\<rparr> else c)"

definition set_strand :: "nat option \<Rightarrow> 'a conn_scheme \<Rightarrow> 'a conn_scheme" where
  "set_strand s c = c\<lparr>strand := s\<rparr>"

text \<open>
  \<open>start_recv\<close>.  Dereferencing a null \<open>socket_\<close> trips the assertion of \<open>shared_ptr\<close>.  In the
  continuing case \<open>&recv_buffer_[bytes_recv_]\<close> past the end of the vector, with its length
  \<open>buffer_size - bytes_recv_\<close> wrapped around, is undefined behaviour; at the end of the vector it
  is a read of no bytes.
\<close>

definition start_recv :: "bool \<Rightarrow> ('a conn_scheme, 'x) handler" where
  "start_recv restart c =
     (if restart then
        let buf = (if length (recv_buffer c) > kMaxFrameSize then replicate kBufferSize 0
                   else recv_buffer c);
            c' = c\<lparr>recv_buffer := buf, bytes_recv := 0, frame_size := 0, state := kReadFrameSize\<rparr>
        in if sock c = None then Abort
           else Ok (c', [ARead (strand c \<noteq> None) 0 (length buf)])
      else
        let buf = (if state c = kReadFrame
                   then vec_resize (unat (frame_size c) + kFrameSize) (recv_buffer c)
                   else recv_buffer c);
            c' = c\<lparr>recv_buffer := buf\<rparr>;
            off = unat (bytes_recv c)
        in if sock c = None then Abort
           else if off > length buf then Undef
           else Ok (c', [ARead (strand c \<noteq> None) off (length buf - off)]))"

text \<open>\<open>get_frame_size\<close>: the first four bytes in network order.\<close>

definition be_nat :: "u8 list \<Rightarrow> nat" where
  "be_nat bs = foldl (\<lambda>a b. a * 256 + unat b) 0 (take 4 bs)"

definition get_frame_size :: "'a conn_scheme \<Rightarrow> 'a conn_scheme outcome" where
  "get_frame_size c =
     (if length (recv_buffer c) < kFrameSize then Undef
      else Ok (c\<lparr>frame_size := of_nat (be_nat (recv_buffer c))\<rparr>))"

text \<open>The \<open>kReadFrame\<close> case of \<open>handle_buffer\<close>, then the whole function.\<close>

definition handle_read_frame ::
  "('a conn_scheme, 'x) vtable \<Rightarrow> ('a conn_scheme, 'x) handler" where
  "handle_read_frame vt c =
     (if unat (bytes_recv c) \<ge> unat (frame_size c) + kFrameSize
      then vt_frame vt (c\<lparr>input_buffer := take (unat (frame_size c) + kFrameSize) (recv_buffer c),
                          output_buffer := []\<rparr>)
      else start_recv False c)"

definition handle_buffer ::
  "thrift_enums \<Rightarrow> ('a conn_scheme, 'x) vtable \<Rightarrow> ('a conn_scheme, 'x) handler" where
  "handle_buffer E vt c = (case state c of
       kReadFrameSize \<Rightarrow>
         if unat (bytes_recv c) \<ge> kFrameSize then
           bind_outcome (get_frame_size c) (\<lambda>c1.
             if unat (frame_size c1) \<ge> kMaxFrameSize \<or> frame_size c1 = 0 then
               if sock c1 = None then Abort
               else if unat (frame_size c1) \<ge> kMaxFrameSize
                 then vt_close vt (make_proto E kProtoSizeLimit) c1
                 else vt_close vt (make_proto E kProtoNegativeSize) c1
             else handle_read_frame vt (c1\<lparr>state := kReadFrame\<rparr>))
         else start_recv False c
     | kReadFrame \<Rightarrow> handle_read_frame vt c)"

definition start_write_output_buffer :: "('a conn_scheme, 'x) handler" where
  "start_write_output_buffer c =
     (if sock c = None then Abort else Ok (c, [AWrite (strand c \<noteq> None) (output_buffer c)]))"

text \<open>The base class's \<open>on_close\<close>: the socket, if any, is closed and released.\<close>

definition base_on_close :: "error_code \<Rightarrow> 'a conn_scheme \<Rightarrow> 'a conn_scheme" where
  "base_on_close ec c =
     (if sock c \<noteq> None then c\<lparr>io_svc := None, sock_open := False, sock := None, strand := None\<rparr>
      else c)"

definition base_on_handle_read ::
  "thrift_enums \<Rightarrow> ('a conn_scheme, 'x) vtable \<Rightarrow> error_code \<Rightarrow> nat \<Rightarrow> ('a conn_scheme, 'x) handler" where
  "base_on_handle_read E vt ec bytes_transferred c =
     (if ec_is_error ec then vt_close vt ec c
      else
        let c1 = c\<lparr>bytes_recv := bytes_recv c + of_nat bytes_transferred\<rparr>
        in bind_outcome (assert_ok (unat (bytes_recv c1) \<le> length (recv_buffer c1)) c1)
             (handle_buffer E vt))"

text \<open>
  \<open>on_handle_write\<close>: restart when the buffer held one frame only, otherwise move the bytes that
  follow the frame to the front and handle them.  \<open>memcpy\<close> on overlapping regions is undefined.
\<close>

definition base_on_handle_write ::
  "thrift_enums \<Rightarrow> ('a conn_scheme, 'x) vtable \<Rightarrow> error_code \<Rightarrow> nat \<Rightarrow> ('a conn_scheme, 'x) handler" where
  "base_on_handle_write E vt ec bytes_transferred c =
     (if ec_is_error ec then vt_close vt ec c
      else
        let n = unat (frame_size c) + kFrameSize;
            got = unat (bytes_recv c);
            rest = got - n
        in if got < n then Abort
           else if got = n then start_recv True c
           else if rest > n then Undef
           else handle_buffer E vt
                  (c\<lparr>recv_buffer := take rest (drop n (recv_buffer c)) @ drop rest (recv_buffer c),
                     bytes_recv := bytes_recv c - of_nat n, frame_size := 0,
                     state := kReadFrameSize\<rparr>))"

text \<open>
  The completion of a read: the transport has put the bytes at the offset of the operation, then
  the handler runs.
\<close>

definition store_bytes :: "nat \<Rightarrow> u8 list \<Rightarrow> u8 list \<Rightarrow> u8 list" where
  "store_bytes off bs buf = take off buf @ bs @ drop (off + length bs) buf"

definition complete_read ::
  "thrift_enums \<Rightarrow> ('a conn_scheme, 'x) vtable \<Rightarrow> nat \<Rightarrow> u8 list \<Rightarrow> ('a conn_scheme, 'x) handler" where
  "complete_read E vt off bs c =
     base_on_handle_read E vt ec_success (length bs)
       (c\<lparr>recv_buffer := store_bytes off bs (recv_buffer c)\<rparr>)"

section \<open>Specification: what the buffered bytes mean\<close>

datatype frame_view = NeedMore | Illegal kTProtocolException | Frame "u8 list" "u8 list"

definition view_frame :: "u8 list \<Rightarrow> frame_view" where
  "view_frame bs =
     (if length bs < kFrameSize then NeedMore
      else if be_nat bs \<ge> kMaxFrameSize then Illegal kProtoSizeLimit
      else if be_nat bs = 0 then Illegal kProtoNegativeSize
      else if length bs < be_nat bs + kFrameSize then NeedMore
      else Frame (take (be_nat bs + kFrameSize) bs) (drop (be_nat bs + kFrameSize) bs))"

definition contents :: "'a conn_scheme \<Rightarrow> u8 list" where
  "contents c = take (unat (bytes_recv c)) (recv_buffer c)"

definition conn_wf :: "'a conn_scheme \<Rightarrow> bool" where
  "conn_wf c \<longleftrightarrow> sock c \<noteq> None \<and> unat (bytes_recv c) \<le> length (recv_buffer c)
     \<and> kFrameSize \<le> length (recv_buffer c)
     \<and> length (recv_buffer c) < kMaxFrameSize + kFrameSize"

definition header_read :: "'a conn_scheme \<Rightarrow> bool" where
  "header_read c \<longleftrightarrow> (state c = kReadFrame \<longrightarrow>
     kFrameSize \<le> length (contents c) \<and> frame_size c = of_nat (be_nat (contents c))
     \<and> 0 < be_nat (contents c) \<and> be_nat (contents c) < kMaxFrameSize)"

text \<open>The connection after \<open>handle_buffer\<close> asked for more bytes.\<close>

definition grown :: "'a conn_scheme \<Rightarrow> 'a conn_scheme" where
  "grown c = (if length (contents c) < kFrameSize then c
     else c\<lparr>state := kReadFrame, frame_size := of_nat (be_nat (contents c)),
            recv_buffer := vec_resize (be_nat (contents c) + kFrameSize) (recv_buffer c)\<rparr>)"

lemmas size_consts = kBufferSize_def kFrameSize_def kMaxFrameSize_def

lemma be_nat_bound: "be_nat bs < 2 ^ 32"
proof -
  have b: "unat (x :: u8) < 256" for x using unsigned_less [of x] by simp
  have step: "foldl (\<lambda>a b. a * 256 + unat b) 0 xs < 256 ^ length xs" for xs :: "u8 list"
  proof (induction xs rule: rev_induct)
    case (snoc x xs)
    then show ?case using b [of x] by simp
  qed simp
  have "256 ^ length (take 4 bs) \<le> (256 :: nat) ^ 4"
    by (rule power_increasing) auto
  with step [of "take 4 bs"] show ?thesis by (simp add: be_nat_def)
qed

lemma unat_be_nat [simp]: "unat (of_nat (be_nat bs) :: u32) = be_nat bs"
  using be_nat_bound [of bs] by (simp add: unsigned_of_nat take_bit_nat_eq_self)

lemma be_nat_take: "kFrameSize \<le> n \<Longrightarrow> be_nat (take n bs) = be_nat bs"
  by (simp add: be_nat_def kFrameSize_def min_def)

lemma length_contents: "conn_wf c \<Longrightarrow> length (contents c) = unat (bytes_recv c)"
  by (simp add: contents_def conn_wf_def)

lemma be_nat_contents: "conn_wf c \<Longrightarrow> kFrameSize \<le> unat (bytes_recv c) \<Longrightarrow>
    be_nat (contents c) = be_nat (recv_buffer c)"
  by (simp add: contents_def be_nat_take)

lemma length_vec_resize [simp]: "length (vec_resize n xs) = n"
  by (simp add: vec_resize_def)

lemma take_vec_resize: "k \<le> n \<Longrightarrow> k \<le> length xs \<Longrightarrow> take k (vec_resize n xs) = take k xs"
  by (simp add: vec_resize_def min_def)

lemma of_nat_be_nat_0: "(of_nat (be_nat bs) :: u32) = 0 \<longleftrightarrow> be_nat bs = 0"
  by (metis unat_be_nat unat_eq_zero)

lemma handle_read_frame_eq:
  assumes wf: "conn_wf c" and st: "state c = kReadFrame" and hd: "header_read c"
  shows "handle_read_frame vt c = (case view_frame (contents c) of
       NeedMore \<Rightarrow> start_recv False c
     | Illegal k \<Rightarrow> Undef
     | Frame f r \<Rightarrow> vt_frame vt (c\<lparr>input_buffer := f, output_buffer := []\<rparr>))"
proof -
  from st hd have h: "kFrameSize \<le> length (contents c)" "frame_size c = of_nat (be_nat (contents c))"
    "0 < be_nat (contents c)" "be_nat (contents c) < kMaxFrameSize"
    by (auto simp: header_read_def)
  have "take (be_nat (contents c) + kFrameSize) (contents c)
      = take (be_nat (contents c) + kFrameSize) (recv_buffer c)"
    if "be_nat (contents c) + kFrameSize \<le> unat (bytes_recv c)"
    using that by (simp add: contents_def min_def)
  with h show ?thesis
    by (auto simp: handle_read_frame_def view_frame_def length_contents [OF wf] not_less)
qed

text \<open>The whole of \<open>handle_buffer\<close> as a case distinction on what the bytes mean.\<close>

lemma handle_buffer_eq:
  assumes wf: "conn_wf c" and hd: "header_read c"
  shows "handle_buffer E vt c = (case view_frame (contents c) of
       NeedMore \<Rightarrow> Ok (grown c, [ARead (strand c \<noteq> None) (unat (bytes_recv c))
                         (length (recv_buffer (grown c)) - unat (bytes_recv c))])
     | Illegal k \<Rightarrow> vt_close vt (make_proto E k) (c\<lparr>frame_size := of_nat (be_nat (contents c))\<rparr>)
     | Frame f r \<Rightarrow> vt_frame vt (c\<lparr>frame_size := of_nat (be_nat (contents c)), state := kReadFrame,
                         input_buffer := f, output_buffer := []\<rparr>))"
proof (cases "state c")
  case kReadFrame
  with hd have h: "kFrameSize \<le> length (contents c)" "frame_size c = of_nat (be_nat (contents c))"
    "0 < be_nat (contents c)" "be_nat (contents c) < kMaxFrameSize"
    by (auto simp: header_read_def)
  have upd: "c\<lparr>frame_size := of_nat (be_nat (contents c)), state := kReadFrame, input_buffer := f,
      output_buffer := out\<rparr> = c\<lparr>input_buffer := f, output_buffer := out\<rparr>" for f out
    by (rule conn.equality) (simp_all add: h(2) kReadFrame)
  have more: "start_recv False c = Ok (grown c, [ARead (strand c \<noteq> None) (unat (bytes_recv c))
      (length (recv_buffer (grown c)) - unat (bytes_recv c))])"
    if "view_frame (contents c) = NeedMore"
    using that h kReadFrame wf
    by (auto simp: start_recv_def grown_def view_frame_def Let_def conn_wf_def length_contents [OF wf]
        split: if_splits)
  show ?thesis
    using kReadFrame h more
    by (cases "view_frame (contents c)")
      (auto simp: handle_buffer_def handle_read_frame_eq [OF wf kReadFrame hd] upd view_frame_def
        split: if_splits)
next
  case kReadFrameSize
  show ?thesis
  proof (cases "unat (bytes_recv c) < kFrameSize")
    case True
    with kReadFrameSize wf show ?thesis
      by (auto simp: handle_buffer_def start_recv_def view_frame_def grown_def Let_def conn_wf_def
          length_contents [OF wf])
  next
    case False
    let ?b = "be_nat (contents c)"
    let ?c1 = "c\<lparr>frame_size := of_nat ?b\<rparr>"
    from False wf have g: "get_frame_size c = Ok ?c1"
      by (auto simp: get_frame_size_def conn_wf_def be_nat_contents [OF wf])
    let ?c2 = "c\<lparr>frame_size := of_nat ?b, state := kReadFrame\<rparr>"
    have wf2: "conn_wf ?c2" and c2: "contents ?c2 = contents c"
      using wf by (simp_all add: conn_wf_def contents_def)
    have hd2: "header_read ?c2" if "0 < ?b" "?b < kMaxFrameSize"
      using that False by (simp add: header_read_def c2 length_contents [OF wf])
    have more: "start_recv False ?c2 = Ok (grown c, [ARead (strand c \<noteq> None) (unat (bytes_recv c))
      (length (recv_buffer (grown c)) - unat (bytes_recv c))])"
      if "0 < ?b" "?b < kMaxFrameSize" "view_frame (contents c) = NeedMore"
      using that False wf
      by (auto simp: start_recv_def grown_def view_frame_def Let_def conn_wf_def
          length_contents [OF wf] split: if_splits)
    show ?thesis
      using kReadFrameSize False wf more handle_read_frame_eq [OF wf2 _ hd2, of vt]
      by (auto simp: handle_buffer_def g of_nat_be_nat_0 c2 view_frame_def length_contents [OF wf]
          conn_wf_def split: if_splits)
  qed
qed

section \<open>What a handler leaves behind\<close>

lemma grown_keeps [simp]:
  "sock (grown c) = sock c" "strand (grown c) = strand c" "bytes_recv (grown c) = bytes_recv c"
  by (simp_all add: grown_def)

lemma grown_waits:
  assumes wf: "conn_wf c" and hd: "header_read c" and nm: "view_frame (contents c) = NeedMore"
  shows "contents (grown c) = contents c" and "conn_wf (grown c)" and "header_read (grown c)"
    and "unat (bytes_recv (grown c)) < length (recv_buffer (grown c))"
proof -
  have len: "length (contents c) = unat (bytes_recv c)" by (rule length_contents [OF wf])
  show c: "contents (grown c) = contents c"
    using nm wf len
    by (auto simp: grown_def contents_def view_frame_def take_vec_resize conn_wf_def split: if_splits)
  show "conn_wf (grown c)"
    using nm wf len by (auto simp: grown_def conn_wf_def view_frame_def split: if_splits)
  show "header_read (grown c)"
    unfolding header_read_def c using nm wf len hd
    by (auto simp: grown_def header_read_def contents_def view_frame_def conn_wf_def
        kFrameSize_def split: if_splits)
  show "unat (bytes_recv (grown c)) < length (recv_buffer (grown c))"
    using nm wf len by (auto simp: grown_def conn_wf_def view_frame_def split: if_splits)
qed

text \<open>Bytes have arrived at the end of the buffered ones.\<close>

definition received :: "u8 list \<Rightarrow> 'a conn_scheme \<Rightarrow> 'a conn_scheme" where
  "received bs c = c\<lparr>recv_buffer := store_bytes (unat (bytes_recv c)) bs (recv_buffer c),
     bytes_recv := bytes_recv c + of_nat (length bs)\<rparr>"

lemma unat_add_of_nat:
  "unat (w :: u32) + n < 2 ^ 32 \<Longrightarrow> unat (w + of_nat n) = unat w + n"
  by (simp add: unat_word_ariths unsigned_of_nat take_bit_eq_mod mod_simps)

lemma conn_wf_small: "conn_wf c \<Longrightarrow> length (recv_buffer c) < 2 ^ 32"
  by (simp add: conn_wf_def size_consts)

lemma received_facts:
  assumes wf: "conn_wf c" and hd: "header_read c"
    and room: "unat (bytes_recv c) + length bs \<le> length (recv_buffer c)"
  shows "conn_wf (received bs c)" and "contents (received bs c) = contents c @ bs"
    and "header_read (received bs c)"
proof -
  let ?c = "received bs c"
  have n: "unat (bytes_recv ?c) = unat (bytes_recv c) + length bs"
    unfolding received_def using room conn_wf_small [OF wf] by (simp add: unat_add_of_nat)
  show "conn_wf ?c"
    using wf room n by (auto simp: conn_wf_def received_def store_bytes_def)
  show c: "contents ?c = contents c @ bs"
    unfolding contents_def n using wf room by (simp add: received_def store_bytes_def conn_wf_def)
  have be: "be_nat (contents c @ bs) = be_nat (contents c)" if "kFrameSize \<le> length (contents c)"
    using that by (simp add: be_nat_def kFrameSize_def)
  show "header_read ?c"
    using hd be by (auto simp: header_read_def c) (simp_all add: received_def)
qed

lemma complete_read_eq:
  assumes wf: "conn_wf c" and hd: "header_read c"
    and room: "unat (bytes_recv c) + length bs \<le> length (recv_buffer c)"
  shows "complete_read E vt (unat (bytes_recv c)) bs c = handle_buffer E vt (received bs c)"
proof -
  have "unat (bytes_recv (received bs c)) \<le> length (recv_buffer (received bs c))"
    using received_facts(1) [OF assms] by (simp add: conn_wf_def)
  then show ?thesis
    by (simp add: complete_read_def base_on_handle_read_def ec_success_def ec_is_error_def
        received_def Let_def)
qed

text \<open>The buffer once the first frame has been consumed.\<close>

definition consumed :: "'a conn_scheme \<Rightarrow> 'a conn_scheme" where
  "consumed c =
     (let n = unat (frame_size c) + kFrameSize; rest = unat (bytes_recv c) - n
      in c\<lparr>recv_buffer := take rest (drop n (recv_buffer c)) @ drop rest (recv_buffer c),
           bytes_recv := bytes_recv c - of_nat n, frame_size := 0, state := kReadFrameSize\<rparr>)"

text \<open>A frame has been handed out and is still at the front of the buffer.\<close>

definition holds_frame :: "u8 list \<Rightarrow> u8 list \<Rightarrow> 'a conn_scheme \<Rightarrow> bool" where
  "holds_frame f r c \<longleftrightarrow> conn_wf c \<and> view_frame (contents c) = Frame f r
     \<and> state c = kReadFrame \<and> frame_size c = of_nat (be_nat (contents c))"

lemma view_frame_Frame:
  "view_frame bs = Frame f r \<Longrightarrow> bs = f @ r \<and> length f = be_nat bs + kFrameSize
     \<and> view_frame f = Frame f [] \<and> 0 < be_nat bs"
  by (auto simp: view_frame_def be_nat_take split: if_splits)

lemma holds_frame_sizes:
  assumes "holds_frame f r c"
  shows "unat (frame_size c) + kFrameSize = length f" and "unat (bytes_recv c) = length f + length r"
    and "contents c = f @ r"
  using assms view_frame_Frame [of "contents c" f r] length_contents [of c]
  by (auto simp: holds_frame_def)

lemma consumed_facts:
  assumes h: "holds_frame f r c"
  shows "conn_wf (consumed c)" and "contents (consumed c) = r" and "header_read (consumed c)"
proof -
  note sz = holds_frame_sizes [OF h]
  from h have wf: "conn_wf c" by (simp add: holds_frame_def)
  have le: "length f + length r \<le> length (recv_buffer c)"
    using wf sz(2) by (simp add: conn_wf_def)
  have "(of_nat (length f) :: u32) \<le> bytes_recv c"
    using sz(2) conn_wf_small [OF wf] le
    by (simp add: word_le_nat_alt unsigned_of_nat take_bit_nat_eq_self)
  then have n: "unat (bytes_recv c - of_nat (length f)) = length r"
    using sz(2) conn_wf_small [OF wf] le
    by (simp add: unat_sub unsigned_of_nat take_bit_nat_eq_self)
  have r: "take (length r) (drop (length f) (recv_buffer c)) = r"
  proof -
    have "take (length f + length r) (recv_buffer c) = f @ r"
      using sz(2,3) by (simp add: contents_def)
    then have "drop (length f) (take (length f + length r) (recv_buffer c)) = r" by simp
    then show ?thesis by (simp add: drop_take)
  qed
  show "conn_wf (consumed c)"
    using wf le n sz by (simp add: conn_wf_def consumed_def Let_def)
  show "contents (consumed c) = r"
    using n sz r by (simp add: contents_def consumed_def Let_def)
  show "header_read (consumed c)"
    by (simp add: header_read_def consumed_def Let_def)
qed

lemma holds_frame_handle:
  assumes h: "holds_frame f r c"
  shows "handle_buffer E vt c = vt_frame vt (c\<lparr>input_buffer := f, output_buffer := []\<rparr>)"
proof -
  have wf: "conn_wf c" and st: "state c = kReadFrame" and v: "view_frame (contents c) = Frame f r"
    and fs: "frame_size c = of_nat (be_nat (contents c))"
    using h by (auto simp: holds_frame_def)
  have hd: "header_read c"
    using v fs by (auto simp: header_read_def view_frame_def split: if_splits)
  have "c\<lparr>frame_size := of_nat (be_nat (contents c)), state := kReadFrame, input_buffer := f,
      output_buffer := []\<rparr> = c\<lparr>input_buffer := f, output_buffer := []\<rparr>"
    by (rule conn.equality) (simp_all add: fs st)
  then show ?thesis by (simp add: handle_buffer_eq [OF wf hd] v)
qed

lemma complete_read_nothing:
  "conn_wf c \<Longrightarrow> complete_read E vt n [] c = handle_buffer E vt c"
  by (simp add: complete_read_def base_on_handle_read_def ec_success_def ec_is_error_def conn_wf_def
      store_bytes_def)

lemma on_handle_write_eq:
  assumes h: "holds_frame f r c"
  shows "base_on_handle_write E vt ec_success n c =
    (if r = [] then start_recv True c
     else if length r > length f then Undef
     else handle_buffer E vt (consumed c))"
  using holds_frame_sizes [OF h]
  by (auto simp: base_on_handle_write_def ec_success_def ec_is_error_def Let_def consumed_def)

lemma restart_facts:
  assumes wf: "conn_wf c"
  obtains c' where "start_recv True c = Ok (c', [ARead (strand c \<noteq> None) 0 (length (recv_buffer c'))])"
    and "conn_wf c'" and "contents c' = []" and "header_read c'" and "bytes_recv c' = 0"
    and "sock c' = sock c" and "strand c' = strand c" and "recv_buffer c' \<noteq> []"
proof
  let ?buf = "if length (recv_buffer c) > kMaxFrameSize then replicate kBufferSize 0 else recv_buffer c"
  let ?c = "c\<lparr>recv_buffer := ?buf, bytes_recv := 0, frame_size := 0, state := kReadFrameSize\<rparr>"
  show "start_recv True c = Ok (?c, [ARead (strand c \<noteq> None) 0 (length (recv_buffer ?c))])"
    using wf by (simp add: start_recv_def Let_def conn_wf_def)
  show "conn_wf ?c" using wf by (simp add: conn_wf_def size_consts)
  show "contents ?c = []" "header_read ?c" "bytes_recv ?c = 0" "sock ?c = sock c"
    "strand ?c = strand c" by (simp_all add: contents_def header_read_def)
  show "recv_buffer ?c \<noteq> []" using wf by (auto simp: conn_wf_def size_consts)
qed

section \<open>The stream the buffer belongs to\<close>

lemma view_frame_shorter: "view_frame bs = Frame f r \<Longrightarrow> length r < length bs"
  by (auto simp: view_frame_def kFrameSize_def split: if_splits)

function parse_all :: "u8 list \<Rightarrow> u8 list list \<times> u8 list" where
  "parse_all bs = (case view_frame bs of
       Frame f r \<Rightarrow> (let (fs, rest) = parse_all r in (f # fs, rest))
     | _ \<Rightarrow> ([], bs))"
  by pat_completeness auto
termination
  by (relation "measure length") (simp_all add: view_frame_shorter)

declare parse_all.simps [simp del]

lemma view_frame_append:
  "view_frame bs = Frame f r \<Longrightarrow> view_frame (bs @ xs) = Frame f (r @ xs)"
proof -
  assume v: "view_frame bs = Frame f r"
  then have "kFrameSize \<le> length bs" by (auto simp: view_frame_def split: if_splits)
  then have "be_nat (bs @ xs) = be_nat bs" by (simp add: be_nat_def kFrameSize_def)
  with v show ?thesis by (auto simp: view_frame_def split: if_splits)
qed

lemma parse_all_Frame:
  "view_frame bs = Frame f r \<Longrightarrow> parse_all bs = (f # fst (parse_all r), snd (parse_all r))"
  by (subst parse_all.simps) (simp add: split_beta Let_def)

lemma parse_all_frame:
  "view_frame f = Frame f [] \<Longrightarrow> parse_all (f @ bs) = (f # fst (parse_all bs), snd (parse_all bs))"
  using view_frame_append [of f f "[]" bs] parse_all_Frame [of "f @ bs" f bs] by simp

lemma parse_all_frames:
  "\<forall>f \<in> set fs. view_frame f = Frame f [] \<Longrightarrow>
     parse_all (concat fs @ bs) = (fs @ fst (parse_all bs), snd (parse_all bs))"
  by (induction fs) (simp_all add: parse_all_frame)

lemma parse_all_stuck: "(\<And>f r. view_frame bs \<noteq> Frame f r) \<Longrightarrow> parse_all bs = ([], bs)"
  by (subst parse_all.simps) (simp split: frame_view.splits)

lemma parse_all_NeedMore: "view_frame bs = NeedMore \<Longrightarrow> parse_all bs = ([], bs)"
  by (rule parse_all_stuck) simp

section \<open>The contract of the derived classes\<close>

text \<open>
  What the base class relies on: handling a frame leaves the receiving state alone unless it
  closes the connection, and closing drops the socket.
\<close>

definition same_rx :: "'a conn_scheme \<Rightarrow> 'a conn_scheme \<Rightarrow> bool" where
  "same_rx c c' \<longleftrightarrow> recv_buffer c' = recv_buffer c \<and> bytes_recv c' = bytes_recv c
     \<and> frame_size c' = frame_size c \<and> state c' = state c \<and> sock c' = sock c \<and> strand c' = strand c"

fun is_io :: "'x action \<Rightarrow> bool" where
  "is_io (AExt x) = False"
| "is_io _ = True"

text \<open>The operation a handler left under way.\<close>

definition next_io :: "'x action list \<Rightarrow> 'x action option" where
  "next_io as = List.find is_io as"

lemma next_io_simps [simp]:
  "next_io [] = None" "next_io (AExt x # as) = next_io as"
  "next_io (ARead s off len # as) = Some (ARead s off len)"
  "next_io (AWrite s bs # as) = Some (AWrite s bs)"
  by (simp_all add: next_io_def)

locale frame_consumer =
  fixes vt :: "('a conn_scheme, 'x) vtable"
  assumes frame_keeps: "vt_frame vt c = Ok (c', as) \<Longrightarrow>
      sock c' = None \<and> next_io as = None \<or> same_rx c c'"
    and close_drops: "vt_close vt ec c = Ok (c', as) \<Longrightarrow> sock c' = None \<and> next_io as = None"
begin

lemma handle_buffer_cases:
  assumes wf: "conn_wf c" and hd: "header_read c" and run: "handle_buffer E vt c = Ok (c', as)"
  obtains (waits) "view_frame (contents c) = NeedMore" "c' = grown c"
      "as = [ARead (strand c \<noteq> None) (unat (bytes_recv c)) (length (recv_buffer (grown c)) - unat (bytes_recv c))]"
    | (illegal) k where "view_frame (contents c) = Illegal k" "sock c' = None" "next_io as = None"
        "vt_close vt (make_proto E k) (c\<lparr>frame_size := of_nat (be_nat (contents c))\<rparr>) = Ok (c', as)"
    | (frame) f r where "view_frame (contents c) = Frame f r"
        "sock c' = None \<and> next_io as = None \<or> holds_frame f r c' \<and> contents c' = contents c"
        "vt_frame vt (c\<lparr>frame_size := of_nat (be_nat (contents c)), state := kReadFrame,
           input_buffer := f, output_buffer := []\<rparr>) = Ok (c', as)"
proof (cases "view_frame (contents c)")
  case NeedMore
  with run show ?thesis by (intro waits) (auto simp: handle_buffer_eq [OF wf hd])
next
  case (Illegal k)
  with run show ?thesis by (intro illegal) (auto simp: handle_buffer_eq [OF wf hd] dest: close_drops)
next
  case (Frame f r)
  let ?c = "c\<lparr>frame_size := of_nat (be_nat (contents c)), state := kReadFrame,
           input_buffer := f, output_buffer := []\<rparr>"
  from run Frame have call: "vt_frame vt ?c = Ok (c', as)" by (simp add: handle_buffer_eq [OF wf hd])
  have "holds_frame f r c' \<and> contents c' = contents c" if same: "same_rx ?c c'"
  proof -
    from same have "contents c' = contents c" by (simp add: same_rx_def contents_def)
    with same wf Frame show ?thesis by (auto simp: holds_frame_def same_rx_def conn_wf_def)
  qed
  with frame_keeps [OF call] Frame call show ?thesis by (intro frame) auto
qed

end

end
