(* ===== verification/IoServicePool.thy ===== *)
theory IoServicePool
  imports Prelude
begin

text \<open>
  src/async/io\_service\_pool.h and io\_service\_pool.cpp: a pool of \<open>io_service\<close> objects chosen
  in turn, and the thread-specific pointer to the current thread's one.  An \<open>io_service\<close> is
  its index in \<open>io_services_\<close> together with the two facts the pool controls: whether it has a
  \<open>work\<close> object (which keeps \<open>run\<close> from returning) and whether it has been stopped.
\<close>

record io_service =
  has_work :: bool
  stopped :: bool

record io_service_pool =
  io_services :: "io_service list"
  next_io_service :: nat

text \<open>Constructor: a size of 0 becomes 1.\<close>

definition io_service_pool_init :: "nat \<Rightarrow> io_service_pool" where
  "io_service_pool_init pool_size =
     (let n = (if pool_size = 0 then 1 else pool_size)
      in \<lparr>io_services = replicate n \<lparr>has_work = False, stopped = False\<rparr>, next_io_service = 0\<rparr>)"

definition io_pool_size :: "io_service_pool \<Rightarrow> nat" where
  "io_pool_size p = length (io_services p)"

text \<open>
  \<open>run\<close> up to the point where the threads are created: every service gets a \<open>work\<close> object and
  is reset, the cursor is reset, and one thread per service is created, running
  \<open>run_io_service_tss\<close> or \<open>io_service::run\<close>.
\<close>

datatype thread_main = RunTss nat | RunPlain nat

definition io_pool_run :: "bool \<Rightarrow> io_service_pool \<Rightarrow> io_service_pool \<times> thread_main list" where
  "io_pool_run enable_tss p =
     (p\<lparr>io_services := map (\<lambda>s. s\<lparr>has_work := True, stopped := False\<rparr>) (io_services p),
        next_io_service := 0\<rparr>,
      map (if enable_tss then RunTss else RunPlain) [0..<length (io_services p)])"

definition io_pool_stop :: "io_service_pool \<Rightarrow> io_service_pool" where
  "io_pool_stop p =
     p\<lparr>io_services := map (\<lambda>s. s\<lparr>has_work := False, stopped := True\<rparr>) (io_services p),
       next_io_service := 0\<rparr>"

text \<open>\<open>get_io_service()\<close>: the service under the cursor; the cursor moves on and wraps.\<close>

definition get_io_service :: "io_service_pool \<Rightarrow> nat \<times> io_service_pool" where
  "get_io_service p =
     (let index = next_io_service p;
          nxt = next_io_service p + 1
      in (index, p\<lparr>next_io_service := (if nxt = length (io_services p) then 0 else nxt)\<rparr>))"

text \<open>\<open>get_io_service(index)\<close>.\<close>

definition get_io_service_at :: "nat \<Rightarrow> io_service_pool \<Rightarrow> nat" where
  "get_io_service_at index p = index mod length (io_services p)"

text \<open>
  The thread-specific pointer: a thread id to the service bound to it.  Reading it in a thread
  that never set it dereferences a null pointer.
\<close>

type_synonym tss = "nat \<Rightarrow> nat option"

definition set_tss_io_service :: "nat \<Rightarrow> nat \<Rightarrow> tss \<Rightarrow> tss" where
  "set_tss_io_service tid ios m = m(tid \<mapsto> ios)"

definition get_tss_io_service :: "nat \<Rightarrow> tss \<Rightarrow> nat outcome" where
  "get_tss_io_service tid m = (case m tid of None \<Rightarrow> Undef | Some ios \<Rightarrow> Ok ios)"

text \<open>What a pool thread does before its \<open>io_service::run\<close> takes over.\<close>

definition start_thread :: "nat \<Rightarrow> thread_main \<Rightarrow> tss \<Rightarrow> tss" where
  "start_thread tid t m = (case t of RunTss ios \<Rightarrow> set_tss_io_service tid ios m | RunPlain _ \<Rightarrow> m)"

definition start_threads :: "thread_main list \<Rightarrow> tss \<Rightarrow> tss" where
  "start_threads ts m = fold (\<lambda>(tid, t). start_thread tid t) (enumerate 0 ts) m"

section \<open>The cursor\<close>

definition io_pool_ok :: "io_service_pool \<Rightarrow> bool" where
  "io_pool_ok p \<longleftrightarrow> next_io_service p < length (io_services p)"

lemma io_pool_ok_init [simp]: "io_pool_ok (io_service_pool_init n)"
  by (simp add: io_pool_ok_def io_service_pool_init_def)

lemma io_pool_ok_get [simp]: "io_pool_ok p \<Longrightarrow> io_pool_ok (snd (get_io_service p))"
  by (auto simp: io_pool_ok_def get_io_service_def Let_def)

lemma io_pool_ok_run [simp]: "io_pool_ok p \<Longrightarrow> io_pool_ok (fst (io_pool_run b p))"
  by (auto simp: io_pool_ok_def io_pool_run_def)

lemma io_pool_ok_stop [simp]: "io_pool_ok p \<Longrightarrow> io_pool_ok (io_pool_stop p)"
  by (auto simp: io_pool_ok_def io_pool_stop_def)

interpretation ios: round_robin io_pool_size get_io_service next_io_service io_pool_ok
proof
  fix s :: io_service_pool
  assume ok: "io_pool_ok s"
  show "0 < io_pool_size s" using ok by (auto simp: io_pool_ok_def io_pool_size_def)
  show "fst (get_io_service s) = next_io_service s mod io_pool_size s"
    using ok by (simp add: io_pool_ok_def io_pool_size_def get_io_service_def Let_def)
  show "next_io_service (snd (get_io_service s)) mod io_pool_size s
      = Suc (next_io_service s) mod io_pool_size s"
    by (simp add: io_pool_size_def get_io_service_def Let_def)
  show "io_pool_size (snd (get_io_service s)) = io_pool_size s"
    by (simp add: io_pool_size_def get_io_service_def Let_def)
  show "io_pool_ok (snd (get_io_service s))" using ok by simp
qed

inductive io_pool_step :: "io_service_pool \<Rightarrow> io_service_pool \<Rightarrow> bool" where
  step_get: "io_pool_step p (snd (get_io_service p))"
| step_run: "io_pool_step p (fst (io_pool_run b p))"
| step_stop: "io_pool_step p (io_pool_stop p)"

interpretation ios_sys: step_system "\<lambda>p. \<exists>n. p = io_service_pool_init n" io_pool_step io_pool_ok
  by unfold_locales (auto elim: io_pool_step.cases)

section \<open>Thread-specific services\<close>

lemma start_threads_enumerate:
  "fold (\<lambda>(tid, t). start_thread tid t) (enumerate k (map RunTss ss)) m tid =
     (if k \<le> tid \<and> tid < k + length ss then Some (ss ! (tid - k)) else m tid)"
  by (induction ss arbitrary: k m)
    (auto simp: start_thread_def set_tss_io_service_def nth_Cons' Suc_diff_le)

text \<open>In every reachable pool the cursor selects a valid service, and as many consecutive
  calls of get_io_service as there are services hand out each service exactly once.\<close>

theorem io_pool_round_robin:
  assumes "reach (\<lambda>p. \<exists>n. p = io_service_pool_init n) io_pool_step p"
  shows "fst (get_io_service p) < io_pool_size p
    \<and> mset (fst (picks get_io_service (io_pool_size p) p)) = mset [0..<io_pool_size p]"
  using ios.pick_in_range ios.full_turn ios_sys.reachable_inv [OF assms] by blast

theorem io_pool_round_robin_witness:
  "fst (get_io_service (snd (get_io_service (io_service_pool_init 3)))) < 3
    \<and> mset (fst (picks get_io_service 3 (snd (get_io_service (io_service_pool_init 3))))) = mset [0..<3]"
proof -
  have r: "reach (\<lambda>p. \<exists>n. p = io_service_pool_init n) io_pool_step
      (snd (get_io_service (io_service_pool_init 3)))"
    by (rule reach_step, rule reach_init, rule exI, rule refl, rule step_get)
  have n: "io_pool_size (snd (get_io_service (io_service_pool_init 3))) = 3"
    by (simp add: io_pool_size_def get_io_service_def io_service_pool_init_def Let_def)
  show ?thesis using io_pool_round_robin [OF r] by (simp only: n)
qed

text \<open>A pool run with thread-specific storage starts one thread per service, and in thread
  number i get_tss_io_service returns service i; run without it, the same call in a thread that
  never set the pointer dereferences a null pointer.\<close>

theorem io_pool_run_tss:
  "(\<forall>tid. get_tss_io_service tid (start_threads (snd (io_pool_run True p)) Map.empty)
      = (if tid < io_pool_size p then Ok tid else Undef))
    \<and> (\<forall>tid. get_tss_io_service tid (start_threads (snd (io_pool_run False p)) Map.empty) = Undef)"
proof -
  have plain: "fold (\<lambda>(tid, t). start_thread tid t) (enumerate k (map RunPlain ss)) m = m" for k ss m
    by (induction ss arbitrary: k m) (auto simp: start_thread_def)
  show ?thesis
    by (simp add: io_pool_run_def start_threads_def start_threads_enumerate get_tss_io_service_def
        io_pool_size_def plain)
qed

end
