(* ===== verification/StdContainers.thy ===== *)
theory StdContainers
  imports Prelude
begin

text \<open>
  The part of the C++ standard library's ordered containers that the source uses:
  \<open>std::set\<close> and \<open>std::map\<close> as lists in the order of their keys, which is the order their
  iterators run in.  A set element carries its key (\<open>key x\<close>), two elements with the same key
  are equivalent for the comparator, and \<open>insert\<close> leaves an equivalent element in place.
\<close>

named_theorems std_simps \<open>laws of the ordered containers\<close>

section \<open>std::set\<close>

fun set_insert :: "('a \<Rightarrow> 'k::linorder) \<Rightarrow> 'a \<Rightarrow> 'a list \<Rightarrow> 'a list" where
  "set_insert key x [] = [x]"
| "set_insert key x (y # ys) =
     (if key x < key y then x # y # ys
      else if key x = key y then y # ys
      else y # set_insert key x ys)"

fun set_find :: "('a \<Rightarrow> 'k) \<Rightarrow> 'k \<Rightarrow> 'a list \<Rightarrow> 'a option" where
  "set_find key k [] = None"
| "set_find key k (y # ys) = (if key y = k then Some y else set_find key k ys)"

fun set_erase :: "('a \<Rightarrow> 'k) \<Rightarrow> 'k \<Rightarrow> 'a list \<Rightarrow> 'a list" where
  "set_erase key k [] = []"
| "set_erase key k (y # ys) = (if key y = k then ys else y # set_erase key k ys)"

definition set_ok :: "('a \<Rightarrow> 'k::linorder) \<Rightarrow> 'a list \<Rightarrow> bool" where
  "set_ok key xs \<longleftrightarrow> sorted_wrt (<) (map key xs)"

lemma set_ok_Nil [simp]: "set_ok key []"
  by (simp add: set_ok_def)

lemma set_ok_Cons: "set_ok key (x # xs) \<longleftrightarrow> (\<forall>y \<in> set xs. key x < key y) \<and> set_ok key xs"
  by (auto simp: set_ok_def)

lemma set_ok_distinct: "set_ok key xs \<Longrightarrow> distinct (map key xs)"
  by (simp add: set_ok_def strict_sorted_iff)

lemma set_set_insert_keys [std_simps]:
  "key ` set (set_insert key x xs) = insert (key x) (key ` set xs)"
  by (induction xs) auto

lemma set_insert_subset: "set (set_insert key x xs) \<subseteq> insert x (set xs)"
  by (induction xs) auto

lemma set_ok_insert [std_simps]: "set_ok key xs \<Longrightarrow> set_ok key (set_insert key x xs)"
proof (induction xs)
  case Nil
  then show ?case by (simp add: set_ok_def)
next
  case (Cons y ys)
  have "\<forall>z \<in> set (set_insert key x ys). key z \<in> insert (key x) (key ` set ys)"
    using set_set_insert_keys [of key x ys] by blast
  with Cons show ?case by (auto simp: set_ok_Cons)
qed

lemma set_erase_subset: "set (set_erase key k xs) \<subseteq> set xs"
  by (induction xs) auto

lemma set_ok_erase [std_simps]: "set_ok key xs \<Longrightarrow> set_ok key (set_erase key k xs)"
  using set_erase_subset [of key k] by (induction xs) (auto simp: set_ok_Cons)

lemma set_set_erase [std_simps]:
  "set_ok key xs \<Longrightarrow> set (set_erase key k xs) = {x \<in> set xs. key x \<noteq> k}"
  by (induction xs) (auto simp: set_ok_Cons)

lemma set_find_None [std_simps]: "set_find key k xs = None \<longleftrightarrow> k \<notin> key ` set xs"
  by (induction xs) auto

lemma set_find_Some: "set_find key k xs = Some x \<Longrightarrow> x \<in> set xs \<and> key x = k"
  by (induction xs) (auto split: if_splits)

lemma set_find_mem: "set_ok key xs \<Longrightarrow> x \<in> set xs \<Longrightarrow> set_find key (key x) xs = Some x"
  by (induction xs) (auto simp: set_ok_Cons)

lemma set_set_insert:
  "set_ok key xs \<Longrightarrow> set (set_insert key x xs) =
     (if key x \<in> key ` set xs then set xs else insert x (set xs))"
  by (induction xs) (auto simp: set_ok_Cons)

lemma length_set_insert:
  "set_ok key xs \<Longrightarrow> length (set_insert key x xs) = (if key x \<in> key ` set xs then 0 else 1) + length xs"
  by (induction xs) (auto simp: set_ok_Cons)

lemma length_set_erase:
  "set_ok key xs \<Longrightarrow> length (set_erase key k xs) = length xs - (if k \<in> key ` set xs then 1 else 0)"
proof (induction xs)
  case (Cons y ys)
  then show ?case
    by (cases ys) (auto simp: set_ok_Cons)
qed simp

text \<open>Sets of pointers are ordered by address: the key is the element.\<close>

abbreviation ptr_insert :: "nat \<Rightarrow> nat list \<Rightarrow> nat list" where
  "ptr_insert \<equiv> set_insert id"

abbreviation ptr_erase :: "nat \<Rightarrow> nat list \<Rightarrow> nat list" where
  "ptr_erase \<equiv> set_erase id"

abbreviation ptr_ok :: "nat list \<Rightarrow> bool" where
  "ptr_ok \<equiv> set_ok id"

lemma ptr_set_insert [std_simps]: "set (ptr_insert x xs) = insert x (set xs)"
  using set_set_insert_keys [of id x xs] by simp

lemma ptr_set_erase [std_simps]: "ptr_ok xs \<Longrightarrow> set (ptr_erase x xs) = set xs - {x}"
  by (auto simp: set_set_erase)

section \<open>std::map\<close>

fun map_put :: "'k::linorder \<Rightarrow> 'v \<Rightarrow> ('k \<times> 'v) list \<Rightarrow> ('k \<times> 'v) list" where
  "map_put k v [] = [(k, v)]"
| "map_put k v ((k', v') # m) =
     (if k < k' then (k, v) # (k', v') # m
      else if k = k' then (k, v) # m
      else (k', v') # map_put k v m)"

text \<open>\<open>operator[]\<close>: a missing key gets a value-initialised entry.\<close>

definition map_touch :: "'v \<Rightarrow> 'k::linorder \<Rightarrow> ('k \<times> 'v) list \<Rightarrow> ('k \<times> 'v) list" where
  "map_touch d k m = (case map_of m k of None \<Rightarrow> map_put k d m | Some _ \<Rightarrow> m)"

definition map_at :: "'v \<Rightarrow> 'k \<Rightarrow> ('k \<times> 'v) list \<Rightarrow> 'v" where
  "map_at d k m = (case map_of m k of None \<Rightarrow> d | Some v \<Rightarrow> v)"

definition map_ok_std :: "('k::linorder \<times> 'v) list \<Rightarrow> bool" where
  "map_ok_std m \<longleftrightarrow> set_ok fst m"

lemma map_ok_std_Nil [simp]: "map_ok_std []"
  by (simp add: map_ok_std_def)

lemma map_of_map_put [std_simps]: "map_ok_std m \<Longrightarrow> map_of (map_put k v m) = (map_of m)(k \<mapsto> v)"
  unfolding map_ok_std_def
proof (induction m)
  case (Cons p m)
  obtain k' v' where p: "p = (k', v')" by (cases p)
  have less: "map_of m x = None" if "x \<le> k'" for x
    using Cons.prems that by (force simp: p set_ok_Cons map_of_eq_None_iff)
  from Cons show ?case
    by (auto simp: p set_ok_Cons fun_upd_twist)
qed simp

lemma keys_map_put [std_simps]: "fst ` set (map_put k v m) = insert k (fst ` set m)"
  by (induction k v m rule: map_put.induct) auto

lemma map_ok_put [std_simps]: "map_ok_std m \<Longrightarrow> map_ok_std (map_put k v m)"
  unfolding map_ok_std_def
proof (induction m)
  case Nil
  then show ?case by (simp add: set_ok_def)
next
  case (Cons p m)
  have "\<forall>z \<in> set (map_put k v m). fst z \<in> insert k (fst ` set m)"
    using keys_map_put [of k v m] by blast
  with Cons show ?case by (cases p) (fastforce simp: set_ok_Cons)
qed

lemma map_ok_touch [std_simps]: "map_ok_std m \<Longrightarrow> map_ok_std (map_touch d k m)"
  by (simp add: map_touch_def std_simps split: option.splits)

lemma map_of_map_touch [std_simps]:
  "map_ok_std m \<Longrightarrow> map_of (map_touch d k m) = (map_of m)(k \<mapsto> map_at d k m)"
  by (auto simp: map_touch_def map_at_def std_simps fun_upd_idem split: option.splits)

lemma map_at_put [std_simps]:
  "map_ok_std m \<Longrightarrow> map_at d k' (map_put k v m) = (if k' = k then v else map_at d k' m)"
  by (simp add: map_at_def std_simps)

lemma map_at_touch [std_simps]: "map_ok_std m \<Longrightarrow> map_at d k' (map_touch d k m) = map_at d k' m"
  by (simp add: map_at_def std_simps)

lemma map_ok_distinct: "map_ok_std m \<Longrightarrow> distinct (map fst m)"
  by (simp add: map_ok_std_def set_ok_distinct)

lemma map_of_mem_iff: "map_ok_std m \<Longrightarrow> map_of m k = Some v \<longleftrightarrow> (k, v) \<in> set m"
  by (simp add: map_ok_distinct map_of_eq_Some_iff)

lemma map_ok_same_keys: "map fst m = map fst m' \<Longrightarrow> map_ok_std m \<longleftrightarrow> map_ok_std m'"
  by (simp add: map_ok_std_def set_ok_def)

lemma map_of_erase: "map_ok_std m \<Longrightarrow> map_of (set_erase fst k m) = (map_of m)(k := None)"
  unfolding map_ok_std_def
proof (induction m)
  case (Cons p m)
  have "map_of m (fst p) = None" using Cons.prems by (auto simp: set_ok_Cons map_of_eq_None_iff)
  with Cons show ?case by (cases p) (auto simp: set_ok_Cons fun_eq_iff)
qed simp

section \<open>The containers as an interface\<close>

text \<open>
  What the clients of an ordered set use: membership of keys after \<open>insert\<close>, \<open>erase\<close> and
  \<open>find\<close>.  Interpreted on the list model above.
\<close>

locale ordered_set =
  fixes key :: "'a \<Rightarrow> 'k::linorder"
    and ins :: "'a \<Rightarrow> 's \<Rightarrow> 's" and del :: "'k \<Rightarrow> 's \<Rightarrow> 's"
    and find :: "'k \<Rightarrow> 's \<Rightarrow> 'a option" and elems :: "'s \<Rightarrow> 'a set" and wf :: "'s \<Rightarrow> bool"
  assumes wf_ins: "wf s \<Longrightarrow> wf (ins x s)"
    and wf_del: "wf s \<Longrightarrow> wf (del k s)"
    and keys_ins: "wf s \<Longrightarrow> key ` elems (ins x s) = insert (key x) (key ` elems s)"
    and elems_del: "wf s \<Longrightarrow> elems (del k s) = {x \<in> elems s. key x \<noteq> k}"
    and find_Some_iff: "wf s \<Longrightarrow> find k s = Some x \<longleftrightarrow> x \<in> elems s \<and> key x = k"
begin

lemma find_ins: "wf s \<Longrightarrow> find (key x) (ins x s) \<noteq> None"
  using keys_ins [of s x] find_Some_iff [OF wf_ins, of s "key x" x] by (metis imageE insertI1 wf_ins find_Some_iff option.distinct(1))

lemma find_del: "wf s \<Longrightarrow> find k (del k s) = None"
  using find_Some_iff [OF wf_del] elems_del by (cases "find k (del k s)") auto

lemma keys_del: "wf s \<Longrightarrow> key ` elems (del k s) = key ` elems s - {k}"
  by (auto simp: elems_del)

lemma keys_fold_ins: "wf s \<Longrightarrow> key ` elems (fold ins xs s) = key ` set xs \<union> key ` elems s"
  by (induction xs arbitrary: s) (auto simp: keys_ins wf_ins)

lemma wf_fold_ins: "wf s \<Longrightarrow> wf (fold ins xs s)"
  by (induction xs arbitrary: s) (auto simp: wf_ins)

end

interpretation std_set: ordered_set key "set_insert key" "set_erase key" "set_find key" set "set_ok key"
  for key :: "'a \<Rightarrow> 'k::linorder"
  by unfold_locales
    (auto simp: std_simps dest: set_find_Some set_find_mem)

end
