(* ===== verification/AsyncServer.thy ===== *)
theory AsyncServer
  imports AsyncConnection IoServicePool StdContainers
begin

text \<open>
  src/async/async\_server.cpp: the server side of a connection (\<open>Connection\<close>), the set of live
  connections (\<open>ConnManager\<close>) and the accept loop (\<open>Impl\<close>).  Also the message check of
  src/async/async\_processor.cpp.  What the processor object answers is not part of the
  repository: it is the argument \<open>rpc_result\<close> of the handler.
\<close>

section \<open>AsyncProcessor::process\<close>

datatype tmessage_type = T_CALL | T_REPLY | T_EXCEPTION | T_ONEWAY

datatype proto_op = SkipStruct | ReadMessageEnd | ReadEnd
  | WriteMessageBegin string tmessage_type int | WriteAppException kTApplicationException
  | WriteMessageEnd | Flush | WriteEnd

datatype process_result = PCallback error_code bool | PDispatch string int

text \<open>
  After \<open>readMessageBegin\<close> gave a name, a type and a sequence number: the calls made on the two
  protocols and either an invocation of the callback or the dispatch to \<open>process_fn\<close>.
\<close>

definition async_processor_process ::
  "thrift_enums \<Rightarrow> string \<Rightarrow> tmessage_type \<Rightarrow> int \<Rightarrow> proto_op list \<times> process_result" where
  "async_processor_process E fname mtype seqid =
     (if mtype \<noteq> T_CALL \<and> mtype \<noteq> T_ONEWAY
      then ([SkipStruct, ReadMessageEnd, ReadEnd, WriteMessageBegin fname T_EXCEPTION seqid,
             WriteAppException kAppInvalidMessageType, WriteMessageEnd, Flush, WriteEnd],
            PCallback (make_app E kAppInvalidMessageType) False)
      else ([], PDispatch fname seqid))"

section \<open>Connection\<close>

record server_conn = conn +
  async_rpc :: bool
  has_manager :: bool

datatype server_effect = CallProcessor "u8 list" | Erased | Deleted

type_synonym shandler = "(server_conn, server_effect) handler"

text \<open>
  What happens while the processor runs: an exception, a reply in the output buffer (the
  synchronous processor returned), an asynchronous call under way, or the callback invoked before
  the processor returned.
\<close>

datatype rpc_result = Threw cpp_exception | Replied "u8 list" | Started
  | CalledBack error_code bool "u8 list"

definition server_conn_of :: "conn \<Rightarrow> bool \<Rightarrow> server_conn" where
  "server_conn_of c is_async = conn.extend c (server_conn.fields is_async False)"

text \<open>The destructor tells the manager, if there is one.\<close>

definition conn_destructor :: "server_conn \<Rightarrow> server_effect action list" where
  "conn_destructor c = (if has_manager c then [AExt Erased] else []) @ [AExt Deleted]"

definition server_on_close :: "error_code \<Rightarrow> shandler" where
  "server_on_close ec c = (let c' = base_on_close ec c in Ok (c', conn_destructor c'))"

definition server_async_process :: "error_code \<Rightarrow> bool \<Rightarrow> shandler" where
  "server_async_process ec is_oneway c =
     (if \<not> async_rpc c then Abort
      else if ec_is_error ec then server_on_close ec c
      else if \<not> is_oneway then start_write_output_buffer c
      else start_recv False c)"

text \<open>The catch clauses of \<open>on_handle_frame\<close>; \<open>bad_message\<close> is the value of the POSIX code.\<close>

definition exn_error_code :: "int \<Rightarrow> cpp_exception \<Rightarrow> error_code" where
  "exn_error_code bad_message e = (case make_exn e of
       Some ec \<Rightarrow> ec
     | None \<Rightarrow> \<lparr>ec_value = bad_message, ec_category = PosixCategory\<rparr>)"

definition with_actions :: "'x action list \<Rightarrow> ('c \<times> 'x action list) outcome \<Rightarrow> ('c \<times> 'x action list) outcome" where
  "with_actions as r = map_ok (\<lambda>(c, bs). (c, as @ bs)) r"

definition server_on_handle_frame :: "int \<Rightarrow> rpc_result \<Rightarrow> shandler" where
  "server_on_handle_frame bm r c =
     with_actions [AExt (CallProcessor (input_buffer c))]
       (case r of
          Threw e \<Rightarrow> server_on_close (exn_error_code bm e) c
        | Replied out \<Rightarrow>
            if async_rpc c then Abort else start_write_output_buffer (c\<lparr>output_buffer := out\<rparr>)
        | Started \<Rightarrow> if async_rpc c then Ok (c, []) else Abort
        | CalledBack ec is_oneway out \<Rightarrow> server_async_process ec is_oneway (c\<lparr>output_buffer := out\<rparr>))"

definition server_vt :: "int \<Rightarrow> rpc_result \<Rightarrow> (server_conn, server_effect) vtable" where
  "server_vt bm r = \<lparr>vt_close = server_on_close, vt_frame = server_on_handle_frame bm r\<rparr>"

text \<open>Later, the callback of an asynchronous call: the handler has filled the output buffer.\<close>

definition server_callback :: "error_code \<Rightarrow> bool \<Rightarrow> u8 list \<Rightarrow> shandler" where
  "server_callback ec is_oneway out c = server_async_process ec is_oneway (c\<lparr>output_buffer := out\<rparr>)"

section \<open>The synchronous server respects the base class's contract\<close>

lemma server_on_close_simps:
  "server_on_close ec c = Ok (c', as) \<longleftrightarrow> c' = base_on_close ec c \<and> as = conn_destructor c'"
  by (auto simp: server_on_close_def Let_def)

lemma sock_base_on_close [simp]: "sock (base_on_close ec c) = None"
  by (cases "sock c") (simp_all add: base_on_close_def)

lemma with_actions_Ok [outcome_simps]:
  "with_actions as r = Ok (c, cs) \<longleftrightarrow> (\<exists>bs. r = Ok (c, bs) \<and> cs = as @ bs)"
  by (auto simp: with_actions_def outcome_simps)

lemma next_io_destructor [simp]: "next_io (conn_destructor c) = None"
  by (simp add: conn_destructor_def)

interpretation sync_server: frame_consumer "server_vt bm (Replied out)"
  for bm :: int and out :: "u8 list"
  by unfold_locales
    (auto simp: server_vt_def server_on_handle_frame_def start_write_output_buffer_def
      outcome_simps same_rx_def server_on_close_simps split: if_splits)

interpretation failing_server: frame_consumer "server_vt bm (Threw e)"
  for bm :: int and e :: cpp_exception
  by unfold_locales
    (auto simp: server_vt_def server_on_handle_frame_def outcome_simps server_on_close_simps)

section \<open>A synchronous connection and its peer\<close>

text \<open>
  One connection driven by its completions.  \<open>sr_pending\<close> is the operation under way, \<open>sr_recvd\<close>
  every byte the peer has sent so far, \<open>sr_frames\<close> the inputs the processor has been given.
\<close>

record sync_run =
  sr_conn :: server_conn
  sr_pending :: "server_effect action option"
  sr_recvd :: "u8 list"
  sr_frames :: "u8 list list"

fun processed :: "server_effect action list \<Rightarrow> u8 list list" where
  "processed [] = []"
| "processed (AExt (CallProcessor f) # as) = f # processed as"
| "processed (a # as) = processed as"

definition sync_answer :: "rpc_result \<Rightarrow> bool" where
  "sync_answer r \<longleftrightarrow> (case r of Threw _ \<Rightarrow> True | Replied _ \<Rightarrow> True | _ \<Rightarrow> False)"

definition sync_init :: "sync_run \<Rightarrow> bool" where
  "sync_init s \<longleftrightarrow> (\<exists>ios sk c as. start_recv True (server_conn_of (conn_on_service ios sk) False) = Ok (c, as)
     \<and> s = \<lparr>sr_conn = c, sr_pending = next_io as, sr_recvd = [], sr_frames = []\<rparr>)"

inductive sync_step :: "thrift_enums \<Rightarrow> int \<Rightarrow> sync_run \<Rightarrow> sync_run \<Rightarrow> bool" for E bm where
  sync_read: "sr_pending s = Some (ARead st off len) \<Longrightarrow> bs \<noteq> [] \<Longrightarrow> length bs \<le> len \<Longrightarrow>
     sync_answer r \<Longrightarrow> complete_read E (server_vt bm r) off bs (sr_conn s) = Ok (c, as) \<Longrightarrow>
     sync_step E bm s \<lparr>sr_conn = c, sr_pending = next_io as, sr_recvd = sr_recvd s @ bs,
       sr_frames = sr_frames s @ processed as\<rparr>"
| sync_read_error: "sr_pending s = Some (ARead st off len) \<Longrightarrow> ec_is_error ec \<Longrightarrow>
     base_on_handle_read E (server_vt bm r) ec n (sr_conn s) = Ok (c, as) \<Longrightarrow>
     sync_step E bm s (s\<lparr>sr_conn := c, sr_pending := next_io as\<rparr>)"
| sync_write: "sr_pending s = Some (AWrite st out) \<Longrightarrow> sync_answer r \<Longrightarrow>
     base_on_handle_write E (server_vt bm r) ec_success (length out) (sr_conn s) = Ok (c, as) \<Longrightarrow>
     sync_step E bm s \<lparr>sr_conn = c, sr_pending = next_io as, sr_recvd = sr_recvd s,
       sr_frames = sr_frames s @ processed as\<rparr>"
| sync_write_error: "sr_pending s = Some (AWrite st out) \<Longrightarrow> ec_is_error ec \<Longrightarrow>
     base_on_handle_write E (server_vt bm r) ec n (sr_conn s) = Ok (c, as) \<Longrightarrow>
     sync_step E bm s (s\<lparr>sr_conn := c, sr_pending := next_io as\<rparr>)"

definition whole_frames :: "u8 list list \<Rightarrow> bool" where
  "whole_frames fs \<longleftrightarrow> (\<forall>f \<in> set fs. view_frame f = Frame f [])"

definition reading :: "server_conn \<Rightarrow> server_effect action option \<Rightarrow> bool" where
  "reading c p \<longleftrightarrow> conn_wf c \<and> header_read c \<and> view_frame (contents c) = NeedMore
     \<and> \<not> async_rpc c
     \<and> p = Some (ARead (strand c \<noteq> None) (unat (bytes_recv c)) (length (recv_buffer c) - unat (bytes_recv c)))
     \<and> unat (bytes_recv c) < length (recv_buffer c)"

definition writing :: "server_conn \<Rightarrow> server_effect action option \<Rightarrow> u8 list \<Rightarrow> u8 list \<Rightarrow> bool" where
  "writing c p f r \<longleftrightarrow> holds_frame f r c \<and> \<not> async_rpc c \<and> (\<exists>out. p = Some (AWrite (strand c \<noteq> None) out))"

text \<open>
  The invariant: the connection is closed, or waits for bytes with everything received being the
  processed frames followed by the buffer, or writes the reply to the last processed frame, which
  still is at the front of the buffer.
\<close>

definition sync_inv :: "sync_run \<Rightarrow> bool" where
  "sync_inv s \<longleftrightarrow> whole_frames (sr_frames s) \<and>
     ((sr_pending s = None \<and> (\<exists>rest. sr_recvd s = concat (sr_frames s) @ rest))
      \<or> (reading (sr_conn s) (sr_pending s) \<and> sr_recvd s = concat (sr_frames s) @ contents (sr_conn s))
      \<or> (\<exists>fs f r. writing (sr_conn s) (sr_pending s) f r \<and> sr_frames s = fs @ [f]
            \<and> sr_recvd s = concat (sr_frames s) @ r))"

lemma processed_append [simp]: "processed (as @ bs) = processed as @ processed bs"
  by (induction as rule: processed.induct) auto

lemma processed_destructor [simp]: "processed (conn_destructor c) = []"
  by (simp add: conn_destructor_def)

lemma grown_async [simp]: "async_rpc (grown c) = async_rpc c"
  by (simp add: grown_def)

lemma async_base_on_close [simp]: "async_rpc (base_on_close ec c) = async_rpc c"
  by (simp add: base_on_close_def)

lemma start_recv_async: "start_recv b c = Ok (c', as) \<Longrightarrow> async_rpc c' = async_rpc c"
  by (auto simp: start_recv_def Let_def split: if_splits)

lemma sync_handle_buffer:
  assumes wf: "conn_wf c" and hd: "header_read c" and na: "\<not> async_rpc c" and ans: "sync_answer r"
    and run: "handle_buffer E (server_vt bm r) c = Ok (c', as)"
  shows "(processed as = [] \<and> next_io as = None)
    \<or> (processed as = [] \<and> reading c' (next_io as) \<and> contents c' = contents c)
    \<or> (\<exists>f r'. view_frame (contents c) = Frame f r' \<and> processed as = [f]
        \<and> (next_io as = None \<or> writing c' (next_io as) f r'))"
proof -
  have consumer: "frame_consumer (server_vt bm r)"
    using ans by (cases r) (auto simp: sync_answer_def intro: sync_server.frame_consumer_axioms
        failing_server.frame_consumer_axioms)
  show ?thesis
  proof (rule frame_consumer.handle_buffer_cases [OF consumer wf hd run])
    assume nm: "view_frame (contents c) = NeedMore" and c': "c' = grown c"
      and as: "as = [ARead (strand c \<noteq> None) (unat (bytes_recv c))
        (length (recv_buffer (grown c)) - unat (bytes_recv c))]"
    show ?thesis
      using grown_waits [OF wf hd nm] na nm by (simp add: c' as reading_def)
  next
    fix k
    assume "vt_close (server_vt bm r) (make_proto E k) (c\<lparr>frame_size := of_nat (be_nat (contents c))\<rparr>)
      = Ok (c', as)" and "next_io as = None"
    then show ?thesis by (auto simp: server_vt_def server_on_close_simps)
  next
    fix f r'
    assume view: "view_frame (contents c) = Frame f r'"
      and keep: "sock c' = None \<and> next_io as = None \<or> holds_frame f r' c' \<and> contents c' = contents c"
      and call: "vt_frame (server_vt bm r) (c\<lparr>frame_size := of_nat (be_nat (contents c)),
        state := kReadFrame, input_buffer := f, output_buffer := []\<rparr>) = Ok (c', as)"
    from call keep na ans have "processed as = [f] \<and> (next_io as = None \<or> writing c' (next_io as) f r')"
      by (cases r)
        (auto simp: server_vt_def server_on_handle_frame_def outcome_simps server_on_close_simps
          sync_answer_def start_write_output_buffer_def writing_def split: if_splits)
    with view show ?thesis by blast
  qed
qed

lemma server_error_closes:
  assumes "ec_is_error ec"
  shows "base_on_handle_read E (server_vt bm r) ec n c = Ok (c', as) \<Longrightarrow> next_io as = None \<and> processed as = []"
    and "base_on_handle_write E (server_vt bm r) ec n c = Ok (c', as) \<Longrightarrow> next_io as = None \<and> processed as = []"
  using assms by (auto simp: base_on_handle_read_def base_on_handle_write_def server_vt_def
      server_on_close_simps)

lemma view_frame_of_frame: "view_frame bs = Frame f r \<Longrightarrow> view_frame f = Frame f []"
  using view_frame_Frame by blast

lemma view_frame_parts: "view_frame bs = Frame f r \<Longrightarrow> f @ r = bs"
  using view_frame_Frame by metis

lemma sync_inv_after:
  assumes fs: "whole_frames fs" and recvd: "recvd = concat fs @ contents c"
    and res: "(processed as = [] \<and> next_io as = None)
    \<or> (processed as = [] \<and> reading c' (next_io as) \<and> contents c' = contents c)
    \<or> (\<exists>f r'. view_frame (contents c) = Frame f r' \<and> processed as = [f]
        \<and> (next_io as = None \<or> writing c' (next_io as) f r'))"
  shows "sync_inv \<lparr>sr_conn = c', sr_pending = next_io as, sr_recvd = recvd,
       sr_frames = fs @ processed as\<rparr>"
  using res
proof (elim disjE exE conjE)
  fix f r'
  assume v: "view_frame (contents c) = Frame f r'" and p: "processed as = [f]"
  have wf: "whole_frames (fs @ [f])"
    using fs view_frame_of_frame [OF v] by (simp add: whole_frames_def)
  have eq: "recvd = concat (fs @ [f]) @ r'" using recvd view_frame_parts [OF v] by simp
  show ?thesis if "next_io as = None" using that wf eq p by (simp add: sync_inv_def)
  show ?thesis if "writing c' (next_io as) f r'"
    using that wf eq p unfolding sync_inv_def by fastforce
qed (use fs recvd in \<open>simp_all add: sync_inv_def\<close>)

lemma sync_step_read:
  assumes rd: "reading c (Some (ARead st off len))" and recvd: "recvd = concat fs @ contents c"
    and fs: "whole_frames fs" and bs: "length bs \<le> len" and ans: "sync_answer r"
    and run: "complete_read E (server_vt bm r) off bs c = Ok (c', as)"
  shows "sync_inv \<lparr>sr_conn = c', sr_pending = next_io as, sr_recvd = recvd @ bs,
       sr_frames = fs @ processed as\<rparr>"
proof -
  from rd have wf: "conn_wf c" and hd: "header_read c" and na: "\<not> async_rpc c"
    and off: "off = unat (bytes_recv c)" and len: "len = length (recv_buffer c) - unat (bytes_recv c)"
    by (auto simp: reading_def)
  have room: "unat (bytes_recv c) + length bs \<le> length (recv_buffer c)"
    using bs len wf by (auto simp: conn_wf_def)
  note rc = received_facts [OF wf hd room]
  have na': "\<not> async_rpc (received bs c)" using na by (simp add: received_def)
  have "handle_buffer E (server_vt bm r) (received bs c) = Ok (c', as)"
    using run unfolding off complete_read_eq [OF wf hd room] .
  with fs recvd show ?thesis
    by (intro sync_inv_after [where c = "received bs c"] sync_handle_buffer [OF rc(1,3) na' ans])
      (simp_all add: rc(2))
qed

lemma sync_step_write:
  assumes wr: "writing c (Some (AWrite st out)) f r0" and fs: "whole_frames fs"
    and recvd: "recvd = concat fs @ r0" and ans: "sync_answer r"
    and run: "base_on_handle_write E (server_vt bm r) ec_success n c = Ok (c', as)"
  shows "sync_inv \<lparr>sr_conn = c', sr_pending = next_io as, sr_recvd = recvd,
       sr_frames = fs @ processed as\<rparr>"
proof -
  from wr have h: "holds_frame f r0 c" and na: "\<not> async_rpc c" by (auto simp: writing_def)
  show ?thesis
  proof (cases "r0 = []")
    case True
    have wf: "conn_wf c" using h by (simp add: holds_frame_def)
    have run': "start_recv True c = Ok (c', as)" using run by (simp add: on_handle_write_eq [OF h] True)
    obtain c1 where c1: "start_recv True c = Ok (c1, [ARead (strand c \<noteq> None) 0 (length (recv_buffer c1)) :: server_effect action])"
      "conn_wf c1" "contents c1 = []" "header_read c1" "bytes_recv c1 = 0" "strand c1 = strand c"
      "recv_buffer c1 \<noteq> []"
      using restart_facts [OF wf] by metis
    have "async_rpc c1 = async_rpc c"
      using c1(1) by (rule start_recv_async)
    then have "reading c1 (Some (ARead (strand c \<noteq> None) 0 (length (recv_buffer c1))))"
      using c1 na by (simp add: reading_def view_frame_def kFrameSize_def)
    moreover have "c' = c1" and "as = [ARead (strand c \<noteq> None) 0 (length (recv_buffer c1))]"
      using run' unfolding c1(1) by auto
    ultimately show ?thesis using c1(3) True fs recvd by (simp add: sync_inv_def)
  next
    case False
    with run have run': "handle_buffer E (server_vt bm r) (consumed c) = Ok (c', as)"
      by (auto simp: on_handle_write_eq [OF h] split: if_splits)
    note cs = consumed_facts [OF h]
    have na': "\<not> async_rpc (consumed c)" using na by (simp add: consumed_def Let_def)
    from fs recvd show ?thesis
      by (intro sync_inv_after [where c = "consumed c"] sync_handle_buffer [OF cs(1,3) na' ans run'])
        (simp_all add: cs(2))
  qed
qed

lemma sync_inv_closed:
  assumes inv: "sync_inv s" and p: "sr_pending s \<noteq> None"
  shows "sync_inv (s\<lparr>sr_conn := c, sr_pending := None\<rparr>)"
proof -
  have "\<exists>rest. sr_recvd s = concat (sr_frames s) @ rest"
    using inv by (auto simp: sync_inv_def)
  with inv show ?thesis by (simp add: sync_inv_def)
qed

lemma sync_step_inv: "sync_step E bm s t \<Longrightarrow> sync_inv s \<Longrightarrow> sync_inv t"
proof (induction rule: sync_step.induct)
  case (sync_read s st off len bs r c as)
  then have "reading (sr_conn s) (Some (ARead st off len))"
    and "sr_recvd s = concat (sr_frames s) @ contents (sr_conn s)" and "whole_frames (sr_frames s)"
    by (auto simp: sync_inv_def writing_def)
  with sync_read show ?case by (intro sync_step_read)
next
  case (sync_write s st out r c as)
  then obtain f r0 where "writing (sr_conn s) (Some (AWrite st out)) f r0"
    and "sr_recvd s = concat (sr_frames s) @ r0" and "whole_frames (sr_frames s)"
    by (auto simp: sync_inv_def reading_def)
  from sync_step_write [OF this(1,3,2) sync_write(2,3)] show ?case by simp
next
  case (sync_read_error s st off len ec r n c as)
  then show ?case using sync_inv_closed [of s c] server_error_closes(1) by simp
next
  case (sync_write_error s st out ec r n c as)
  then show ?case using sync_inv_closed [of s c] server_error_closes(2) by simp
qed

lemma conn_on_service_ready:
  "conn_wf (conn_on_service ios sk)" "contents (conn_on_service ios sk) = []"
  "header_read (conn_on_service ios sk)"
  by (simp_all add: conn_on_service_def common_init_def raw_conn_def conn_wf_def contents_def
      header_read_def size_consts)

lemma server_conn_of_simps [simp]:
  "sock (server_conn_of c a) = sock c" "recv_buffer (server_conn_of c a) = recv_buffer c"
  "bytes_recv (server_conn_of c a) = bytes_recv c" "async_rpc (server_conn_of c a) = a"
  "strand (server_conn_of c a) = strand c" "state (server_conn_of c a) = state c"
  "frame_size (server_conn_of c a) = frame_size c" "has_manager (server_conn_of c a) = False"
  by (simp_all add: server_conn_of_def conn.extend_def server_conn.fields_def)

lemma sync_init_inv: "sync_init s \<Longrightarrow> sync_inv s"
proof -
  assume "sync_init s"
  then obtain ios sk c as where run: "start_recv True (server_conn_of (conn_on_service ios sk) False) = Ok (c, as)"
    and s: "s = \<lparr>sr_conn = c, sr_pending = next_io as, sr_recvd = [], sr_frames = []\<rparr>"
    by (auto simp: sync_init_def)
  let ?c = "server_conn_of (conn_on_service ios sk) False"
  have wf: "conn_wf ?c" using conn_on_service_ready(1) [of ios sk] by (simp add: conn_wf_def)
  obtain c1 where c1: "start_recv True ?c = Ok (c1, [ARead (strand ?c \<noteq> None) 0 (length (recv_buffer c1)) :: server_effect action])"
      "conn_wf c1" "contents c1 = []" "header_read c1" "bytes_recv c1 = 0" "strand c1 = strand ?c"
      "recv_buffer c1 \<noteq> []"
    using restart_facts [OF wf] by metis
  have "async_rpc c1 = async_rpc ?c"
    using c1(1) by (rule start_recv_async)
  then have "reading c1 (Some (ARead (strand ?c \<noteq> None) 0 (length (recv_buffer c1))))"
    using c1 by (simp add: reading_def view_frame_def kFrameSize_def)
  moreover have "c = c1" and "as = [ARead (strand ?c \<noteq> None) 0 (length (recv_buffer c1))]"
    using run unfolding c1(1) by auto
  ultimately show ?thesis using c1(3) by (simp add: s sync_inv_def whole_frames_def)
qed

interpretation sync_sys: step_system sync_init "sync_step E bm" sync_inv for E bm
  by unfold_locales (auto intro: sync_init_inv sync_step_inv)

section \<open>Framing properties\<close>

lemma sync_inv_parse:
  assumes inv: "sync_inv s"
  shows "\<exists>k. sr_frames s = take k (fst (parse_all (sr_recvd s)))"
    and "sr_pending s = Some (ARead st off len) \<Longrightarrow>
      parse_all (sr_recvd s) = (sr_frames s, contents (sr_conn s)) \<and> 0 < len"
proof -
  from inv have fs: "\<forall>f \<in> set (sr_frames s). view_frame f = Frame f []"
    by (simp add: sync_inv_def whole_frames_def)
  from inv obtain rest where recvd: "sr_recvd s = concat (sr_frames s) @ rest"
    by (auto simp: sync_inv_def)
  have "sr_frames s = take (length (sr_frames s)) (fst (parse_all (sr_recvd s)))"
    by (simp add: recvd parse_all_frames [OF fs])
  then show "\<exists>k. sr_frames s = take k (fst (parse_all (sr_recvd s)))" by blast
  assume "sr_pending s = Some (ARead st off len)"
  with inv have "reading (sr_conn s) (Some (ARead st off len))"
    and r: "sr_recvd s = concat (sr_frames s) @ contents (sr_conn s)"
    by (auto simp: sync_inv_def writing_def)
  then have "view_frame (contents (sr_conn s)) = NeedMore" and "0 < len" by (auto simp: reading_def)
  then show "parse_all (sr_recvd s) = (sr_frames s, contents (sr_conn s)) \<and> 0 < len"
    using parse_all_frames [OF fs] by (simp add: r parse_all_NeedMore)
qed

text \<open>C20: However the peer's bytes are cut into reads, the frames a synchronous server connection
  hands to the processor are, in order, the frames of the byte stream received so far; when it
  waits for bytes it has handed out all of them, the buffer holds exactly the incomplete rest, and
  the read it has started has room for at least one byte.\<close>

theorem sync_server_frames:
  assumes "reach sync_init (sync_step E bm) s"
  shows "(\<exists>k. sr_frames s = take k (fst (parse_all (sr_recvd s))))
    \<and> (\<forall>st off len. sr_pending s = Some (ARead st off len) \<longrightarrow>
         parse_all (sr_recvd s) = (sr_frames s, contents (sr_conn s)) \<and> 0 < len)"
  using sync_inv_parse [OF sync_sys.reachable_inv [OF assms]] by blast

text \<open>A run in which the peer sends one five-byte frame in two reads.\<close>

lemma sync_first_read:
  obtains c where "start_recv True (server_conn_of (conn_on_service 0 7) False)
      = Ok (c, [ARead False 0 4096])"
    and "conn_wf c" and "header_read c" and "contents c = []" and "bytes_recv c = 0"
    and "\<not> async_rpc c" and "sock c = Some 7" and "strand c = None" and "length (recv_buffer c) = 4096"
proof -
  let ?c = "server_conn_of (conn_on_service 0 7) False"
  show ?thesis
    by (rule that [of "?c\<lparr>bytes_recv := 0, frame_size := 0, state := kReadFrameSize\<rparr>"])
      (simp_all add: start_recv_def conn_on_service_def common_init_def raw_conn_def conn_wf_def
        contents_def header_read_def size_consts Let_def server_conn_of_def conn.extend_def
        server_conn.fields_def vec_resize_def)
qed

lemma sync_one_frame:
  "\<exists>s. reach sync_init (sync_step sample_enums 74) s \<and> sr_recvd s = [0, 0, 0, 1, 65]
    \<and> sr_frames s = [[0, 0, 0, 1, 65]] \<and> sr_pending s = Some (AWrite False [9])"
proof -
  obtain c where c: "start_recv True (server_conn_of (conn_on_service 0 7) False)
      = Ok (c, [ARead False 0 4096 :: server_effect action])"
    and wf: "conn_wf c" and hd: "header_read c" and cc: "contents c = []" and b: "bytes_recv c = 0"
    and na: "\<not> async_rpc c" and sk: "sock c = Some 7" and st: "strand c = None"
    and len: "length (recv_buffer c) = 4096"
    by (rule sync_first_read)
  let ?s = "\<lparr>sr_conn = c, sr_pending = Some (ARead False 0 4096), sr_recvd = [], sr_frames = []\<rparr>"
  have init: "reach sync_init (sync_step sample_enums 74) ?s"
    by (rule reach_init) (use c in \<open>force simp: sync_init_def\<close>)
  let ?bs = "[0, 0, 0, 1, 65] :: u8 list"
  have room: "unat (bytes_recv c) + length ?bs \<le> length (recv_buffer c)" by (simp add: b len)
  have view: "view_frame ?bs = Frame ?bs []" by (simp add: view_frame_def be_nat_def size_consts)
  note rc = received_facts [OF wf hd room]
  have keep: "sock (received ?bs c) = Some 7" "strand (received ?bs c) = None"
    "\<not> async_rpc (received ?bs c)" by (simp_all add: received_def na sk st)
  have "\<exists>c'. handle_buffer sample_enums (server_vt 74 (Replied [9])) (received ?bs c)
      = Ok (c', [AExt (CallProcessor ?bs), AWrite False [9]])"
    by (simp add: handle_buffer_eq [OF rc(1,3)] rc(2) cc view server_vt_def
        server_on_handle_frame_def start_write_output_buffer_def with_actions_def keep)
  then obtain c' where run: "complete_read sample_enums (server_vt 74 (Replied [9])) 0 ?bs c
      = Ok (c', [AExt (CallProcessor ?bs), AWrite False [9]])"
    using complete_read_eq [OF wf hd room, of sample_enums "server_vt 74 (Replied [9])"] by (auto simp: b)
  have "sync_step sample_enums 74 ?s \<lparr>sr_conn = c', sr_pending = Some (AWrite False [9]),
      sr_recvd = ?bs, sr_frames = [?bs]\<rparr>"
    using sync_read [of ?s False 0 4096 ?bs "Replied [9]" sample_enums 74 c'] run
    by (simp add: sync_answer_def)
  then show ?thesis using reach_step [OF init] by fastforce
qed

theorem sync_server_frames_witness:
  "\<exists>s k. reach sync_init (sync_step sample_enums 74) s \<and> sr_recvd s = [0, 0, 0, 1, 65]
    \<and> sr_frames s = [[0, 0, 0, 1, 65]] \<and> sr_frames s = take k (fst (parse_all (sr_recvd s)))"
  using sync_one_frame sync_server_frames [of sample_enums 74] by metis

lemma sync_handle_buffer_total:
  assumes wf: "conn_wf c" and hd: "header_read c" and na: "\<not> async_rpc c" and ans: "sync_answer r"
  shows "\<exists>c' as. handle_buffer E (server_vt bm r) c = Ok (c', as)"
proof (cases "view_frame (contents c)")
  case (Frame f r')
  have "sock c \<noteq> None" using wf by (simp add: conn_wf_def)
  with Frame na ans show ?thesis
    by (cases r) (auto simp: handle_buffer_eq [OF wf hd] server_vt_def server_on_handle_frame_def
        sync_answer_def start_write_output_buffer_def server_on_close_def with_actions_def Let_def)
qed (simp_all add: handle_buffer_eq [OF wf hd] server_vt_def server_on_close_def Let_def)

text \<open>A reachable synchronous connection never fails an assertion: the handler of any
  completed read of at most the requested length returns, and the handler of a completed write
  returns, unless the bytes already buffered behind the frame are more than the frame itself:
  then the memcpy of on_handle_write runs on overlapping regions.\<close>

theorem sync_server_progress:
  assumes "reach sync_init (sync_step E bm) s" and ans: "sync_answer r"
  shows "(\<forall>st off len bs. sr_pending s = Some (ARead st off len) \<and> length bs \<le> len \<longrightarrow>
           (\<exists>c as. complete_read E (server_vt bm r) off bs (sr_conn s) = Ok (c, as)))
    \<and> (\<forall>st out n. sr_pending s = Some (AWrite st out) \<longrightarrow>
         (\<exists>f rest. contents (sr_conn s) = f @ rest \<and> last (sr_frames s) = f
           \<and> (if length rest \<le> length f
              then \<exists>c as. base_on_handle_write E (server_vt bm r) ec_success n (sr_conn s) = Ok (c, as)
              else base_on_handle_write E (server_vt bm r) ec_success n (sr_conn s) = Undef)))"
proof (intro conjI allI impI; (elim conjE)?)
  have inv: "sync_inv s" by (rule sync_sys.reachable_inv [OF assms(1)])
  fix st off len and bs :: "u8 list"
  assume p: "sr_pending s = Some (ARead st off len)" and le: "length bs \<le> len"
  with inv have rd: "reading (sr_conn s) (Some (ARead st off len))"
    by (auto simp: sync_inv_def writing_def)
  then have wf: "conn_wf (sr_conn s)" and hd: "header_read (sr_conn s)" and na: "\<not> async_rpc (sr_conn s)"
    and off: "off = unat (bytes_recv (sr_conn s))"
    and room: "unat (bytes_recv (sr_conn s)) + length bs \<le> length (recv_buffer (sr_conn s))"
    using le by (auto simp: reading_def conn_wf_def)
  have na': "\<not> async_rpc (received bs (sr_conn s))" using na by (simp add: received_def)
  note rc = received_facts [OF wf hd room]
  show "\<exists>c as. complete_read E (server_vt bm r) off bs (sr_conn s) = Ok (c, as)"
    using sync_handle_buffer_total [OF rc(1,3) na' ans] by (simp add: off complete_read_eq [OF wf hd room])
next
  have inv: "sync_inv s" by (rule sync_sys.reachable_inv [OF assms(1)])
  fix st out n
  assume "sr_pending s = Some (AWrite st out)"
  with inv obtain fs f rest where h: "holds_frame f rest (sr_conn s)" and na: "\<not> async_rpc (sr_conn s)"
    and fs: "sr_frames s = fs @ [f]"
    by (auto simp: sync_inv_def reading_def writing_def)
  note cs = consumed_facts [OF h]
  have na': "\<not> async_rpc (consumed (sr_conn s))" using na by (simp add: consumed_def Let_def)
  have "\<exists>c as. start_recv True (sr_conn s) = Ok (c, as :: server_effect action list)"
    using h by (simp add: start_recv_def Let_def holds_frame_def conn_wf_def)
  then show "\<exists>f rest. contents (sr_conn s) = f @ rest \<and> last (sr_frames s) = f
           \<and> (if length rest \<le> length f
              then \<exists>c as. base_on_handle_write E (server_vt bm r) ec_success n (sr_conn s) = Ok (c, as)
              else base_on_handle_write E (server_vt bm r) ec_success n (sr_conn s) = Undef)"
    using sync_handle_buffer_total [OF cs(1,3) na' ans] holds_frame_sizes(3) [OF h] fs
    by (intro exI [of _ f] exI [of _ rest]) (auto simp: on_handle_write_eq [OF h])
qed

theorem sync_server_progress_witness:
  "\<exists>s f rest. reach sync_init (sync_step sample_enums 74) s \<and> sr_pending s = Some (AWrite False [9])
    \<and> contents (sr_conn s) = f @ rest \<and> f = [0, 0, 0, 1, 65]"
proof -
  obtain s where s: "reach sync_init (sync_step sample_enums 74) s"
    "sr_frames s = [[0, 0, 0, 1, 65]]" "sr_pending s = Some (AWrite False [9])"
    using sync_one_frame by blast
  have ans: "sync_answer (Replied [9])" by (simp add: sync_answer_def)
  from sync_server_progress [OF s(1) ans] s(2,3) show ?thesis
    by (metis last.simps s(1))
qed

section \<open>One-way calls on the asynchronous server\<close>

text \<open>After a one-way call the asynchronous connection does not consume the frame.  When the
  buffer held exactly the frame, the callback starts a read of no bytes, and the completion of
  that read hands the very same frame to the processor again, with the frame still in place; when
  more bytes had arrived, continuing the read reaches past the end of the receive buffer.\<close>

theorem oneway_repeats_frame:
  assumes h: "holds_frame f rest c" and async: "async_rpc c"
  shows "(rest = [] \<longrightarrow> (\<exists>c1. server_callback ec_success True out c = Ok (c1, [ARead (strand c \<noteq> None) (length f) 0])
           \<and> holds_frame f [] c1 \<and> async_rpc c1
           \<and> (\<forall>r. complete_read E (server_vt bm r) (length f) [] c1
                  = server_on_handle_frame bm r (c1\<lparr>input_buffer := f, output_buffer := []\<rparr>))))
    \<and> (rest \<noteq> [] \<longrightarrow> server_callback ec_success True out c = Undef)"
proof (intro conjI impI)
  note sz = holds_frame_sizes [OF h]
  have st: "state c = kReadFrame" and sk: "sock c \<noteq> None" using h by (auto simp: holds_frame_def conn_wf_def)
  assume "rest \<noteq> []"
  then show "server_callback ec_success True out c = Undef"
    using st sk sz async
    by (simp add: server_callback_def server_async_process_def start_recv_def ec_success_def
        ec_is_error_def Let_def)
next
  note sz = holds_frame_sizes [OF h]
  assume rest: "rest = []"
  have wf: "conn_wf c" and st: "state c = kReadFrame" and sk: "sock c \<noteq> None"
    and v: "view_frame (contents c) = Frame f []" and fsz: "frame_size c = of_nat (be_nat (contents c))"
    using h rest by (auto simp: holds_frame_def conn_wf_def)
  let ?c1 = "c\<lparr>output_buffer := out, recv_buffer := vec_resize (length f) (recv_buffer c)\<rparr>"
  have run: "server_callback ec_success True out c = Ok (?c1, [ARead (strand c \<noteq> None) (length f) 0])"
    using st sk sz async rest
    by (simp add: server_callback_def server_async_process_def start_recv_def ec_success_def
        ec_is_error_def Let_def)
  have len: "length f \<le> length (recv_buffer c)" using wf sz rest by (simp add: conn_wf_def)
  have c1: "contents ?c1 = contents c"
    using sz rest len by (simp add: contents_def vec_resize_def)
  have fl: "kFrameSize < length f" "length f < kMaxFrameSize + kFrameSize"
    using view_frame_Frame [OF v] v by (auto simp: view_frame_def split: if_splits)
  have h1: "holds_frame f [] ?c1"
    using h rest c1 sz fl by (simp add: holds_frame_def conn_wf_def)
  have wf1: "conn_wf ?c1" using h1 unfolding holds_frame_def by blast
  have "complete_read E (server_vt bm r) (length f) [] ?c1
      = server_on_handle_frame bm r (?c1\<lparr>input_buffer := f, output_buffer := []\<rparr>)" for r
    unfolding complete_read_nothing [OF wf1] holds_frame_handle [OF h1] by (simp add: server_vt_def)
  with run h1 async show "\<exists>c1. server_callback ec_success True out c
      = Ok (c1, [ARead (strand c \<noteq> None) (length f) 0])
      \<and> holds_frame f [] c1 \<and> async_rpc c1
      \<and> (\<forall>r. complete_read E (server_vt bm r) (length f) [] c1
             = server_on_handle_frame bm r (c1\<lparr>input_buffer := f, output_buffer := []\<rparr>))"
    by (intro exI [of _ ?c1]) simp
qed

definition oneway_conn :: server_conn where
  "oneway_conn = (server_conn_of (conn_on_service 0 7) True)\<lparr>recv_buffer := [0, 0, 0, 1, 65],
     bytes_recv := 5, frame_size := 1, state := kReadFrame\<rparr>"

lemma oneway_conn_holds: "holds_frame [0, 0, 0, 1, 65] [] oneway_conn"
  by (simp add: oneway_conn_def holds_frame_def conn_wf_def contents_def view_frame_def be_nat_def
      size_consts conn_on_service_def common_init_def raw_conn_def)

theorem oneway_repeats_frame_witness:
  "\<exists>c1. server_callback ec_success True [] oneway_conn = Ok (c1, [ARead False 5 0])
    \<and> holds_frame [0, 0, 0, 1, 65] [] c1"
proof -
  have "async_rpc oneway_conn" and "strand oneway_conn = None"
    by (simp_all add: oneway_conn_def conn_on_service_def common_init_def raw_conn_def)
  with oneway_repeats_frame [OF oneway_conn_holds, of "[]" sample_enums 74] show ?thesis by auto
qed

text \<open>A message that is neither a call nor a one-way call is answered with an exception in the
  output buffer, but the callback carries an error code, so the connection is closed and its
  object deleted without any write being started: the peer never receives the answer.\<close>

theorem invalid_message_reply_dropped:
  assumes "mtype \<noteq> T_CALL" and "mtype \<noteq> T_ONEWAY" and "async_rpc c"
    and "app_value E kAppInvalidMessageType \<noteq> 0"
  shows "\<exists>ops ec. async_processor_process E fname mtype seqid = (ops, PCallback ec False)
    \<and> WriteMessageBegin fname T_EXCEPTION seqid \<in> set ops
    \<and> (\<exists>c' as. server_on_handle_frame bm (CalledBack ec False out) c = Ok (c', as)
         \<and> sock c' = None \<and> AExt Deleted \<in> set as \<and> next_io as = None)"
  using assms
  by (auto simp: async_processor_process_def server_on_handle_frame_def server_async_process_def
      make_app_def ec_is_error_def server_on_close_def with_actions_def conn_destructor_def Let_def)

theorem invalid_message_reply_dropped_witness:
  "\<exists>ops ec. async_processor_process sample_enums ''getStatus'' T_REPLY 1 = (ops, PCallback ec False)
    \<and> (\<exists>c' as. server_on_handle_frame 74 (CalledBack ec False [1, 2]) oneway_conn = Ok (c', as)
         \<and> next_io as = None)"
proof -
  have "async_rpc oneway_conn" by (simp add: oneway_conn_def)
  from invalid_message_reply_dropped [OF _ _ this, of T_REPLY sample_enums "''getStatus''" 1 74 "[1, 2]"]
  show ?thesis by (auto simp: sample_enums_def)
qed

end
