(* ===== verification/AcceptLoop.thy ===== *)
theory AcceptLoop
  imports AsyncServer
begin

text \<open>
  src/async/async\_server.cpp: \<open>AsyncThriftServer::Impl\<close> and its \<open>ConnManager\<close>.  The server's
  heap holds the \<open>Connection\<close> objects that have been allocated and not deleted; the manager's
  \<open>std::set\<close> and \<open>new_conn_\<close> are the pointers that own them.  Deleting an object that is not
  there is undefined behaviour.
\<close>

record server =
  srv_async :: bool
  srv_pool :: io_service_pool
  acceptor_open :: bool
  accept_pending :: bool
  new_conn :: "nat option"
  heap :: "nat \<Rightarrow> server_conn option"
  mgr_set :: "nat list"
  next_addr :: nat

definition server_init :: "bool \<Rightarrow> io_service_pool \<Rightarrow> server" where
  "server_init is_async pool = \<lparr>srv_async = is_async, srv_pool = pool, acceptor_open = False,
     accept_pending = False, new_conn = None, heap = Map.empty, mgr_set = [], next_addr = 0\<rparr>"

text \<open>\<open>open_acceptor\<close>; \<open>bind_ok\<close> is whether \<open>bind\<close> succeeds, the result whether it returns normally.\<close>

definition open_acceptor :: "bool \<Rightarrow> server \<Rightarrow> bool \<times> server" where
  "open_acceptor bind_ok s =
     (let (i, p) = get_io_service (srv_pool s)
      in (bind_ok, s\<lparr>srv_pool := p, acceptor_open := True\<rparr>))"

text \<open>\<open>async_accept\<close>: a new connection object on the next service, and the accept operation.\<close>

definition async_accept :: "server \<Rightarrow> server" where
  "async_accept s =
     (let (i, p) = get_io_service (srv_pool s);
          a = next_addr s;
          c = server_conn_of (conn_on_service i a) (srv_async s)
      in s\<lparr>srv_pool := p, heap := (heap s)(a \<mapsto> c), new_conn := Some a, next_addr := Suc a,
           accept_pending := True\<rparr>)"

definition close_async_accept :: "server \<Rightarrow> server" where
  "close_async_accept s = s\<lparr>acceptor_open := False\<rparr>"

text \<open>\<open>ConnManager::del\<close> and the destructor of a connection.\<close>

definition mgr_del :: "nat \<Rightarrow> server \<Rightarrow> server" where
  "mgr_del a s = s\<lparr>mgr_set := ptr_erase a (mgr_set s)\<rparr>"

definition delete_conn :: "nat \<Rightarrow> server \<Rightarrow> server outcome" where
  "delete_conn a s = (case heap s a of
       None \<Rightarrow> Undef
     | Some c \<Rightarrow>
         let s' = (if has_manager c then mgr_del a s else s)
         in Ok (s'\<lparr>heap := (heap s')(a := None)\<rparr>))"

text \<open>\<open>ConnManager::start\<close>.\<close>

definition mgr_start :: "nat option \<Rightarrow> server \<Rightarrow> (server \<times> server_effect action list) outcome" where
  "mgr_start p s = (case p of
       None \<Rightarrow> Ok (s, [])
     | Some a \<Rightarrow>
         (case heap s a of
            None \<Rightarrow> Undef
          | Some c \<Rightarrow>
              bind_outcome (start_recv True (c\<lparr>has_manager := True\<rparr>)) (\<lambda>(c', as).
                Ok (s\<lparr>mgr_set := ptr_insert a (mgr_set s), heap := (heap s)(a \<mapsto> c')\<rparr>, as))))"

text \<open>\<open>ConnManager::del_all\<close>: the connections are cut off from the manager before they are deleted.\<close>

fun delete_all :: "nat list \<Rightarrow> server \<Rightarrow> server outcome" where
  "delete_all [] s = Ok s"
| "delete_all (a # as) s = (case heap s a of
       None \<Rightarrow> Undef
     | Some c \<Rightarrow>
         bind_outcome (delete_conn a (s\<lparr>heap := (heap s)(a \<mapsto> c\<lparr>has_manager := False\<rparr>)\<rparr>))
           (delete_all as))"

definition mgr_del_all :: "server \<Rightarrow> server outcome" where
  "mgr_del_all s = map_ok (\<lambda>s'. s'\<lparr>mgr_set := []\<rparr>) (delete_all (mgr_set s) s)"

definition handle_accept :: "error_code \<Rightarrow> server \<Rightarrow> (server \<times> server_effect action list) outcome" where
  "handle_accept ec s =
     (if \<not> ec_is_error ec then
        bind_outcome (mgr_start (new_conn s) s) (\<lambda>(s', as).
          Ok (async_accept (s'\<lparr>new_conn := None\<rparr>), as))
      else
        bind_outcome (case new_conn s of None \<Rightarrow> Ok s | Some a \<Rightarrow> delete_conn a s) (\<lambda>s'.
          Ok (s'\<lparr>new_conn := None, accept_pending := False\<rparr>, [])))"

text \<open>\<open>serve\<close> up to the threads of the pool, \<open>stop_impl\<close>, and the destructor of \<open>Impl\<close>.\<close>

definition serve :: "bool \<Rightarrow> server \<Rightarrow> server" where
  "serve bind_ok s =
     (let (ok, s1) = open_acceptor bind_ok s
      in if \<not> ok then s1
         else let s2 = async_accept s1 in s2\<lparr>srv_pool := fst (io_pool_run True (srv_pool s2))\<rparr>)"

definition stop_impl :: "server \<Rightarrow> server" where
  "stop_impl s = (let s' = close_async_accept s in s'\<lparr>srv_pool := io_pool_stop (srv_pool s')\<rparr>)"


text \<open>
  After a handler of connection \<open>a\<close> has run: an object that deleted itself leaves the heap, and
  the manager's set when its destructor told the manager.
\<close>

definition after_handler :: "nat \<Rightarrow> server_conn \<Rightarrow> server_effect action list \<Rightarrow> server \<Rightarrow> server" where
  "after_handler a c as s =
     (if AExt Deleted \<in> set as
      then (if AExt Erased \<in> set as then mgr_del a s else s)\<lparr>heap := (heap s)(a := None)\<rparr>
      else s\<lparr>heap := (heap s)(a \<mapsto> c)\<rparr>)"

section \<open>Steps\<close>

text \<open>The handlers a completion can run on a connection.\<close>

inductive conn_handler ::
  "thrift_enums \<Rightarrow> int \<Rightarrow> server_conn \<Rightarrow> server_conn \<Rightarrow> server_effect action list \<Rightarrow> bool" for E bm where
  h_read: "complete_read E (server_vt bm r) off bs c = Ok (c', as) \<Longrightarrow> conn_handler E bm c c' as"
| h_read_error: "base_on_handle_read E (server_vt bm r) ec n c = Ok (c', as) \<Longrightarrow> conn_handler E bm c c' as"
| h_write: "base_on_handle_write E (server_vt bm r) ec n c = Ok (c', as) \<Longrightarrow> conn_handler E bm c c' as"
| h_callback: "server_callback ec ow out c = Ok (c', as) \<Longrightarrow> conn_handler E bm c c' as"

inductive server_step :: "thrift_enums \<Rightarrow> int \<Rightarrow> server \<Rightarrow> server \<Rightarrow> bool" for E bm where
  ss_accept: "accept_pending s \<Longrightarrow> handle_accept ec s = Ok (t, as) \<Longrightarrow> server_step E bm s t"
| ss_conn: "a \<in> set (mgr_set s) \<Longrightarrow> heap s a = Some c \<Longrightarrow> conn_handler E bm c c' as \<Longrightarrow>
     server_step E bm s (after_handler a c' as s)"
| ss_stop: "server_step E bm s (stop_impl s)"
| ss_del_all: "mgr_del_all s = Ok t \<Longrightarrow> server_step E bm s t"

inductive_cases server_stepE: "server_step E bm s t"

definition server_start :: "server \<Rightarrow> bool" where
  "server_start s \<longleftrightarrow> (\<exists>b n ok. s = serve ok (server_init b (io_service_pool_init n)))"

section \<open>Ownership of the connection objects\<close>

definition owned :: "server \<Rightarrow> nat set" where
  "owned s = set (mgr_set s) \<union> set_option (new_conn s)"

definition server_inv :: "server \<Rightarrow> bool" where
  "server_inv s \<longleftrightarrow> ptr_ok (mgr_set s) \<and> dom (heap s) = owned s
     \<and> (\<forall>a \<in> set (mgr_set s). \<exists>c. heap s a = Some c \<and> has_manager c)
     \<and> (\<forall>a. new_conn s = Some a \<longrightarrow> a \<notin> set (mgr_set s) \<and> (\<exists>c. heap s a = Some c \<and> \<not> has_manager c))
     \<and> (\<forall>a \<in> dom (heap s). a < next_addr s)
     \<and> (accept_pending s \<longrightarrow> new_conn s \<noteq> None)"

lemma has_manager_base [simp]: "has_manager (base_on_close ec c) = has_manager c"
  by (simp add: base_on_close_def)

text \<open>What a handler may do to the object: delete itself and tell the manager, or keep it.\<close>

definition manager_shape :: "server_conn \<Rightarrow> (server_conn \<times> server_effect action list) outcome \<Rightarrow> bool" where
  "manager_shape c r \<longleftrightarrow> (\<forall>c' as. r = Ok (c', as) \<longrightarrow>
     (if AExt Deleted \<in> set as then has_manager c = (AExt Erased \<in> set as)
      else has_manager c' = has_manager c))"

lemma shape_start_recv: "has_manager c = has_manager d \<Longrightarrow> manager_shape d (start_recv b c)"
  by (auto simp: manager_shape_def start_recv_def Let_def split: if_splits)

lemma shape_close: "has_manager c = has_manager d \<Longrightarrow> manager_shape d (server_on_close ec c)"
  by (auto simp: manager_shape_def server_on_close_def conn_destructor_def Let_def)

lemma shape_write: "has_manager c = has_manager d \<Longrightarrow> manager_shape d (start_write_output_buffer c)"
  by (auto simp: manager_shape_def start_write_output_buffer_def split: if_splits)

lemma shape_async: "has_manager c = has_manager d \<Longrightarrow> manager_shape d (server_async_process ec ow c)"
  unfolding server_async_process_def
  by (auto intro: shape_close shape_write shape_start_recv simp: manager_shape_def [of d Abort])

lemma shape_with: "manager_shape d r \<Longrightarrow> manager_shape d (with_actions [AExt (CallProcessor f)] r)"
  by (fastforce simp: manager_shape_def outcome_simps)

lemma shape_frame: "has_manager c = has_manager d \<Longrightarrow> manager_shape d (server_on_handle_frame bm r c)"
  unfolding server_on_handle_frame_def
  by (rule shape_with)
    (auto intro: shape_close shape_write shape_async simp: manager_shape_def [of d "Ok (c, [])"]
      manager_shape_def [of d Abort] split: rpc_result.splits)

lemmas shapes = shape_start_recv shape_close shape_write shape_async shape_frame

lemma shape_handle_read_frame:
  "has_manager c = has_manager d \<Longrightarrow> manager_shape d (handle_read_frame (server_vt bm r) c)"
  by (auto simp: handle_read_frame_def server_vt_def intro!: shapes)

lemma shape_handle_buffer:
  "has_manager c = has_manager d \<Longrightarrow> manager_shape d (handle_buffer E (server_vt bm r) c)"
  by (auto simp: handle_buffer_def get_frame_size_def manager_shape_def [of d Abort]
      manager_shape_def [of d Undef] vtable.select_convs server_vt_def
      intro!: shapes shape_handle_read_frame [unfolded server_vt_def] split: kState.splits)

lemma shape_vt_close:
  "has_manager c = has_manager d \<Longrightarrow> manager_shape d (vt_close (server_vt bm r) ec c)"
  by (simp add: server_vt_def shape_close)

lemma shape_read:
  "has_manager c = has_manager d \<Longrightarrow> manager_shape d (base_on_handle_read E (server_vt bm r) ec n c)"
  unfolding base_on_handle_read_def Let_def assert_ok_def
  by (auto intro!: shapes shape_handle_buffer shape_vt_close simp: manager_shape_def [of d Abort])

lemma shape_write_done:
  "has_manager c = has_manager d \<Longrightarrow> manager_shape d (base_on_handle_write E (server_vt bm r) ec n c)"
  unfolding base_on_handle_write_def Let_def
  by (auto intro!: shapes shape_handle_buffer shape_vt_close simp: manager_shape_def [of d Abort]
      manager_shape_def [of d Undef])

lemma conn_handler_shape: "conn_handler E bm c c' as \<Longrightarrow> manager_shape c (Ok (c', as))"
proof (induction rule: conn_handler.induct)
  case (h_read r off bs c c' as)
  then show ?case
    using shape_read [of "c\<lparr>recv_buffer := store_bytes off bs (recv_buffer c)\<rparr>" c E bm r ec_success "length bs"]
    by (simp add: complete_read_def)
next
  case (h_read_error r ec n c c' as)
  then show ?case using shape_read [of c c E bm r ec n] by simp
next
  case (h_write r ec n c c' as)
  then show ?case using shape_write_done [of c c E bm r ec n] by simp
next
  case (h_callback ec ow out c c' as)
  then show ?case
    using shape_async [of "c\<lparr>output_buffer := out\<rparr>" c ec ow] by (simp add: server_callback_def)
qed

lemma async_accept_inv:
  assumes inv: "server_inv s" and n: "new_conn s = None"
  shows "server_inv (async_accept s)"
proof -
  have dom: "dom (heap s) = set (mgr_set s)" and fresh: "\<forall>a \<in> dom (heap s). a < next_addr s"
    using inv n by (auto simp: server_inv_def owned_def)
  have new: "next_addr s \<notin> set (mgr_set s)" using dom fresh by blast
  have mgr: "ptr_ok (mgr_set s)" "\<forall>a \<in> set (mgr_set s). \<exists>c. heap s a = Some c \<and> has_manager c"
    using inv by (simp_all add: server_inv_def)
  define c where "c = server_conn_of (conn_on_service (fst (get_io_service (srv_pool s))) (next_addr s)) (srv_async s)"
  then have c: "\<not> has_manager c" by simp
  have t: "mgr_set (async_accept s) = mgr_set s" "new_conn (async_accept s) = Some (next_addr s)"
    "heap (async_accept s) = (heap s)(next_addr s \<mapsto> c)" "next_addr (async_accept s) = Suc (next_addr s)"
    by (simp_all add: async_accept_def Let_def split_beta c_def)
  show ?thesis
    unfolding server_inv_def owned_def t
  proof (intro conjI)
    show "dom ((heap s)(next_addr s \<mapsto> c)) = set (mgr_set s) \<union> set_option (Some (next_addr s))"
      by (simp add: dom)
    show "\<forall>a \<in> set (mgr_set s). \<exists>d. ((heap s)(next_addr s \<mapsto> c)) a = Some d \<and> has_manager d"
      using mgr(2) new by auto
    show "\<forall>a \<in> dom ((heap s)(next_addr s \<mapsto> c)). a < Suc (next_addr s)"
      using fresh by (auto simp: less_Suc_eq)
  qed (use mgr new c in auto)
qed

lemma mgr_start_inv:
  assumes inv: "server_inv s" and run: "mgr_start (new_conn s) s = Ok (t, as)"
  shows "server_inv (t\<lparr>new_conn := None, accept_pending := False\<rparr>)"
    and "new_conn s \<noteq> None \<Longrightarrow> set (mgr_set t) = insert (the (new_conn s)) (set (mgr_set s))"
proof -
  show "set (mgr_set t) = insert (the (new_conn s)) (set (mgr_set s))" if "new_conn s \<noteq> None"
    using that run by (auto simp: mgr_start_def outcome_simps std_simps split: option.splits)
  show "server_inv (t\<lparr>new_conn := None, accept_pending := False\<rparr>)"
  proof (cases "new_conn s")
    case None
    with inv run show ?thesis by (auto simp: server_inv_def mgr_start_def owned_def)
  next
    case (Some a)
    with inv obtain c where c: "heap s a = Some c" by (auto simp: server_inv_def)
    from run Some c obtain c' where sr: "start_recv True (c\<lparr>has_manager := True\<rparr>) = Ok (c', as)"
      and t: "t = s\<lparr>mgr_set := ptr_insert a (mgr_set s), heap := (heap s)(a \<mapsto> c')\<rparr>"
      by (auto simp: mgr_start_def outcome_simps)
    have "has_manager c'"
      using sr by (auto simp: start_recv_def Let_def split: if_splits)
    with inv Some c show ?thesis
      by (auto simp: t server_inv_def owned_def std_simps)
  qed
qed

lemma delete_new_inv:
  assumes inv: "server_inv s" and n: "new_conn s = Some a" and run: "delete_conn a s = Ok t"
  shows "server_inv (t\<lparr>new_conn := None, accept_pending := False\<rparr>)"
    and "mgr_set t = mgr_set s" and "dom (heap t) = set (mgr_set s)" and "next_addr t = next_addr s"
proof -
  from inv n obtain c where c: "heap s a = Some c" "\<not> has_manager c" and a: "a \<notin> set (mgr_set s)"
    by (auto simp: server_inv_def)
  with run have t: "t = s\<lparr>heap := (heap s)(a := None)\<rparr>" by (simp add: delete_conn_def)
  show "mgr_set t = mgr_set s" "next_addr t = next_addr s" by (simp_all add: t)
  show dom: "dom (heap t) = set (mgr_set s)" using inv n a by (auto simp: t server_inv_def owned_def)
  show "server_inv (t\<lparr>new_conn := None, accept_pending := False\<rparr>)"
    using inv dom a by (auto simp: t server_inv_def owned_def)
qed

lemma handle_accept_inv:
  assumes inv: "server_inv s" and run: "handle_accept ec s = Ok (t, as)"
  shows "server_inv t"
proof (cases "ec_is_error ec")
  case False
  with run obtain s' where m: "mgr_start (new_conn s) s = Ok (s', as)"
    and t: "t = async_accept (s'\<lparr>new_conn := None\<rparr>)"
    by (auto simp: handle_accept_def outcome_simps)
  have "t = async_accept (s'\<lparr>new_conn := None, accept_pending := False\<rparr>)"
    by (simp add: t async_accept_def Let_def split_beta)
  with async_accept_inv [OF mgr_start_inv(1) [OF inv m]] show ?thesis by simp
next
  case True
  with run inv show ?thesis
    by (cases "new_conn s")
      (auto simp: handle_accept_def outcome_simps dest: delete_new_inv,
       auto simp: server_inv_def owned_def)
qed

lemma after_handler_inv:
  assumes inv: "server_inv s" and a: "a \<in> set (mgr_set s)" and c: "heap s a = Some c"
    and h: "manager_shape c (Ok (c', as))"
  shows "server_inv (after_handler a c' as s)"
proof -
  have m: "has_manager c" using inv a c by (force simp: server_inv_def)
  have n: "new_conn s \<noteq> Some a" using inv a by (auto simp: server_inv_def)
  show ?thesis
  proof (cases "AExt Deleted \<in> set as")
    case True
    with h m have "AExt Erased \<in> set as" by (auto simp: manager_shape_def)
    with True inv n show ?thesis
      by (auto simp: after_handler_def mgr_del_def server_inv_def owned_def std_simps)
  next
    case False
    with h m have "has_manager c'" by (auto simp: manager_shape_def)
    with False inv a n show ?thesis
      by (auto simp: after_handler_def server_inv_def owned_def)
  qed
qed

lemma delete_all_facts:
  assumes "distinct as" and "delete_all as s = Ok t"
  shows "t = s\<lparr>heap := (\<lambda>a. if a \<in> set as then None else heap s a)\<rparr>"
  using assms
proof (induction as arbitrary: s)
  case Nil
  then show ?case by simp
next
  case (Cons a as)
  then obtain c where c: "heap s a = Some c" by (auto split: option.splits)
  with Cons.prems have "delete_all as (s\<lparr>heap := (heap s)(a := None)\<rparr>) = Ok t"
    by (simp add: delete_conn_def)
  with Cons.IH Cons.prems(1) have "t = (s\<lparr>heap := (heap s)(a := None)\<rparr>)
      \<lparr>heap := (\<lambda>x. if x \<in> set as then None else heap (s\<lparr>heap := (heap s)(a := None)\<rparr>) x)\<rparr>"
    by simp
  moreover have "(\<lambda>x. if x \<in> set as then None else ((heap s)(a := None)) x)
      = (\<lambda>x. if x \<in> set (a # as) then None else heap s x)" by auto
  ultimately show ?case by (simp cong: if_cong)
qed


lemma mgr_del_all_inv:
  assumes inv: "server_inv s" and run: "mgr_del_all s = Ok t"
  shows "server_inv t"
proof -
  have d: "distinct (mgr_set s)" using inv set_ok_distinct [of id "mgr_set s"] by (simp add: server_inv_def)
  from run obtain u where u: "delete_all (mgr_set s) s = Ok u" and t: "t = u\<lparr>mgr_set := []\<rparr>"
    by (auto simp: mgr_del_all_def outcome_simps)
  from delete_all_facts [OF d u] inv show ?thesis
    by (auto simp: t server_inv_def owned_def split: if_splits)
qed

lemma serve_inv: "server_start s \<Longrightarrow> server_inv s"
proof -
  have "server_inv (server_init b p)" for b p
    by (simp add: server_init_def server_inv_def owned_def)
  then have o: "server_inv (snd (open_acceptor ok (server_init b p)))" for ok b p
    by (simp add: open_acceptor_def server_inv_def owned_def split_beta Let_def)
  have n: "new_conn (snd (open_acceptor ok (server_init b p))) = None" for ok b p
    by (simp add: open_acceptor_def server_init_def split_beta Let_def)
  have pool: "server_inv s \<Longrightarrow> server_inv (s\<lparr>srv_pool := q\<rparr>)" for s q
    by (simp add: server_inv_def owned_def)
  show "server_start s \<Longrightarrow> server_inv s"
    using o pool async_accept_inv [OF o n]
    by (auto simp: server_start_def serve_def Let_def split_beta)
qed

lemma server_step_inv: "server_inv s \<Longrightarrow> server_step E bm s t \<Longrightarrow> server_inv t"
proof (erule server_stepE)
  assume inv: "server_inv s"
  show "server_inv t" if "handle_accept ec s = Ok (t, as)" for ec as
    using inv that by (rule handle_accept_inv)
  show "server_inv t" if "t = after_handler a c' as s" "a \<in> set (mgr_set s)" "heap s a = Some c"
    "conn_handler E bm c c' as" for a c c' as
    using after_handler_inv [OF inv that(2,3) conn_handler_shape [OF that(4)]] that(1) by simp
  show "server_inv t" if "t = stop_impl s"
    using inv by (simp add: that stop_impl_def close_async_accept_def server_inv_def owned_def Let_def)
  show "server_inv t" if "mgr_del_all s = Ok t"
    using inv that by (rule mgr_del_all_inv)
qed

interpretation server_sys: step_system server_start "server_step E bm" server_inv for E bm
  by unfold_locales (auto intro: serve_inv server_step_inv)

section \<open>Properties\<close>


definition accepted_server :: server where
  "accepted_server = (case handle_accept ec_success (serve True (server_init False (io_service_pool_init 2))) of
      Ok (t, as) \<Rightarrow> t | _ \<Rightarrow> server_init False (io_service_pool_init 2))"

lemma accepted_server_facts:
  "\<exists>as. handle_accept ec_success (serve True (server_init False (io_service_pool_init 2))) = Ok (accepted_server, as)"
  "mgr_set accepted_server = [0]" "new_conn accepted_server = Some 1"
proof -
  have "\<exists>t as. handle_accept ec_success (serve True (server_init False (io_service_pool_init 2))) = Ok (t, as)
      \<and> mgr_set t = [0] \<and> new_conn t = Some 1"
    by (simp add: handle_accept_def ec_success_def ec_is_error_def serve_def open_acceptor_def
        server_init_def async_accept_def mgr_start_def start_recv_def conn_on_service_def
        common_init_def raw_conn_def Let_def split_beta)
  then show "\<exists>as. handle_accept ec_success (serve True (server_init False (io_service_pool_init 2))) = Ok (accepted_server, as)"
    and "mgr_set accepted_server = [0]" and "new_conn accepted_server = Some 1"
    by (auto simp: accepted_server_def)
qed

lemma accepted_server_reach: "reach server_start (server_step E bm) accepted_server"
proof -
  let ?s = "serve True (server_init False (io_service_pool_init 2))"
  have "reach server_start (server_step E bm) ?s"
    by (rule reach_init) (auto simp: server_start_def)
  moreover have "accept_pending ?s"
    by (simp add: serve_def open_acceptor_def async_accept_def Let_def split_beta)
  ultimately show ?thesis
    using accepted_server_facts(1) by (blast intro: reach_step ss_accept)
qed


text \<open>The accept loop never recovers from an error: once a completed accept carries an error
  code, whatever it is, no later step of the server accepts a connection or creates one.\<close>

theorem accept_error_is_final:
  assumes err: "ec_is_error ec" and run: "handle_accept ec s = Ok (t, as)"
    and steps: "(server_step E bm)\<^sup>*\<^sup>* t u"
  shows "\<not> accept_pending u \<and> dom (heap u) \<subseteq> dom (heap t) \<and> next_addr u = next_addr t"
  using steps
proof (induction rule: rtranclp_induct)
  case base
  then show ?case using err run by (auto simp: handle_accept_def outcome_simps)
next
  case (step u v)
  have del: "delete_all xs w = Ok w' \<Longrightarrow>
      accept_pending w' = accept_pending w \<and> dom (heap w') \<subseteq> dom (heap w) \<and> next_addr w' = next_addr w"
    for xs w w'
  proof (induction xs arbitrary: w)
    case (Cons a xs)
    then obtain c where c: "heap w a = Some c"
      and "delete_all xs (w\<lparr>heap := (heap w)(a := None)\<rparr>) = Ok w'"
      by (auto simp: delete_conn_def split: option.splits)
    note ih = Cons.IH [OF this(2)]
    have "accept_pending w' = accept_pending w" "next_addr w' = next_addr w" using ih by simp_all
    moreover have "dom (heap w') \<subseteq> dom (heap (w\<lparr>heap := (heap w)(a := None)\<rparr>))"
      using ih by blast
    moreover have "dom (heap (w\<lparr>heap := (heap w)(a := None)\<rparr>)) \<subseteq> dom (heap w)"
      by (auto split: if_splits)
    ultimately show ?case by blast
  qed simp
  have sub: "\<exists>z. heap t x = Some z" if "heap u x = Some y" for x y
    using step.IH that by (meson domD domI subsetD)
  have deld: "\<exists>y. heap u x = Some y" if "delete_all (mgr_set u) u = Ok w" "heap w x = Some y" for w x y
    using del [OF that(1)] that(2) by (meson domD domI subsetD)
  from step.hyps(2) step.IH show ?case
    by (elim server_stepE)
      (auto simp: after_handler_def mgr_del_def stop_impl_def close_async_accept_def Let_def
        mgr_del_all_def outcome_simps split: if_splits dest: sub deld, auto dest: del)
qed

theorem accept_error_is_final_witness:
  "\<exists>t. handle_accept \<lparr>ec_value = 24, ec_category = SystemCategory\<rparr> accepted_server = Ok (t, [])
    \<and> \<not> accept_pending (stop_impl t)"
proof -
  let ?ec = "\<lparr>ec_value = 24, ec_category = SystemCategory\<rparr>"
  have err: "ec_is_error ?ec" by (simp add: ec_is_error_def)
  have "server_inv accepted_server"
    by (rule server_sys.reachable_inv [OF accepted_server_reach])
  then have "1 \<in> dom (heap accepted_server)"
    by (simp add: server_inv_def owned_def accepted_server_facts(3))
  then obtain c where "heap accepted_server 1 = Some c" by auto
  then obtain t where run: "handle_accept ?ec accepted_server = Ok (t, [])"
    by (cases "has_manager c")
      (simp_all add: handle_accept_def err accepted_server_facts(3) delete_conn_def Let_def)
  have "(server_step sample_enums 74)\<^sup>*\<^sup>* t (stop_impl t)"
    by (rule r_into_rtranclp, rule ss_stop)
  from accept_error_is_final [OF err run this] run show ?thesis by blast
qed

end
