(* ===== verification/AsioPool.thy ===== *)
theory AsioPool
  imports StdContainers IoServicePool
begin

text \<open>
  src/async/asio\_pool.cpp: a pool of connected sockets per endpoint, with a background probe that
  moves the endpoints between five states.  The operating system and the asio sockets are an
  argument (\<open>asio_os\<close>) over a world \<open>'w\<close> that every call threads on.  Each region under \<open>mutex_\<close>
  is a definition of its own (a critical section); the public operations compose them in program
  order.  Sockets are numbers: a pooled \<open>SocketSP\<close> is never null.
\<close>

section \<open>Operating system\<close>

record ('ep, 'w) asio_os =
  os_socket :: "bool \<Rightarrow> 'w \<Rightarrow> nat option \<times> 'w"
  os_sndtimeo :: "nat \<Rightarrow> nat \<Rightarrow> 'w \<Rightarrow> 'w"
  os_connect :: "nat \<Rightarrow> 'ep \<Rightarrow> 'w \<Rightarrow> bool \<times> 'w"
  os_close :: "nat \<Rightarrow> 'w \<Rightarrow> 'w"
  os_recv_peek :: "nat \<Rightarrow> 'w \<Rightarrow> (int \<times> int) \<times> 'w"
  os_EAGAIN :: int
  os_EINTR :: int
  sp_new :: "nat \<Rightarrow> bool \<Rightarrow> nat \<Rightarrow> 'w \<Rightarrow> nat \<times> 'w"
  sp_is_open :: "nat \<Rightarrow> 'w \<Rightarrow> bool"
  sp_native :: "nat \<Rightarrow> 'w \<Rightarrow> nat"
  sp_close :: "nat \<Rightarrow> 'w \<Rightarrow> 'w"
  sp_release :: "nat \<Rightarrow> 'w \<Rightarrow> 'w"
  sp_remote :: "nat \<Rightarrow> 'w \<Rightarrow> 'ep option"
  ep_is_v4 :: "'ep \<Rightarrow> bool"

text \<open>\<open>socket_is_closed(int)\<close>: the result of \<open>recv\<close> and \<open>errno\<close>.\<close>

definition fd_is_closed :: "('ep, 'w) asio_os \<Rightarrow> nat \<Rightarrow> 'w \<Rightarrow> bool \<times> 'w" where
  "fd_is_closed os fd w =
     (let ((bytes, err), w') = os_recv_peek os fd w
      in (bytes = 0 \<or> (bytes = - 1 \<and> err \<noteq> os_EAGAIN os \<and> err \<noteq> os_EINTR os), w'))"

definition socket_is_closed :: "('ep, 'w) asio_os \<Rightarrow> nat \<Rightarrow> 'w \<Rightarrow> bool \<times> 'w" where
  "socket_is_closed os sp w =
     (if sp_is_open os sp w then fd_is_closed os (sp_native os sp w) w else (False, w))"

definition socket_connect ::
  "('ep, 'w) asio_os \<Rightarrow> nat \<Rightarrow> 'ep \<Rightarrow> nat \<Rightarrow> 'w \<Rightarrow> nat option \<times> 'w" where
  "socket_connect os ios ep timeout_ms w =
     (let is_v4 = ep_is_v4 os ep; (r, w1) = os_socket os is_v4 w
      in case r of
           None \<Rightarrow> (None, w1)
         | Some fd \<Rightarrow>
             let w2 = os_sndtimeo os fd (timeout_ms * 1000) w1; (ok, w3) = os_connect os fd ep w2
             in if \<not> ok then (None, os_close os fd w3)
                else let w4 = os_sndtimeo os fd 0 w3; (sp, w5) = sp_new os ios is_v4 fd w4
                     in (Some sp, w5))"

section \<open>State\<close>

datatype kStatus = kAdding | kConnected | kDisConnected | kDeleting | kDeleted

primrec status_to_cstring :: "kStatus \<Rightarrow> string" where
  "status_to_cstring kAdding = ''kAdding''"
| "status_to_cstring kConnected = ''kConnected''"
| "status_to_cstring kDisConnected = ''kDisConnected''"
| "status_to_cstring kDeleting = ''kDeleting''"
| "status_to_cstring kDeleted = ''kDeleted''"

record endpoint_pool =
  ep_status :: kStatus
  ep_pool :: "nat list"

definition fresh_pool :: endpoint_pool where
  "fresh_pool = \<lparr>ep_status = kDeleted, ep_pool = []\<rparr>"

record asio_stats =
  got_conn_failure :: u64
  got_from_pool_conn :: u64
  got_from_created_conn :: u64
  connected_count :: u64
  disconnected_count :: u64

definition stats_clear :: asio_stats where
  "stats_clear = \<lparr>got_conn_failure = 0, got_from_pool_conn = 0, got_from_created_conn = 0,
     connected_count = 0, disconnected_count = 0\<rparr>"

record 'ep asio_pool =
  max_conn_per_endpoint :: nat
  min_conn_per_endpoint :: nat
  connect_timeout :: nat
  probe_cycle :: nat
  ios_pool :: io_service_pool
  ap_map :: "('ep \<times> endpoint_pool) list"
  stats :: asio_stats
  probe_thread :: bool
  probe_timer :: "nat option"
  quick_probe_timer :: "nat option"

text \<open>\<open>clear_pool\<close>: every socket is closed and its pointer dropped; and dropping pointers only.\<close>

definition clear_pool :: "('ep, 'w) asio_os \<Rightarrow> nat list \<Rightarrow> 'w \<Rightarrow> 'w" where
  "clear_pool os pool w = fold (\<lambda>sp w. sp_release os sp (sp_close os sp w)) pool w"

definition drop_pool :: "('ep, 'w) asio_os \<Rightarrow> nat list \<Rightarrow> 'w \<Rightarrow> 'w" where
  "drop_pool os pool w = fold (sp_release os) pool w"

text \<open>\<open>map_[endpoint]\<close>, and the status of an endpoint.\<close>

definition entry :: "'ep::linorder \<Rightarrow> 'ep asio_pool \<Rightarrow> endpoint_pool" where
  "entry ep p = map_at fresh_pool ep (ap_map p)"

definition set_entry :: "'ep::linorder \<Rightarrow> endpoint_pool \<Rightarrow> 'ep asio_pool \<Rightarrow> 'ep asio_pool" where
  "set_entry ep e p = p\<lparr>ap_map := map_put ep e (ap_map p)\<rparr>"

definition touch :: "'ep::linorder \<Rightarrow> 'ep asio_pool \<Rightarrow> 'ep asio_pool" where
  "touch ep p = p\<lparr>ap_map := map_touch fresh_pool ep (ap_map p)\<rparr>"

definition status_of :: "'ep::linorder asio_pool \<Rightarrow> 'ep \<Rightarrow> kStatus" where
  "status_of p ep = ep_status (entry ep p)"

definition pool_of :: "'ep::linorder asio_pool \<Rightarrow> 'ep \<Rightarrow> nat list" where
  "pool_of p ep = ep_pool (entry ep p)"

text \<open>The truncation that follows every insertion; the sockets cut off are dropped.\<close>

definition kept :: "'ep asio_pool \<Rightarrow> nat list \<Rightarrow> nat list" where
  "kept p pool = (if max_conn_per_endpoint p \<noteq> 0 \<and> length pool > max_conn_per_endpoint p
     then take (max_conn_per_endpoint p) pool else pool)"

definition cut_off :: "'ep asio_pool \<Rightarrow> nat list \<Rightarrow> nat list" where
  "cut_off p pool = drop (length (kept p pool)) pool"

section \<open>Construction, timers, status\<close>

definition set_probe_immediate :: "'ep asio_pool \<Rightarrow> 'ep asio_pool" where
  "set_probe_immediate p = p\<lparr>probe_timer := Some 0\<rparr>"

definition set_probe :: "'ep asio_pool \<Rightarrow> 'ep asio_pool" where
  "set_probe p = p\<lparr>probe_timer := Some (probe_cycle p)\<rparr>"

definition set_quick_probe :: "'ep asio_pool \<Rightarrow> 'ep asio_pool" where
  "set_quick_probe p = p\<lparr>quick_probe_timer := Some 0\<rparr>"

definition start_probe :: "'ep asio_pool \<Rightarrow> 'ep asio_pool" where
  "start_probe p = (if \<not> probe_thread p then (set_probe_immediate p)\<lparr>probe_thread := True\<rparr> else p)"

definition stop_probe :: "'ep asio_pool \<Rightarrow> 'ep asio_pool" where
  "stop_probe p = (if probe_thread p then p\<lparr>probe_thread := False\<rparr> else p)"

definition asio_init ::
  "io_service_pool \<Rightarrow> nat \<Rightarrow> nat \<Rightarrow> nat \<Rightarrow> nat \<Rightarrow> 'ep asio_pool outcome" where
  "asio_init ios mx mn timeout cycle =
     (let p = \<lparr>max_conn_per_endpoint = mx, min_conn_per_endpoint = mn, connect_timeout = timeout,
               probe_cycle = cycle, ios_pool = ios, ap_map = [], stats = stats_clear,
               probe_thread = False, probe_timer = None, quick_probe_timer = None\<rparr>
      in bind_outcome (assert_ok (mn < mx) p) (\<lambda>p. Ok (start_probe p)))"

definition asio_clear :: "('ep, 'w) asio_os \<Rightarrow> 'ep asio_pool \<Rightarrow> 'w \<Rightarrow> 'ep asio_pool \<times> 'w" where
  "asio_clear os p w =
     (p\<lparr>ap_map := [], stats := stats_clear\<rparr>,
      drop_pool os (concat (map (ep_pool \<circ> snd) (ap_map p))) w)"

definition asio_destroy :: "('ep, 'w) asio_os \<Rightarrow> 'ep asio_pool \<Rightarrow> 'w \<Rightarrow> 'ep asio_pool \<times> 'w" where
  "asio_destroy os p w = asio_clear os (stop_probe p) w"

definition newline :: string where "newline = [char_of (10 :: nat)]"

definition stats_to_string :: "asio_stats \<Rightarrow> string" where
  "stats_to_string s =
     ''got_conn_failure_='' @ string_of_nat (unat (got_conn_failure s)) @ newline
   @ ''got_from_pool_conn_='' @ string_of_nat (unat (got_from_pool_conn s)) @ newline
   @ ''got_from_created_conn_='' @ string_of_nat (unat (got_from_created_conn s)) @ newline
   @ ''connected_count_='' @ string_of_nat (unat (connected_count s)) @ newline
   @ ''disconnected_count_='' @ string_of_nat (unat (disconnected_count s)) @ newline"

definition asio_get_status :: "('ep \<Rightarrow> string) \<Rightarrow> 'ep asio_pool \<Rightarrow> string" where
  "asio_get_status ep_str p = stats_to_string (stats p) @ newline
     @ concat (map (\<lambda>(ep, e). ep_str ep @ '': status='' @ status_to_cstring (ep_status e)
         @ '', pool size='' @ string_of_nat (length (ep_pool e)) @ newline) (ap_map p))"

section \<open>Critical sections\<close>

text \<open>\<open>add\<close>: a deleted or deleting endpoint becomes kAdding; its old sockets are the result.\<close>

definition add_section :: "'ep::linorder \<Rightarrow> 'ep asio_pool \<Rightarrow> nat list \<times> 'ep asio_pool" where
  "add_section ep p =
     (let e = entry ep p
      in if ep_status e = kDeleting \<or> ep_status e = kDeleted
         then (ep_pool e, set_entry ep \<lparr>ep_status = kAdding, ep_pool = []\<rparr> p)
         else ([], touch ep p))"

fun add_all_section :: "'ep::linorder list \<Rightarrow> 'ep asio_pool \<Rightarrow> nat list list \<times> 'ep asio_pool" where
  "add_all_section [] p = ([], p)"
| "add_all_section (ep # eps) p =
     (let (tmp, p1) = add_section ep p; (tmps, p2) = add_all_section eps p1 in (tmp # tmps, p2))"

definition del_section :: "'ep::linorder \<Rightarrow> 'ep asio_pool \<Rightarrow> nat list \<times> 'ep asio_pool" where
  "del_section ep p = (case map_of (ap_map p) ep of
       None \<Rightarrow> ([], p)
     | Some e \<Rightarrow>
         if ep_status e = kAdding \<or> ep_status e = kConnected \<or> ep_status e = kDisConnected
         then (ep_pool e, set_entry ep \<lparr>ep_status = kDeleting, ep_pool = []\<rparr> p)
         else ([], p))"

text \<open>The first region of \<open>get\<close>: failure, a pooled socket, or the old sockets to clear before connecting.\<close>

datatype get_result = GetFailed | GetPooled nat | GetCreate "nat list"

definition get_section ::
  "('ep::linorder, 'w) asio_os \<Rightarrow> 'ep \<Rightarrow> 'ep asio_pool \<Rightarrow> 'w \<Rightarrow> get_result \<times> 'ep asio_pool \<times> 'w" where
  "get_section os ep p w =
     (let p = touch ep p; e = entry ep p
      in if ep_status e \<noteq> kConnected
         then (GetFailed, p\<lparr>stats := (stats p)\<lparr>got_conn_failure := got_conn_failure (stats p) + 1\<rparr>\<rparr>, w)
         else if ep_pool e \<noteq> []
         then let (closed, w') = socket_is_closed os (last (ep_pool e)) w
              in if closed then (GetCreate (ep_pool e), set_entry ep (e\<lparr>ep_pool := []\<rparr>) p, w')
                 else (GetPooled (last (ep_pool e)),
                       (set_entry ep (e\<lparr>ep_pool := butlast (ep_pool e)\<rparr>) p)
                         \<lparr>stats := (stats p)\<lparr>got_from_pool_conn := got_from_pool_conn (stats p) + 1\<rparr>\<rparr>, w')
         else (GetCreate [], p, w))"

text \<open>The two regions that follow the connection attempt of \<open>get\<close>.\<close>

definition get_failed_section :: "'ep::linorder \<Rightarrow> 'ep asio_pool \<Rightarrow> nat list \<times> 'ep asio_pool" where
  "get_failed_section ep p =
     (ep_pool (entry ep p),
      (set_entry ep \<lparr>ep_status = kDisConnected, ep_pool = []\<rparr> p)
        \<lparr>stats := (stats p)\<lparr>got_conn_failure := got_conn_failure (stats p) + 1\<rparr>\<rparr>)"

definition get_created_section :: "'ep asio_pool \<Rightarrow> 'ep asio_pool" where
  "get_created_section p =
     p\<lparr>stats := (stats p)\<lparr>got_from_created_conn := got_from_created_conn (stats p) + 1\<rparr>\<rparr>"

text \<open>\<open>put\<close>: whether the socket is taken; the sockets to drop.\<close>

definition put_section :: "'ep::linorder \<Rightarrow> nat \<Rightarrow> 'ep asio_pool \<Rightarrow> bool \<times> nat list \<times> 'ep asio_pool" where
  "put_section ep sp p =
     (let p = touch ep p; e = entry ep p
      in if ep_status e \<noteq> kConnected then (False, [], p)
         else let pool = ep_pool e @ [sp]
              in (True, cut_off p pool, set_entry ep (e\<lparr>ep_pool := kept p pool\<rparr>) p))"

text \<open>
  The first region of \<open>__probe\<close>: the entries in order; the result holds the endpoints to check with
  their status and the pools to clear.  \<open>kConnected\<close> falls through to the recording of the endpoint
  when the pool was closed or is empty.
\<close>

fun probe_scan ::
  "('ep, 'w) asio_os \<Rightarrow> bool \<Rightarrow> ('ep \<times> endpoint_pool) list \<Rightarrow> 'w \<Rightarrow>
   ('ep \<times> endpoint_pool) list \<times> ('ep \<times> kStatus) list \<times> nat list list \<times> 'w" where
  "probe_scan os quick [] w = ([], [], [], w)"
| "probe_scan os quick ((ep, e) # m) w =
     (let (e', chk, tmp, w1) =
        (case ep_status e of
           kConnected \<Rightarrow>
             if quick then (e, [], [], w)
             else if ep_pool e \<noteq> [] then
               let (closed, w') = socket_is_closed os (last (ep_pool e)) w
               in if closed then (e\<lparr>ep_pool := []\<rparr>, [(ep, kConnected)], [ep_pool e], w')
                  else (e, [], [], w')
             else (e, [(ep, kConnected)], [], w)
         | kAdding \<Rightarrow> (e, [(ep, kAdding)], [], w)
         | kDisConnected \<Rightarrow> (e, [(ep, kDisConnected)], [], w)
         | kDeleting \<Rightarrow> (\<lparr>ep_status = kDeleted, ep_pool = []\<rparr>, [], [ep_pool e], w)
         | kDeleted \<Rightarrow> (e, [], [], w));
         (m', chks, tmps, w2) = probe_scan os quick m w1
      in ((ep, e') # m', chk @ chks, tmp @ tmps, w2))"

definition scan_section ::
  "('ep, 'w) asio_os \<Rightarrow> bool \<Rightarrow> 'ep asio_pool \<Rightarrow> 'w \<Rightarrow>
   (('ep \<times> kStatus) list \<times> nat list list) \<times> 'ep asio_pool \<times> 'w" where
  "scan_section os quick p w =
     (let (m, chks, tmps, w') = probe_scan os quick (ap_map p) w
      in ((chks, tmps), p\<lparr>ap_map := m\<rparr>, w'))"

text \<open>The regions of the second phase of \<open>__probe\<close>.\<close>

definition check_section :: "'ep::linorder \<Rightarrow> 'ep asio_pool \<Rightarrow> kStatus \<times> 'ep asio_pool" where
  "check_section ep p = (status_of p ep, touch ep p)"

definition probe_failed_section :: "'ep::linorder \<Rightarrow> 'ep asio_pool \<Rightarrow> nat list \<times> 'ep asio_pool" where
  "probe_failed_section ep p =
     (let p = touch ep p; e = entry ep p
      in if ep_status e = kDeleting then ([], p)
         else (ep_pool e, set_entry ep \<lparr>ep_status = kDisConnected, ep_pool = []\<rparr> p))"

text \<open>Whether the socket was taken, the sockets to drop, and \<open>need_conn\<close>.\<close>

definition probe_ok_section ::
  "'ep::linorder \<Rightarrow> nat \<Rightarrow> 'ep asio_pool \<Rightarrow> (bool \<times> nat list \<times> nat) \<times> 'ep asio_pool" where
  "probe_ok_section ep sp p =
     (let p = touch ep p; e = entry ep p
      in if ep_status e = kDeleting then ((False, [sp], 0), p)
         else let pool = ep_pool e @ [sp];
                  keep = kept p pool
              in ((True, cut_off p pool, min_conn_per_endpoint p - length keep),
                  set_entry ep \<lparr>ep_status = kConnected, ep_pool = keep\<rparr> p))"

definition probe_more_section ::
  "'ep::linorder \<Rightarrow> nat list \<Rightarrow> 'ep asio_pool \<Rightarrow> nat list \<times> 'ep asio_pool" where
  "probe_more_section ep sps p =
     (let p = touch ep p; e = entry ep p
      in if ep_status e \<noteq> kConnected then (sps, p)
         else let pool = ep_pool e @ sps
              in (cut_off p pool, set_entry ep (e\<lparr>ep_pool := kept p pool\<rparr>) p))"

lemmas [section_defs] = add_section_def del_section_def get_section_def get_failed_section_def
  get_created_section_def put_section_def scan_section_def check_section_def
  probe_failed_section_def probe_ok_section_def probe_more_section_def

section \<open>Operations\<close>

text \<open>One connection attempt on the next io\_service.\<close>

definition pool_connect ::
  "('ep, 'w) asio_os \<Rightarrow> 'ep \<Rightarrow> 'ep asio_pool \<Rightarrow> 'w \<Rightarrow> nat option \<times> 'ep asio_pool \<times> 'w" where
  "pool_connect os ep p w =
     (let (i, ios) = get_io_service (ios_pool p);
          (r, w') = socket_connect os i ep (connect_timeout p) w
      in (r, p\<lparr>ios_pool := ios\<rparr>, w'))"

fun connect_more ::
  "('ep, 'w) asio_os \<Rightarrow> 'ep \<Rightarrow> nat \<Rightarrow> 'ep asio_pool \<Rightarrow> 'w \<Rightarrow> nat list \<times> 'ep asio_pool \<times> 'w" where
  "connect_more os ep 0 p w = ([], p, w)"
| "connect_more os ep (Suc n) p w =
     (case pool_connect os ep p w of
        (None, p1, w1) \<Rightarrow> ([], p1, w1)
      | (Some sp, p1, w1) \<Rightarrow>
          let (sps, p2, w2) = connect_more os ep n p1 w1 in (sp # sps, p2, w2))"

definition probe_endpoint ::
  "('ep::linorder, 'w) asio_os \<Rightarrow> 'ep \<Rightarrow> kStatus \<Rightarrow> 'ep asio_pool \<Rightarrow> 'w \<Rightarrow> ('ep asio_pool \<times> 'w) outcome" where
  "probe_endpoint os ep status p w =
     (let (new_status, p) = check_section ep p
      in if status \<noteq> new_status then Ok (p, w)
      else if status = kDeleting \<or> status = kDeleted then Abort
      else case pool_connect os ep p w of
          (None, p, w) \<Rightarrow>
            let p = (if status = kConnected
                     then p\<lparr>stats := (stats p)\<lparr>disconnected_count := disconnected_count (stats p) + 1\<rparr>\<rparr>
                     else p);
                (tmp, p) = probe_failed_section ep p
            in Ok (p, clear_pool os tmp w)
        | (Some sp, p, w) \<Rightarrow>
            let p = (if status \<noteq> kConnected
                     then p\<lparr>stats := (stats p)\<lparr>connected_count := connected_count (stats p) + 1\<rparr>\<rparr>
                     else p);
                ((taken, cut, need), p) = probe_ok_section ep sp p;
                w = drop_pool os cut w
            in if taken \<and> need \<noteq> 0
               then let (sps, p, w) = connect_more os ep need p w;
                        (cut, p) = probe_more_section ep sps p
                    in Ok (p, drop_pool os cut w)
               else Ok (p, w))"

fun probe_endpoints ::
  "('ep::linorder, 'w) asio_os \<Rightarrow> ('ep \<times> kStatus) list \<Rightarrow> 'ep asio_pool \<Rightarrow> 'w \<Rightarrow> ('ep asio_pool \<times> 'w) outcome" where
  "probe_endpoints os [] p w = Ok (p, w)"
| "probe_endpoints os ((ep, st) # m) p w =
     bind_outcome (probe_endpoint os ep st p w) (\<lambda>(p, w). probe_endpoints os m p w)"

definition asio_probe ::
  "('ep::linorder, 'w) asio_os \<Rightarrow> bool \<Rightarrow> 'ep asio_pool \<Rightarrow> 'w \<Rightarrow> ('ep asio_pool \<times> 'w) outcome" where
  "asio_probe os quick p w =
     (let ((chks, tmps), p, w) = scan_section os quick p w
      in probe_endpoints os chks p (fold (clear_pool os) tmps w))"

definition asio_probe_timer ::
  "('ep::linorder, 'w) asio_os \<Rightarrow> 'ep asio_pool \<Rightarrow> 'w \<Rightarrow> ('ep asio_pool \<times> 'w) outcome" where
  "asio_probe_timer os p w = map_ok (\<lambda>(p, w). (set_probe p, w)) (asio_probe os False p w)"

definition asio_add ::
  "('ep::linorder, 'w) asio_os \<Rightarrow> 'ep \<Rightarrow> 'ep asio_pool \<Rightarrow> 'w \<Rightarrow> ('ep asio_pool \<times> 'w) outcome" where
  "asio_add os ep p w =
     (let (tmp, p) = add_section ep p
      in map_ok (\<lambda>(p, w). (p, clear_pool os tmp w)) (asio_probe os True p w))"

definition asio_add_all ::
  "('ep::linorder, 'w) asio_os \<Rightarrow> 'ep list \<Rightarrow> 'ep asio_pool \<Rightarrow> 'w \<Rightarrow> ('ep asio_pool \<times> 'w) outcome" where
  "asio_add_all os eps p w =
     (let (tmps, p) = add_all_section eps p
      in map_ok (\<lambda>(p, w). (p, fold (clear_pool os) tmps w)) (asio_probe os True p w))"

definition asio_del ::
  "('ep::linorder, 'w) asio_os \<Rightarrow> 'ep \<Rightarrow> 'ep asio_pool \<Rightarrow> 'w \<Rightarrow> 'ep asio_pool \<times> 'w" where
  "asio_del os ep p w = (let (tmp, p) = del_section ep p in (p, clear_pool os tmp w))"

definition asio_get ::
  "('ep::linorder, 'w) asio_os \<Rightarrow> 'ep \<Rightarrow> 'ep asio_pool \<Rightarrow> 'w \<Rightarrow> nat option \<times> 'ep asio_pool \<times> 'w" where
  "asio_get os ep p w = (case get_section os ep p w of
       (GetFailed, p, w) \<Rightarrow> (None, p, w)
     | (GetPooled sp, p, w) \<Rightarrow> (Some sp, p, w)
     | (GetCreate tmp, p, w) \<Rightarrow>
         (case pool_connect os ep p (clear_pool os tmp w) of
            (None, p, w) \<Rightarrow>
              let (tmp, p) = get_failed_section ep p in (None, p, clear_pool os tmp w)
          | (Some sp, p, w) \<Rightarrow> (Some sp, get_created_section p, w)))"

text \<open>
  \<open>put\<close>: a null pointer trips the assertion of \<open>shared_ptr\<close>; \<open>remote_endpoint\<close> of a socket whose
  peer is gone throws (\<open>None\<close>).  The caller's pointer afterwards is the first result.
\<close>

datatype put_result = PutKept "nat option" | PutThrew

definition asio_put ::
  "('ep::linorder, 'w) asio_os \<Rightarrow> nat option \<Rightarrow> 'ep asio_pool \<Rightarrow> 'w \<Rightarrow>
   (put_result \<times> 'ep asio_pool \<times> 'w) outcome" where
  "asio_put os sp p w = (case sp of
       None \<Rightarrow> Abort
     | Some s \<Rightarrow>
         if \<not> sp_is_open os s w then Ok (PutKept (Some s), p, w)
         else (case sp_remote os s w of
                 None \<Rightarrow> Ok (PutThrew, p, w)
               | Some ep \<Rightarrow>
                   let (taken, cut, p) = put_section ep s p
                   in if taken then Ok (PutKept None, p, drop_pool os cut w)
                      else Ok (PutKept None, p, sp_release os s (sp_close os s w))))"

section \<open>Entries\<close>

definition entry_ok :: "'ep asio_pool \<Rightarrow> endpoint_pool \<Rightarrow> bool" where
  "entry_ok p e \<longleftrightarrow> (ep_status e \<noteq> kConnected \<longrightarrow> ep_pool e = [])
     \<and> length (ep_pool e) \<le> max_conn_per_endpoint p"

definition asio_inv :: "'ep::linorder asio_pool \<Rightarrow> bool" where
  "asio_inv p \<longleftrightarrow> map_ok_std (ap_map p) \<and> min_conn_per_endpoint p < max_conn_per_endpoint p
     \<and> (\<forall>ep. entry_ok p (entry ep p))"

lemma entry_ok_fresh [simp]: "entry_ok p fresh_pool"
  by (simp add: entry_ok_def fresh_pool_def)

lemma entry_set_entry [simp]:
  "map_ok_std (ap_map p) \<Longrightarrow> entry ep' (set_entry ep e p) = (if ep' = ep then e else entry ep' p)"
  by (simp add: entry_def set_entry_def std_simps)

lemma entry_touch [simp]: "map_ok_std (ap_map p) \<Longrightarrow> entry ep' (touch ep p) = entry ep' p"
  by (simp add: entry_def touch_def std_simps)

lemma map_ok_entries [simp]:
  "map_ok_std (ap_map p) \<Longrightarrow> map_ok_std (ap_map (set_entry ep e p))"
  "map_ok_std (ap_map p) \<Longrightarrow> map_ok_std (ap_map (touch ep p))"
  by (simp_all add: set_entry_def touch_def std_simps)

lemma entry_upd [simp]:
  "entry ep (p\<lparr>stats := st\<rparr>) = entry ep p" "entry ep (p\<lparr>ios_pool := i\<rparr>) = entry ep p"
  "entry ep (p\<lparr>probe_timer := t\<rparr>) = entry ep p"
  by (simp_all add: entry_def)

lemma params_entries [simp]:
  "max_conn_per_endpoint (set_entry ep e p) = max_conn_per_endpoint p"
  "min_conn_per_endpoint (set_entry ep e p) = min_conn_per_endpoint p"
  "max_conn_per_endpoint (touch ep p) = max_conn_per_endpoint p"
  "min_conn_per_endpoint (touch ep p) = min_conn_per_endpoint p"
  "stats (set_entry ep e p) = stats p" "stats (touch ep p) = stats p"
  "ios_pool (set_entry ep e p) = ios_pool p" "ios_pool (touch ep p) = ios_pool p"
  "connect_timeout (set_entry ep e p) = connect_timeout p" "connect_timeout (touch ep p) = connect_timeout p"
  by (simp_all add: set_entry_def touch_def)

lemma entry_ok_params:
  "max_conn_per_endpoint q = max_conn_per_endpoint p \<Longrightarrow> entry_ok q e = entry_ok p e"
  by (simp add: entry_ok_def)

lemma kept_touch [simp]: "kept (touch ep p) = kept p" "cut_off (touch ep p) = cut_off p"
  by (simp_all add: kept_def cut_off_def fun_eq_iff)

lemma length_kept: "0 < max_conn_per_endpoint p \<Longrightarrow> length (kept p xs) = min (length xs) (max_conn_per_endpoint p)"
  by (simp add: kept_def min_def)

text \<open>One entry replaced by a good one, or none.\<close>

lemma inv_set_entry: "asio_inv p \<Longrightarrow> entry_ok p e \<Longrightarrow> asio_inv (set_entry ep e p)"
  by (simp add: asio_inv_def entry_ok_params [of "set_entry ep e p" p])

lemma inv_touch: "asio_inv p \<Longrightarrow> asio_inv (touch ep p)"
  by (simp add: asio_inv_def entry_ok_params [of "touch ep p" p])

lemma inv_upd [simp]:
  "asio_inv (p\<lparr>stats := st\<rparr>) = asio_inv p" "asio_inv (p\<lparr>ios_pool := i\<rparr>) = asio_inv p"
  "asio_inv (p\<lparr>probe_timer := t\<rparr>) = asio_inv p"
  by (simp_all add: asio_inv_def entry_ok_def)

lemma inv_map [intro]: "asio_inv p \<Longrightarrow> map_ok_std (ap_map p)"
  by (simp add: asio_inv_def)

lemma inv_entry: "asio_inv p \<Longrightarrow> entry_ok p (entry ep p)"
  by (simp add: asio_inv_def)

lemma inv_max: "asio_inv p \<Longrightarrow> min_conn_per_endpoint p < max_conn_per_endpoint p"
  by (simp add: asio_inv_def)

lemma inv_kept: "asio_inv p \<Longrightarrow> length (kept p xs) \<le> max_conn_per_endpoint p"
  using inv_max [of p] by (simp add: length_kept)

section \<open>The status table\<close>

text \<open>
  The table of the source's comment (src/async/asio\_pool.cpp, above \<open>status_to_cstring\<close>): the
  entries marked O, del and add, and the diagonal.
\<close>

definition allowed :: "kStatus \<Rightarrow> kStatus \<Rightarrow> bool" where
  "allowed s t \<longleftrightarrow> s = t \<or> (case s of
       kAdding \<Rightarrow> t \<in> {kConnected, kDisConnected, kDeleting}
     | kConnected \<Rightarrow> t \<in> {kDisConnected, kDeleting}
     | kDisConnected \<Rightarrow> t \<in> {kConnected, kDeleting}
     | kDeleting \<Rightarrow> t \<in> {kAdding, kDeleted}
     | kDeleted \<Rightarrow> t \<in> {kAdding})"

text \<open>What the scan does to one entry.\<close>

definition scan_entry :: "bool \<Rightarrow> endpoint_pool \<Rightarrow> endpoint_pool \<Rightarrow> bool" where
  "scan_entry quick e e' \<longleftrightarrow> e' = e
     \<or> (ep_status e = kConnected \<and> \<not> quick \<and> e' = e\<lparr>ep_pool := []\<rparr>)
     \<or> (ep_status e = kDeleting \<and> e' = \<lparr>ep_status = kDeleted, ep_pool = []\<rparr>)"

definition checkable :: "kStatus \<Rightarrow> bool" where
  "checkable s \<longleftrightarrow> s = kAdding \<or> s = kConnected \<or> s = kDisConnected"

lemma probe_scan_facts:
  "probe_scan os quick m w = (m', chks, tmps, w') \<Longrightarrow>
     list_all2 (\<lambda>(ep, e) (ep', e'). ep' = ep \<and> scan_entry quick e e'
        \<and> (ep_status e = kDeleting \<longrightarrow> ep_status e' = kDeleted)) m m'
     \<and> set chks \<subseteq> {(ep, s). checkable s \<and> (\<exists>e. (ep, e) \<in> set m' \<and> ep_status e = s)}
     \<and> {(ep, s). (s = kAdding \<or> s = kDisConnected) \<and> (\<exists>e. (ep, e) \<in> set m \<and> ep_status e = s)} \<subseteq> set chks
     \<and> {(ep, e) \<in> set m. ep_status e = kConnected} \<subseteq> set m' \<union> {(ep, e). (ep, kConnected) \<in> set chks}
     \<and> (quick \<longrightarrow> kConnected \<notin> snd ` set chks)
     \<and> set (map fst chks) \<subseteq> set (map fst m) \<and> (distinct (map fst m) \<longrightarrow> distinct (map fst chks))"
proof (induction os quick m w arbitrary: m' chks tmps w' rule: probe_scan.induct)
  case (1 os quick w)
  then show ?case by simp
next
  case (2 os quick ep e m w)
  obtain e' chk tmp w1 where head: "(case ep_status e of
           kConnected \<Rightarrow>
             if quick then (e, [], [], w)
             else if ep_pool e \<noteq> [] then
               let (closed, w') = socket_is_closed os (last (ep_pool e)) w
               in if closed then (e\<lparr>ep_pool := []\<rparr>, [(ep, kConnected)], [ep_pool e], w')
                  else (e, [], [], w')
             else (e, [(ep, kConnected)], [], w)
         | kAdding \<Rightarrow> (e, [(ep, kAdding)], [], w)
         | kDisConnected \<Rightarrow> (e, [(ep, kDisConnected)], [], w)
         | kDeleting \<Rightarrow> (\<lparr>ep_status = kDeleted, ep_pool = []\<rparr>, [], [ep_pool e], w)
         | kDeleted \<Rightarrow> (e, [], [], w)) = (e', chk, tmp, w1)" (is "?head = _")
    by (cases ?head) blast
  obtain m2 chks2 tmps2 w2 where rest: "probe_scan os quick m w1 = (m2, chks2, tmps2, w2)"
    by (cases "probe_scan os quick m w1") blast
  have eqs: "m' = (ep, e') # m2" "chks = chk @ chks2"
    using 2(2) by (simp_all add: head rest)
  have h: "scan_entry quick e e'" "ep_status e = kDeleting \<longrightarrow> ep_status e' = kDeleted"
    "chk = [] \<or> (chk = [(ep, ep_status e')] \<and> checkable (ep_status e') \<and> ep_status e' = ep_status e
        \<and> (quick \<longrightarrow> ep_status e \<noteq> kConnected))"
    "ep_status e = kAdding \<or> ep_status e = kDisConnected \<longrightarrow> chk = [(ep, ep_status e)]"
    "ep_status e = kConnected \<longrightarrow> e' = e \<or> chk = [(ep, kConnected)]"
    using head
    by (cases "ep_status e"; cases "socket_is_closed os (last (ep_pool e)) w";
        auto simp: scan_entry_def checkable_def Let_def split: if_splits)+
  note IH = 2(1) [OF head [symmetric] refl refl refl rest]
  show ?case
    unfolding eqs
  proof (intro conjI)
    show "list_all2 (\<lambda>(ep, e) (ep', e'). ep' = ep \<and> scan_entry quick e e'
        \<and> (ep_status e = kDeleting \<longrightarrow> ep_status e' = kDeleted)) ((ep, e) # m) ((ep, e') # m2)"
      using IH h(1,2) by simp
    show "set (chk @ chks2) \<subseteq> {(x, s). checkable s \<and> (\<exists>e. (x, e) \<in> set ((ep, e') # m2) \<and> ep_status e = s)}"
      using IH h(3) by auto
    show "{(x, s). (s = kAdding \<or> s = kDisConnected) \<and> (\<exists>d. (x, d) \<in> set ((ep, e) # m) \<and> ep_status d = s)}
        \<subseteq> set (chk @ chks2)"
      using IH h(4) by auto
    show "{(x, d) \<in> set ((ep, e) # m). ep_status d = kConnected}
        \<subseteq> set ((ep, e') # m2) \<union> {(x, d). (x, kConnected) \<in> set (chk @ chks2)}"
      using IH h(5) by auto
    show "quick \<longrightarrow> kConnected \<notin> snd ` set (chk @ chks2)" using IH h(3) by auto
    show "set (map fst (chk @ chks2)) \<subseteq> set (map fst ((ep, e) # m))" using IH h(3) by auto
    have "ep \<notin> fst ` set m \<Longrightarrow> ep \<notin> fst ` set chks2" and "distinct (map fst m) \<Longrightarrow> distinct (map fst chks2)"
      using IH by auto
    then show "distinct (map fst ((ep, e) # m)) \<longrightarrow> distinct (map fst (chk @ chks2))"
      using h(3) by (force simp: image_iff)
  qed
qed

text \<open>The scan as a change of the entries.\<close>

lemma scan_map_of:
  "list_all2 (\<lambda>(ep, e) (ep', e'). ep' = ep \<and> R e e') m m' \<Longrightarrow>
     (case map_of m x of None \<Rightarrow> map_of m' x = None | Some e \<Rightarrow> \<exists>e'. map_of m' x = Some e' \<and> R e e')"
  by (induction rule: list_all2_induct) (auto split: option.splits)

lemma scan_keys: "list_all2 (\<lambda>(ep, e) (ep', e'). ep' = ep \<and> R e e') m m' \<Longrightarrow> map fst m' = map fst m"
  by (induction rule: list_all2_induct) auto

lemma scan_section_facts:
  assumes inv: "asio_inv p" and run: "scan_section os quick p w = ((chks, tmps), q, w')"
  shows "asio_inv q" and "\<And>ep. scan_entry quick (entry ep p) (entry ep q)"
    and "\<And>ep. status_of p ep = kDeleting \<Longrightarrow> status_of q ep = kDeleted"
    and "\<And>ep s. (ep, s) \<in> set chks \<Longrightarrow> checkable s \<and> status_of q ep = s"
    and "distinct (map fst chks)" and "quick \<Longrightarrow> kConnected \<notin> snd ` set chks"
    and "\<And>ep. status_of p ep = kAdding \<or> status_of p ep = kDisConnected \<Longrightarrow> (ep, status_of p ep) \<in> set chks"
    and "q = p\<lparr>ap_map := ap_map q\<rparr>"
    and "\<And>ep. status_of p ep = kConnected \<Longrightarrow> entry ep q = entry ep p \<or> (ep, kConnected) \<in> set chks"
proof -
  obtain m where scan: "probe_scan os quick (ap_map p) w = (m, chks, tmps, w')" and q: "q = p\<lparr>ap_map := m\<rparr>"
    using run by (auto simp: scan_section_def split: prod.splits)
  show "q = p\<lparr>ap_map := ap_map q\<rparr>" by (simp add: q)
  note f = probe_scan_facts [OF scan]
  have ok: "map_ok_std (ap_map p)" using inv by blast
  have keys: "map fst m = map fst (ap_map p)"
    using scan_keys [where R = "\<lambda>e e'. scan_entry quick e e' \<and> (ep_status e = kDeleting \<longrightarrow> ep_status e' = kDeleted)"] f
    by blast
  have okm: "map_ok_std m" using map_ok_same_keys [OF keys] ok by simp
  have e: "(scan_entry quick (entry ep p) (entry ep q))
      \<and> (ep_status (entry ep p) = kDeleting \<longrightarrow> ep_status (entry ep q) = kDeleted)" for ep
    using scan_map_of [where R = "\<lambda>e e'. scan_entry quick e e' \<and> (ep_status e = kDeleting \<longrightarrow> ep_status e' = kDeleted)"
        and m = "ap_map p" and m' = m and x = ep] f
    by (auto simp: entry_def map_at_def q scan_entry_def fresh_pool_def split: option.splits)
  then show "scan_entry quick (entry ep p) (entry ep q)"
    and "status_of p ep = kDeleting \<Longrightarrow> status_of q ep = kDeleted" for ep
    by (simp_all add: status_of_def)
  have "entry_ok q (entry ep q)" for ep
    using e [of ep] inv_entry [OF inv, of ep] by (auto simp: entry_ok_def scan_entry_def q)
  then show "asio_inv q" using okm inv by (simp add: asio_inv_def q)
  show "checkable s \<and> status_of q ep = s" if "(ep, s) \<in> set chks" for ep s
  proof -
    obtain e where e: "checkable s" "(ep, e) \<in> set m" "ep_status e = s" using f \<open>(ep, s) \<in> set chks\<close> by blast
    then have "map_of m ep = Some e" using map_of_mem_iff [OF okm] by blast
    with e show ?thesis by (simp add: status_of_def entry_def map_at_def q)
  qed
  show "entry ep q = entry ep p \<or> (ep, kConnected) \<in> set chks" if "status_of p ep = kConnected" for ep
  proof -
    from that obtain e where e: "map_of (ap_map p) ep = Some e" "ep_status e = kConnected"
      by (auto simp: status_of_def entry_def map_at_def fresh_pool_def split: option.splits)
    then have "(ep, e) \<in> set (ap_map p)" using map_of_mem_iff [OF ok] by blast
    with f e(2) have "(ep, e) \<in> set m \<or> (ep, kConnected) \<in> set chks" by blast
    then have "map_of m ep = Some e \<or> (ep, kConnected) \<in> set chks" using map_of_mem_iff [OF okm] by blast
    with e(1) show ?thesis by (auto simp: entry_def map_at_def q)
  qed
  show "distinct (map fst chks)" using f map_ok_distinct [OF ok] by blast
  show "quick \<Longrightarrow> kConnected \<notin> snd ` set chks" using f by blast
  show "(ep, status_of p ep) \<in> set chks" if "status_of p ep = kAdding \<or> status_of p ep = kDisConnected" for ep
  proof -
    from that obtain e where "(ep, e) \<in> set (ap_map p)" "ep_status e = status_of p ep"
      using map_of_mem_iff [OF ok]
      by (auto simp: status_of_def entry_def map_at_def fresh_pool_def split: option.splits)
    with f that show ?thesis by blast
  qed
qed

section \<open>Interleavings\<close>

text \<open>
  Threads run the operations concurrently; what they share is the pool, and they touch it in the
  critical sections only.  A label says which section ran; the local values a thread carries from
  one section to the next (endpoints, new sockets) are arbitrary.  \<open>SecLocal\<close> is what happens
  outside the mutex: the io\_service cursor, the two counters the probe updates there, the timer.
\<close>

datatype 'ep asio_label = SecAdd 'ep | SecDel 'ep | SecGet 'ep | SecGetFailed 'ep | SecGetCreated
  | SecPut 'ep nat | SecScan bool | SecCheck 'ep | SecProbeFailed 'ep | SecProbeOk 'ep nat
  | SecProbeMore 'ep "nat list" | SecClear | SecLocal

inductive asio_section ::
  "('ep::linorder, 'w) asio_os \<Rightarrow> 'ep asio_label \<Rightarrow> 'ep asio_pool \<Rightarrow> 'ep asio_pool \<Rightarrow> bool" for os where
  "add_section ep p = (tmp, q) \<Longrightarrow> asio_section os (SecAdd ep) p q"
| "del_section ep p = (tmp, q) \<Longrightarrow> asio_section os (SecDel ep) p q"
| "get_section os ep p w = (r, q, w') \<Longrightarrow> asio_section os (SecGet ep) p q"
| "get_failed_section ep p = (tmp, q) \<Longrightarrow> asio_section os (SecGetFailed ep) p q"
| "q = get_created_section p \<Longrightarrow> asio_section os SecGetCreated p q"
| "put_section ep sp p = (b, dropped, q) \<Longrightarrow> asio_section os (SecPut ep sp) p q"
| "scan_section os quick p w = (r, q, w') \<Longrightarrow> asio_section os (SecScan quick) p q"
| "check_section ep p = (st, q) \<Longrightarrow> asio_section os (SecCheck ep) p q"
| "probe_failed_section ep p = (tmp, q) \<Longrightarrow> asio_section os (SecProbeFailed ep) p q"
| "probe_ok_section ep sp p = (r, q) \<Longrightarrow> asio_section os (SecProbeOk ep sp) p q"
| "probe_more_section ep sps p = (dropped, q) \<Longrightarrow> asio_section os (SecProbeMore ep sps) p q"
| "asio_clear os p w = (q, w') \<Longrightarrow> asio_section os SecClear p q"
| "q = p\<lparr>ios_pool := i, stats := st, probe_timer := t\<rparr> \<Longrightarrow> asio_section os SecLocal p q"

inductive_cases asio_sectionE: "asio_section os l p q"

definition asio_step :: "('ep::linorder, 'w) asio_os \<Rightarrow> 'ep asio_pool \<Rightarrow> 'ep asio_pool \<Rightarrow> bool" where
  "asio_step os p q \<longleftrightarrow> (\<exists>l. asio_section os l p q)"

definition asio_start :: "'ep asio_pool \<Rightarrow> bool" where
  "asio_start p \<longleftrightarrow> (\<exists>ios mx mn timeout cycle. asio_init ios mx mn timeout cycle = Ok p)"

text \<open>Every section keeps the invariant.\<close>

lemma add_section_inv: "asio_inv p \<Longrightarrow> add_section ep p = (tmp, q) \<Longrightarrow> asio_inv q"
  by (auto simp: add_section_def Let_def entry_ok_def split: if_splits intro: inv_set_entry inv_touch)

lemma del_section_inv: "asio_inv p \<Longrightarrow> del_section ep p = (tmp, q) \<Longrightarrow> asio_inv q"
  by (auto simp: del_section_def entry_ok_def split: if_splits option.splits intro!: inv_set_entry)

lemma get_section_inv: "asio_inv p \<Longrightarrow> get_section os ep p w = (r, q, w') \<Longrightarrow> asio_inv q"
  using inv_entry [of p ep]
  by (auto simp: get_section_def Let_def entry_ok_def inv_map inv_touch split: if_splits prod.splits
      intro!: inv_set_entry)

lemma get_failed_section_inv: "asio_inv p \<Longrightarrow> get_failed_section ep p = (tmp, q) \<Longrightarrow> asio_inv q"
  by (auto simp: get_failed_section_def entry_ok_def intro!: inv_set_entry)

lemma put_section_inv: "asio_inv p \<Longrightarrow> put_section ep sp p = (b, dropped, q) \<Longrightarrow> asio_inv q"
  by (auto simp: put_section_def Let_def entry_ok_def inv_map inv_touch inv_kept split: if_splits
      intro!: inv_set_entry)

lemma probe_failed_section_inv: "asio_inv p \<Longrightarrow> probe_failed_section ep p = (tmp, q) \<Longrightarrow> asio_inv q"
  by (auto simp: probe_failed_section_def Let_def entry_ok_def inv_map inv_touch split: if_splits
      intro!: inv_set_entry)

lemma probe_ok_section_inv: "asio_inv p \<Longrightarrow> probe_ok_section ep sp p = (r, q) \<Longrightarrow> asio_inv q"
  by (auto simp: probe_ok_section_def Let_def entry_ok_def inv_map inv_touch inv_kept split: if_splits
      intro!: inv_set_entry)

lemma probe_more_section_inv: "asio_inv p \<Longrightarrow> probe_more_section ep sps p = (dropped, q) \<Longrightarrow> asio_inv q"
  by (auto simp: probe_more_section_def Let_def entry_ok_def inv_map inv_touch inv_kept split: if_splits
      intro!: inv_set_entry)

lemma asio_clear_inv: "asio_inv p \<Longrightarrow> asio_clear os p w = (q, w') \<Longrightarrow> asio_inv q"
  by (auto simp: asio_clear_def asio_inv_def entry_def map_at_def)

lemma asio_section_inv: "asio_inv p \<Longrightarrow> asio_section os l p q \<Longrightarrow> asio_inv q"
proof (erule asio_sectionE)
  assume inv: "asio_inv p"
  show "asio_inv q" if "scan_section os quick p w = (r, q, w')" for quick w r w'
    using that scan_section_facts(1) [OF inv, of os quick w "fst r" "snd r" q w'] by simp
  show "asio_inv q" if "check_section ep p = (st, q)" for ep st
    using that inv by (auto simp: check_section_def inv_touch)
  show "asio_inv q" if "q = p\<lparr>ios_pool := i, stats := st, probe_timer := t\<rparr>" for i st t
    using that inv by simp
  show "asio_inv q" if "q = get_created_section p"
    using that inv by (simp add: get_created_section_def)
qed (auto dest: add_section_inv del_section_inv get_section_inv get_failed_section_inv put_section_inv
    probe_failed_section_inv probe_ok_section_inv probe_more_section_inv asio_clear_inv)

lemma asio_start_inv: "asio_start p \<Longrightarrow> asio_inv p"
  by (auto simp: asio_start_def asio_init_def Let_def outcome_simps start_probe_def
      set_probe_immediate_def asio_inv_def entry_def map_at_def)

interpretation asio_sys: step_system asio_start "asio_step os" asio_inv for os :: "('ep::linorder, 'w) asio_os"
  by unfold_locales (auto simp: asio_step_def intro: asio_start_inv asio_section_inv)

end
