(* ===== verification/AsioPoolSpec.thy ===== *)
theory AsioPoolSpec
  imports AsioPool
begin

text \<open>
  What the operations of src/async/asio\_pool.cpp promise: the invariant of the pools under every
  interleaving of the critical sections, the status table, the results and counters of \<open>get\<close>, the
  round trip of \<open>put\<close> and \<open>get\<close>, and the effect of a whole probe.  Also the contract \<open>socket_pool\<close>
  that the service manager relies on.
\<close>

section \<open>get\<close>

lemma pool_connect_facts:
  "pool_connect os ep p w = (r, q, w') \<Longrightarrow>
     \<exists>i ios. q = p\<lparr>ios_pool := ios\<rparr> \<and> socket_connect os i ep (connect_timeout p) w = (r, w')"
  by (auto simp: pool_connect_def Let_def split: prod.splits)

text \<open>The number of \<open>get\<close> calls counted so far (modulo the width of the counters).\<close>

definition gets_counted :: "asio_stats \<Rightarrow> u64" where
  "gets_counted s = got_conn_failure s + got_from_pool_conn s + got_from_created_conn s"

lemma asio_get_not_connected:
  assumes "asio_inv p" and "status_of p ep \<noteq> kConnected"
  shows "asio_get os ep p w
    = (None, (touch ep p)\<lparr>stats := (stats p)\<lparr>got_conn_failure := got_conn_failure (stats p) + 1\<rparr>\<rparr>, w)"
  using assms by (simp add: asio_get_def get_section_def Let_def status_of_def inv_map)

lemma asio_get_connected:
  assumes inv: "asio_inv p" and c: "status_of p ep = kConnected" and run: "asio_get os ep p w = (r, q, w')"
  shows "asio_inv q" and "\<And>x. x \<noteq> ep \<Longrightarrow> entry x q = entry x p"
    and "r = None \<Longrightarrow> entry ep q = \<lparr>ep_status = kDisConnected, ep_pool = []\<rparr>
       \<and> stats q = (stats p)\<lparr>got_conn_failure := got_conn_failure (stats p) + 1\<rparr>"
    and "r = Some sp \<Longrightarrow> status_of q ep = kConnected \<and>
       (stats q = (stats p)\<lparr>got_from_pool_conn := got_from_pool_conn (stats p) + 1\<rparr>
          \<and> pool_of p ep = pool_of q ep @ [sp] \<and> \<not> fst (socket_is_closed os sp w)
        \<or> stats q = (stats p)\<lparr>got_from_created_conn := got_from_created_conn (stats p) + 1\<rparr>
          \<and> pool_of q ep = [])"
proof -
  obtain g p1 w1 where g: "get_section os ep p w = (g, p1, w1)" by (cases "get_section os ep p w") auto
  have ok: "map_ok_std (ap_map p)" using inv by blast
  have i1: "asio_inv p1" using get_section_inv [OF inv g] .
  then have ok1: "map_ok_std (ap_map p1)" by blast
  have e: "ep_status (entry ep p) = kConnected" using c by (simp add: status_of_def)
  have frame1: "x \<noteq> ep \<Longrightarrow> entry x p1 = entry x p" for x
    using g ok e by (auto simp: get_section_def Let_def split: if_splits prod.splits)
  consider (pooled) s where "g = GetPooled s" "q = p1" "r = Some s"
    | (create) tmp where "g = GetCreate tmp" by (cases g) (use g e ok run in
        \<open>auto simp: get_section_def asio_get_def Let_def split: if_splits prod.splits\<close>)
  then have "asio_inv q \<and> (\<forall>x. x \<noteq> ep \<longrightarrow> entry x q = entry x p)
    \<and> (r = None \<longrightarrow> entry ep q = \<lparr>ep_status = kDisConnected, ep_pool = []\<rparr>
         \<and> stats q = (stats p)\<lparr>got_conn_failure := got_conn_failure (stats p) + 1\<rparr>)
    \<and> (\<forall>sp. r = Some sp \<longrightarrow> status_of q ep = kConnected \<and>
       (stats q = (stats p)\<lparr>got_from_pool_conn := got_from_pool_conn (stats p) + 1\<rparr>
          \<and> pool_of p ep = pool_of q ep @ [sp] \<and> \<not> fst (socket_is_closed os sp w)
        \<or> stats q = (stats p)\<lparr>got_from_created_conn := got_from_created_conn (stats p) + 1\<rparr>
          \<and> pool_of q ep = []))"
  proof cases
    case (pooled s)
    with g ok e have "ep_pool (entry ep p) \<noteq> []" "s = last (ep_pool (entry ep p))"
      "\<not> fst (socket_is_closed os s w)"
      "entry ep p1 = (entry ep p)\<lparr>ep_pool := butlast (ep_pool (entry ep p))\<rparr>"
      "stats p1 = (stats p)\<lparr>got_from_pool_conn := got_from_pool_conn (stats p) + 1\<rparr>"
      by (auto simp: get_section_def Let_def split: if_splits prod.splits)
    with pooled i1 frame1 e show ?thesis
      by (auto simp: status_of_def pool_of_def)
  next
    case (create tmp)
    with g ok e have e1: "entry ep p1 = (entry ep p)\<lparr>ep_pool := []\<rparr>" and s1: "stats p1 = stats p"
      by (auto simp: get_section_def Let_def split: if_splits prod.splits)
    obtain r2 p2 w2 where pc: "pool_connect os ep p1 (clear_pool os tmp w1) = (r2, p2, w2)"
      by (cases "pool_connect os ep p1 (clear_pool os tmp w1)") auto
    obtain ios where p2: "p2 = p1\<lparr>ios_pool := ios\<rparr>" using pool_connect_facts [OF pc] by blast
    show ?thesis
    proof (cases r2)
      case None
      with run g create pc have q: "q = snd (get_failed_section ep p2)" "r = None"
        by (auto simp: asio_get_def Let_def split: prod.splits)
      have "asio_inv q" using get_failed_section_inv [of p2 ep "fst (get_failed_section ep p2)" q] i1
        by (simp add: q p2)
      with q p2 ok1 frame1 s1 show ?thesis by (simp add: get_failed_section_def)
    next
      case (Some s)
      with run g create pc have "q = get_created_section p2" "r = Some s"
        by (auto simp: asio_get_def)
      with i1 p2 ok1 frame1 s1 e1 e show ?thesis
        by (simp add: get_created_section_def status_of_def pool_of_def)
    qed
  qed
  then show "asio_inv q" "\<And>x. x \<noteq> ep \<Longrightarrow> entry x q = entry x p"
    "r = None \<Longrightarrow> entry ep q = \<lparr>ep_status = kDisConnected, ep_pool = []\<rparr>
       \<and> stats q = (stats p)\<lparr>got_conn_failure := got_conn_failure (stats p) + 1\<rparr>"
    "r = Some sp \<Longrightarrow> status_of q ep = kConnected \<and>
       (stats q = (stats p)\<lparr>got_from_pool_conn := got_from_pool_conn (stats p) + 1\<rparr>
          \<and> pool_of p ep = pool_of q ep @ [sp] \<and> \<not> fst (socket_is_closed os sp w)
        \<or> stats q = (stats p)\<lparr>got_from_created_conn := got_from_created_conn (stats p) + 1\<rparr>
          \<and> pool_of q ep = [])"
    by blast+
qed

section \<open>The probe\<close>

text \<open>Whether connecting to an endpoint succeeds, whatever the state of the world.\<close>

definition reachable_ep :: "('ep, 'w) asio_os \<Rightarrow> 'ep \<Rightarrow> bool" where
  "reachable_ep os ep \<longleftrightarrow> (\<forall>i t w. fst (socket_connect os i ep t w) \<noteq> None)"

definition unreachable_ep :: "('ep, 'w) asio_os \<Rightarrow> 'ep \<Rightarrow> bool" where
  "unreachable_ep os ep \<longleftrightarrow> (\<forall>i t w. fst (socket_connect os i ep t w) = None)"

lemma connect_more_facts:
  "connect_more os ep n p w = (sps, q, w') \<Longrightarrow>
     (\<exists>ios. q = p\<lparr>ios_pool := ios\<rparr>) \<and> length sps \<le> n \<and> (reachable_ep os ep \<longrightarrow> length sps = n)"
proof (induction os ep n p w arbitrary: sps q w' rule: connect_more.induct)
  case (1 os ep p w)
  then show ?case by (auto intro: exI [of _ "ios_pool p"])
next
  case (2 os ep n p w)
  obtain r p1 w1 where pc: "pool_connect os ep p w = (r, p1, w1)"
    by (cases "pool_connect os ep p w") auto
  obtain i ios where p1: "p1 = p\<lparr>ios_pool := ios\<rparr>"
    and sc: "socket_connect os i ep (connect_timeout p) w = (r, w1)"
    using pool_connect_facts [OF pc] by blast
  show ?case
  proof (cases r)
    case None
    with sc have "\<not> reachable_ep os ep" by (auto simp: reachable_ep_def) (metis fst_conv)
    with None 2(2) pc p1 show ?thesis by auto
  next
    case (Some sp)
    obtain sps1 p2 w2 where cm: "connect_more os ep n p1 w1 = (sps1, p2, w2)"
      by (cases "connect_more os ep n p1 w1") auto
    from 2(1) [OF pc [symmetric, unfolded Some] refl refl cm] 2(2) pc Some cm p1
    show ?thesis by auto
  qed
qed

text \<open>What a completed check leaves of the endpoint.\<close>

definition checked :: "('ep, 'w) asio_os \<Rightarrow> nat \<Rightarrow> 'ep::linorder asio_pool \<Rightarrow> 'ep \<Rightarrow> bool" where
  "checked os mn q ep \<longleftrightarrow>
     (reachable_ep os ep \<longrightarrow> status_of q ep = kConnected \<and> mn \<le> length (pool_of q ep)
        \<and> 0 < length (pool_of q ep))
     \<and> (unreachable_ep os ep \<longrightarrow> status_of q ep = kDisConnected \<and> pool_of q ep = [])
     \<and> (status_of q ep = kConnected \<or> status_of q ep = kDisConnected)"

text \<open>The three outcomes of a check.\<close>

lemma probe_endpoint_facts:
  assumes inv: "asio_inv p" and st: "checkable (status_of p ep)"
  shows "\<exists>q w'. probe_endpoint os ep (status_of p ep) p w = Ok (q, w') \<and> asio_inv q
    \<and> (\<forall>x. x \<noteq> ep \<longrightarrow> entry x q = entry x p) \<and> checked os (min_conn_per_endpoint p) q ep
    \<and> min_conn_per_endpoint q = min_conn_per_endpoint p"
proof -
  let ?p = "touch ep p" and ?st = "status_of p ep"
  obtain r p1 w1 where pc: "pool_connect os ep ?p w = (r, p1, w1)"
    by (cases "pool_connect os ep ?p w") auto
  obtain i ios where p1: "p1 = ?p\<lparr>ios_pool := ios\<rparr>"
    and sc: "socket_connect os i ep (connect_timeout ?p) w = (r, w1)"
    using pool_connect_facts [OF pc] by blast
  have ok: "map_ok_std (ap_map p)" using inv by blast
  have ipd: "asio_inv (p1\<lparr>stats := s\<rparr>)" "asio_inv p1" for s using inv by (simp_all add: p1 inv_touch)
  have ents: "entry x (p1\<lparr>stats := s\<rparr>) = entry x p" "entry x p1 = entry x p" for x s
    using ok by (simp_all add: p1)
  have okd: "map_ok_std (ap_map (p1\<lparr>stats := s\<rparr>))" "map_ok_std (ap_map p1)" for s using ipd by blast+
  have mn1: "min_conn_per_endpoint (p1\<lparr>stats := s\<rparr>) = min_conn_per_endpoint p"
    "min_conn_per_endpoint p1 = min_conn_per_endpoint p" for s by (simp_all add: p1)
  have nd: "?st \<noteq> kDeleting" "?st \<noteq> kDeleted" using st by (auto simp: checkable_def)
  show ?thesis
  proof (cases r)
    case None
    with sc have "\<not> reachable_ep os ep" by (auto simp: reachable_ep_def) (metis fst_conv)
    define p2 where "p2 = (if ?st = kConnected
      then p1\<lparr>stats := (stats p1)\<lparr>disconnected_count := disconnected_count (stats p1) + 1\<rparr>\<rparr> else p1)"
    have p2: "asio_inv p2" "entry x p2 = entry x p" "map_ok_std (ap_map p2)"
      "min_conn_per_endpoint p2 = min_conn_per_endpoint p" for x
      using ipd ents okd mn1 by (simp_all add: p2_def)
    obtain tmp q where f: "probe_failed_section ep p2 = (tmp, q)" by (cases "probe_failed_section ep p2")
    have "probe_endpoint os ep ?st p w = Ok (q, clear_pool os tmp w1)"
      using nd pc None f by (simp add: probe_endpoint_def check_section_def p2_def [symmetric])
    moreover have "asio_inv q" by (rule probe_failed_section_inv [OF p2(1) f])
    moreover have "entry x q = (if x = ep then \<lparr>ep_status = kDisConnected, ep_pool = []\<rparr> else entry x p)" for x
      using f nd p2(2,3) by (auto simp: probe_failed_section_def Let_def status_of_def split: if_splits)
    moreover have "min_conn_per_endpoint q = min_conn_per_endpoint p2"
      using f by (auto simp: probe_failed_section_def Let_def split: if_splits)
    ultimately show ?thesis
      using \<open>\<not> reachable_ep os ep\<close> p2(4) by (auto simp: checked_def status_of_def pool_of_def)
  next
    case (Some sp)
    with sc have un: "\<not> unreachable_ep os ep" by (auto simp: unreachable_ep_def) (metis fst_conv option.discI)
    define p2 where "p2 = (if ?st \<noteq> kConnected
      then p1\<lparr>stats := (stats p1)\<lparr>connected_count := connected_count (stats p1) + 1\<rparr>\<rparr> else p1)"
    have p2: "asio_inv p2" "entry x p2 = entry x p" "map_ok_std (ap_map p2)"
      "min_conn_per_endpoint p2 = min_conn_per_endpoint p" for x
      using ipd ents okd mn1 by (simp_all add: p2_def)
    let ?keep = "kept p2 (pool_of p ep @ [sp])"
    obtain d need q where f: "probe_ok_section ep sp p2 = ((True, d, need), q)"
      and need: "need = min_conn_per_endpoint p2 - length ?keep"
      and q: "entry x q = (if x = ep then \<lparr>ep_status = kConnected, ep_pool = ?keep\<rparr> else entry x p)"
        "max_conn_per_endpoint q = max_conn_per_endpoint p2" "min_conn_per_endpoint q = min_conn_per_endpoint p2" for x
      using nd p2(2,3) by (simp add: probe_ok_section_def Let_def status_of_def pool_of_def kept_def cut_off_def)
    have iq: "asio_inv q" by (rule probe_ok_section_inv [OF p2(1) f])
    have pos: "0 < length ?keep" using inv_max [OF p2(1)] by (simp add: length_kept)
    show ?thesis
    proof (cases "need = 0")
      case True
      with nd pc Some f have "probe_endpoint os ep ?st p w = Ok (q, drop_pool os d w1)"
        by (simp add: probe_endpoint_def check_section_def p2_def [symmetric])
      with True need iq q pos un p2(4) show ?thesis
        by (auto simp: checked_def status_of_def pool_of_def)
    next
      case False
      obtain sps q1 w2 where cm: "connect_more os ep need q (drop_pool os d w1) = (sps, q1, w2)"
        by (cases "connect_more os ep need q (drop_pool os d w1)") auto
      note cmf = connect_more_facts [OF cm]
      then obtain ios2 where q1: "q1 = q\<lparr>ios_pool := ios2\<rparr>" by blast
      obtain d2 q2 where f2: "probe_more_section ep sps q1 = (d2, q2)" by (cases "probe_more_section ep sps q1")
      have run: "probe_endpoint os ep ?st p w = Ok (q2, drop_pool os d2 w2)"
        using nd pc Some f cm f2 False
        by (simp add: probe_endpoint_def check_section_def p2_def [symmetric])
      have "asio_inv q1" using iq by (simp add: q1)
      then have i2: "asio_inv q2" and okq: "map_ok_std (ap_map q1)"
        using probe_more_section_inv [OF _ f2] by blast+
      have "min_conn_per_endpoint q2 = min_conn_per_endpoint p2"
        using f2 q by (auto simp: probe_more_section_def Let_def q1 split: if_splits)
      moreover have ent: "entry x q2 = (if x = ep then \<lparr>ep_status = kConnected,
          ep_pool = kept q1 (?keep @ sps)\<rparr> else entry x p)" for x
        using f2 q okq by (auto simp: probe_more_section_def Let_def q1 split: if_splits)
      moreover have "length (kept q1 (?keep @ sps)) = min (length ?keep + length sps) (max_conn_per_endpoint p2)"
        using inv_max [OF p2(1)] q by (simp add: length_kept q1)
      moreover from this have "kept q1 (?keep @ sps) \<noteq> []" using pos inv_max [OF p2(1)] by (auto simp: min_def split: if_splits)
      moreover have "min_conn_per_endpoint p \<le> length (kept q1 (?keep @ sps))" if "reachable_ep os ep"
        using calculation(3) cmf that need inv_max [OF p2(1)] p2(4) by simp
      ultimately show ?thesis
        using run i2 un p2(4) by (simp add: checked_def status_of_def pool_of_def)
    qed
  qed
qed

lemma probe_endpoints_facts:
  assumes "asio_inv p" and "distinct (map fst chks)" and "\<forall>(ep, s) \<in> set chks. checkable s \<and> status_of p ep = s"
  shows "\<exists>q w'. probe_endpoints os chks p w = Ok (q, w') \<and> asio_inv q
    \<and> (\<forall>x. x \<notin> fst ` set chks \<longrightarrow> entry x q = entry x p)
    \<and> (\<forall>x \<in> fst ` set chks. checked os (min_conn_per_endpoint p) q x)"
  using assms
proof (induction chks arbitrary: p w)
  case Nil
  then show ?case by simp
next
  case (Cons c chks)
  obtain ep s where c: "c = (ep, s)" by (cases c)
  from Cons.prems have st: "checkable (status_of p ep)" "s = status_of p ep" by (auto simp: c)
  from probe_endpoint_facts [OF Cons.prems(1) st(1), of os w] obtain q w'
    where q: "probe_endpoint os ep (status_of p ep) p w = Ok (q, w')" "asio_inv q"
      "\<forall>x. x \<noteq> ep \<longrightarrow> entry x q = entry x p" "checked os (min_conn_per_endpoint p) q ep"
      "min_conn_per_endpoint q = min_conn_per_endpoint p" by blast
  have new: "ep \<notin> fst ` set chks" using Cons.prems(2) by (auto simp: c)
  have "\<forall>(ep, s) \<in> set chks. checkable s \<and> status_of q ep = s"
    using Cons.prems(2,3) q(3) by (fastforce simp: c status_of_def)
  from Cons.IH [OF q(2) _ this, of w'] Cons.prems(2) obtain q' w''
    where q': "probe_endpoints os chks q w' = Ok (q', w'')" "asio_inv q'"
      "\<forall>x. x \<notin> fst ` set chks \<longrightarrow> entry x q' = entry x q"
      "\<forall>x \<in> fst ` set chks. checked os (min_conn_per_endpoint q) q' x" by auto
  have "entry ep q' = entry ep q" using q'(3) new by blast
  then have "checked os (min_conn_per_endpoint p) q' ep"
    using q(4) by (simp add: checked_def status_of_def pool_of_def)
  then show ?case using q q' by (auto simp: c st(2))
qed

lemma probe_effect:
  assumes inv: "asio_inv p"
  shows "\<exists>q w'. asio_probe os quick p w = Ok (q, w') \<and> asio_inv q \<and>
    (case status_of p ep of
       kDeleting \<Rightarrow> status_of q ep = kDeleted
     | kDeleted \<Rightarrow> status_of q ep = kDeleted
     | kConnected \<Rightarrow> entry ep q = entry ep p \<or> \<not> quick \<and> checked os (min_conn_per_endpoint p) q ep
     | _ \<Rightarrow> checked os (min_conn_per_endpoint p) q ep)"
proof -
  obtain chks tmps p5 w5 where scan: "scan_section os quick p w = ((chks, tmps), p5, w5)"
    by (cases "scan_section os quick p w") auto
  note sf = scan_section_facts [OF inv scan]
  obtain q w' where run: "probe_endpoints os chks p5 (fold (clear_pool os) tmps w5) = Ok (q, w')"
    and iq: "asio_inv q" and frame: "\<forall>x. x \<notin> fst ` set chks \<longrightarrow> entry x q = entry x p5"
    and chk: "\<forall>x \<in> fst ` set chks. checked os (min_conn_per_endpoint p5) q x"
    using probe_endpoints_facts [OF sf(1,5), of os "fold (clear_pool os) tmps w5"] sf(4) by fastforce
  have mn: "min_conn_per_endpoint p5 = min_conn_per_endpoint p" by (subst sf(8)) simp
  have go: "asio_probe os quick p w = Ok (q, w')" by (simp add: asio_probe_def scan run)
  have in_chk: "checkable (status_of p5 ep)" "status_of p5 ep = kConnected \<longrightarrow> \<not> quick" if "ep \<in> fst ` set chks"
    using that sf(4) [of ep] sf(6) by (force simp: image_iff)+
  show ?thesis
  proof (cases "ep \<in> fst ` set chks")
    case True
    with in_chk sf(2) [of ep] chk mn go iq show ?thesis
      by (intro exI [of _ q] exI [of _ w'])
        (auto simp: scan_entry_def status_of_def checkable_def split: kStatus.splits)
  next
    case False
    then have e: "entry ep q = entry ep p5" using frame by blast
    have "status_of p ep \<noteq> kAdding" "status_of p ep \<noteq> kDisConnected"
      using sf(7) [of ep] False by force+
    moreover have "entry ep p5 = entry ep p" if "status_of p ep = kConnected"
      using sf(9) [OF that] False by force
    ultimately show ?thesis
      using sf(2) [of ep] sf(3) [of ep] e go iq
      by (intro exI [of _ q] exI [of _ w'])
        (auto simp: scan_entry_def status_of_def split: kStatus.splits)
  qed
qed

lemma asio_probe_runs: "asio_inv p \<Longrightarrow> \<exists>q w'. asio_probe os quick p w = Ok (q, w')"
  using probe_effect [of p os quick w undefined] by auto

lemma asio_probe_cases:
  "asio_inv p \<Longrightarrow> asio_probe os quick p w = Ok (q, w') \<Longrightarrow> asio_inv q \<and>
    (case status_of p ep of
       kDeleting \<Rightarrow> status_of q ep = kDeleted
     | kDeleted \<Rightarrow> status_of q ep = kDeleted
     | kConnected \<Rightarrow> entry ep q = entry ep p \<or> \<not> quick \<and> checked os (min_conn_per_endpoint p) q ep
     | _ \<Rightarrow> checked os (min_conn_per_endpoint p) q ep)"
  using probe_effect [of p os quick w ep] by auto

lemma entry_option: "map_of (ap_map p) ep = Some e \<Longrightarrow> entry ep p = e"
  by (simp add: entry_def map_at_def)

lemma entry_none: "map_of (ap_map p) ep = None \<Longrightarrow> entry ep p = fresh_pool"
  by (simp add: entry_def map_at_def)

section \<open>Properties\<close>


text \<open>C17: Whatever the threads do and however their critical sections interleave, only a kConnected
  endpoint has pooled sockets, and no endpoint ever has more than max\_conn\_per\_endpoint of them.\<close>

theorem asio_pool_bounds:
  assumes "reach asio_start (asio_step os) p"
  shows "(status_of p ep \<noteq> kConnected \<longrightarrow> pool_of p ep = [])
    \<and> length (pool_of p ep) \<le> max_conn_per_endpoint p"
  using inv_entry [OF asio_sys.reachable_inv [OF assms], of ep]
  by (simp add: entry_ok_def status_of_def pool_of_def)

text \<open>C18: Every critical section changes the status of every endpoint the way the table in the
  source allows, except clearing the pool and two races: a get whose connection attempt fails, and
  a probe, override a deletion that happened since they looked at the status.\<close>

theorem asio_status_table:
  assumes "asio_inv p" and "asio_section os l p q"
  shows "allowed (status_of p ep) (status_of q ep) \<or> l = SecClear
    \<or> (l = SecGetFailed ep \<and> status_of p ep \<in> {kDeleting, kDeleted})
    \<or> ((l = SecProbeFailed ep \<or> (\<exists>sp. l = SecProbeOk ep sp)) \<and> status_of p ep = kDeleted)"
  using assms(2)
proof (cases rule: asio_section.cases)
  case (7 quick w r w')
  then obtain chks tmps where "scan_section os quick p w = ((chks, tmps), q, w')" by (cases r) auto
  from scan_section_facts(2) [OF assms(1) this, of ep] show ?thesis
    by (auto simp: scan_entry_def status_of_def allowed_def)
qed (use inv_map [OF assms(1)] in
    \<open>cases "ep_status (entry ep p)"; force simp: section_defs Let_def status_of_def allowed_def entry_option
       split: if_splits option.splits prod.splits\<close>)+

text \<open>A deletion can be undone.  If del runs while a get of the same endpoint is between its two
  critical sections and the connection attempt of that get fails, the endpoint is not kDeleting but
  kDisConnected afterwards; the next probe then checks it again, and makes it kConnected as soon as
  it can connect: the deleted endpoint is back in use.\<close>

theorem deletion_undone_by_get:
  assumes inv: "asio_inv p" and g: "get_section os ep p w = (GetCreate tmp, p1, w1)"
    and c: "pool_connect os ep p1 (clear_pool os tmp w1) = (None, p1', w1')"
    and d: "del_section ep p1' = (tmp2, p2)" and f: "get_failed_section ep p2 = (tmp3, p3)"
  shows "status_of p2 ep = kDeleting \<and> status_of p3 ep = kDisConnected
    \<and> (\<exists>chks tmps p4 w4. scan_section os quick p3 w3 = ((chks, tmps), p4, w4) \<and> (ep, kDisConnected) \<in> set chks)
    \<and> status_of (snd (probe_ok_section ep sp p3)) ep = kConnected"
proof -
  have i1: "asio_inv p1" by (rule get_section_inv [OF inv g])
  obtain ios where p1': "p1' = p1\<lparr>ios_pool := ios\<rparr>" using pool_connect_facts [OF c] by blast
  have i1': "asio_inv p1'" using i1 by (simp add: p1')
  have i2: "asio_inv p2" by (rule del_section_inv [OF i1' d])
  have i3: "asio_inv p3" by (rule get_failed_section_inv [OF i2 f])
  have ok1: "map_ok_std (ap_map p1')" using i1' by blast
  have "status_of p1' ep = kConnected"
    using g inv_map [OF inv]
    by (auto simp: get_section_def Let_def status_of_def p1' split: if_splits prod.splits)
  moreover from this obtain e where "map_of (ap_map p1') ep = Some e"
    by (cases "map_of (ap_map p1') ep") (auto simp: status_of_def entry_def map_at_def fresh_pool_def)
  ultimately have s2: "status_of p2 ep = kDeleting"
    using d ok1 by (auto simp: del_section_def status_of_def entry_option)
  have s3: "status_of p3 ep = kDisConnected"
    using f inv_map [OF i2] by (auto simp: get_failed_section_def status_of_def)
  obtain chks tmps p4 w4 where scan: "scan_section os quick p3 w3 = ((chks, tmps), p4, w4)"
    by (cases "scan_section os quick p3 w3") auto
  have "(ep, kDisConnected) \<in> set chks" using scan_section_facts(7) [OF i3 scan, of ep] s3 by simp
  moreover have "status_of (snd (probe_ok_section ep sp p3)) ep = kConnected"
    using s3 inv_map [OF i3] by (simp add: probe_ok_section_def Let_def status_of_def)
  ultimately show ?thesis using s2 s3 scan by blast
qed

text \<open>A get on an endpoint that is not kConnected fails without trying to connect.  On a
  kConnected one it fails only if the connection attempt fails, and then the endpoint becomes
  kDisConnected with no sockets; otherwise the socket is the newest pooled one, which was alive, or
  a new one.  Every get counts in exactly one of the three counters and leaves the other endpoints
  alone.\<close>

theorem asio_get_outcomes:
  assumes inv: "asio_inv p" and run: "asio_get os ep p w = (r, q, w')"
  shows "(status_of p ep \<noteq> kConnected \<longrightarrow> r = None \<and> w' = w \<and> status_of q ep = status_of p ep)
    \<and> (status_of p ep = kConnected \<and> r = None \<longrightarrow> status_of q ep = kDisConnected \<and> pool_of q ep = [])
    \<and> (\<forall>sp. r = Some sp \<longrightarrow> status_of q ep = kConnected \<and>
         (pool_of p ep = pool_of q ep @ [sp] \<and> \<not> fst (socket_is_closed os sp w) \<or> pool_of q ep = []))
    \<and> gets_counted (stats q) = gets_counted (stats p) + 1
    \<and> (r = None \<longleftrightarrow> got_conn_failure (stats q) = got_conn_failure (stats p) + 1)
    \<and> (\<forall>x. x \<noteq> ep \<longrightarrow> status_of q x = status_of p x \<and> pool_of q x = pool_of p x)"
proof (cases "status_of p ep = kConnected")
  case False
  from asio_get_not_connected [OF inv False, of os w] run inv False show ?thesis
    by (auto simp: status_of_def pool_of_def gets_counted_def inv_map)
next
  case True
  note f = asio_get_connected [OF inv True run]
  show ?thesis
  proof (cases r)
    case None
    with f(2,3) True show ?thesis by (simp add: status_of_def pool_of_def gets_counted_def)
  next
    case (Some sp)
    with f(2) f(4) [OF Some] True show ?thesis
      by (auto simp: status_of_def pool_of_def gets_counted_def)
  qed
qed

text \<open>A socket put back to a kConnected endpoint with room is the one the next get of that
  endpoint hands out, as long as its peer has not closed it, and the pool is as before.\<close>

theorem asio_put_get:
  assumes inv: "asio_inv p" and c: "status_of p ep = kConnected"
    and room: "length (pool_of p ep) < max_conn_per_endpoint p"
    and opened: "sp_is_open os s w" and remote: "sp_remote os s w = Some ep"
    and put: "asio_put os (Some s) p w = Ok (res, q, w1)"
    and alive: "socket_is_closed os s w1 = (False, w2)"
  shows "res = PutKept None \<and> pool_of q ep = pool_of p ep @ [s]
    \<and> (\<exists>q2. asio_get os ep q w1 = (Some s, q2, w2) \<and> pool_of q2 ep = pool_of p ep \<and> status_of q2 ep = kConnected)"
proof -
  have ok: "map_ok_std (ap_map p)" using inv by blast
  have k: "kept p (pool_of p ep @ [s]) = pool_of p ep @ [s]" "cut_off p (pool_of p ep @ [s]) = []"
    using room by (simp_all add: kept_def cut_off_def)
  from put opened remote c ok have q: "q = set_entry ep ((entry ep p)\<lparr>ep_pool := pool_of p ep @ [s]\<rparr>) (touch ep p)"
    and res: "res = PutKept None"
    using k by (auto simp: asio_put_def put_section_def Let_def status_of_def pool_of_def split: if_splits)
  have okq: "map_ok_std (ap_map q)" using ok by (simp add: q)
  have eq: "entry ep q = (entry ep p)\<lparr>ep_pool := pool_of p ep @ [s]\<rparr>" using ok by (simp add: q)
  with res c alive okq show ?thesis
    by (simp add: asio_get_def get_section_def Let_def status_of_def pool_of_def)
qed

text \<open>A probe never fails an assertion.  After it, kDeleting endpoints are kDeleted and kDeleted
  ones stay so; every endpoint that was being added or was disconnected is kConnected with at least
  the minimum number of sockets if it can be connected to, and kDisConnected without sockets if it
  cannot; and a kConnected endpoint is left as it is or checked the same way.\<close>

theorem asio_probe_effect:
  assumes inv: "asio_inv p"
  shows "\<exists>q w'. asio_probe os quick p w = Ok (q, w') \<and> asio_inv q \<and>
    (case status_of p ep of
       kDeleting \<Rightarrow> status_of q ep = kDeleted
     | kDeleted \<Rightarrow> status_of q ep = kDeleted
     | kConnected \<Rightarrow> entry ep q = entry ep p \<or> \<not> quick \<and> checked os (min_conn_per_endpoint p) q ep
     | _ \<Rightarrow> checked os (min_conn_per_endpoint p) q ep)"
  using probe_effect [OF inv] .

section \<open>A small network\<close>

text \<open>
  Endpoints are numbers; those below 10 accept connections.  The world is the next descriptor.
  Every open socket is alive; socket \<open>s\<close> is connected to endpoint 5.
\<close>

definition lab_os :: "(nat, nat) asio_os" where
  "lab_os = \<lparr>os_socket = (\<lambda>_ w. (Some w, w + 1)), os_sndtimeo = (\<lambda>_ _ w. w),
     os_connect = (\<lambda>_ ep w. (ep < 10, w)), os_close = (\<lambda>_ w. w),
     os_recv_peek = (\<lambda>_ w. ((- 1, 11), w)), os_EAGAIN = 11, os_EINTR = 4,
     sp_new = (\<lambda>_ _ fd w. (fd, w)), sp_is_open = (\<lambda>_ _. True), sp_native = (\<lambda>s _. s),
     sp_close = (\<lambda>_ w. w), sp_release = (\<lambda>_ w. w), sp_remote = (\<lambda>_ _. Some 5), ep_is_v4 = (\<lambda>_. True)\<rparr>"

definition lab_pool :: "nat asio_pool" where
  "lab_pool = \<lparr>max_conn_per_endpoint = 3, min_conn_per_endpoint = 2, connect_timeout = 20,
     probe_cycle = 10, ios_pool = io_service_pool_init 2,
     ap_map = [(5, \<lparr>ep_status = kConnected, ep_pool = [1]\<rparr>), (7, \<lparr>ep_status = kAdding, ep_pool = []\<rparr>),
               (20, \<lparr>ep_status = kConnected, ep_pool = []\<rparr>)],
     stats = stats_clear, probe_thread = True, probe_timer = None, quick_probe_timer = None\<rparr>"

lemma lab_inv: "asio_inv lab_pool"
  by (auto simp: asio_inv_def lab_pool_def map_ok_std_def set_ok_def entry_ok_def entry_def map_at_def
      fresh_pool_def)

lemmas lab_run = lab_pool_def lab_os_def get_section_def status_of_def pool_of_def entry_def touch_def
  set_entry_def map_touch_def map_at_def fresh_pool_def Let_def socket_is_closed_def fd_is_closed_def
  socket_connect_def pool_connect_def clear_pool_def get_failed_section_def del_section_def
  asio_put_def put_section_def kept_def cut_off_def drop_pool_def get_io_service_def
  io_service_pool_init_def

text \<open>An endpoint added, probed and put a second connection for.\<close>

definition lab_grown :: "nat asio_pool option" where
  "lab_grown = (case asio_init (io_service_pool_init 2) 3 2 20 10 of
     Ok p \<Rightarrow> Some (snd (snd (put_section 5 9 (snd (probe_ok_section 5 8 (snd (add_section 5 p)))))))
   | _ \<Rightarrow> None)"

theorem asio_pool_bounds_witness:
  "\<exists>p. lab_grown = Some p \<and> status_of p 5 = kConnected \<and> pool_of p 5 \<noteq> [] \<and> status_of p 7 \<noteq> kConnected
     \<and> pool_of p 7 = [] \<and> length (pool_of p 5) \<le> max_conn_per_endpoint p"
proof -
  obtain p :: "nat asio_pool" where p: "asio_init (io_service_pool_init 2) 3 2 20 10 = Ok p"
    by (simp add: asio_init_def Let_def)
  let ?p1 = "snd (add_section 5 p)"
  let ?p2 = "snd (probe_ok_section 5 8 ?p1)"
  let ?p3 = "snd (snd (put_section 5 9 ?p2))"
  have step: "asio_section lab_os l x y \<Longrightarrow> asio_step lab_os x y" for l and x y :: "nat asio_pool"
    unfolding asio_step_def by blast
  from p have "asio_start p" unfolding asio_start_def by blast
  then have "reach asio_start (asio_step lab_os) p" by (rule reach_init)
  from reach_step [OF this step [OF asio_section.intros(1) [where tmp = "fst (add_section 5 p)"]]]
  have "reach asio_start (asio_step lab_os) ?p1" by simp
  from reach_step [OF this step [OF asio_section.intros(10) [where r = "fst (probe_ok_section 5 8 ?p1)"]]]
  have "reach asio_start (asio_step lab_os) ?p2" by simp
  from reach_step [OF this step [OF asio_section.intros(6)
      [where b = "fst (put_section 5 9 ?p2)" and dropped = "fst (snd (put_section 5 9 ?p2))"]]]
  have r: "reach asio_start (asio_step lab_os) ?p3" by simp
  have l: "lab_grown = Some ?p3" by (simp add: lab_grown_def p)
  have "case lab_grown of None \<Rightarrow> False | Some p \<Rightarrow> status_of p 5 = kConnected \<and> pool_of p 5 \<noteq> [] \<and> status_of p 7 \<noteq> kConnected"
    by code_simp
  then have c: "status_of ?p3 5 = kConnected" "pool_of ?p3 5 \<noteq> []" "status_of ?p3 7 \<noteq> kConnected" unfolding l by simp_all
  from asio_pool_bounds [OF r, of 5] asio_pool_bounds [OF r, of 7] l c show ?thesis by blast
qed

theorem asio_status_table_witness:
  "allowed (status_of lab_pool 7) (status_of (snd (del_section 7 lab_pool)) 7)"
proof -
  have "asio_section lab_os (SecDel 7) lab_pool (snd (del_section 7 lab_pool))"
    by (rule asio_section.intros(2) [where tmp = "fst (del_section 7 lab_pool)"]) simp
  from asio_status_table [OF lab_inv this, of 7] show ?thesis by simp
qed

theorem deletion_undone_by_get_witness:
  "\<exists>p1 p1' p2 p3 tmp2 tmp3. get_section lab_os 20 lab_pool 30 = (GetCreate [], p1, 30)
     \<and> pool_connect lab_os 20 p1 30 = (None, p1', 31) \<and> del_section 20 p1' = (tmp2, p2)
     \<and> get_failed_section 20 p2 = (tmp3, p3)
     \<and> status_of p2 20 = kDeleting \<and> status_of p3 20 = kDisConnected"
proof -
  obtain p1 where g: "get_section lab_os 20 lab_pool 30 = (GetCreate [], p1, 30)"
    by (simp add: lab_run)
  obtain p1' where c: "pool_connect lab_os 20 p1 (clear_pool lab_os [] 30) = (None, p1', 31)"
    by (simp add: lab_run split: prod.splits)
  obtain tmp2 p2 where d: "del_section 20 p1' = (tmp2, p2)" by (cases "del_section 20 p1'")
  obtain tmp3 p3 where f: "get_failed_section 20 p2 = (tmp3, p3)" by (cases "get_failed_section 20 p2")
  have "pool_connect lab_os 20 p1 30 = (None, p1', 31)" using c by (simp add: clear_pool_def)
  with deletion_undone_by_get [OF lab_inv g c d f] g d f show ?thesis by blast
qed

theorem asio_get_outcomes_witness:
  "\<exists>q w'. asio_get lab_os 20 lab_pool 30 = (None, q, w') \<and> status_of q 20 = kDisConnected"
proof -
  obtain r q w' where run: "asio_get lab_os 20 lab_pool 30 = (r, q, w')"
    by (cases "asio_get lab_os 20 lab_pool 30") auto
  have "fst (asio_get lab_os 20 lab_pool 30) = None"
    by (simp add: asio_get_def lab_run)
  with asio_get_outcomes [OF lab_inv run] run show ?thesis
    by (simp add: lab_pool_def status_of_def entry_def map_at_def)
qed

theorem asio_put_get_witness:
  "\<exists>q w1 q2. asio_put lab_os (Some 9) lab_pool 30 = Ok (PutKept None, q, w1) \<and> pool_of q 5 = [1, 9]
     \<and> asio_get lab_os 5 q w1 = (Some 9, q2, w1)"
proof -
  obtain res q where put: "asio_put lab_os (Some 9) lab_pool 30 = Ok (res, q, 30)"
    by (simp add: lab_run)
  have facts: "status_of lab_pool 5 = kConnected" "length (pool_of lab_pool 5) < max_conn_per_endpoint lab_pool"
    "sp_is_open lab_os 9 30" "sp_remote lab_os 9 30 = Some 5" "socket_is_closed lab_os 9 30 = (False, 30)"
    "pool_of lab_pool 5 = [1]"
    by (simp_all add: lab_run)
  from asio_put_get [OF lab_inv facts(1,2,3,4) put facts(5)] put facts(6) show ?thesis by auto
qed

theorem asio_probe_effect_witness:
  "\<exists>q w'. asio_probe lab_os True lab_pool 30 = Ok (q, w') \<and> status_of q 7 = kConnected"
proof -
  have r: "reachable_ep lab_os 7" by (simp add: reachable_ep_def lab_run)
  have "status_of lab_pool 7 = kAdding" by (simp add: lab_run)
  with asio_probe_effect [OF lab_inv, of lab_os True 30 7] r show ?thesis
    by (auto simp: checked_def)
qed

section \<open>The contract of a socket pool\<close>

text \<open>What a client of the pool relies on when it runs alone.\<close>

locale socket_pool =
  fixes get :: "'ep \<Rightarrow> 's \<Rightarrow> nat option \<times> 's" and usable :: "'s \<Rightarrow> 'ep \<Rightarrow> bool" and inv :: "'s \<Rightarrow> bool"
  assumes get_inv: "inv s \<Longrightarrow> inv (snd (get ep s))"
    and get_unusable: "inv s \<Longrightarrow> \<not> usable s ep \<Longrightarrow> fst (get ep s) = None"
    and get_usable: "inv s \<Longrightarrow> usable (snd (get ep s)) ep \<longleftrightarrow> fst (get ep s) \<noteq> None"
    and get_frame: "inv s \<Longrightarrow> x \<noteq> ep \<Longrightarrow> usable (snd (get ep s)) x = usable s x"
begin

fun try_all :: "'ep list \<Rightarrow> 's \<Rightarrow> nat option \<times> 's" where
  "try_all [] s = (None, s)"
| "try_all (ep # eps) s = (case get ep s of (Some sp, s') \<Rightarrow> (Some sp, s') | (None, s') \<Rightarrow> try_all eps s')"

lemma try_all_inv: "inv s \<Longrightarrow> inv (snd (try_all eps s))"
proof (induction eps arbitrary: s)
  case (Cons ep eps)
  from get_inv [OF Cons.prems, of ep] Cons.IH [of "snd (get ep s)"] show ?case
    by (cases "get ep s") (auto split: option.splits)
qed simp

lemma try_all_None:
  "inv s \<Longrightarrow> fst (try_all eps s) = None \<Longrightarrow> ep \<in> set eps \<Longrightarrow> \<not> usable (snd (try_all eps s)) ep"
proof (induction eps arbitrary: s)
  case (Cons x eps)
  obtain r s' where g: "get x s = (r, s')" by (cases "get x s")
  have i: "inv s'" using get_inv [OF Cons.prems(1), of x] g by simp
  from Cons.prems(2) g have r: "r = None" and n: "fst (try_all eps s') = None"
    by (cases r; auto)+
  have stays: "\<not> usable t ep \<Longrightarrow> inv t \<Longrightarrow> \<not> usable (snd (try_all xs t)) ep" for t xs
  proof (induction xs arbitrary: t)
    case (Cons y xs)
    obtain r' t' where g': "get y t = (r', t')" by (cases "get y t")
    have "\<not> usable t' ep"
      using get_frame [OF Cons.prems(2), of ep y] get_usable [OF Cons.prems(2), of y]
        get_unusable [OF Cons.prems(2), of y] Cons.prems(1) g' by (cases "y = ep") auto
    moreover have "inv t'" using get_inv [OF Cons.prems(2), of y] g' by simp
    ultimately show ?case using Cons.IH [of t'] g' by (auto split: option.splits)
  qed simp
  show ?case
  proof (cases "ep = x")
    case True
    then have "\<not> usable s' ep" using get_usable [OF Cons.prems(1), of x] g r by simp
    with stays [OF this i, of eps] g r show ?thesis by simp
  next
    case False
    with Cons.prems(3) Cons.IH [OF i n] g r show ?thesis by simp
  qed
qed simp

end

definition asio_get_pair ::
  "('ep::linorder, 'w) asio_os \<Rightarrow> 'ep \<Rightarrow> 'ep asio_pool \<times> 'w \<Rightarrow> nat option \<times> ('ep asio_pool \<times> 'w)" where
  "asio_get_pair os ep s = (case asio_get os ep (fst s) (snd s) of (r, q, w) \<Rightarrow> (r, (q, w)))"

interpretation asio_provider: socket_pool "asio_get_pair os"
  "\<lambda>s ep. status_of (fst s) ep = kConnected" "\<lambda>s. asio_inv (fst s)" for os :: "('ep::linorder, 'w) asio_os"
proof unfold_locales
  fix s :: "'ep asio_pool \<times> 'w" and ep x :: 'ep
  assume inv: "asio_inv (fst s)"
  obtain r q w where run: "asio_get os ep (fst s) (snd s) = (r, q, w)"
    by (cases "asio_get os ep (fst s) (snd s)") auto
  show "asio_inv (fst (snd (asio_get_pair os ep s)))"
    using asio_get_not_connected [OF inv, of ep os "snd s"] asio_get_connected(1) [OF inv _ run] run inv
    by (cases "status_of (fst s) ep = kConnected") (auto simp: asio_get_pair_def inv_touch)
  show "status_of (fst s) ep \<noteq> kConnected \<Longrightarrow> fst (asio_get_pair os ep s) = None"
    using asio_get_not_connected [OF inv, of ep os "snd s"] by (simp add: asio_get_pair_def)
  show "status_of (fst (snd (asio_get_pair os ep s))) ep = kConnected \<longleftrightarrow> fst (asio_get_pair os ep s) \<noteq> None"
    using asio_get_not_connected [OF inv, of ep os "snd s"] asio_get_connected(3,4) [OF inv _ run] run inv
    by (cases "status_of (fst s) ep = kConnected"; cases r)
      (auto simp: asio_get_pair_def status_of_def inv_map)
  show "x \<noteq> ep \<Longrightarrow> (status_of (fst (snd (asio_get_pair os ep s))) x = kConnected) = (status_of (fst s) x = kConnected)"
    using asio_get_not_connected [OF inv, of ep os "snd s"] asio_get_connected(2) [OF inv _ run, of x] run inv
    by (cases "status_of (fst s) ep = kConnected") (auto simp: asio_get_pair_def status_of_def inv_map)
qed

end
