(* ===== verification/ServiceManager.thy ===== *)
theory ServiceManager
  imports AsioPoolSpec
begin

text \<open>
  src/async/service\_manager.cpp: services (by number) and the backends they run on, chosen in turn
  and connected through the socket pool.  The backends of a service are a \<open>std::set\<close> whose nodes
  have addresses, because \<open>sep_select_vec\<close> keeps pointers to them; following a pointer to a node
  that is no longer in the set is undefined behaviour.  Splitting of strings, name resolution, the
  host name and the shuffle are library functions, gathered in \<open>sm_env\<close>.
\<close>

record ('ep, 'w) sm_env =
  env_os :: "('ep, 'w) asio_os"
  env_split :: "char \<Rightarrow> string \<Rightarrow> string list"
  env_resolve :: "string \<Rightarrow> string \<Rightarrow> 'w \<Rightarrow> 'ep option \<times> 'w"
  env_host_name :: string
  env_shuffle :: "nat list \<Rightarrow> 'w \<Rightarrow> nat list \<times> 'w"
  env_ep_str :: "'ep \<Rightarrow> string"

record 'ep service_endpoint =
  sep_host :: string
  sep_port :: string
  sep_host_port :: string
  sep_endpoint :: 'ep
  sep_local :: bool
  sep_success :: u64
  sep_failure :: u64

text \<open>\<open>ServiceEndPointLess\<close> compares these keys: local backends first, then by endpoint.\<close>

definition sep_key :: "'ep service_endpoint \<Rightarrow> bool \<times> 'ep" where
  "sep_key s = (\<not> sep_local s, sep_endpoint s)"

text \<open>A node of a set: its address and its element.\<close>

type_synonym 'ep sep_node = "nat \<times> 'ep service_endpoint"

definition node_key :: "'ep sep_node \<Rightarrow> bool \<times> 'ep" where
  "node_key n = sep_key (snd n)"

record 'ep service =
  sep_set :: "'ep sep_node list"
  local_host_index :: nat
  sep_select_vec :: "nat list"
  sep_select_vec_count :: nat

definition fresh_service :: "'ep service" where
  "fresh_service = \<lparr>sep_set = [], local_host_index = 0, sep_select_vec = [], sep_select_vec_count = 0\<rparr>"

record ('ep, 'w) service_manager =
  sm_map :: "(int \<times> 'ep service) list"
  sm_pool :: "'ep asio_pool"
  sm_next :: nat
  sm_world :: 'w

definition sm_init :: "'ep asio_pool \<Rightarrow> 'w \<Rightarrow> ('ep, 'w) service_manager" where
  "sm_init p w = \<lparr>sm_map = [], sm_pool = p, sm_next = 0, sm_world = w\<rparr>"

definition service_of :: "int \<Rightarrow> ('ep, 'w) service_manager \<Rightarrow> 'ep service" where
  "service_of sid m = map_at fresh_service sid (sm_map m)"

definition set_service :: "int \<Rightarrow> 'ep service \<Rightarrow> ('ep, 'w) service_manager \<Rightarrow> ('ep, 'w) service_manager" where
  "set_service sid s m = m\<lparr>sm_map := map_put sid s (sm_map m)\<rparr>"

section \<open>Backends\<close>

text \<open>
  \<open>parse_backends\<close>: a piece that is not \<open>host:port\<close> or does not resolve is skipped.  The nodes of
  the resulting set get fresh addresses; an element equivalent to one already there is not inserted.
\<close>

definition parse_piece ::
  "('ep, 'w) sm_env \<Rightarrow> string \<Rightarrow> 'w \<Rightarrow> 'ep service_endpoint option \<times> 'w" where
  "parse_piece env hp w =
     (case env_split env (CHR '':'') hp of
        [host, port] \<Rightarrow>
          (case env_resolve env host port w of
             (None, w') \<Rightarrow> (None, w')
           | (Some ep, w') \<Rightarrow>
               (Some \<lparr>sep_host = host, sep_port = port, sep_host_port = hp, sep_endpoint = ep,
                      sep_local = (host = env_host_name env \<or> host = ''localhost''),
                      sep_success = 0, sep_failure = 0\<rparr>, w'))
      | _ \<Rightarrow> (None, w))"

fun parse_pieces ::
  "('ep::linorder, 'w) sm_env \<Rightarrow> string list \<Rightarrow> 'ep sep_node list \<Rightarrow> nat \<Rightarrow> 'w \<Rightarrow>
   'ep sep_node list \<times> nat \<times> 'w" where
  "parse_pieces env [] acc a w = (acc, a, w)"
| "parse_pieces env (hp # hps) acc a w = (case parse_piece env hp w of
       (None, w') \<Rightarrow> parse_pieces env hps acc a w'
     | (Some sep, w') \<Rightarrow> parse_pieces env hps (set_insert node_key (a, sep) acc) (Suc a) w')"

definition parse_backends ::
  "('ep::linorder, 'w) sm_env \<Rightarrow> string \<Rightarrow> nat \<Rightarrow> 'w \<Rightarrow> 'ep sep_node list \<times> nat \<times> 'w" where
  "parse_backends env backends a w = parse_pieces env (env_split env (CHR '','') backends) [] a w"

text \<open>\<open>asio_pool_.add\<close> and \<open>asio_pool_.del\<close> of several endpoints.\<close>

fun pool_adds ::
  "('ep::linorder, 'w) asio_os \<Rightarrow> 'ep list \<Rightarrow> 'ep asio_pool \<Rightarrow> 'w \<Rightarrow> ('ep asio_pool \<times> 'w) outcome" where
  "pool_adds os [] p w = Ok (p, w)"
| "pool_adds os (ep # eps) p w = bind_outcome (asio_add os ep p w) (\<lambda>(p, w). pool_adds os eps p w)"

fun pool_dels ::
  "('ep::linorder, 'w) asio_os \<Rightarrow> 'ep list \<Rightarrow> 'ep asio_pool \<Rightarrow> 'w \<Rightarrow> 'ep asio_pool \<times> 'w" where
  "pool_dels os [] p w = (p, w)"
| "pool_dels os (ep # eps) p w = (let (p, w) = asio_del os ep p w in pool_dels os eps p w)"

text \<open>The elements of the first set that have no equivalent in the second, in order.\<close>

definition missing_in :: "'ep sep_node list \<Rightarrow> 'ep sep_node list \<Rightarrow> 'ep sep_node list" where
  "missing_in xs ys = filter (\<lambda>n. set_find node_key (node_key n) ys = None) xs"

definition node_ep :: "'ep sep_node \<Rightarrow> 'ep" where
  "node_ep n = sep_endpoint (snd n)"

definition set_backend ::
  "('ep::linorder, 'w) sm_env \<Rightarrow> int \<Rightarrow> string \<Rightarrow> ('ep, 'w) service_manager \<Rightarrow> ('ep, 'w) service_manager outcome" where
  "set_backend env sid backends m =
     (let (nw, a, w) = parse_backends env backends (sm_next m) (sm_world m);
          s = service_of sid m;
          old = sep_set s
      in map_ok
           (\<lambda>(p, w). let (p, w) = pool_dels (env_os env) (map node_ep (missing_in old nw)) p w
                     in (set_service sid (s\<lparr>sep_set := nw\<rparr>) m)\<lparr>sm_pool := p, sm_next := a, sm_world := w\<rparr>)
           (pool_adds (env_os env) (map node_ep (missing_in nw old)) (sm_pool m) w))"

text \<open>The loop of \<open>add_backend\<close>; \<open>insert\<close> copies the element into a new node.\<close>

fun add_nodes ::
  "('ep::linorder, 'w) sm_env \<Rightarrow> 'ep sep_node list \<Rightarrow> 'ep sep_node list \<Rightarrow> nat \<Rightarrow> 'ep asio_pool \<Rightarrow> 'w \<Rightarrow>
   ('ep sep_node list \<times> nat \<times> 'ep asio_pool \<times> 'w) outcome" where
  "add_nodes env [] old a p w = Ok (old, a, p, w)"
| "add_nodes env (n # ns) old a p w =
     (if set_find node_key (node_key n) old = None
      then bind_outcome (asio_add (env_os env) (node_ep n) p w) (\<lambda>(p, w).
             add_nodes env ns (set_insert node_key (a, snd n) old) (Suc a) p w)
      else add_nodes env ns old a p w)"

definition add_backend ::
  "('ep::linorder, 'w) sm_env \<Rightarrow> int \<Rightarrow> string \<Rightarrow> ('ep, 'w) service_manager \<Rightarrow> ('ep, 'w) service_manager outcome" where
  "add_backend env sid backends m =
     (let (nw, a, w) = parse_backends env backends (sm_next m) (sm_world m); s = service_of sid m
      in map_ok (\<lambda>(old, a, p, w).
             (set_service sid (s\<lparr>sep_set := old\<rparr>) m)\<lparr>sm_pool := p, sm_next := a, sm_world := w\<rparr>)
           (add_nodes env nw (sep_set s) a (sm_pool m) w))"

fun del_nodes ::
  "('ep::linorder, 'w) asio_os \<Rightarrow> 'ep sep_node list \<Rightarrow> 'ep sep_node list \<Rightarrow> 'ep asio_pool \<Rightarrow> 'w \<Rightarrow>
   'ep sep_node list \<times> 'ep asio_pool \<times> 'w" where
  "del_nodes os [] old p w = (old, p, w)"
| "del_nodes os (n # ns) old p w =
     (if set_find node_key (node_key n) old \<noteq> None
      then let (p, w) = asio_del os (node_ep n) p w
           in del_nodes os ns (set_erase node_key (node_key n) old) p w
      else del_nodes os ns old p w)"

definition del_backend ::
  "('ep::linorder, 'w) sm_env \<Rightarrow> int \<Rightarrow> string \<Rightarrow> ('ep, 'w) service_manager \<Rightarrow> ('ep, 'w) service_manager" where
  "del_backend env sid backends m =
     (let (nw, a, w) = parse_backends env backends (sm_next m) (sm_world m); s = service_of sid m;
          (old, p, w) = del_nodes (env_os env) nw (sep_set s) (sm_pool m) w
      in (set_service sid (s\<lparr>sep_set := old\<rparr>) m)\<lparr>sm_pool := p, sm_next := a, sm_world := w\<rparr>)"

section \<open>Selection\<close>

text \<open>Rebuilding \<open>sep_select_vec\<close>: all nodes, the whole vector shuffled (\<open>local_host_index\<close> is 0).\<close>

definition rebuild_select ::
  "('ep, 'w) sm_env \<Rightarrow> 'ep service \<Rightarrow> 'w \<Rightarrow> 'ep service \<times> 'w" where
  "rebuild_select env s w =
     (if length (sep_select_vec s) \<noteq> length (sep_set s) \<or> sep_select_vec_count s > 4096
      then let vec = map fst (sep_set s);
               lhi = 0;
               (front, w1) = env_shuffle env (take lhi vec) w;
               (back, w2) = env_shuffle env (drop lhi vec) w1
           in (s\<lparr>sep_select_vec := front @ back, sep_select_vec_count := 0, local_host_index := lhi\<rparr>, w2)
      else (s, w))"

definition deref_node :: "nat \<Rightarrow> 'ep service \<Rightarrow> 'ep service_endpoint outcome" where
  "deref_node a s = (case map_of (sep_set s) a of None \<Rightarrow> Undef | Some sep \<Rightarrow> Ok sep)"

definition count_result :: "nat \<Rightarrow> bool \<Rightarrow> 'ep service \<Rightarrow> 'ep service" where
  "count_result a ok s = s\<lparr>sep_set := map (\<lambda>(b, sep). (b,
     if b = a then (if ok then sep\<lparr>sep_success := sep_success sep + 1\<rparr>
                    else sep\<lparr>sep_failure := sep_failure sep + 1\<rparr>) else sep)) (sep_set s)\<rparr>"

text \<open>\<open>k\<close> attempts over the \<open>n\<close> pointers that start at \<open>base\<close>.\<close>

fun try_range ::
  "('ep::linorder, 'w) asio_os \<Rightarrow> nat \<Rightarrow> nat \<Rightarrow> nat \<Rightarrow> 'ep service \<Rightarrow> 'ep asio_pool \<times> 'w \<Rightarrow>
   (nat option \<times> 'ep service \<times> 'ep asio_pool \<times> 'w) outcome" where
  "try_range os base n 0 s pw = Ok (None, s, pw)"
| "try_range os base n (Suc k) s pw =
     (let a = sep_select_vec s ! (base + sep_select_vec_count s mod n);
          s = s\<lparr>sep_select_vec_count := Suc (sep_select_vec_count s)\<rparr>
      in bind_outcome (deref_node a s) (\<lambda>sep.
           case asio_get_pair os (sep_endpoint sep) pw of
             (Some sp, pw) \<Rightarrow> Ok (Some sp, count_result a True s, pw)
           | (None, pw) \<Rightarrow> try_range os base n k (count_result a False s) pw))"

definition select_socket ::
  "('ep::linorder, 'w) asio_os \<Rightarrow> 'ep service \<Rightarrow> 'ep asio_pool \<times> 'w \<Rightarrow>
   (nat option \<times> 'ep service \<times> 'ep asio_pool \<times> 'w) outcome" where
  "select_socket os s pw =
     bind_outcome (try_range os 0 (local_host_index s) (local_host_index s) s pw) (\<lambda>(r, s, pw).
       case r of
         Some sp \<Rightarrow> Ok (Some sp, s, pw)
       | None \<Rightarrow>
           let n = length (sep_select_vec s) - local_host_index s
           in try_range os (local_host_index s) n n s pw)"

definition sm_get ::
  "('ep::linorder, 'w) sm_env \<Rightarrow> int \<Rightarrow> ('ep, 'w) service_manager \<Rightarrow>
   (nat option \<times> ('ep, 'w) service_manager) outcome" where
  "sm_get env sid m =
     (let (s, w) = rebuild_select env (service_of sid m) (sm_world m)
      in map_ok (\<lambda>(r, s, p, w). (r, (set_service sid s m)\<lparr>sm_pool := p, sm_world := w\<rparr>))
           (select_socket (env_os env) s (sm_pool m, w)))"

definition sm_put ::
  "('ep::linorder, 'w) sm_env \<Rightarrow> int \<Rightarrow> nat option \<Rightarrow> ('ep, 'w) service_manager \<Rightarrow>
   (put_result \<times> ('ep, 'w) service_manager) outcome" where
  "sm_put env sid sp m = map_ok (\<lambda>(r, p, w). (r, m\<lparr>sm_pool := p, sm_world := w\<rparr>))
     (asio_put (env_os env) sp (sm_pool m) (sm_world m))"

definition sm_get_status :: "('ep, 'w) sm_env \<Rightarrow> ('ep, 'w) service_manager \<Rightarrow> string" where
  "sm_get_status env m = asio_get_status (env_ep_str env) (sm_pool m) @ newline
     @ concat (map (\<lambda>(sid, s). ''id='' @ string_of_int sid @ '':'' @ newline
         @ concat (map (\<lambda>(_, sep). sep_host_port sep @ '' -> '' @ env_ep_str env (sep_endpoint sep) @ '' ''
             @ (if sep_local sep then ''local'' else ''non-local'') @ '' ''
             @ ''success='' @ string_of_nat (unat (sep_success sep)) @ '' ''
             @ ''failure='' @ string_of_nat (unat (sep_failure sep)) @ '' '' @ newline) (sep_set s)))
       (sm_map m))"

section \<open>Parsing\<close>

lemma set_insert_addresses:
  "distinct (map fst acc) \<Longrightarrow> \<forall>n \<in> set acc. fst n < (a::nat) \<Longrightarrow> distinct (map fst (set_insert key (a, x) acc))"
proof (induction acc)
  case (Cons y ys)
  have "fst ` set (set_insert key (a, x) ys) \<subseteq> insert a (fst ` set ys)"
    using set_insert_subset [of key "(a, x)" ys] by (metis fst_conv image_insert image_mono)
  moreover have "fst y \<notin> fst ` set ys" "fst y \<noteq> a" using Cons.prems by (auto simp: less_le)
  moreover have "a \<notin> fst ` set (y # ys)" using Cons.prems(2) by auto
  moreover have "distinct (map fst (set_insert key (a, x) ys))" using Cons by simp
  ultimately show ?case using Cons.prems(1) by auto
qed simp

lemma parse_pieces_facts:
  assumes "parse_pieces env hps acc a w = (nodes, b, w')"
    and "set_ok node_key acc" and "distinct (map fst acc)" and "\<forall>n \<in> set acc. fst n < a \<and> lo \<le> fst n" and "lo \<le> a"
  shows "set_ok node_key nodes \<and> distinct (map fst nodes) \<and> (\<forall>n \<in> set nodes. fst n < b \<and> lo \<le> fst n) \<and> a \<le> b"
  using assms
proof (induction hps arbitrary: acc a w)
  case Nil
  then show ?case by simp
next
  case (Cons hp hps)
  obtain r w1 where r: "parse_piece env hp w = (r, w1)" by (cases "parse_piece env hp w")
  show ?case
  proof (cases r)
    case None
    with Cons r show ?thesis by simp
  next
    case (Some sep)
    let ?acc = "set_insert node_key (a, sep) acc"
    have "set ?acc \<subseteq> insert (a, sep) (set acc)" by (rule set_insert_subset)
    then have "\<forall>n \<in> set ?acc. fst n < Suc a \<and> lo \<le> fst n" using Cons.prems(4,5) by fastforce
    moreover have "distinct (map fst ?acc)" using Cons.prems(3,4) by (intro set_insert_addresses) auto
    moreover have "parse_pieces env hps ?acc (Suc a) w1 = (nodes, b, w')"
      using Cons.prems(1) r Some by simp
    ultimately show ?thesis
      using Cons.IH [of ?acc "Suc a" w1] Cons.prems(2,5) by (auto simp: std_simps)
  qed
qed

lemma parse_backends_facts:
  "parse_backends env backends a w = (nodes, b, w') \<Longrightarrow>
     set_ok node_key nodes \<and> distinct (map fst nodes) \<and> (\<forall>n \<in> set nodes. fst n < b \<and> a \<le> fst n) \<and> a \<le> b"
  unfolding parse_backends_def by (drule parse_pieces_facts [where lo = a]) auto

section \<open>Activity of endpoints\<close>

text \<open>An endpoint the pool probes and may hand out, as opposed to a deleted one.\<close>

definition active :: "'ep::linorder asio_pool \<Rightarrow> 'ep \<Rightarrow> bool" where
  "active p ep \<longleftrightarrow> status_of p ep \<noteq> kDeleting \<and> status_of p ep \<noteq> kDeleted"

lemma probe_active:
  assumes "asio_inv p"
  obtains q w' where "asio_probe os True p w = Ok (q, w')" and "asio_inv q" and "\<And>x. active q x = active p x"
proof -
  obtain q w' where run: "asio_probe os True p w = Ok (q, w')"
    using asio_probe_runs [OF assms, of os True w] by auto
  have "asio_inv q \<and> active q x = active p x" for x
    using asio_probe_cases [OF assms run, of x]
    by (cases "status_of p x") (auto simp: active_def checked_def status_of_def)
  with that run show thesis by blast
qed

lemma asio_add_active:
  assumes inv: "asio_inv p"
  shows "\<exists>q w'. asio_add os ep p w = Ok (q, w') \<and> asio_inv q \<and> (\<forall>x. active q x \<longleftrightarrow> x = ep \<or> active p x)"
proof -
  obtain tmp p1 where a: "add_section ep p = (tmp, p1)" by (cases "add_section ep p")
  have i1: "asio_inv p1" by (rule add_section_inv [OF inv a])
  have act: "active p1 x \<longleftrightarrow> x = ep \<or> active p x" for x
    using a inv_map [OF inv]
    by (auto simp: add_section_def Let_def active_def status_of_def split: if_splits)
  obtain q w' where "asio_probe os True p1 w = Ok (q, w')" "asio_inv q" "\<And>x. active q x = active p1 x"
    using probe_active [OF i1, of os w] by blast
  then show ?thesis using a act by (simp add: asio_add_def)
qed

lemma asio_del_active:
  assumes inv: "asio_inv p"
  shows "asio_inv (fst (asio_del os ep p w)) \<and> (\<forall>x. active (fst (asio_del os ep p w)) x \<longleftrightarrow> x \<noteq> ep \<and> active p x)"
proof -
  obtain tmp q where d: "del_section ep p = (tmp, q)" by (cases "del_section ep p")
  have "active q x \<longleftrightarrow> x \<noteq> ep \<and> active p x" for x
    using d inv_map [OF inv]
    by (cases "ep_status (entry ep p)")
      (auto simp: del_section_def active_def status_of_def entry_option entry_none fresh_pool_def
        split: option.splits if_splits)
  with del_section_inv [OF inv d] d show ?thesis by (simp add: asio_del_def)
qed

lemma pool_adds_active:
  "asio_inv p \<Longrightarrow> \<exists>q w'. pool_adds os eps p w = Ok (q, w') \<and> asio_inv q
     \<and> (\<forall>x. active q x \<longleftrightarrow> x \<in> set eps \<or> active p x)"
proof (induction eps arbitrary: p w)
  case (Cons ep eps)
  obtain q w' where q: "asio_add os ep p w = Ok (q, w')" "asio_inv q" "\<forall>x. active q x \<longleftrightarrow> x = ep \<or> active p x"
    using asio_add_active [OF Cons.prems, of os ep w] by auto
  obtain r w'' where r: "pool_adds os eps q w' = Ok (r, w'')" "asio_inv r"
    "\<forall>x. active r x \<longleftrightarrow> x \<in> set eps \<or> active q x"
    using Cons.IH [OF q(2), of w'] by auto
  have "active r x \<longleftrightarrow> x \<in> set (ep # eps) \<or> active p x" for x using r(3) q(3) by simp blast
  with r q show ?case by simp
qed simp

lemma pool_dels_active:
  "asio_inv p \<Longrightarrow> asio_inv (fst (pool_dels os eps p w))
     \<and> (\<forall>x. active (fst (pool_dels os eps p w)) x \<longleftrightarrow> x \<notin> set eps \<and> active p x)"
proof (induction eps arbitrary: p w)
  case (Cons ep eps)
  obtain q w' where d: "asio_del os ep p w = (q, w')" by (cases "asio_del os ep p w")
  with asio_del_active [OF Cons.prems, of os ep w]
  have q: "asio_inv q" "\<forall>x. active q x \<longleftrightarrow> x \<noteq> ep \<and> active p x" by simp_all
  have "active (fst (pool_dels os eps q w')) x \<longleftrightarrow> x \<notin> set (ep # eps) \<and> active p x" for x
    using Cons.IH [OF q(1), of w'] q(2) by simp blast
  with Cons.IH [OF q(1), of w'] d show ?case by simp
qed simp

section \<open>Services\<close>

definition service_ok :: "'ep::linorder service \<Rightarrow> bool" where
  "service_ok s \<longleftrightarrow> set_ok node_key (sep_set s) \<and> distinct (map fst (sep_set s)) \<and> local_host_index s = 0"

text \<open>All pointers of the selection vector are to nodes of the set, each once.\<close>

definition select_live :: "'ep service \<Rightarrow> bool" where
  "select_live s \<longleftrightarrow> mset (sep_select_vec s) = mset (map fst (sep_set s))"

definition needs_rebuild :: "'ep service \<Rightarrow> bool" where
  "needs_rebuild s \<longleftrightarrow> length (sep_select_vec s) \<noteq> length (sep_set s) \<or> sep_select_vec_count s > 4096"

text \<open>\<open>random_shuffle\<close> permutes its range.\<close>

definition shuffles :: "('ep, 'w) sm_env \<Rightarrow> bool" where
  "shuffles env \<longleftrightarrow> (\<forall>xs w. mset (fst (env_shuffle env xs w)) = mset xs)"

lemma service_of_set [simp]:
  "map_ok_std (sm_map m) \<Longrightarrow> service_of x (set_service sid s m) = (if x = sid then s else service_of x m)"
  by (simp add: service_of_def set_service_def std_simps)

lemma service_of_upd [simp]:
  "service_of x (m\<lparr>sm_pool := p\<rparr>) = service_of x m" "service_of x (m\<lparr>sm_next := a\<rparr>) = service_of x m"
  "service_of x (m\<lparr>sm_world := w\<rparr>) = service_of x m"
  by (simp_all add: service_of_def)

definition ep_at :: "'ep service \<Rightarrow> nat \<Rightarrow> 'ep" where
  "ep_at s a = sep_endpoint (the (map_of (sep_set s) a))"

lemma map_of_count_result:
  "map_of (sep_set (count_result a ok s)) b = map_option (\<lambda>sep. if b = a
     then (if ok then sep\<lparr>sep_success := sep_success sep + 1\<rparr> else sep\<lparr>sep_failure := sep_failure sep + 1\<rparr>)
     else sep) (map_of (sep_set s) b)"
proof -
  have "map_of (map (\<lambda>(b, sep). (b, f b sep)) xs) b = map_option (f b) (map_of xs b)" for f and xs :: "'a sep_node list"
    by (induction xs) auto
  then show ?thesis by (simp add: count_result_def)
qed

lemma count_result_keeps [simp]:
  "sep_select_vec (count_result a ok s) = sep_select_vec s"
  "sep_select_vec_count (count_result a ok s) = sep_select_vec_count s"
  "local_host_index (count_result a ok s) = local_host_index s"
  "map fst (sep_set (count_result a ok s)) = map fst (sep_set s)"
  "fst ` set (sep_set (count_result a ok s)) = fst ` set (sep_set s)"
  by (simp_all add: count_result_def split_beta image_image o_def)

lemma ep_at_count [simp]: "ep_at (s\<lparr>sep_select_vec_count := c\<rparr>) a = ep_at s a"
  by (simp add: ep_at_def)

lemma ep_at_count_result [simp]:
  "b \<in> fst ` set (sep_set s) \<Longrightarrow> ep_at (count_result a ok s) b = ep_at s b"
  by (cases "map_of (sep_set s) b")
    (auto simp: ep_at_def map_of_count_result dest!: map_of_eq_None_iff [THEN iffD1])

text \<open>The loop of \<open>get\<close> tries the endpoints of the cyclic run of pointers that starts at the cursor.\<close>

lemma try_range_eq:
  assumes "set (sep_select_vec s) \<subseteq> fst ` set (sep_set s)" and "n = length (sep_select_vec s)" and "0 < n \<or> k = 0"
  shows "\<exists>s'. try_range os 0 n k s pw = (case asio_provider.try_all os
            (map (\<lambda>i. ep_at s (sep_select_vec s ! ((sep_select_vec_count s + i) mod n))) [0..<k]) pw
          of (r, pw') \<Rightarrow> Ok (r, s', pw'))
      \<and> map fst (sep_set s') = map fst (sep_set s) \<and> sep_select_vec s' = sep_select_vec s
      \<and> local_host_index s' = local_host_index s"
  using assms
proof (induction k arbitrary: s pw)
  case 0
  then show ?case by auto
next
  case (Suc k)
  let ?a = "sep_select_vec s ! (sep_select_vec_count s mod n)"
  let ?s = "s\<lparr>sep_select_vec_count := Suc (sep_select_vec_count s)\<rparr>"
  have live: "?a \<in> fst ` set (sep_set s)" using Suc.prems by auto
  then obtain sep where sep: "map_of (sep_set s) ?a = Some sep"
    by (cases "map_of (sep_set s) ?a") (auto simp: map_of_eq_None_iff)
  then have d: "deref_node ?a ?s = Ok sep" and e: "ep_at s ?a = sep_endpoint sep"
    by (simp_all add: deref_node_def ep_at_def)
  have all: "asio_provider.try_all os
      (map (\<lambda>i. ep_at s (sep_select_vec s ! ((sep_select_vec_count s + i) mod n))) [0..<Suc k]) pw
    = asio_provider.try_all os (ep_at s ?a #
      map (\<lambda>i. ep_at s (sep_select_vec s ! ((Suc (sep_select_vec_count s) + i) mod n))) [0..<k]) pw"
    by (simp add: upt_conv_Cons map_Suc_upt [symmetric] o_def del: upt_Suc)
  obtain r pw' where g: "asio_get_pair os (sep_endpoint sep) pw = (r, pw')"
    by (cases "asio_get_pair os (sep_endpoint sep) pw")
  show ?case
  proof (cases r)
    case (Some sp)
    with all d e g show ?thesis
      by (intro exI [of _ "count_result ?a True ?s"]) (simp add: Let_def)
  next
    case None
    let ?t = "count_result ?a False ?s"
    have p: "set (sep_select_vec ?t) \<subseteq> fst ` set (sep_set ?t)" "n = length (sep_select_vec ?t)" "0 < n \<or> k = 0"
      using Suc.prems by simp_all
    have same: "map (\<lambda>i. ep_at ?t (sep_select_vec ?t ! ((sep_select_vec_count ?t + i) mod n))) [0..<k]
      = map (\<lambda>i. ep_at s (sep_select_vec s ! ((Suc (sep_select_vec_count s) + i) mod n))) [0..<k]"
    proof (rule map_cong [OF refl])
      fix i assume "i \<in> set [0..<k]"
      have "sep_select_vec s ! ((Suc (sep_select_vec_count s) + i) mod n) \<in> fst ` set (sep_set s)"
        using Suc.prems by auto
      then show "ep_at ?t (sep_select_vec ?t ! ((sep_select_vec_count ?t + i) mod n))
        = ep_at s (sep_select_vec s ! ((Suc (sep_select_vec_count s) + i) mod n))"
        by simp
    qed
    from Suc.IH [OF p, of pw'] obtain s' where
      "try_range os 0 n k ?t pw' = (case asio_provider.try_all os
            (map (\<lambda>i. ep_at s (sep_select_vec s ! ((Suc (sep_select_vec_count s) + i) mod n))) [0..<k]) pw'
          of (r, pw') \<Rightarrow> Ok (r, s', pw'))"
      "map fst (sep_set s') = map fst (sep_set ?t)" "sep_select_vec s' = sep_select_vec ?t"
      "local_host_index s' = local_host_index ?t"
      unfolding same by blast
    with None all d e g show ?thesis
      by (intro exI [of _ s']) (simp add: Let_def)
  qed
qed

lemma rebuild_facts:
  assumes ok: "service_ok s" and sh: "shuffles env" and live: "select_live s \<or> needs_rebuild s"
    and run: "rebuild_select env s w = (t, w')"
  shows "service_ok t \<and> select_live t \<and> sep_set t = sep_set s"
proof (cases "needs_rebuild s")
  case True
  obtain xs w1 where xs: "env_shuffle env [] w = (xs, w1)" by (cases "env_shuffle env [] w")
  obtain ys w2 where ys: "env_shuffle env (map fst (sep_set s)) w1 = (ys, w2)"
    by (cases "env_shuffle env (map fst (sep_set s)) w1")
  have m: "mset xs = {#}" "mset ys = mset (map fst (sep_set s))"
    using sh xs ys unfolding shuffles_def by (metis fst_conv mset.simps(1), metis fst_conv)
  from True run xs ys have "t = s\<lparr>sep_select_vec := xs @ ys, sep_select_vec_count := 0, local_host_index := 0\<rparr>"
    by (simp add: rebuild_select_def needs_rebuild_def Let_def)
  with ok m show ?thesis by (simp add: service_ok_def select_live_def)
next
  case False
  with run have "t = s" by (simp add: rebuild_select_def needs_rebuild_def)
  with ok live False show ?thesis by simp
qed

text \<open>A selection over a live vector tries every endpoint of the service once, in some order.\<close>

lemma select_socket_eq:
  assumes ok: "service_ok s" and live: "select_live s"
  shows "\<exists>order t. mset order = mset (map node_ep (sep_set s)) \<and>
     select_socket os s pw = (case asio_provider.try_all os order pw of (r, pw') \<Rightarrow> Ok (r, t, pw'))
     \<and> map fst (sep_set t) = map fst (sep_set s) \<and> sep_select_vec t = sep_select_vec s \<and> local_host_index t = 0"
proof -
  let ?v = "sep_select_vec s" let ?n = "length ?v"
  let ?order = "map (\<lambda>i. ep_at s (?v ! ((sep_select_vec_count s + i) mod ?n))) [0..<?n]"
  have lhi: "local_host_index s = 0" and d: "distinct (map fst (sep_set s))" using ok by (simp_all add: service_ok_def)
  have set_v: "set ?v = fst ` set (sep_set s)" using live unfolding select_live_def by (metis list.set_map set_mset_mset)
  obtain t where t: "try_range os 0 ?n ?n s pw = (case asio_provider.try_all os ?order pw of (r, pw') \<Rightarrow> Ok (r, t, pw'))"
    "map fst (sep_set t) = map fst (sep_set s)" "sep_select_vec t = ?v" "local_host_index t = local_host_index s"
    using try_range_eq [of s ?n ?n os pw] set_v by auto
  have "mset ?order = mset (map (\<lambda>a. ep_at s a) ?v)"
  proof (cases "?n = 0")
    case False
    have "mset ?order = image_mset (\<lambda>i. ep_at s (?v ! i)) (mset (map (\<lambda>i. (sep_select_vec_count s + i) mod ?n) [0..<?n]))"
      by (simp only: mset_map [symmetric] map_map o_def)
    also have "\<dots> = image_mset (\<lambda>i. ep_at s (?v ! i)) (mset [0..<?n])"
      using mset_rotation [of ?n "sep_select_vec_count s"] False by (simp only: neq0_conv)
    also have "\<dots> = mset (map (ep_at s) (map ((!) ?v) [0..<?n]))"
      by (simp only: mset_map [symmetric] map_map o_def)
    finally show ?thesis by (simp only: map_nth)
  qed simp
  also have "\<dots> = image_mset (ep_at s) (mset (map fst (sep_set s)))"
    using live by (simp add: select_live_def)
  also have "\<dots> = mset (map node_ep (sep_set s))"
  proof -
    have "map (\<lambda>n. ep_at s (fst n)) (sep_set s) = map node_ep (sep_set s)"
      using d by (auto simp: ep_at_def node_ep_def map_of_eq_Some_iff)
    then show ?thesis by (metis (no_types, lifting) list.map_comp mset_map comp_def map_eq_conv)
  qed
  finally have "mset ?order = mset (map node_ep (sep_set s))" .
  moreover have "select_socket os s pw = (case asio_provider.try_all os ?order pw of (r, pw') \<Rightarrow> Ok (r, t, pw'))"
    by (simp add: select_socket_def lhi t(1) Let_def)
  ultimately show ?thesis using t(2,3,4) lhi by metis
qed

lemma set_backend_effect_lib:
  assumes inv: "asio_inv (sm_pool m)" and mapok: "map_ok_std (sm_map m)"
    and parse: "parse_backends env backends (sm_next m) (sm_world m) = (nw, a, w)"
  shows "\<exists>m'. set_backend env sid backends m = Ok m' \<and> asio_inv (sm_pool m')
    \<and> service_of sid m' = (service_of sid m)\<lparr>sep_set := nw\<rparr> \<and> (\<forall>x. x \<noteq> sid \<longrightarrow> service_of x m' = service_of x m)
    \<and> (let old = sep_set (service_of sid m) in \<forall>ep. active (sm_pool m') ep \<longleftrightarrow>
         ep \<notin> node_ep ` set (missing_in old nw) \<and>
         (ep \<in> node_ep ` set (missing_in nw old) \<or> active (sm_pool m) ep))"
proof -
  let ?s = "service_of sid m" let ?old = "sep_set (service_of sid m)"
  obtain p w1 where p: "pool_adds (env_os env) (map node_ep (missing_in nw ?old)) (sm_pool m) w = Ok (p, w1)"
    "asio_inv p" "\<forall>x. active p x \<longleftrightarrow> x \<in> set (map node_ep (missing_in nw ?old)) \<or> active (sm_pool m) x"
    using pool_adds_active [OF inv, of "env_os env" "map node_ep (missing_in nw ?old)" w] by auto
  obtain q w2 where q: "pool_dels (env_os env) (map node_ep (missing_in ?old nw)) p w1 = (q, w2)"
    by (cases "pool_dels (env_os env) (map node_ep (missing_in ?old nw)) p w1")
  note qd = pool_dels_active [OF p(2), of "env_os env" "map node_ep (missing_in ?old nw)" w1]
  let ?m = "(set_service sid (?s\<lparr>sep_set := nw\<rparr>) m)\<lparr>sm_pool := q, sm_next := a, sm_world := w2\<rparr>"
  have "set_backend env sid backends m = Ok ?m" by (simp add: set_backend_def parse Let_def p(1) q)
  with qd q p(3) mapok show ?thesis by (intro exI [of _ ?m]) (auto simp: Let_def)
qed

section \<open>Properties\<close>

text \<open>C1: A get of a service whose selection vector is live (or about to be rebuilt) is a walk over
  the endpoints of all its backends, each tried at most once, until one gives a socket.  So it fails
  only when afterwards no backend of the service is connected, and never follows a dangling
  pointer; the set of backends stays as it is and the vector stays live.\<close>

theorem sm_get_tries_every_backend:
  assumes inv: "asio_inv (sm_pool m)" and mapok: "map_ok_std (sm_map m)" and ok: "service_ok (service_of sid m)"
    and live: "select_live (service_of sid m) \<or> needs_rebuild (service_of sid m)" and sh: "shuffles env"
  shows "\<exists>order w r m'. mset order = mset (map node_ep (sep_set (service_of sid m)))
    \<and> sm_get env sid m = Ok (r, m')
    \<and> (r, (sm_pool m', sm_world m')) = asio_provider.try_all (env_os env) order (sm_pool m, w)
    \<and> (r = None \<longrightarrow> (\<forall>n \<in> set (sep_set (service_of sid m)). status_of (sm_pool m') (node_ep n) \<noteq> kConnected))
    \<and> map fst (sep_set (service_of sid m')) = map fst (sep_set (service_of sid m))
    \<and> select_live (service_of sid m')"
proof -
  let ?s = "service_of sid m"
  obtain s w where rb: "rebuild_select env ?s (sm_world m) = (s, w)" by (cases "rebuild_select env ?s (sm_world m)")
  note rf = rebuild_facts [OF ok sh live rb]
  obtain order t where o: "mset order = mset (map node_ep (sep_set s))"
    and run: "select_socket (env_os env) s (sm_pool m, w)
      = (case asio_provider.try_all (env_os env) order (sm_pool m, w) of (r, pw') \<Rightarrow> Ok (r, t, pw'))"
    and t: "map fst (sep_set t) = map fst (sep_set s)" "sep_select_vec t = sep_select_vec s"
    using select_socket_eq [of s "env_os env" "(sm_pool m, w)"] rf by blast
  obtain r p w' where ta: "asio_provider.try_all (env_os env) order (sm_pool m, w) = (r, (p, w'))"
    by (cases "asio_provider.try_all (env_os env) order (sm_pool m, w)") auto
  let ?m = "(set_service sid t m)\<lparr>sm_pool := p, sm_world := w'\<rparr>"
  have get: "sm_get env sid m = Ok (r, ?m)" by (simp add: sm_get_def rb run ta)
  have "status_of p (node_ep n) \<noteq> kConnected" if "r = None" "n \<in> set (sep_set ?s)" for n
  proof -
    have "set order = set (map node_ep (sep_set ?s))" using o rf by (metis set_mset_mset)
    with that have "node_ep n \<in> set order" by auto
    with asio_provider.try_all_None [of "(sm_pool m, w)" "env_os env" order "node_ep n"] inv ta that(1)
    show ?thesis by simp
  qed
  moreover have "service_of sid ?m = t" using mapok by simp
  ultimately show ?thesis
    using get ta o rf t
    by (intro exI [of _ order] exI [of _ w] exI [of _ r] exI [of _ ?m]) (simp add: select_live_def)
qed

text \<open>C7: After set\_backend the backends of the service are exactly the parsed ones.  In the socket
  pool every endpoint of a backend that went away is deleted, every other endpoint of a new backend
  is active, and all others are as active as before; the other services keep their backends.\<close>

theorem set_backend_effect:
  assumes inv: "asio_inv (sm_pool m)" and mapok: "map_ok_std (sm_map m)"
    and parse: "parse_backends env backends (sm_next m) (sm_world m) = (nw, a, w)"
  shows "\<exists>m'. set_backend env sid backends m = Ok m' \<and> asio_inv (sm_pool m')
    \<and> service_of sid m' = (service_of sid m)\<lparr>sep_set := nw\<rparr> \<and> (\<forall>x. x \<noteq> sid \<longrightarrow> service_of x m' = service_of x m)
    \<and> (let old = sep_set (service_of sid m) in \<forall>ep. active (sm_pool m') ep \<longleftrightarrow>
         ep \<notin> node_ep ` set (missing_in old nw) \<and>
         (ep \<in> node_ep ` set (missing_in nw old) \<or> active (sm_pool m) ep))"
  by (rule set_backend_effect_lib [OF inv mapok parse])

lemma missing_in_empty: "missing_in xs [] = xs"
  by (simp add: missing_in_def)

text \<open>The state between two calls: live vectors, addresses below the next one.\<close>

definition addresses_below :: "nat \<Rightarrow> 'ep service \<Rightarrow> bool" where
  "addresses_below a s \<longleftrightarrow> (\<forall>b \<in> set (sep_select_vec s). b < a)"

text \<open>C8: Use after free.  set\_backend replaces the set of backends by a new one but leaves the
  pointers of the selection vector; when the new set has as many backends as the old one and the
  vector is neither worn out nor empty, the next get of the service follows a pointer to a backend
  that no longer exists.\<close>

theorem set_backend_dangling:
  assumes inv: "asio_inv (sm_pool m)" and mapok: "map_ok_std (sm_map m)"
    and s: "sep_select_vec (service_of sid m) \<noteq> []" "local_host_index (service_of sid m) = 0"
      "addresses_below (sm_next m) (service_of sid m)" "\<not> needs_rebuild (service_of sid m)"
    and parse: "parse_backends env backends (sm_next m) (sm_world m) = (nw, a, w)"
    and same: "length nw = length (sep_set (service_of sid m))"
    and set: "set_backend env sid backends m = Ok m'"
  shows "sm_get env sid m' = Undef"
proof -
  let ?s = "service_of sid m" let ?v = "sep_select_vec ?s"
  have s': "service_of sid m' = ?s\<lparr>sep_set := nw\<rparr>"
    using set_backend_effect_lib [OF inv mapok parse, of sid] set by auto
  have keep: "rebuild_select env (?s\<lparr>sep_set := nw\<rparr>) x = (?s\<lparr>sep_set := nw\<rparr>, x)" for x
    using s(4) same by (simp add: rebuild_select_def needs_rebuild_def)
  have "\<forall>n \<in> set nw. sm_next m \<le> fst n" using parse_backends_facts [OF parse] by blast
  moreover have "?v ! (sep_select_vec_count ?s mod length ?v) < sm_next m"
    using s(1,3) by (simp add: addresses_below_def)
  ultimately have "map_of nw (?v ! (sep_select_vec_count ?s mod length ?v)) = None"
    by (force simp: map_of_eq_None_iff)
  moreover obtain k where "length ?v = Suc k" using s(1) by (cases ?v) auto
  ultimately have "select_socket (env_os env) (?s\<lparr>sep_set := nw\<rparr>) pw = Undef" for pw
    using s(2) by (simp add: select_socket_def Let_def deref_node_def)
  then show ?thesis by (simp add: sm_get_def s' keep)
qed

text \<open>The services share the endpoints of the pool without counting.  When a backend goes away
  from one service, its endpoint is deleted in the pool although another service still lists it,
  and the other service's gets of that endpoint fail.\<close>

theorem shared_endpoint_lost:
  assumes inv: "asio_inv (sm_pool m)" and mapok: "map_ok_std (sm_map m)" and other: "other \<noteq> sid"
    and parse: "parse_backends env backends (sm_next m) (sm_world m) = (nw, a, w)"
    and gone: "ep \<in> node_ep ` set (missing_in (sep_set (service_of sid m)) nw)"
    and listed: "n \<in> set (sep_set (service_of other m))" "node_ep n = ep"
    and set: "set_backend env sid backends m = Ok m'"
  shows "n \<in> set (sep_set (service_of other m')) \<and> \<not> active (sm_pool m') ep
    \<and> fst (asio_get os ep (sm_pool m') w') = None"
proof -
  from set_backend_effect_lib [OF inv mapok parse, of sid] set
  have i: "asio_inv (sm_pool m')" and keep: "service_of other m' = service_of other m"
    and na: "\<not> active (sm_pool m') ep"
    using other gone by (auto simp: Let_def)
  have "status_of (sm_pool m') ep \<noteq> kConnected" using na by (auto simp: active_def)
  from asio_get_not_connected [OF i this, of os w'] keep listed na show ?thesis by simp
qed

text \<open>The same backend under another name is lost.  If a backend's host is now written so that
  it counts as local (or no longer does), set\_backend adds its endpoint, which changes nothing, and
  then deletes it: the backend is in the service but its endpoint is deleted.\<close>

theorem relabelled_backend_lost:
  assumes inv: "asio_inv (sm_pool m)" and mapok: "map_ok_std (sm_map m)"
    and parse: "parse_backends env backends (sm_next m) (sm_world m) = (nw, a, w)"
    and old: "n \<in> set (sep_set (service_of sid m))" and new: "n' \<in> set nw"
    and same: "node_ep n' = node_ep n" "sep_local (snd n') \<noteq> sep_local (snd n)"
    and once: "\<forall>x \<in> set nw. node_ep x = node_ep n \<longrightarrow> x = n'"
    and set: "set_backend env sid backends m = Ok m'"
  shows "n' \<in> set (sep_set (service_of sid m')) \<and> \<not> active (sm_pool m') (node_ep n)"
proof -
  have "node_key x \<noteq> node_key n" if "x \<in> set nw" for x
    using once same that by (cases "node_ep x = node_ep n") (auto simp: node_key_def sep_key_def node_ep_def)
  then have "set_find node_key (node_key n) nw = None" by (force simp: set_find_None)
  with old have "n \<in> set (missing_in (sep_set (service_of sid m)) nw)" by (simp add: missing_in_def)
  then have "node_ep n \<in> node_ep ` set (missing_in (sep_set (service_of sid m)) nw)" by simp
  with set_backend_effect_lib [OF inv mapok parse, of sid] set new show ?thesis
    by (auto simp: Let_def)
qed

section \<open>A small deployment\<close>

fun split_on :: "char \<Rightarrow> string \<Rightarrow> string list" where
  "split_on c [] = [[]]"
| "split_on c (x # xs) = (if x = c then [] # split_on c xs
     else case split_on c xs of [] \<Rightarrow> [[x]] | y # ys \<Rightarrow> (x # y) # ys)"

definition lab_env :: "(nat, nat) sm_env" where
  "lab_env = \<lparr>env_os = lab_os, env_split = split_on,
     env_resolve = (\<lambda>h p w. (if h = ''a'' \<or> h = ''localhost'' then Some 5 else if h = ''b'' then Some 7
        else if h = ''c'' then Some 8 else None, w)),
     env_host_name = ''box'', env_shuffle = (\<lambda>xs w. (xs, w)), env_ep_str = string_of_nat\<rparr>"

definition lab_sep :: "string \<Rightarrow> nat \<Rightarrow> nat service_endpoint" where
  "lab_sep h ep = \<lparr>sep_host = h, sep_port = ''1'', sep_host_port = h @ '':1'', sep_endpoint = ep,
     sep_local = (h = ''box'' \<or> h = ''localhost''), sep_success = 0, sep_failure = 0\<rparr>"

definition lab_service :: "nat service" where
  "lab_service = \<lparr>sep_set = [(0, lab_sep ''a'' 5)], local_host_index = 0, sep_select_vec = [0],
     sep_select_vec_count = 0\<rparr>"

definition lab_mgr :: "(nat, nat) service_manager" where
  "lab_mgr = \<lparr>sm_map = [(1, lab_service), (2, lab_service)], sm_pool = lab_pool, sm_next = 10, sm_world = 30\<rparr>"

lemma lab_mgr_facts:
  "asio_inv (sm_pool lab_mgr)" "map_ok_std (sm_map lab_mgr)" "service_of 1 lab_mgr = lab_service"
  "service_of 2 lab_mgr = lab_service" "service_ok lab_service" "select_live lab_service"
  "\<not> needs_rebuild lab_service" "shuffles lab_env"
  using lab_inv
  by (simp_all add: lab_mgr_def map_ok_std_def set_ok_def service_of_def map_at_def lab_service_def
      service_ok_def select_live_def needs_rebuild_def shuffles_def lab_env_def node_key_def)

lemma lab_parse:
  "parse_backends lab_env ''c:1'' (sm_next lab_mgr) (sm_world lab_mgr) = ([(10, lab_sep ''c'' 8)], 11, 30)"
  "parse_backends lab_env ''localhost:1'' (sm_next lab_mgr) (sm_world lab_mgr)
     = ([(10, lab_sep ''localhost'' 5)], 11, 30)"
  by (simp_all add: parse_backends_def lab_env_def lab_mgr_def parse_piece_def lab_sep_def)

lemma lab_set: "\<exists>m'. set_backend lab_env 1 ''c:1'' lab_mgr = Ok m'" "\<exists>m'. set_backend lab_env 1 ''localhost:1'' lab_mgr = Ok m'"
  using set_backend_effect_lib [OF lab_mgr_facts(1,2) lab_parse(1), of 1]
    set_backend_effect_lib [OF lab_mgr_facts(1,2) lab_parse(2), of 1] by blast+

theorem sm_get_tries_every_backend_witness:
  "\<exists>r m'. sm_get lab_env 1 lab_mgr = Ok (r, m') \<and> select_live (service_of 1 m')"
  using sm_get_tries_every_backend [OF lab_mgr_facts(1,2), of 1 lab_env] lab_mgr_facts by auto

theorem set_backend_effect_witness:
  "\<exists>m'. set_backend lab_env 1 ''c:1'' lab_mgr = Ok m' \<and> active (sm_pool m') 8 \<and> \<not> active (sm_pool m') 5"
proof -
  have m: "missing_in [(10, lab_sep ''c'' 8)] (sep_set lab_service) = [(10, lab_sep ''c'' 8)]"
    "missing_in (sep_set lab_service) [(10, lab_sep ''c'' 8)] = [(0, lab_sep ''a'' 5)]"
    by (simp_all add: missing_in_def lab_service_def lab_sep_def node_key_def sep_key_def)
  have "node_ep (10, lab_sep ''c'' 8) = 8" "node_ep (0, lab_sep ''a'' 5) = 5"
    by (simp_all add: node_ep_def lab_sep_def)
  with set_backend_effect [OF lab_mgr_facts(1,2) lab_parse(1), of 1] m show ?thesis
    by (auto simp: lab_mgr_facts(3) Let_def)
qed

theorem set_backend_dangling_witness:
  "\<exists>m'. set_backend lab_env 1 ''c:1'' lab_mgr = Ok m' \<and> sm_get lab_env 1 m' = Undef"
proof -
  obtain m' where m': "set_backend lab_env 1 ''c:1'' lab_mgr = Ok m'" using lab_set by blast
  have s: "sep_select_vec (service_of 1 lab_mgr) \<noteq> []" "local_host_index (service_of 1 lab_mgr) = 0"
      "addresses_below (sm_next lab_mgr) (service_of 1 lab_mgr)" "\<not> needs_rebuild (service_of 1 lab_mgr)"
      "length [(10, lab_sep ''c'' 8)] = length (sep_set (service_of 1 lab_mgr))"
    using lab_mgr_facts(7) unfolding lab_mgr_facts(3)
    by (simp_all add: lab_service_def addresses_below_def lab_mgr_def)
  from set_backend_dangling [OF lab_mgr_facts(1,2) s(1-4) lab_parse(1) s(5) m'] m' show ?thesis by blast
qed

theorem shared_endpoint_lost_witness:
  "\<exists>m'. set_backend lab_env 1 ''c:1'' lab_mgr = Ok m' \<and> (0, lab_sep ''a'' 5) \<in> set (sep_set (service_of 2 m'))
     \<and> \<not> active (sm_pool m') 5"
proof -
  obtain m' where m': "set_backend lab_env 1 ''c:1'' lab_mgr = Ok m'" using lab_set by blast
  have "5 \<in> node_ep ` set (missing_in (sep_set (service_of 1 lab_mgr)) [(10, lab_sep ''c'' 8)])"
    unfolding lab_mgr_facts(3)
    by (simp add: missing_in_def lab_service_def lab_sep_def node_key_def sep_key_def node_ep_def)
  moreover have "(0, lab_sep ''a'' 5) \<in> set (sep_set (service_of 2 lab_mgr))" "node_ep (0, lab_sep ''a'' 5) = 5"
    unfolding lab_mgr_facts(4) by (simp_all add: lab_service_def node_ep_def lab_sep_def)
  ultimately show ?thesis
    using shared_endpoint_lost [OF lab_mgr_facts(1,2) _ lab_parse(1) _ _ _ m', of 2 5 "(0, lab_sep ''a'' 5)" lab_os 0] m'
    by auto
qed

theorem relabelled_backend_lost_witness:
  "\<exists>m'. set_backend lab_env 1 ''localhost:1'' lab_mgr = Ok m'
     \<and> (10, lab_sep ''localhost'' 5) \<in> set (sep_set (service_of 1 m')) \<and> \<not> active (sm_pool m') 5"
proof -
  obtain m' where m': "set_backend lab_env 1 ''localhost:1'' lab_mgr = Ok m'" using lab_set by blast
  have f: "(0, lab_sep ''a'' 5) \<in> set (sep_set (service_of 1 lab_mgr))"
    "(10, lab_sep ''localhost'' 5) \<in> set [(10, lab_sep ''localhost'' 5)]"
    "node_ep (10, lab_sep ''localhost'' 5) = node_ep (0, lab_sep ''a'' 5)"
    "sep_local (snd (10, lab_sep ''localhost'' 5)) \<noteq> sep_local (snd (0, lab_sep ''a'' 5))"
    "\<forall>x \<in> set [(10, lab_sep ''localhost'' 5)]. node_ep x = node_ep (0, lab_sep ''a'' 5) \<longrightarrow> x = (10, lab_sep ''localhost'' 5)"
    unfolding lab_mgr_facts(3) by (simp_all add: lab_service_def node_ep_def lab_sep_def)
  have "node_ep (0, lab_sep ''a'' 5) = 5" by (simp add: node_ep_def lab_sep_def)
  with relabelled_backend_lost [OF lab_mgr_facts(1,2) lab_parse(2) f m'] m' show ?thesis by auto
qed

end
