(* ===== verification/ThriftConnection.thy ===== *)
theory ThriftConnection
  imports StdContainers
begin

text \<open>
  src/sync/thrift\_pool.h: \<open>ThriftConnection\<close>, one client connection with its status and its
  reference.  Connection objects live in a store at their addresses; using an address where there
  is no object is undefined behaviour.  The Thrift transport and the \<open>getStatus\<close> call of the client
  are the argument \<open>transport_os\<close> over the world of the store.
\<close>

datatype kTCStatus = kTCClosed | kTCConnected

record tc_config =
  cf_host :: string
  cf_port :: int
  cf_framed :: bool
  cf_auto_connect :: bool
  cf_conn_timeout :: int
  cf_send_timeout :: int
  cf_recv_timeout :: int

record tconn =
  tc_config :: tc_config
  tc_status :: kTCStatus
  tc_in_use :: bool

text \<open>
  \<open>tr_setup\<close>: the new socket with its timeouts, wrapped in a framed or buffered transport.
  \<open>tr_open\<close>: whether \<open>open\<close> returns (it throws a \<open>TException\<close> otherwise).  \<open>tr_get_status\<close>: \<open>None\<close>
  when \<open>getStatus\<close> throws, otherwise whether the answer is ALIVE.
\<close>

record 'w transport_os =
  tr_setup :: "nat \<Rightarrow> tc_config \<Rightarrow> 'w \<Rightarrow> 'w"
  tr_open :: "nat \<Rightarrow> 'w \<Rightarrow> bool \<times> 'w"
  tr_close :: "nat \<Rightarrow> 'w \<Rightarrow> 'w"
  tr_is_open :: "nat \<Rightarrow> 'w \<Rightarrow> bool"
  tr_get_status :: "nat \<Rightarrow> 'w \<Rightarrow> bool option \<times> 'w"

text \<open>What the code asserts of the transport: it is open once \<open>open\<close> has returned.\<close>

definition open_opens :: "'w transport_os \<Rightarrow> bool" where
  "open_opens os \<longleftrightarrow> (\<forall>a w w'. tr_open os a w = (True, w') \<longrightarrow> tr_is_open os a w')"

record 'w cstore =
  cs_conns :: "nat \<Rightarrow> tconn option"
  cs_next :: nat
  cs_world :: 'w

section \<open>Operations\<close>

definition tc_at :: "nat \<Rightarrow> 'w cstore \<Rightarrow> tconn outcome" where
  "tc_at a m = (case cs_conns m a of None \<Rightarrow> Undef | Some c \<Rightarrow> Ok c)"

definition tc_set :: "nat \<Rightarrow> tconn \<Rightarrow> 'w cstore \<Rightarrow> 'w cstore" where
  "tc_set a c m = m\<lparr>cs_conns := (cs_conns m)(a \<mapsto> c)\<rparr>"

definition tc_is_open :: "'w transport_os \<Rightarrow> nat \<Rightarrow> 'w cstore \<Rightarrow> bool outcome" where
  "tc_is_open os a m =
     map_ok (\<lambda>c. tc_status c = kTCConnected \<and> tr_is_open os a (cs_world m)) (tc_at a m)"

definition assert_open :: "'w transport_os \<Rightarrow> bool \<Rightarrow> nat \<Rightarrow> 'w cstore \<Rightarrow> 'w cstore outcome" where
  "assert_open os b a m = bind_outcome (tc_is_open os a m) (\<lambda>opn. assert_ok (opn = b) m)"

definition tc_close :: "'w transport_os \<Rightarrow> nat \<Rightarrow> 'w cstore \<Rightarrow> 'w cstore outcome" where
  "tc_close os a m = bind_outcome (tc_at a m) (\<lambda>c.
     assert_open os False a
       (if tc_status c = kTCConnected
        then tc_set a (c\<lparr>tc_status := kTCClosed\<rparr>) (m\<lparr>cs_world := tr_close os a (cs_world m)\<rparr>)
        else m))"

definition tc_connect :: "'w transport_os \<Rightarrow> nat \<Rightarrow> 'w cstore \<Rightarrow> (bool \<times> 'w cstore) outcome" where
  "tc_connect os a m =
     bind_outcome (tc_close os a m) (\<lambda>m.
     bind_outcome (tc_at a m) (\<lambda>c.
       let (ok, w) = tr_open os a (cs_world m)
       in if \<not> ok
          then map_ok (Pair False) (assert_open os False a
                 (tc_set a (c\<lparr>tc_status := kTCClosed\<rparr>) (m\<lparr>cs_world := tr_close os a w\<rparr>)))
          else map_ok (Pair True) (assert_open os True a
                 (tc_set a (c\<lparr>tc_status := kTCConnected\<rparr>) (m\<lparr>cs_world := w\<rparr>)))))"

definition tc_reconnect :: "'w transport_os \<Rightarrow> nat \<Rightarrow> 'w cstore \<Rightarrow> 'w cstore outcome" where
  "tc_reconnect os a m = bind_outcome (tc_is_open os a m) (\<lambda>opn.
     if \<not> opn then map_ok snd (tc_connect os a m) else Ok m)"

text \<open>The constructor and the destructor.\<close>

definition tc_new :: "'w transport_os \<Rightarrow> tc_config \<Rightarrow> 'w cstore \<Rightarrow> (nat \<times> 'w cstore) outcome" where
  "tc_new os cfg m =
     (let a = cs_next m;
          m1 = m\<lparr>cs_conns := (cs_conns m)(a \<mapsto> \<lparr>tc_config = cfg, tc_status = kTCClosed, tc_in_use = False\<rparr>),
                 cs_next := Suc a, cs_world := tr_setup os a cfg (cs_world m)\<rparr>
      in if cf_auto_connect cfg then map_ok (\<lambda>(_, m). (a, m)) (tc_connect os a m1) else Ok (a, m1))"

definition tc_destroy :: "'w transport_os \<Rightarrow> nat \<Rightarrow> 'w cstore \<Rightarrow> 'w cstore outcome" where
  "tc_destroy os a m =
     bind_outcome (tc_at a m) (\<lambda>c.
     bind_outcome (assert_ok (\<not> tc_in_use c) m) (\<lambda>m.
     bind_outcome (tc_close os a m) (\<lambda>m. Ok (m\<lparr>cs_conns := (cs_conns m)(a := None)\<rparr>))))"

text \<open>The reference: \<open>get\<close> and \<open>put\<close>.\<close>

definition tc_get :: "'w transport_os \<Rightarrow> nat \<Rightarrow> 'w cstore \<Rightarrow> (bool \<times> 'w cstore) outcome" where
  "tc_get os a m =
     bind_outcome (tc_is_open os a m) (\<lambda>opn.
     bind_outcome (tc_at a m) (\<lambda>c.
       if opn \<and> \<not> tc_in_use c then Ok (True, tc_set a (c\<lparr>tc_in_use := True\<rparr>) m) else Ok (False, m)))"

definition tc_put :: "nat \<Rightarrow> 'w cstore \<Rightarrow> 'w cstore outcome" where
  "tc_put a m = bind_outcome (tc_at a m) (\<lambda>c.
     bind_outcome (assert_ok (tc_in_use c) m) (\<lambda>m. Ok (tc_set a (c\<lparr>tc_in_use := False\<rparr>) m)))"

definition tc_keep_alive :: "'w transport_os \<Rightarrow> nat \<Rightarrow> 'w cstore \<Rightarrow> (bool \<times> 'w cstore) outcome" where
  "tc_keep_alive os a m =
     bind_outcome (tc_is_open os a m) (\<lambda>opn.
       if \<not> opn then Ok (False, m)
       else case tr_get_status os a (cs_world m) of
           (Some alive, w) \<Rightarrow> Ok (alive, m\<lparr>cs_world := w\<rparr>)
         | (None, w) \<Rightarrow> map_ok (Pair False) (tc_close os a (m\<lparr>cs_world := w\<rparr>)))"

definition tc_client :: "'w transport_os \<Rightarrow> nat \<Rightarrow> 'w cstore \<Rightarrow> (nat \<times> 'w cstore) outcome" where
  "tc_client os a m = map_ok (Pair a) (tc_reconnect os a m)"

section \<open>What an operation may change\<close>

text \<open>Only object \<open>a\<close> changes, it stays, and its reference and configuration are kept.\<close>

definition only :: "nat \<Rightarrow> 'w cstore \<Rightarrow> 'w cstore \<Rightarrow> bool" where
  "only a m m' \<longleftrightarrow> cs_next m' = cs_next m \<and> (\<exists>c c'. cs_conns m a = Some c
     \<and> cs_conns m' = (cs_conns m)(a \<mapsto> c') \<and> tc_in_use c' = tc_in_use c \<and> tc_config c' = tc_config c)"

lemma only_refl: "cs_conns m a = Some c \<Longrightarrow> only a m m"
  unfolding only_def by (auto intro!: exI [of _ c] simp: fun_upd_idem)

lemma only_trans: "only a m m1 \<Longrightarrow> only a m1 m2 \<Longrightarrow> only a m m2"
  by (auto simp: only_def)

lemma only_world: "cs_conns m a = Some c \<Longrightarrow> only a m (m\<lparr>cs_world := w\<rparr>)"
  unfolding only_def by (auto intro!: exI [of _ c] simp: fun_upd_idem)

lemma only_Some: "only a m m' \<Longrightarrow> \<exists>c'. cs_conns m' a = Some c'"
  by (auto simp: only_def)

lemma tc_is_open_runs: "cs_conns m a = Some c \<Longrightarrow> \<exists>b. tc_is_open os a m = Ok b"
  by (simp add: tc_is_open_def tc_at_def)

lemma tc_close_runs:
  assumes "cs_conns m a = Some c"
  shows "\<exists>m'. tc_close os a m = Ok m' \<and> only a m m' \<and> tc_is_open os a m' = Ok False
     \<and> (\<exists>c'. cs_conns m' a = Some c' \<and> tc_status c' = kTCClosed)"
proof (cases "tc_status c")
  case kTCClosed
  with assms show ?thesis
    by (auto simp: tc_close_def tc_at_def assert_open_def tc_is_open_def intro: only_refl)
next
  case kTCConnected
  with assms show ?thesis
    by (auto simp: tc_close_def tc_at_def assert_open_def tc_is_open_def tc_set_def only_def)
qed

lemma tc_connect_runs:
  assumes c: "cs_conns m a = Some c" and os: "open_opens os"
  shows "\<exists>ok m'. tc_connect os a m = Ok (ok, m') \<and> only a m m' \<and> tc_is_open os a m' = Ok ok"
proof -
  obtain m1 c1 where m1: "tc_close os a m = Ok m1" "only a m m1" "cs_conns m1 a = Some c1"
    using tc_close_runs [OF c, of os] by blast
  obtain ok w where op: "tr_open os a (cs_world m1) = (ok, w)" by (cases "tr_open os a (cs_world m1)")
  have k: "only a m1 (tc_set a (c1\<lparr>tc_status := st\<rparr>) (m1\<lparr>cs_world := v\<rparr>))" for st v
    using m1(3) by (auto simp: only_def tc_set_def)
  show ?thesis
  proof (cases ok)
    case True
    then have "tr_is_open os a w" using os op by (auto simp: open_opens_def)
    with True m1 op k show ?thesis
      by (auto simp: tc_connect_def tc_at_def assert_open_def tc_is_open_def tc_set_def intro: only_trans)
  next
    case False
    with m1 op k show ?thesis
      by (auto simp: tc_connect_def tc_at_def assert_open_def tc_is_open_def tc_set_def intro: only_trans)
  qed
qed

text \<open>A connection never fails its assertions: connect and reconnect leave the status in
  agreement with the transport, and the reference taken with get is exclusive until put.\<close>

theorem tc_reference_exclusive:
  assumes c: "cs_conns m a = Some c" and os: "open_opens os"
  shows "(\<exists>ok m'. tc_connect os a m = Ok (ok, m') \<and> tc_is_open os a m' = Ok ok)
    \<and> (\<forall>m1. tc_get os a m = Ok (True, m1) \<longrightarrow> \<not> tc_in_use c \<and> tc_get os a m1 = Ok (False, m1)
         \<and> (\<exists>m2. tc_put a m1 = Ok m2 \<and> tc_get os a m2 = Ok (True, m1)))
    \<and> (tc_in_use c \<longrightarrow> tc_destroy os a m = Abort) \<and> (\<not> tc_in_use c \<longrightarrow> tc_put a m = Abort)"
proof (intro conjI allI impI)
  show "\<exists>ok m'. tc_connect os a m = Ok (ok, m') \<and> tc_is_open os a m' = Ok ok"
    using tc_connect_runs [OF c os] by blast
  fix m1 assume g: "tc_get os a m = Ok (True, m1)"
  then have m1: "m1 = tc_set a (c\<lparr>tc_in_use := True\<rparr>) m" and n: "\<not> tc_in_use c"
    and op: "tc_status c = kTCConnected" "tr_is_open os a (cs_world m)"
    using c by (auto simp: tc_get_def tc_is_open_def tc_at_def split: if_splits)
  show "\<not> tc_in_use c" by (rule n)
  show "tc_get os a m1 = Ok (False, m1)" using op by (simp add: tc_get_def tc_is_open_def tc_at_def m1 tc_set_def)
  have same: "c\<lparr>tc_in_use := b, tc_in_use := b'\<rparr> = c\<lparr>tc_in_use := b'\<rparr>" for b b' by simp
  then show "\<exists>m2. tc_put a m1 = Ok m2 \<and> tc_get os a m2 = Ok (True, m1)"
    using op by (simp add: tc_put_def tc_get_def tc_is_open_def tc_at_def m1 tc_set_def)
next
  show "tc_in_use c \<Longrightarrow> tc_destroy os a m = Abort" using c by (simp add: tc_destroy_def tc_at_def)
  show "\<not> tc_in_use c \<Longrightarrow> tc_put a m = Abort" using c by (simp add: tc_put_def tc_at_def)
qed

text \<open>A network in which every call succeeds; the world counts the connections opened.\<close>

definition lab_tr :: "nat transport_os" where
  "lab_tr = \<lparr>tr_setup = (\<lambda>_ _ w. w), tr_open = (\<lambda>_ w. (True, Suc w)), tr_close = (\<lambda>_ w. w),
     tr_is_open = (\<lambda>_ _. True), tr_get_status = (\<lambda>_ w. (Some True, w))\<rparr>"

lemma lab_tr_opens: "open_opens lab_tr"
  by (simp add: open_opens_def lab_tr_def)

theorem tc_reference_exclusive_witness:
  "\<exists>m1. tc_get lab_tr 0 \<lparr>cs_conns = [0 \<mapsto> \<lparr>tc_config = \<lparr>cf_host = ''a'', cf_port = 1, cf_framed = True,
        cf_auto_connect = True, cf_conn_timeout = 50, cf_send_timeout = 50, cf_recv_timeout = 50\<rparr>,
        tc_status = kTCConnected, tc_in_use = False\<rparr>], cs_next = 1, cs_world = 0\<rparr> = Ok (True, m1)
     \<and> tc_get lab_tr 0 m1 = Ok (False, m1)"
proof -
  let ?c = "\<lparr>tc_config = \<lparr>cf_host = ''a'', cf_port = 1, cf_framed = True,
        cf_auto_connect = True, cf_conn_timeout = 50, cf_send_timeout = 50, cf_recv_timeout = 50\<rparr>,
        tc_status = kTCConnected, tc_in_use = False\<rparr>"
  let ?m = "\<lparr>cs_conns = [0 \<mapsto> ?c], cs_next = 1, cs_world = 0\<rparr> :: nat cstore"
  have "cs_conns ?m 0 = Some ?c" by simp
  moreover obtain m1 where "tc_get lab_tr 0 ?m = Ok (True, m1)"
    by (simp add: tc_get_def tc_is_open_def tc_at_def lab_tr_def)
  ultimately show ?thesis using tc_reference_exclusive [of ?m 0 ?c lab_tr] lab_tr_opens by blast
qed

end
