(* ===== verification/ThriftConnectionPool.thy ===== *)
theory ThriftConnectionPool
  imports ThriftConnection
begin

text \<open>
  src/sync/thrift\_pool.h: \<open>ThriftConnectionPool\<close>, the connections to one server, in three sets
  (free, allocated, closed), with the timers that update its status and reclaim connections.  The
  sets are \<open>std::set\<close>s of pointers, so \<open>begin()\<close> is the smallest address.
\<close>

text \<open>A conversion of \<open>int\<close> to \<open>size_t\<close>.\<close>

definition to_size :: "int \<Rightarrow> nat" where
  "to_size i = nat (i mod 2 ^ 64)"

datatype probe_handler = HUpdate | HQuick | HReclaim

text \<open>
  The waits on the two timers in use, and the handlers the io\_service will run: setting a timer
  anew cancels its waits, and a cancelled wait runs its handler (the handlers ignore the code).
\<close>

record probe_timers =
  update_waits :: "probe_handler list"
  reclaim_waits :: "probe_handler list"
  ready :: "probe_handler list"

record conn_pool =
  cp_config :: tc_config
  cp_min_free :: int
  cp_max :: int
  cp_status :: kTCStatus
  free_conns :: "nat list"
  allocated_conns :: "nat list"
  closed_conns :: "nat list"
  cp_probing :: bool
  cp_timers :: probe_timers
  got_from_free :: u64
  got_from_created :: u64
  cnt_connected :: u64
  cnt_closed :: u64
  reclaimed_closed :: u64
  reclaimed_free :: u64
  created_free :: u64

section \<open>Timers\<close>

definition rearm_update :: "probe_handler \<Rightarrow> conn_pool \<Rightarrow> conn_pool" where
  "rearm_update h p = p\<lparr>cp_timers := (let t = cp_timers p in
     t\<lparr>ready := ready t @ update_waits t, update_waits := [h]\<rparr>)\<rparr>"

definition set_update_status_immediate :: "conn_pool \<Rightarrow> conn_pool" where
  "set_update_status_immediate = rearm_update HUpdate"

definition set_update_status :: "conn_pool \<Rightarrow> conn_pool" where
  "set_update_status = rearm_update HUpdate"

definition set_quick_update_status :: "conn_pool \<Rightarrow> conn_pool" where
  "set_quick_update_status = rearm_update HQuick"

definition set_reclaim_connections :: "conn_pool \<Rightarrow> conn_pool" where
  "set_reclaim_connections p = p\<lparr>cp_timers := (let t = cp_timers p in
     t\<lparr>ready := ready t @ reclaim_waits t, reclaim_waits := [HReclaim]\<rparr>)\<rparr>"

definition cp_start_probe :: "conn_pool \<Rightarrow> conn_pool" where
  "cp_start_probe p = (if cp_probing p then p
     else (set_reclaim_connections (set_update_status_immediate p))\<lparr>cp_probing := True\<rparr>)"

definition cp_stop_probe :: "conn_pool \<Rightarrow> conn_pool" where
  "cp_stop_probe p = p\<lparr>cp_probing := False\<rparr>"

section \<open>Connections\<close>

text \<open>\<open>create_connection\<close>: the first closed connection, connected again, or a new one.\<close>

definition create_connection ::
  "'w transport_os \<Rightarrow> conn_pool \<Rightarrow> 'w cstore \<Rightarrow> (nat \<times> conn_pool \<times> 'w cstore) outcome" where
  "create_connection os p m = (case closed_conns p of
       a # _ \<Rightarrow> map_ok (\<lambda>(_, m). (a, p\<lparr>closed_conns := ptr_erase a (closed_conns p)\<rparr>, m)) (tc_connect os a m)
     | [] \<Rightarrow> map_ok (\<lambda>(a, m). (a, p, m)) (tc_new os (cp_config p) m))"

definition put_connection ::
  "'w transport_os \<Rightarrow> nat \<Rightarrow> conn_pool \<Rightarrow> 'w cstore \<Rightarrow> conn_pool outcome" where
  "put_connection os a p m = map_ok (\<lambda>opn.
     if opn then p\<lparr>free_conns := ptr_insert a (free_conns p)\<rparr>
     else p\<lparr>closed_conns := ptr_insert a (closed_conns p)\<rparr>) (tc_is_open os a m)"

text \<open>The region at the start of \<open>get\<close> and of the two status checks, with what follows it.\<close>

definition take_connection ::
  "'w transport_os \<Rightarrow> conn_pool \<Rightarrow> 'w cstore \<Rightarrow> (nat \<times> bool \<times> conn_pool \<times> 'w cstore) outcome" where
  "take_connection os p m = (case free_conns p of
       a # _ \<Rightarrow> Ok (a, True, p\<lparr>free_conns := ptr_erase a (free_conns p)\<rparr>, m)
     | [] \<Rightarrow> map_ok (\<lambda>(a, p, m). (a, False, p, m)) (create_connection os p m))"

text \<open>\<open>inner_init\<close>: connections until one is not open.\<close>

fun create_free ::
  "'w transport_os \<Rightarrow> nat \<Rightarrow> conn_pool \<Rightarrow> 'w cstore \<Rightarrow> (conn_pool \<times> 'w cstore) outcome" where
  "create_free os 0 p m = Ok (p, m)"
| "create_free os (Suc n) p m =
     bind_outcome (create_connection os p m) (\<lambda>(a, p, m).
     bind_outcome (tc_is_open os a m) (\<lambda>opn.
       if opn then create_free os n (p\<lparr>free_conns := ptr_insert a (free_conns p)\<rparr>) m
       else Ok (p\<lparr>closed_conns := ptr_insert a (closed_conns p)\<rparr>, m)))"

definition cp_blank :: "tc_config \<Rightarrow> int \<Rightarrow> int \<Rightarrow> conn_pool" where
  "cp_blank cfg mn mx = \<lparr>cp_config = cfg\<lparr>cf_auto_connect := True\<rparr>, cp_min_free = mn, cp_max = mx,
     cp_status = kTCClosed, free_conns = [], allocated_conns = [], closed_conns = [], cp_probing = False,
     cp_timers = \<lparr>update_waits = [], reclaim_waits = [], ready = []\<rparr>,
     got_from_free = 0, got_from_created = 0, cnt_connected = 0, cnt_closed = 0,
     reclaimed_closed = 0, reclaimed_free = 0, created_free = 0\<rparr>"

definition cp_new ::
  "'w transport_os \<Rightarrow> tc_config \<Rightarrow> int \<Rightarrow> int \<Rightarrow> 'w cstore \<Rightarrow> (conn_pool \<times> 'w cstore) outcome" where
  "cp_new os cfg mn mx m =
     bind_outcome (assert_ok (cf_host cfg \<noteq> [] \<and> cf_port cfg \<noteq> 0) (cp_blank cfg mn mx)) (\<lambda>p.
       map_ok (\<lambda>(p, m). (cp_start_probe p, m)) (create_free os (nat mn) p m))"

definition can_be_destroyed :: "conn_pool \<Rightarrow> bool" where
  "can_be_destroyed p \<longleftrightarrow> allocated_conns p = []"

fun destroy_all :: "'w transport_os \<Rightarrow> nat list \<Rightarrow> 'w cstore \<Rightarrow> 'w cstore outcome" where
  "destroy_all os [] m = Ok m"
| "destroy_all os (a # as) m = bind_outcome (tc_destroy os a m) (destroy_all os as)"

definition cp_destroy :: "'w transport_os \<Rightarrow> conn_pool \<Rightarrow> 'w cstore \<Rightarrow> 'w cstore outcome" where
  "cp_destroy os p m =
     (let p = cp_stop_probe p
      in bind_outcome (assert_ok (can_be_destroyed p) m) (\<lambda>m.
           bind_outcome (destroy_all os (free_conns p) m) (destroy_all os (closed_conns p))))"

section \<open>get, put, close\<close>

definition cp_get ::
  "'w transport_os \<Rightarrow> conn_pool \<Rightarrow> 'w cstore \<Rightarrow> (nat option \<times> conn_pool \<times> 'w cstore) outcome" where
  "cp_get os p m =
     bind_outcome (take_connection os p m) (\<lambda>(a, from_free, p, m).
     bind_outcome (tc_get os a m) (\<lambda>(got, m).
       if got then
         let p = p\<lparr>allocated_conns := ptr_insert a (allocated_conns p)\<rparr>
         in Ok (Some a, if from_free then p\<lparr>got_from_free := got_from_free p + 1\<rparr>
                        else p\<lparr>got_from_created := got_from_created p + 1\<rparr>, m)
       else map_ok (\<lambda>p. (None, p, m)) (put_connection os a p m)))"

definition cp_put ::
  "'w transport_os \<Rightarrow> nat option \<Rightarrow> conn_pool \<Rightarrow> 'w cstore \<Rightarrow> (conn_pool \<times> 'w cstore) outcome" where
  "cp_put os c p m = (case c of
       None \<Rightarrow> Ok (p, m)
     | Some a \<Rightarrow>
         let p = p\<lparr>allocated_conns := ptr_erase a (allocated_conns p)\<rparr>
         in bind_outcome (tc_put a m) (\<lambda>m. map_ok (\<lambda>p. (p, m)) (put_connection os a p m)))"

definition cp_close ::
  "'w transport_os \<Rightarrow> nat option \<Rightarrow> conn_pool \<Rightarrow> 'w cstore \<Rightarrow> (conn_pool \<times> 'w cstore) outcome" where
  "cp_close os c p m = (case c of
       None \<Rightarrow> Ok (p, m)
     | Some a \<Rightarrow> map_ok (\<lambda>m. (set_quick_update_status p, m)) (tc_close os a m))"

section \<open>Status\<close>

text \<open>Up to \<open>n\<close> status calls, until one answers ALIVE.\<close>

fun check_alive ::
  "'w transport_os \<Rightarrow> nat \<Rightarrow> nat \<Rightarrow> 'w cstore \<Rightarrow> (bool \<times> 'w cstore) outcome" where
  "check_alive os 0 a m = Ok (False, m)"
| "check_alive os (Suc n) a m =
     bind_outcome (tc_is_open os a m) (\<lambda>opn.
       if \<not> opn then check_alive os n a m
       else case tr_get_status os a (cs_world m) of
           (Some True, w) \<Rightarrow> Ok (True, m\<lparr>cs_world := w\<rparr>)
         | (Some False, w) \<Rightarrow> check_alive os n a (m\<lparr>cs_world := w\<rparr>)
         | (None, w) \<Rightarrow> bind_outcome (tc_close os a (m\<lparr>cs_world := w\<rparr>)) (check_alive os n a))"

definition record_status :: "bool \<Rightarrow> conn_pool \<Rightarrow> conn_pool" where
  "record_status ok p =
     (if ok then p\<lparr>cp_status := kTCConnected, cnt_connected := cnt_connected p + 1\<rparr>
      else p\<lparr>cp_status := kTCClosed, cnt_closed := cnt_closed p + 1\<rparr>)"

definition update_status ::
  "'w transport_os \<Rightarrow> conn_pool \<Rightarrow> 'w cstore \<Rightarrow> (conn_pool \<times> 'w cstore) outcome" where
  "update_status os p m =
     bind_outcome (take_connection os p m) (\<lambda>(a, _, p, m).
       let try_times = (if cp_status p = kTCClosed then 1 else 3)
       in bind_outcome (check_alive os try_times a m) (\<lambda>(ok, m).
            map_ok (\<lambda>p. (set_update_status (record_status ok p), m)) (put_connection os a p m)))"

definition quick_update_status ::
  "'w transport_os \<Rightarrow> conn_pool \<Rightarrow> 'w cstore \<Rightarrow> (conn_pool \<times> 'w cstore) outcome" where
  "quick_update_status os p m =
     bind_outcome (take_connection os p m) (\<lambda>(a, _, p, m).
     bind_outcome (check_alive os 1 a m) (\<lambda>(ok, m).
       map_ok (\<lambda>p. (record_status ok p, m)) (put_connection os a p m)))"

section \<open>Reclaiming\<close>

fun create_and_put ::
  "'w transport_os \<Rightarrow> nat \<Rightarrow> conn_pool \<Rightarrow> 'w cstore \<Rightarrow> (conn_pool \<times> 'w cstore) outcome" where
  "create_and_put os 0 p m = Ok (p, m)"
| "create_and_put os (Suc n) p m =
     bind_outcome (create_connection os p m) (\<lambda>(a, p, m).
     bind_outcome (put_connection os a p m) (\<lambda>p. create_and_put os n p m))"

fun destroy_free ::
  "'w transport_os \<Rightarrow> nat \<Rightarrow> conn_pool \<Rightarrow> 'w cstore \<Rightarrow> (conn_pool \<times> 'w cstore) outcome" where
  "destroy_free os 0 p m = Ok (p, m)"
| "destroy_free os (Suc n) p m = (case free_conns p of
       [] \<Rightarrow> Ok (p, m)
     | a # _ \<Rightarrow> bind_outcome (tc_destroy os a m)
         (destroy_free os n (p\<lparr>free_conns := ptr_erase a (free_conns p)\<rparr>)))"

fun destroy_closed ::
  "'w transport_os \<Rightarrow> nat \<Rightarrow> conn_pool \<Rightarrow> 'w cstore \<Rightarrow> (conn_pool \<times> 'w cstore) outcome" where
  "destroy_closed os 0 p m = Ok (p, m)"
| "destroy_closed os (Suc n) p m = (case closed_conns p of
       [] \<Rightarrow> Ok (p, m)
     | a # _ \<Rightarrow> bind_outcome (tc_destroy os a m)
         (destroy_closed os n (p\<lparr>closed_conns := ptr_erase a (closed_conns p)\<rparr>)))"

definition reclaim_connections ::
  "'w transport_os \<Rightarrow> conn_pool \<Rightarrow> 'w cstore \<Rightarrow> (conn_pool \<times> 'w cstore) outcome" where
  "reclaim_connections os p m =
     (let as = length (allocated_conns p); fs = length (free_conns p); cs = length (closed_conns p);
          ts = as + fs + cs; mx = to_size (cp_max p); mn = to_size (cp_min_free p)
      in map_ok (\<lambda>(p, m). (set_reclaim_connections p, m))
           (if ts < mx then Ok (p, m)
            else
              let cs_freed = min (ts - mx) cs; rest = ts - mx - cs_freed
              in bind_outcome
                   (if fs \<le> mn then
                      let n = mn - fs; p = (if n \<noteq> 0 then p\<lparr>created_free := created_free p + 1\<rparr> else p)
                      in create_and_put os n p m
                    else
                      let n = min rest (fs - mn);
                          p = (if n \<noteq> 0 then p\<lparr>reclaimed_free := reclaimed_free p + 1\<rparr> else p)
                      in destroy_free os n p m)
                   (\<lambda>(p, m).
                     let p = (if cs_freed \<noteq> 0 then p\<lparr>reclaimed_closed := reclaimed_closed p + 1\<rparr> else p)
                     in destroy_closed os cs_freed p m)))"

section \<open>Reports\<close>

definition status_num :: "kTCStatus \<Rightarrow> nat" where
  "status_num s = (case s of kTCClosed \<Rightarrow> 0 | kTCConnected \<Rightarrow> 1)"

definition host_port :: "conn_pool \<Rightarrow> string" where
  "host_port p = cf_host (cp_config p) @ '':'' @ string_of_int (cf_port (cp_config p))"

text \<open>\<open>options.insert\<close> leaves an existing key alone.\<close>

definition option_insert :: "string \<Rightarrow> string \<Rightarrow> (string \<rightharpoonup> string) \<Rightarrow> (string \<rightharpoonup> string)" where
  "option_insert k v os = (if k \<in> dom os then os else os(k \<mapsto> v))"

definition cp_get_options :: "conn_pool \<Rightarrow> (string \<rightharpoonup> string) \<Rightarrow> (string \<rightharpoonup> string)" where
  "cp_get_options p os = fold (\<lambda>(k, v). option_insert (host_port p @ k) (string_of_nat v))
     [('' status'', status_num (cp_status p)),
      ('' allocated connections'', length (allocated_conns p)),
      ('' free connections'', length (free_conns p)),
      ('' closed connections'', length (closed_conns p)),
      ('' got from free connections'', unat (got_from_free p)),
      ('' got from created connections'', unat (got_from_created p)),
      ('' status connected'', unat (cnt_connected p)),
      ('' status closed'', unat (cnt_closed p)),
      ('' reclaim closed connections'', unat (reclaimed_closed p)),
      ('' reclaim free connections'', unat (reclaimed_free p)),
      ('' create free connections'', unat (created_free p))] os"

definition cp_get_stat :: "conn_pool \<Rightarrow> string" where
  "cp_get_stat p = ''('' @ host_port p @ '':'' @ string_of_nat (status_num (cp_status p)) @ ''|''
     @ string_of_nat (length (allocated_conns p)) @ ''|'' @ string_of_nat (length (free_conns p)) @ ''|''
     @ string_of_nat (length (closed_conns p)) @ '')''"

end
