(* ===== verification/ConnPoolInv.thy ===== *)
theory ConnPoolInv
  imports ThriftConnectionPool
begin

text \<open>
  The ownership invariant of \<open>ThriftConnectionPool\<close> (src/sync/thrift\_pool.h): every connection of
  the pool is in exactly one of its sets, or in the hands of the operation that runs, and is
  referenced exactly when it is in the allocated set.
\<close>

definition own :: "conn_pool \<Rightarrow> nat set" where
  "own p = set (free_conns p) \<union> set (allocated_conns p) \<union> set (closed_conns p)"

definition cp_inv :: "nat set \<Rightarrow> conn_pool \<Rightarrow> 'w cstore \<Rightarrow> bool" where
  "cp_inv H p m \<longleftrightarrow> ptr_ok (free_conns p) \<and> ptr_ok (allocated_conns p) \<and> ptr_ok (closed_conns p)
     \<and> set (free_conns p) \<inter> set (allocated_conns p) = {} \<and> set (free_conns p) \<inter> set (closed_conns p) = {}
     \<and> set (allocated_conns p) \<inter> set (closed_conns p) = {} \<and> H \<inter> own p = {}
     \<and> (\<forall>a \<in> own p \<union> H. \<exists>c. cs_conns m a = Some c \<and> (tc_in_use c \<longleftrightarrow> a \<in> set (allocated_conns p)))
     \<and> (\<forall>a \<in> dom (cs_conns m). a < cs_next m)"

text \<open>What an operation may do to the store: only the pool's connections and new ones change, and
  none is leaked or freed while it is listed.\<close>

definition evolves ::
  "nat set \<Rightarrow> conn_pool \<Rightarrow> 'w cstore \<Rightarrow> nat set \<Rightarrow> conn_pool \<Rightarrow> 'w cstore \<Rightarrow> bool" where
  "evolves H p m H' p' m' \<longleftrightarrow> cs_next m \<le> cs_next m'
     \<and> (\<forall>b. b \<notin> own p \<union> H \<longrightarrow> b < cs_next m \<longrightarrow> cs_conns m' b = cs_conns m b)
     \<and> own p' \<union> H' \<subseteq> own p \<union> H \<union> {cs_next m ..< cs_next m'}
     \<and> dom (cs_conns m') - (own p' \<union> H') = dom (cs_conns m) - (own p \<union> H)"

lemma evolves_refl: "evolves H p m H p m"
  by (simp add: evolves_def)

lemma evolves_trans:
  assumes 1: "evolves H p m H1 p1 m1" and 2: "evolves H1 p1 m1 H2 p2 m2"
  shows "evolves H p m H2 p2 m2"
proof -
  have n: "cs_next m \<le> cs_next m1" "cs_next m1 \<le> cs_next m2" using 1 2 by (simp_all add: evolves_def)
  have s: "own p1 \<union> H1 \<subseteq> own p \<union> H \<union> {cs_next m ..< cs_next m1}"
    "own p2 \<union> H2 \<subseteq> own p1 \<union> H1 \<union> {cs_next m1 ..< cs_next m2}" using 1 2 by (simp_all add: evolves_def)
  have "own p2 \<union> H2 \<subseteq> own p \<union> H \<union> {cs_next m ..< cs_next m2}" using s n by fastforce
  moreover have "cs_conns m2 b = cs_conns m b" if b: "b \<notin> own p \<union> H" "b < cs_next m" for b
  proof -
    have "b \<notin> own p1 \<union> H1" using s(1) b by auto
    then show ?thesis using 1 2 b n unfolding evolves_def by (metis order_less_le_trans)
  qed
  moreover have "dom (cs_conns m2) - (own p2 \<union> H2) = dom (cs_conns m) - (own p \<union> H)"
    using 1 2 by (simp add: evolves_def)
  ultimately show ?thesis using n by (simp add: evolves_def)
qed

text \<open>The sets decide; the other fields of the pool are free.\<close>

definition same_sets :: "conn_pool \<Rightarrow> conn_pool \<Rightarrow> bool" where
  "same_sets p q \<longleftrightarrow> free_conns q = free_conns p \<and> allocated_conns q = allocated_conns p
     \<and> closed_conns q = closed_conns p"

lemma same_sets_own: "same_sets p q \<Longrightarrow> own q = own p"
  by (simp add: same_sets_def own_def)

lemma cp_inv_same: "same_sets p q \<Longrightarrow> cp_inv H q m = cp_inv H p m"
  by (simp add: cp_inv_def same_sets_def own_def)

lemma evolves_same: "same_sets p q \<Longrightarrow> evolves H p m H q m"
  by (simp add: evolves_def same_sets_own)

lemma same_sets_timers [simp]:
  "same_sets p (rearm_update h p)" "same_sets p (set_reclaim_connections p)"
  "same_sets p (set_update_status p)" "same_sets p (set_quick_update_status p)"
  "same_sets p (record_status ok p)" "same_sets p (cp_start_probe p)" "same_sets p (cp_stop_probe p)"
  "same_sets p p" "same_sets p (p\<lparr>created_free := x\<rparr>)" "same_sets p (p\<lparr>reclaimed_free := x\<rparr>)"
  "same_sets p (p\<lparr>reclaimed_closed := x\<rparr>)" "same_sets p (p\<lparr>got_from_free := x\<rparr>)"
  "same_sets p (p\<lparr>got_from_created := x\<rparr>)"
  by (simp_all add: same_sets_def rearm_update_def set_reclaim_connections_def set_update_status_def
      set_quick_update_status_def record_status_def cp_start_probe_def cp_stop_probe_def
      set_update_status_immediate_def)

lemma same_sets_trans: "same_sets p q \<Longrightarrow> same_sets q r \<Longrightarrow> same_sets p r"
  by (simp add: same_sets_def)

text \<open>The configuration and the allocated set stay.\<close>

definition keeps :: "conn_pool \<Rightarrow> conn_pool \<Rightarrow> bool" where
  "keeps p q \<longleftrightarrow> cp_config q = cp_config p \<and> cp_min_free q = cp_min_free p \<and> cp_max q = cp_max p
     \<and> allocated_conns q = allocated_conns p"

lemma keeps_trans: "keeps p q \<Longrightarrow> keeps q r \<Longrightarrow> keeps p r"
  by (simp add: keeps_def)

lemma keeps_simps [simp]:
  "keeps p p" "keeps p (p\<lparr>free_conns := f\<rparr>)" "keeps p (p\<lparr>closed_conns := f\<rparr>)"
  "keeps p (p\<lparr>created_free := x\<rparr>)" "keeps p (p\<lparr>reclaimed_free := x\<rparr>)" "keeps p (p\<lparr>reclaimed_closed := x\<rparr>)"
  "keeps p (record_status ok p)" "keeps p (set_update_status p)" "keeps p (set_reclaim_connections p)"
  "keeps p (set_quick_update_status p)" "keeps p (cp_start_probe p)"
  by (simp_all add: keeps_def record_status_def set_update_status_def rearm_update_def
      set_reclaim_connections_def set_quick_update_status_def cp_start_probe_def
      set_update_status_immediate_def)

section \<open>Moves between the sets and the hand\<close>

lemma cp_inv_Some: "cp_inv H p m \<Longrightarrow> a \<in> own p \<union> H \<Longrightarrow> \<exists>c. cs_conns m a = Some c"
  by (auto simp: cp_inv_def)

lemma cp_inv_only:
  assumes inv: "cp_inv H p m" and a: "a \<in> own p \<union> H" and k: "only a m m'"
  shows "cp_inv H p m' \<and> evolves H p m H p m'"
proof -
  from k obtain c c' where c: "cs_conns m a = Some c" "cs_conns m' = (cs_conns m)(a \<mapsto> c')"
    "tc_in_use c' = tc_in_use c" "cs_next m' = cs_next m" by (auto simp: only_def)
  have "\<exists>c. cs_conns m' b = Some c \<and> (tc_in_use c \<longleftrightarrow> b \<in> set (allocated_conns p))" if "b \<in> own p \<union> H" for b
    using inv that c unfolding cp_inv_def by (metis fun_upd_apply option.inject)
  moreover have "\<forall>b \<in> dom (cs_conns m'). b < cs_next m'"
    using inv c by (auto simp: cp_inv_def)
  moreover have "dom (cs_conns m') = dom (cs_conns m)" using c by auto
  ultimately show ?thesis using inv c a by (auto simp: cp_inv_def evolves_def)
qed

text \<open>Taking a free connection, or a closed one.\<close>

lemma take_free_inv:
  assumes inv: "cp_inv {} p m" and f: "a \<in> set (free_conns p)"
  shows "cp_inv {a} (p\<lparr>free_conns := ptr_erase a (free_conns p)\<rparr>) m
    \<and> evolves {} p m {a} (p\<lparr>free_conns := ptr_erase a (free_conns p)\<rparr>) m"
proof -
  have ok: "ptr_ok (free_conns p)" using inv by (simp add: cp_inv_def)
  have o: "own (p\<lparr>free_conns := ptr_erase a (free_conns p)\<rparr>) \<union> {a} = own p"
    using f ok by (auto simp: own_def std_simps)
  have "{a} \<inter> own (p\<lparr>free_conns := ptr_erase a (free_conns p)\<rparr>) = {}"
    using inv f ok by (auto simp: own_def std_simps cp_inv_def)
  moreover have "set (ptr_erase a (free_conns p)) \<subseteq> set (free_conns p)" using ok by (auto simp: std_simps)
  moreover have "ptr_ok (ptr_erase a (free_conns p))" by (rule set_ok_erase [OF ok])
  ultimately show ?thesis using inv o by (auto simp: cp_inv_def evolves_def)
qed

lemma take_closed_inv:
  assumes inv: "cp_inv {} p m" and f: "a \<in> set (closed_conns p)"
  shows "cp_inv {a} (p\<lparr>closed_conns := ptr_erase a (closed_conns p)\<rparr>) m
    \<and> evolves {} p m {a} (p\<lparr>closed_conns := ptr_erase a (closed_conns p)\<rparr>) m"
proof -
  have ok: "ptr_ok (closed_conns p)" using inv by (simp add: cp_inv_def)
  have o: "own (p\<lparr>closed_conns := ptr_erase a (closed_conns p)\<rparr>) \<union> {a} = own p"
    using f ok by (auto simp: own_def std_simps)
  have "{a} \<inter> own (p\<lparr>closed_conns := ptr_erase a (closed_conns p)\<rparr>) = {}"
    using inv f ok by (auto simp: own_def std_simps cp_inv_def)
  moreover have "set (ptr_erase a (closed_conns p)) \<subseteq> set (closed_conns p)" using ok by (auto simp: std_simps)
  moreover have "ptr_ok (ptr_erase a (closed_conns p))" by (rule set_ok_erase [OF ok])
  ultimately show ?thesis using inv o by (auto simp: cp_inv_def evolves_def)
qed

lemma put_free_inv:
  assumes inv: "cp_inv {a} p m"
  shows "cp_inv {} (p\<lparr>free_conns := ptr_insert a (free_conns p)\<rparr>) m
    \<and> evolves {a} p m {} (p\<lparr>free_conns := ptr_insert a (free_conns p)\<rparr>) m"
proof -
  have o: "own (p\<lparr>free_conns := ptr_insert a (free_conns p)\<rparr>) = insert a (own p)"
    by (auto simp: own_def std_simps)
  have "ptr_ok (ptr_insert a (free_conns p))" using inv by (intro set_ok_insert) (simp add: cp_inv_def)
  moreover have "a \<notin> set (allocated_conns p)" "a \<notin> set (closed_conns p)"
    using inv by (auto simp: cp_inv_def own_def)
  ultimately show ?thesis using inv o by (auto simp: cp_inv_def evolves_def std_simps)
qed

lemma put_closed_inv:
  assumes inv: "cp_inv {a} p m"
  shows "cp_inv {} (p\<lparr>closed_conns := ptr_insert a (closed_conns p)\<rparr>) m
    \<and> evolves {a} p m {} (p\<lparr>closed_conns := ptr_insert a (closed_conns p)\<rparr>) m"
proof -
  have o: "own (p\<lparr>closed_conns := ptr_insert a (closed_conns p)\<rparr>) = insert a (own p)"
    by (auto simp: own_def std_simps)
  have "ptr_ok (ptr_insert a (closed_conns p))" using inv by (intro set_ok_insert) (simp add: cp_inv_def)
  moreover have "a \<notin> set (allocated_conns p)" "a \<notin> set (free_conns p)"
    using inv by (auto simp: cp_inv_def own_def)
  ultimately show ?thesis using inv o by (auto simp: cp_inv_def evolves_def std_simps)
qed

text \<open>A new object.\<close>

lemma tc_new_inv:
  assumes inv: "cp_inv {} p m" and os: "open_opens os" and auto: "cf_auto_connect cfg"
  shows "\<exists>m'. tc_new os cfg m = Ok (cs_next m, m') \<and> cp_inv {cs_next m} p m'
    \<and> evolves {} p m {cs_next m} p m'"
proof -
  let ?a = "cs_next m"
  let ?m1 = "m\<lparr>cs_conns := (cs_conns m)(?a \<mapsto> \<lparr>tc_config = cfg, tc_status = kTCClosed, tc_in_use = False\<rparr>),
      cs_next := Suc ?a, cs_world := tr_setup os ?a cfg (cs_world m)\<rparr>"
  have below: "\<forall>b \<in> own p. b < ?a" using inv by (force simp: cp_inv_def)
  have fresh: "?a \<notin> dom (cs_conns m)" using inv by (auto simp: cp_inv_def)
  have 1: "cp_inv {?a} p ?m1" using inv below by (auto simp: cp_inv_def own_def less_Suc_eq)
  have e1: "evolves {} p m {?a} p ?m1" using below fresh by (auto simp: evolves_def)
  obtain ok m' where "tc_connect os ?a ?m1 = Ok (ok, m')" "only ?a ?m1 m'"
    using tc_connect_runs [of ?m1 ?a _ os] os by auto
  with cp_inv_only [OF 1 _ this(2)] evolves_trans [OF e1] auto show ?thesis
    by (auto simp: tc_new_def Let_def)
qed

lemma create_connection_inv:
  assumes inv: "cp_inv {} p m" and os: "open_opens os" and auto: "cf_auto_connect (cp_config p)"
  shows "\<exists>a p' m'. create_connection os p m = Ok (a, p', m') \<and> cp_inv {a} p' m'
    \<and> evolves {} p m {a} p' m' \<and> keeps p p'"
proof (cases "closed_conns p")
  case Nil
  with tc_new_inv [OF inv os auto] show ?thesis by (auto simp: create_connection_def)
next
  case (Cons a as)
  let ?p = "p\<lparr>closed_conns := ptr_erase a (closed_conns p)\<rparr>"
  have t: "cp_inv {a} ?p m" "evolves {} p m {a} ?p m"
    using take_closed_inv [OF inv, of a] Cons by auto
  obtain c where "cs_conns m a = Some c" using cp_inv_Some [OF t(1), of a] by auto
  from tc_connect_runs [OF this os] obtain ok m' where "tc_connect os a m = Ok (ok, m')" "only a m m'" by blast
  with cp_inv_only [OF t(1) _ this(2)] evolves_trans [OF t(2)] Cons show ?thesis
    by (auto simp: create_connection_def)
qed

lemma take_connection_inv:
  assumes inv: "cp_inv {} p m" and os: "open_opens os" and auto: "cf_auto_connect (cp_config p)"
  shows "\<exists>a ff p' m'. take_connection os p m = Ok (a, ff, p', m') \<and> cp_inv {a} p' m'
    \<and> evolves {} p m {a} p' m' \<and> keeps p p'"
proof (cases "free_conns p")
  case Nil
  with create_connection_inv [OF inv os auto] show ?thesis
    by (auto simp: take_connection_def)
next
  case (Cons a as)
  with take_free_inv [OF inv, of a] show ?thesis by (auto simp: take_connection_def)
qed

lemma put_connection_inv:
  assumes inv: "cp_inv {a} p m"
  shows "\<exists>p'. put_connection os a p m = Ok p' \<and> cp_inv {} p' m \<and> evolves {a} p m {} p' m
    \<and> keeps p p'"
proof -
  obtain c where "cs_conns m a = Some c" using cp_inv_Some [OF inv, of a] by auto
  then obtain b where "tc_is_open os a m = Ok b" using tc_is_open_runs by blast
  with put_free_inv [OF inv] put_closed_inv [OF inv] show ?thesis
    by (cases b) (auto simp: put_connection_def)
qed

section \<open>Operations\<close>

text \<open>A pool that connects its new connections, and a transport that opens.\<close>

definition pool_ready :: "'w transport_os \<Rightarrow> conn_pool \<Rightarrow> bool" where
  "pool_ready os p \<longleftrightarrow> open_opens os \<and> cf_auto_connect (cp_config p)"

lemma pool_ready_keeps: "keeps p q \<Longrightarrow> pool_ready os p \<Longrightarrow> pool_ready os q"
  by (simp add: pool_ready_def keeps_def)

text \<open>The result of an operation that starts and ends with empty hands.\<close>

definition runs_ok :: "conn_pool \<Rightarrow> 'w cstore \<Rightarrow> (conn_pool \<times> 'w cstore) outcome \<Rightarrow> bool" where
  "runs_ok p m r \<longleftrightarrow> (\<exists>p' m'. r = Ok (p', m') \<and> cp_inv {} p' m' \<and> evolves {} p m {} p' m' \<and> keeps p p')"

lemma runs_okI:
  "r = Ok (p', m') \<Longrightarrow> cp_inv {} p' m' \<Longrightarrow> evolves {} p m {} p' m' \<Longrightarrow> keeps p p' \<Longrightarrow> runs_ok p m r"
  by (auto simp: runs_ok_def)

lemma runs_ok_same:
  assumes "runs_ok q m r" and "same_sets p q" and "keeps p q"
  shows "runs_ok p m r"
  using assms evolves_trans [OF evolves_same [OF assms(2)]] keeps_trans [OF assms(3)]
  by (auto simp: runs_ok_def)

lemma runs_ok_map:
  assumes "runs_ok p m r" and "\<And>q. same_sets q (f q)" and "\<And>q. keeps q (f q)"
  shows "runs_ok p m (map_ok (\<lambda>(p, m). (f p, m)) r)"
proof -
  obtain p' m' where r: "r = Ok (p', m')" "cp_inv {} p' m'" "evolves {} p m {} p' m'" "keeps p p'"
    using assms(1) by (auto simp: runs_ok_def)
  show ?thesis
    by (rule runs_okI [of _ "f p'" m'])
      (use r evolves_trans [OF r(3) evolves_same [OF assms(2)]] keeps_trans [OF r(4) assms(3)] cp_inv_same [OF assms(2)] in auto)
qed

lemma check_alive_inv:
  assumes "cp_inv H p m" and "a \<in> own p \<union> H"
  shows "\<exists>ok m'. check_alive os n a m = Ok (ok, m') \<and> cp_inv H p m' \<and> evolves H p m H p m'"
  using assms
proof (induction n arbitrary: m)
  case 0
  then show ?case by (auto simp: evolves_refl)
next
  case (Suc n)
  obtain c where c: "cs_conns m a = Some c" using cp_inv_Some [OF Suc.prems] by blast
  obtain b where b: "tc_is_open os a m = Ok b" using tc_is_open_runs [OF c] by blast
  obtain r w where r: "tr_get_status os a (cs_world m) = (r, w)" by (cases "tr_get_status os a (cs_world m)")
  let ?m = "m\<lparr>cs_world := w\<rparr>"
  have k: "only a m ?m" by (rule only_world [OF c])
  note i = cp_inv_only [OF Suc.prems k]
  show ?case
  proof (cases "b \<and> r = None")
    case True
    have "cs_conns ?m a = Some c" using c by simp
    from tc_close_runs [OF this, of os] obtain m2 where m2: "tc_close os a ?m = Ok m2" "only a ?m m2" by blast
    note j = cp_inv_only [OF conjunct1 [OF i] Suc.prems(2) m2(2)]
    from Suc.IH [OF conjunct1 [OF j] Suc.prems(2)] b r m2 True
    show ?thesis
      using evolves_trans [OF conjunct2 [OF i] evolves_trans [OF conjunct2 [OF j]]] by (auto; blast)
  next
    case False
    with Suc.IH [OF conjunct1 [OF i] Suc.prems(2)] Suc.IH [OF Suc.prems] b r i
    show ?thesis
      using evolves_trans [OF conjunct2 [OF i]]
      by (cases b; cases r) (auto split: bool.splits)
  qed
qed

lemma status_check_inv:
  assumes inv: "cp_inv {} p m" and ready: "pool_ready os p"
    and take: "take_connection os p m = Ok (a, ff, p1, m1)" and f: "\<And>q. same_sets q (f b q)" "\<And>q. keeps q (f b q)"
    and chk: "check_alive os n a m1 = Ok (b, m2)"
  shows "runs_ok p m (map_ok (\<lambda>p. (f b p, m2)) (put_connection os a p1 m2))"
proof -
  from take_connection_inv [OF inv, of os] ready take
  have t: "cp_inv {a} p1 m1" "evolves {} p m {a} p1 m1" "keeps p p1" by (auto simp: pool_ready_def)
  from check_alive_inv [OF t(1), of a os n] chk
  have k: "cp_inv {a} p1 m2" "evolves {a} p1 m1 {a} p1 m2" by auto
  from put_connection_inv [OF k(1), of os] obtain q where q: "put_connection os a p1 m2 = Ok q"
    "cp_inv {} q m2" "evolves {a} p1 m2 {} q m2" "keeps p1 q" by blast
  have e: "evolves {} p m {} (f b q) m2"
    using t(2) k(2) q(3) evolves_same [OF f(1) [of q]] by (meson evolves_trans)
  show ?thesis
    by (rule runs_okI [OF _ _ e]) (use q t f in \<open>auto simp: cp_inv_same [OF f(1)] intro: keeps_trans\<close>)
qed

lemma update_status_inv:
  assumes inv: "cp_inv {} p m" and ready: "pool_ready os p"
  shows "runs_ok p m (update_status os p m)" and "runs_ok p m (quick_update_status os p m)"
proof -
  from take_connection_inv [OF inv, of os] ready obtain a ff p1 m1
    where t: "take_connection os p m = Ok (a, ff, p1, m1)" "cp_inv {a} p1 m1" by (auto simp: pool_ready_def)
  let ?n = "if cp_status p1 = kTCClosed then 1 else 3"
  obtain b m2 where k: "check_alive os ?n a m1 = Ok (b, m2)" using check_alive_inv [OF t(2), of a os ?n] by auto
  have "runs_ok p m (map_ok (\<lambda>p. (set_update_status (record_status b p), m2)) (put_connection os a p1 m2))"
    by (rule status_check_inv [OF inv ready t(1) _ _ k, of "\<lambda>b p. set_update_status (record_status b p)"])
      (auto intro: same_sets_trans keeps_trans same_sets_timers keeps_simps)
  then show "runs_ok p m (update_status os p m)" by (simp add: update_status_def t(1) k)
  obtain b m2 where k: "check_alive os 1 a m1 = Ok (b, m2)" using check_alive_inv [OF t(2), of a os 1] by auto
  have "runs_ok p m (map_ok (\<lambda>p. (record_status b p, m2)) (put_connection os a p1 m2))"
    by (rule status_check_inv [OF inv ready t(1) _ _ k, of record_status]) auto
  then show "runs_ok p m (quick_update_status os p m)" by (simp add: quick_update_status_def t(1) k [simplified One_nat_def] del: check_alive.simps)
qed

text \<open>\<open>get\<close>, \<open>put\<close> and \<open>close\<close>.\<close>

lemma allocate_inv:
  assumes inv: "cp_inv {a} p m" and c: "cs_conns m a = Some c"
  shows "cp_inv {} (p\<lparr>allocated_conns := ptr_insert a (allocated_conns p)\<rparr>) (tc_set a (c\<lparr>tc_in_use := True\<rparr>) m)
    \<and> evolves {a} p m {} (p\<lparr>allocated_conns := ptr_insert a (allocated_conns p)\<rparr>) (tc_set a (c\<lparr>tc_in_use := True\<rparr>) m)"
proof -
  have o: "own (p\<lparr>allocated_conns := ptr_insert a (allocated_conns p)\<rparr>) = insert a (own p)"
    by (auto simp: own_def std_simps)
  have "ptr_ok (ptr_insert a (allocated_conns p))" using inv by (intro set_ok_insert) (simp add: cp_inv_def)
  moreover have "a \<notin> set (free_conns p)" "a \<notin> set (closed_conns p)" "a < cs_next m"
    using inv c by (auto simp: cp_inv_def own_def)
  ultimately show ?thesis using inv o c by (auto simp: cp_inv_def evolves_def std_simps tc_set_def)
qed

lemma deallocate_inv:
  assumes inv: "cp_inv {} p m" and a: "a \<in> set (allocated_conns p)" and c: "cs_conns m a = Some c"
  shows "cp_inv {a} (p\<lparr>allocated_conns := ptr_erase a (allocated_conns p)\<rparr>) (tc_set a (c\<lparr>tc_in_use := False\<rparr>) m)
    \<and> evolves {} p m {a} (p\<lparr>allocated_conns := ptr_erase a (allocated_conns p)\<rparr>) (tc_set a (c\<lparr>tc_in_use := False\<rparr>) m)"
proof -
  have ok: "ptr_ok (allocated_conns p)" using inv by (simp add: cp_inv_def)
  have o: "own (p\<lparr>allocated_conns := ptr_erase a (allocated_conns p)\<rparr>) \<union> {a} = own p"
    using a ok by (auto simp: own_def std_simps)
  have "ptr_ok (ptr_erase a (allocated_conns p))" by (rule set_ok_erase [OF ok])
  moreover have "a \<notin> set (free_conns p)" "a \<notin> set (closed_conns p)" "a < cs_next m"
    using inv c a by (auto simp: cp_inv_def own_def)
  moreover have "{a} \<inter> own (p\<lparr>allocated_conns := ptr_erase a (allocated_conns p)\<rparr>) = {}"
    using inv a ok by (auto simp: own_def std_simps cp_inv_def)
  ultimately show ?thesis using inv o c ok by (auto simp: cp_inv_def evolves_def std_simps tc_set_def)
qed

lemma cp_get_inv:
  assumes inv: "cp_inv {} p m" and ready: "pool_ready os p"
  shows "\<exists>r p' m'. cp_get os p m = Ok (r, p', m') \<and> cp_inv {} p' m' \<and> evolves {} p m {} p' m'
    \<and> cp_config p' = cp_config p \<and> (case r of
         None \<Rightarrow> allocated_conns p' = allocated_conns p
       | Some a \<Rightarrow> a \<notin> set (allocated_conns p) \<and> allocated_conns p' = ptr_insert a (allocated_conns p)
           \<and> tc_is_open os a m' = Ok True)"
proof -
  from take_connection_inv [OF inv, of os] ready obtain a ff p1 m1
    where t: "take_connection os p m = Ok (a, ff, p1, m1)" "cp_inv {a} p1 m1" "evolves {} p m {a} p1 m1"
      "keeps p p1" by (auto simp: pool_ready_def)
  obtain c where c: "cs_conns m1 a = Some c" using cp_inv_Some [OF t(2), of a] by auto
  have na: "a \<notin> set (allocated_conns p1)" using t(2) by (auto simp: cp_inv_def own_def)
  then have nu: "\<not> tc_in_use c" using t(2) c by (auto simp: cp_inv_def)
  obtain b where b: "tc_is_open os a m1 = Ok b" using tc_is_open_runs [OF c] by blast
  show ?thesis
  proof (cases b)
    case True
    let ?q = "p1\<lparr>allocated_conns := ptr_insert a (allocated_conns p1)\<rparr>"
    let ?r = "if ff then ?q\<lparr>got_from_free := got_from_free ?q + 1\<rparr>
              else ?q\<lparr>got_from_created := got_from_created ?q + 1\<rparr>"
    let ?m = "tc_set a (c\<lparr>tc_in_use := True\<rparr>) m1"
    note al = allocate_inv [OF t(2) c]
    have s: "same_sets ?q ?r" by simp
    have "tc_get os a m1 = Ok (True, ?m)" using True b nu c by (simp add: tc_get_def tc_at_def)
    then have "cp_get os p m = Ok (Some a, ?r, ?m)" by (simp add: cp_get_def t(1) Let_def)
    moreover have "cp_inv {} ?r ?m" using conjunct1 [OF al] by (simp only: cp_inv_same [OF s])
    moreover have "evolves {} p m {} ?r ?m"
      by (rule evolves_trans [OF t(3) evolves_trans [OF conjunct2 [OF al] evolves_same [OF s]]])
    moreover have "tc_is_open os a ?m = Ok True"
      using b True c by (simp add: tc_is_open_def tc_at_def tc_set_def)
    ultimately show ?thesis using t(4) na by (simp add: keeps_def)
  next
    case False
    then have g: "tc_get os a m1 = Ok (False, m1)" using b c by (simp add: tc_get_def tc_at_def)
    from put_connection_inv [OF t(2), of os] obtain q where q: "put_connection os a p1 m1 = Ok q"
      "cp_inv {} q m1" "evolves {a} p1 m1 {} q m1" "keeps p1 q" by blast
    then have "cp_get os p m = Ok (None, q, m1)" by (simp add: cp_get_def t(1) g)
    with q t(4) evolves_trans [OF t(3) q(3)] show ?thesis by (auto simp: keeps_def)
  qed
qed

lemma cp_put_inv:
  assumes inv: "cp_inv {} p m" and a: "a \<in> set (allocated_conns p)"
  shows "\<exists>p' m'. cp_put os (Some a) p m = Ok (p', m') \<and> cp_inv {} p' m' \<and> evolves {} p m {} p' m'
    \<and> cp_config p' = cp_config p \<and> allocated_conns p' = ptr_erase a (allocated_conns p)"
proof -
  obtain c where c: "cs_conns m a = Some c" "tc_in_use c"
    using inv a unfolding cp_inv_def own_def by blast
  let ?p = "p\<lparr>allocated_conns := ptr_erase a (allocated_conns p)\<rparr>"
  let ?m = "tc_set a (c\<lparr>tc_in_use := False\<rparr>) m"
  note de = deallocate_inv [OF inv a c(1)]
  have put: "tc_put a m = Ok ?m" using c by (simp add: tc_put_def tc_at_def)
  from put_connection_inv [OF conjunct1 [OF de], of os] obtain q where q: "put_connection os a ?p ?m = Ok q"
    "cp_inv {} q ?m" "evolves {a} ?p ?m {} q ?m" "keeps ?p q" by blast
  then have "cp_put os (Some a) p m = Ok (q, ?m)" by (simp add: cp_put_def put Let_def)
  with q evolves_trans [OF conjunct2 [OF de] q(3)] show ?thesis by (auto simp: keeps_def)
qed

lemma cp_close_inv:
  assumes inv: "cp_inv {} p m" and a: "a \<in> own p"
  shows "runs_ok p m (cp_close os (Some a) p m)"
proof -
  obtain c where "cs_conns m a = Some c" using cp_inv_Some [OF inv, of a] a by auto
  from tc_close_runs [OF this, of os] obtain m' where "tc_close os a m = Ok m'" "only a m m'" by blast
  with cp_inv_only [OF inv _ this(2)] a show ?thesis
    by (intro runs_okI [of _ "set_quick_update_status p" m'])
      (auto simp: cp_close_def cp_inv_same [of p "set_quick_update_status p"] intro: evolves_trans [OF _ evolves_same])
qed

text \<open>Destruction of a connection in the hand.\<close>

lemma tc_destroy_inv:
  assumes inv: "cp_inv {a} p m"
  shows "\<exists>m'. tc_destroy os a m = Ok m' \<and> cp_inv {} p m' \<and> evolves {a} p m {} p m'"
proof -
  obtain c where c: "cs_conns m a = Some c" using cp_inv_Some [OF inv, of a] by auto
  have "a \<notin> set (allocated_conns p)" using inv by (auto simp: cp_inv_def own_def)
  then have nu: "\<not> tc_in_use c" using inv c by (auto simp: cp_inv_def)
  obtain m1 where m1: "tc_close os a m = Ok m1" "only a m m1" using tc_close_runs [OF c, of os] by blast
  note k = cp_inv_only [OF inv _ m1(2)]
  let ?m = "m1\<lparr>cs_conns := (cs_conns m1)(a := None)\<rparr>"
  have "cp_inv {} p ?m" using k by (auto simp: cp_inv_def)
  moreover have "evolves {a} p m1 {} p ?m" using k by (auto simp: evolves_def cp_inv_def)
  moreover have "tc_destroy os a m = Ok ?m" using c nu m1 by (simp add: tc_destroy_def tc_at_def)
  ultimately show ?thesis using k evolves_trans by blast
qed

lemma create_and_put_inv:
  assumes "cp_inv {} p m" and "pool_ready os p"
  shows "runs_ok p m (create_and_put os n p m)"
  using assms
proof (induction n arbitrary: p m)
  case 0
  then show ?case by (auto simp: runs_ok_def evolves_refl)
next
  case (Suc n)
  from create_connection_inv [OF Suc.prems(1), of os] Suc.prems(2) obtain a p1 m1
    where t: "create_connection os p m = Ok (a, p1, m1)" "cp_inv {a} p1 m1" "evolves {} p m {a} p1 m1"
      "keeps p p1" by (auto simp: pool_ready_def)
  from put_connection_inv [OF t(2), of os] obtain q where q: "put_connection os a p1 m1 = Ok q"
    "cp_inv {} q m1" "evolves {a} p1 m1 {} q m1" "keeps p1 q" by blast
  have kq: "keeps p q" using t(4) q(4) by (rule keeps_trans)
  from Suc.IH [OF q(2) pool_ready_keeps [OF kq Suc.prems(2)]] obtain p2 m2
    where r: "create_and_put os n q m1 = Ok (p2, m2)" "cp_inv {} p2 m2" "evolves {} q m1 {} p2 m2" "keeps q p2"
    by (auto simp: runs_ok_def)
  show ?case
    by (rule runs_okI [OF _ r(2) evolves_trans [OF t(3) evolves_trans [OF q(3) r(3)]] keeps_trans [OF kq r(4)]])
      (simp add: t(1) q(1) r(1))
qed

text \<open>The destroying loops, with what they leave.\<close>

lemma destroy_free_inv:
  assumes "cp_inv {} p m"
  shows "\<exists>p' m'. destroy_free os n p m = Ok (p', m') \<and> cp_inv {} p' m' \<and> evolves {} p m {} p' m' \<and> keeps p p'
     \<and> closed_conns p' = closed_conns p \<and> length (free_conns p') = length (free_conns p) - n"
  using assms
proof (induction n arbitrary: p m)
  case 0
  then show ?case by (auto simp: evolves_refl)
next
  case (Suc n)
  show ?case
  proof (cases "free_conns p")
    case Nil
    with Suc.prems show ?thesis by (auto simp: evolves_refl)
  next
    case (Cons a as)
    let ?p = "p\<lparr>free_conns := ptr_erase a (free_conns p)\<rparr>"
    note t = take_free_inv [OF Suc.prems, of a]
    have h: "cp_inv {a} ?p m" "evolves {} p m {a} ?p m" using t Cons by auto
    from tc_destroy_inv [OF h(1), of os] obtain m1
      where d: "tc_destroy os a m = Ok m1" "cp_inv {} ?p m1" "evolves {a} ?p m {} ?p m1" by blast
    from Suc.IH [OF d(2)] obtain p2 m2 where r: "destroy_free os n ?p m1 = Ok (p2, m2)" "cp_inv {} p2 m2"
      "evolves {} ?p m1 {} p2 m2" "keeps ?p p2" "closed_conns p2 = closed_conns ?p"
      "length (free_conns p2) = length (free_conns ?p) - n" by blast
    have "keeps p p2" by (rule keeps_trans [OF _ r(4)]) simp
    with r d h Cons evolves_trans [OF h(2) evolves_trans [OF d(3) r(3)]] show ?thesis by simp
  qed
qed

lemma destroy_closed_inv:
  assumes "cp_inv {} p m"
  shows "\<exists>p' m'. destroy_closed os n p m = Ok (p', m') \<and> cp_inv {} p' m' \<and> evolves {} p m {} p' m' \<and> keeps p p'
     \<and> free_conns p' = free_conns p \<and> length (closed_conns p') = length (closed_conns p) - n"
  using assms
proof (induction n arbitrary: p m)
  case 0
  then show ?case by (auto simp: evolves_refl)
next
  case (Suc n)
  show ?case
  proof (cases "closed_conns p")
    case Nil
    with Suc.prems show ?thesis by (auto simp: evolves_refl)
  next
    case (Cons a as)
    let ?p = "p\<lparr>closed_conns := ptr_erase a (closed_conns p)\<rparr>"
    note t = take_closed_inv [OF Suc.prems, of a]
    have h: "cp_inv {a} ?p m" "evolves {} p m {a} ?p m" using t Cons by auto
    from tc_destroy_inv [OF h(1), of os] obtain m1
      where d: "tc_destroy os a m = Ok m1" "cp_inv {} ?p m1" "evolves {a} ?p m {} ?p m1" by blast
    from Suc.IH [OF d(2)] obtain p2 m2 where r: "destroy_closed os n ?p m1 = Ok (p2, m2)" "cp_inv {} p2 m2"
      "evolves {} ?p m1 {} p2 m2" "keeps ?p p2" "free_conns p2 = free_conns ?p"
      "length (closed_conns p2) = length (closed_conns ?p) - n" by blast
    have "keeps p p2" by (rule keeps_trans [OF _ r(4)]) simp
    with r d h Cons evolves_trans [OF h(2) evolves_trans [OF d(3) r(3)]] show ?thesis by simp
  qed
qed

end
