(* ===== verification/ConnPoolSpec.thy ===== *)
theory ConnPoolSpec
  imports ConnPoolInv
begin

text \<open>
  \<open>ThriftConnectionPool\<close> (src/sync/thrift\_pool.h) as a system: its users and its timers take
  turns.  What is reachable keeps the ownership invariant and both timers, no operation fails an
  assertion or touches a freed connection, and reclaiming ends at its bound.
\<close>

section \<open>Timers\<close>

definition pending :: "conn_pool \<Rightarrow> probe_handler list" where
  "pending p = (let t = cp_timers p in update_waits t @ reclaim_waits t @ ready t)"

text \<open>One periodic check and one reclaim are outstanding.\<close>

definition timers_ok :: "conn_pool \<Rightarrow> bool" where
  "timers_ok p \<longleftrightarrow> count_list (pending p) HUpdate = 1 \<and> count_list (pending p) HReclaim = 1"

lemma pending_rearm [simp]:
  "count_list (pending (rearm_update h p)) k = count_list (pending p) k + (if k = h then 1 else 0)"
  "count_list (pending (set_reclaim_connections p)) k = count_list (pending p) k + (if k = HReclaim then 1 else 0)"
  by (auto simp: pending_def rearm_update_def set_reclaim_connections_def Let_def)

lemma pending_sets [simp]:
  "pending (p\<lparr>free_conns := f\<rparr>) = pending p" "pending (p\<lparr>closed_conns := f\<rparr>) = pending p"
  "pending (p\<lparr>allocated_conns := f\<rparr>) = pending p" "pending (p\<lparr>created_free := x\<rparr>) = pending p"
  "pending (p\<lparr>reclaimed_free := x\<rparr>) = pending p" "pending (p\<lparr>reclaimed_closed := x\<rparr>) = pending p"
  "pending (p\<lparr>got_from_free := x\<rparr>) = pending p" "pending (p\<lparr>got_from_created := x\<rparr>) = pending p"
  "pending (record_status b p) = pending p" "pending (p\<lparr>cp_probing := b\<rparr>) = pending p"
  by (simp_all add: pending_def record_status_def)

lemma create_connection_pending: "create_connection os p m = Ok (a, p', m') \<Longrightarrow> pending p' = pending p"
  by (auto simp: create_connection_def outcome_simps split: list.splits prod.splits)

lemma put_connection_pending: "put_connection os a p m = Ok p' \<Longrightarrow> pending p' = pending p"
  by (auto simp: put_connection_def outcome_simps)

lemma take_connection_pending: "take_connection os p m = Ok (a, ff, p', m') \<Longrightarrow> pending p' = pending p"
  by (auto simp: take_connection_def outcome_simps split: list.splits dest: create_connection_pending)

lemma create_free_pending: "create_free os n p m = Ok (p', m') \<Longrightarrow> pending p' = pending p"
  by (induction n arbitrary: p m)
    (auto simp: outcome_simps split: if_splits dest!: create_connection_pending)

lemma create_and_put_pending: "create_and_put os n p m = Ok (p', m') \<Longrightarrow> pending p' = pending p"
  by (induction n arbitrary: p m)
    (force simp: outcome_simps dest: create_connection_pending put_connection_pending)+

lemma destroy_free_pending: "destroy_free os n p m = Ok (p', m') \<Longrightarrow> pending p' = pending p"
  by (induction n arbitrary: p m) (force simp: outcome_simps split: list.splits)+

lemma destroy_closed_pending: "destroy_closed os n p m = Ok (p', m') \<Longrightarrow> pending p' = pending p"
  by (induction n arbitrary: p m) (force simp: outcome_simps split: list.splits)+

lemma cp_get_pending: "cp_get os p m = Ok (r, p', m') \<Longrightarrow> pending p' = pending p"
  by (auto simp: cp_get_def outcome_simps Let_def split: if_splits
      dest!: take_connection_pending put_connection_pending)

lemma cp_put_pending: "cp_put os (Some a) p m = Ok (p', m') \<Longrightarrow> pending p' = pending p"
  by (auto simp: cp_put_def outcome_simps Let_def dest!: put_connection_pending)

lemma cp_close_pending:
  "cp_close os (Some a) p m = Ok (p', m') \<Longrightarrow>
     count_list (pending p') k = count_list (pending p) k + (if k = HQuick then 1 else 0)"
  by (auto simp: cp_close_def outcome_simps set_quick_update_status_def)

lemma update_status_pending:
  "update_status os p m = Ok (p', m') \<Longrightarrow>
     count_list (pending p') k = count_list (pending p) k + (if k = HUpdate then 1 else 0)"
  "quick_update_status os p m = Ok (p', m') \<Longrightarrow> pending p' = pending p"
  by (auto simp: update_status_def quick_update_status_def outcome_simps Let_def set_update_status_def
      dest!: take_connection_pending put_connection_pending)

lemma reclaim_pending:
  "reclaim_connections os p m = Ok (p', m') \<Longrightarrow>
     count_list (pending p') k = count_list (pending p) k + (if k = HReclaim then 1 else 0)"
  by (auto simp: reclaim_connections_def outcome_simps Let_def split: if_splits
      dest!: create_and_put_pending destroy_free_pending destroy_closed_pending)

section \<open>Reclaiming\<close>

lemma reclaim_inv:
  assumes inv: "cp_inv {} p m" and ready: "pool_ready os p"
  shows "runs_ok p m (reclaim_connections os p m)"
proof -
  let ?mx = "to_size (cp_max p)" and ?mn = "to_size (cp_min_free p)"
  let ?ts = "length (allocated_conns p) + length (free_conns p) + length (closed_conns p)"
  let ?cf = "min (?ts - ?mx) (length (closed_conns p))"
  have k: "runs_ok p m (bind_outcome r (\<lambda>(p, m).
      destroy_closed os ?cf (if ?cf \<noteq> 0 then p\<lparr>reclaimed_closed := reclaimed_closed p + 1\<rparr> else p) m))"
    if r: "runs_ok p m r" for r
  proof -
    obtain q m1 where q: "r = Ok (q, m1)" "cp_inv {} q m1" "evolves {} p m {} q m1" "keeps p q"
      using r by (auto simp: runs_ok_def)
    let ?q = "if ?cf \<noteq> 0 then q\<lparr>reclaimed_closed := reclaimed_closed q + 1\<rparr> else q"
    have s: "same_sets q ?q" "keeps q ?q" by simp_all
    have "cp_inv {} ?q m1" using q(2) by (simp only: cp_inv_same [OF s(1)])
    from destroy_closed_inv [OF this, of os ?cf] obtain q2 m2 where q2:
      "destroy_closed os ?cf ?q m1 = Ok (q2, m2)" "cp_inv {} q2 m2" "evolves {} ?q m1 {} q2 m2" "keeps ?q q2"
      by blast
    show ?thesis
      by (rule runs_okI [OF _ q2(2) evolves_trans [OF q(3) evolves_trans [OF evolves_same [OF s(1)] q2(3)]]
            keeps_trans [OF q(4) keeps_trans [OF s(2) q2(4)]]]) (use q(1) q2(1) in simp)
  qed
  have c: "runs_ok p m (create_and_put os n (if n \<noteq> 0 then p\<lparr>created_free := created_free p + 1\<rparr> else p) m)" for n
    using create_and_put_inv [of "if n \<noteq> 0 then p\<lparr>created_free := created_free p + 1\<rparr> else p" m os n] inv ready
    by (auto intro!: runs_ok_same [of "if n \<noteq> 0 then p\<lparr>created_free := created_free p + 1\<rparr> else p" m _ p]
        simp: pool_ready_def cp_inv_same [of p "p\<lparr>created_free := created_free p + 1\<rparr>"])
  have d: "runs_ok p m (destroy_free os n (if n \<noteq> 0 then p\<lparr>reclaimed_free := reclaimed_free p + 1\<rparr> else p) m)" for n
  proof -
    let ?p = "if n \<noteq> 0 then p\<lparr>reclaimed_free := reclaimed_free p + 1\<rparr> else p"
    have s: "same_sets p ?p" "keeps p ?p" by simp_all
    have "cp_inv {} ?p m" using inv by (simp only: cp_inv_same [OF s(1)])
    from destroy_free_inv [OF this, of os n] have "runs_ok ?p m (destroy_free os n ?p m)"
      unfolding runs_ok_def by blast
    then show ?thesis by (rule runs_ok_same [OF _ s])
  qed
  have n: "runs_ok p m (Ok (p, m))" by (rule runs_okI [OF refl inv evolves_refl]) simp
  show ?thesis
    unfolding reclaim_connections_def Let_def
    apply (rule runs_ok_map)
      apply (cases "?ts < ?mx"; cases "length (free_conns p) \<le> ?mn")
         apply (simp_all only: if_True if_False not_True_eq_False not_False_eq_True)
         apply (rule n k [OF c] k [OF d])+
     apply simp_all
    done
qed

lemma reclaim_arith:
  fixes a f c mx mn :: nat
  assumes "mx \<le> a + f + c" and "mn < f"
  shows "mn \<le> f - min (a + f + c - mx - min (a + f + c - mx) c) (f - mn)
    \<and> a + (f - min (a + f + c - mx - min (a + f + c - mx) c) (f - mn)) + (c - min (a + f + c - mx) c) = max mx (a + mn)"
proof (cases "a + f + c - mx \<le> c")
  case True
  then show ?thesis using assms by (simp add: max_def) linarith
next
  case False
  then have "min (a + f + c - mx) c = c" "a + f + c - mx - c = a + f - mx" by simp_all
  moreover have "a + f - mx \<le> f - mn \<or> f - mn < a + f - mx" by linarith
  ultimately show ?thesis using assms False by (auto simp: max_def)
qed

text \<open>The size reached when there is something to reclaim.\<close>

lemma reclaim_lengths:
  assumes inv: "cp_inv {} p m" and full: "to_size (cp_max p)
      \<le> length (allocated_conns p) + length (free_conns p) + length (closed_conns p)"
    and surplus: "to_size (cp_min_free p) < length (free_conns p)"
    and run: "reclaim_connections os p m = Ok (p', m')"
  shows "allocated_conns p' = allocated_conns p \<and> to_size (cp_min_free p) \<le> length (free_conns p')
    \<and> length (allocated_conns p') + length (free_conns p') + length (closed_conns p')
      = max (to_size (cp_max p)) (length (allocated_conns p) + to_size (cp_min_free p))"
proof -
  let ?mx = "to_size (cp_max p)" and ?mn = "to_size (cp_min_free p)"
  let ?as = "length (allocated_conns p)" and ?fs = "length (free_conns p)" and ?cs = "length (closed_conns p)"
  let ?ts = "?as + ?fs + ?cs"
  let ?cf = "min (?ts - ?mx) ?cs"
  let ?n = "min (?ts - ?mx - ?cf) (?fs - ?mn)"
  let ?p = "if ?n \<noteq> 0 then p\<lparr>reclaimed_free := reclaimed_free p + 1\<rparr> else p"
  have f: "free_conns ?p = free_conns p" "closed_conns ?p = closed_conns p" "allocated_conns ?p = allocated_conns p"
    by simp_all
  have "cp_inv {} ?p m" using inv by (simp only: cp_inv_same [of p ?p] same_sets_def f)
  from destroy_free_inv [OF this, of os ?n] obtain q m1 where q: "destroy_free os ?n ?p m = Ok (q, m1)"
    "cp_inv {} q m1" "keeps ?p q" "closed_conns q = closed_conns p" "length (free_conns q) = ?fs - ?n"
    unfolding f by blast
  let ?q = "if ?cf \<noteq> 0 then q\<lparr>reclaimed_closed := reclaimed_closed q + 1\<rparr> else q"
  have g: "free_conns ?q = free_conns q" "closed_conns ?q = closed_conns q" "allocated_conns ?q = allocated_conns q"
    by simp_all
  have "cp_inv {} ?q m1" using q(2) by (simp only: cp_inv_same [of q ?q] same_sets_def g)
  from destroy_closed_inv [OF this, of os ?cf] obtain r m2 where r: "destroy_closed os ?cf ?q m1 = Ok (r, m2)"
    "keeps ?q r" "free_conns r = free_conns q" "length (closed_conns r) = ?cs - ?cf"
    unfolding g q(4) by blast
  have "\<not> ?ts < ?mx" "\<not> ?fs \<le> ?mn" using full surplus by simp_all
  then have "reclaim_connections os p m = Ok (set_reclaim_connections r, m2)"
    unfolding reclaim_connections_def Let_def using q(1) r(1) by simp
  then have p': "p' = set_reclaim_connections r" using run by simp
  have al: "allocated_conns r = allocated_conns p"
    using q(3) r(2) f g by (simp only: keeps_def)
  have "free_conns p' = free_conns q" "closed_conns p' = closed_conns r" "allocated_conns p' = allocated_conns p"
    using al r(3) by (simp_all add: p' set_reclaim_connections_def)
  with reclaim_arith [OF full surplus] q(5) r(4) show ?thesis by (simp only:)
qed

section \<open>Construction\<close>

lemma create_free_inv:
  assumes "cp_inv {} p m" and "pool_ready os p"
  shows "runs_ok p m (create_free os n p m)"
  using assms
proof (induction n arbitrary: p m)
  case 0
  then show ?case by (auto simp: runs_ok_def evolves_refl)
next
  case (Suc n)
  from create_connection_inv [OF Suc.prems(1), of os] Suc.prems(2) obtain a p1 m1
    where t: "create_connection os p m = Ok (a, p1, m1)" "cp_inv {a} p1 m1" "evolves {} p m {a} p1 m1"
      "keeps p p1" by (auto simp: pool_ready_def)
  obtain c where "cs_conns m1 a = Some c" using cp_inv_Some [OF t(2), of a] by auto
  then obtain b where b: "tc_is_open os a m1 = Ok b" using tc_is_open_runs by blast
  show ?case
  proof (cases b)
    case True
    let ?q = "p1\<lparr>free_conns := ptr_insert a (free_conns p1)\<rparr>"
    note i = put_free_inv [OF t(2)]
    have k: "keeps p ?q" by (rule keeps_trans [OF t(4)]) simp
    from Suc.IH [OF conjunct1 [OF i] pool_ready_keeps [OF k Suc.prems(2)]] obtain p2 m2
      where r: "create_free os n ?q m1 = Ok (p2, m2)" "cp_inv {} p2 m2" "evolves {} ?q m1 {} p2 m2" "keeps ?q p2"
      by (auto simp: runs_ok_def)
    show ?thesis
      by (rule runs_okI [OF _ r(2) evolves_trans [OF t(3) evolves_trans [OF conjunct2 [OF i] r(3)]]
            keeps_trans [OF k r(4)]]) (use True b t(1) r(1) in simp)
  next
    case False
    let ?q = "p1\<lparr>closed_conns := ptr_insert a (closed_conns p1)\<rparr>"
    note i = put_closed_inv [OF t(2)]
    have k: "keeps p ?q" by (rule keeps_trans [OF t(4)]) simp
    show ?thesis
      by (rule runs_okI [OF _ conjunct1 [OF i] evolves_trans [OF t(3) conjunct2 [OF i]] k])
        (use False b t(1) in simp)
  qed
qed

lemma cp_blank_inv:
  "(\<forall>a \<in> dom (cs_conns m). a < cs_next m) \<Longrightarrow> cp_inv {} (cp_blank cfg mn mx) m"
  by (simp add: cp_inv_def own_def cp_blank_def)

lemma cp_blank_facts [simp]:
  "own (cp_blank cfg mn mx) = {}" "allocated_conns (cp_blank cfg mn mx) = []"
  "cp_max (cp_blank cfg mn mx) = mx" "cp_min_free (cp_blank cfg mn mx) = mn"
  "open_opens os \<Longrightarrow> pool_ready os (cp_blank cfg mn mx)"
  "pending (cp_blank cfg mn mx) = []" "cp_probing (cp_blank cfg mn mx) = False"
  by (simp_all add: own_def cp_blank_def pool_ready_def pending_def)

lemma create_free_probing: "create_free os n p m = Ok (p', m') \<Longrightarrow> cp_probing p' = cp_probing p"
proof (induction n arbitrary: p m)
  case (Suc n)
  from Suc.prems obtain a p1 m1 b where 1: "create_connection os p m = Ok (a, p1, m1)" "tc_is_open os a m1 = Ok b"
    by (auto simp: outcome_simps)
  have "cp_probing p1 = cp_probing p"
    using 1(1) by (auto simp: create_connection_def outcome_simps split: list.splits)
  with Suc 1 show ?case by (cases b) (auto simp: outcome_simps)
qed simp

lemma cp_start_probe_pending:
  "\<not> cp_probing p \<Longrightarrow> count_list (pending (cp_start_probe p)) k
     = count_list (pending p) k + (if k = HUpdate \<or> k = HReclaim then 1 else 0)"
  by (simp add: cp_start_probe_def set_update_status_immediate_def)

lemma cp_new_runs:
  assumes m: "\<forall>a \<in> dom (cs_conns m). a < cs_next m" and os: "open_opens os"
    and addr: "cf_host cfg \<noteq> []" "cf_port cfg \<noteq> 0"
  shows "\<exists>p' m'. cp_new os cfg mn mx m = Ok (p', m') \<and> cp_inv {} p' m' \<and> evolves {} (cp_blank cfg mn mx) m {} p' m'
    \<and> keeps (cp_blank cfg mn mx) p' \<and> timers_ok p'"
proof -
  let ?b = "cp_blank cfg mn mx"
  from create_free_inv [OF cp_blank_inv [OF m], of os cfg mn mx "nat mn"] os obtain p1 m1
    where c: "create_free os (nat mn) ?b m = Ok (p1, m1)" "cp_inv {} p1 m1" "evolves {} ?b m {} p1 m1" "keeps ?b p1"
    by (auto simp: runs_ok_def)
  have s: "same_sets p1 (cp_start_probe p1)" "keeps p1 (cp_start_probe p1)" by simp_all
  have "timers_ok (cp_start_probe p1)"
    using create_free_pending [OF c(1)] create_free_probing [OF c(1)]
    by (simp add: timers_ok_def cp_start_probe_pending)
  moreover have "cp_new os cfg mn mx m = Ok (cp_start_probe p1, m1)" using addr c(1) by (simp add: cp_new_def)
  moreover have "cp_inv {} (cp_start_probe p1) m1" using c(2) by (simp only: cp_inv_same [OF s(1)])
  ultimately show ?thesis
    using evolves_trans [OF c(3) evolves_same [OF s(1)]] keeps_trans [OF c(4) s(2)] by blast
qed

section \<open>Destruction\<close>

lemma destroy_all_free:
  assumes "cp_inv {} p m" and "free_conns p = as @ bs"
  shows "\<exists>m'. destroy_all os as m = Ok m' \<and> cp_inv {} (p\<lparr>free_conns := bs\<rparr>) m'
    \<and> evolves {} p m {} (p\<lparr>free_conns := bs\<rparr>) m'"
  using assms
proof (induction as arbitrary: p m)
  case Nil
  then have s: "same_sets p (p\<lparr>free_conns := bs\<rparr>)" by (simp add: same_sets_def)
  show ?case using Nil.prems(1) evolves_same [OF s] by (simp add: cp_inv_same [OF s])
next
  case (Cons a as)
  let ?p = "p\<lparr>free_conns := as @ bs\<rparr>"
  have e: "ptr_erase a (free_conns p) = as @ bs" using Cons.prems(2) by simp
  note t = take_free_inv [OF Cons.prems(1), of a, unfolded e]
  have h: "cp_inv {a} ?p m" "evolves {} p m {a} ?p m" using t Cons.prems(2) by auto
  from tc_destroy_inv [OF h(1), of os] obtain m1
    where d: "tc_destroy os a m = Ok m1" "cp_inv {} ?p m1" "evolves {a} ?p m {} ?p m1" by blast
  from Cons.IH [OF d(2)] obtain m2 where r: "destroy_all os as m1 = Ok m2"
    "cp_inv {} (p\<lparr>free_conns := bs\<rparr>) m2" "evolves {} ?p m1 {} (p\<lparr>free_conns := bs\<rparr>) m2" by auto
  show ?case using r d(1) evolves_trans [OF h(2) evolves_trans [OF d(3) r(3)]] by simp
qed

lemma destroy_all_closed:
  assumes "cp_inv {} p m" and "closed_conns p = as @ bs"
  shows "\<exists>m'. destroy_all os as m = Ok m' \<and> cp_inv {} (p\<lparr>closed_conns := bs\<rparr>) m'
    \<and> evolves {} p m {} (p\<lparr>closed_conns := bs\<rparr>) m'"
  using assms
proof (induction as arbitrary: p m)
  case Nil
  then have s: "same_sets p (p\<lparr>closed_conns := bs\<rparr>)" by (simp add: same_sets_def)
  show ?case using Nil.prems(1) evolves_same [OF s] by (simp add: cp_inv_same [OF s])
next
  case (Cons a as)
  let ?p = "p\<lparr>closed_conns := as @ bs\<rparr>"
  have e: "ptr_erase a (closed_conns p) = as @ bs" using Cons.prems(2) by simp
  note t = take_closed_inv [OF Cons.prems(1), of a, unfolded e]
  have h: "cp_inv {a} ?p m" "evolves {} p m {a} ?p m" using t Cons.prems(2) by auto
  from tc_destroy_inv [OF h(1), of os] obtain m1
    where d: "tc_destroy os a m = Ok m1" "cp_inv {} ?p m1" "evolves {a} ?p m {} ?p m1" by blast
  from Cons.IH [OF d(2)] obtain m2 where r: "destroy_all os as m1 = Ok m2"
    "cp_inv {} (p\<lparr>closed_conns := bs\<rparr>) m2" "evolves {} ?p m1 {} (p\<lparr>closed_conns := bs\<rparr>) m2" by auto
  show ?case using r d(1) evolves_trans [OF h(2) evolves_trans [OF d(3) r(3)]] by simp
qed

text \<open>A pool with nothing allocated is destroyed with every connection of its own; otherwise the
  assertion fails.\<close>

lemma cp_destroy_runs:
  assumes inv: "cp_inv {} p m" and al: "allocated_conns p = []"
  shows "\<exists>m'. cp_destroy os p m = Ok m' \<and> dom (cs_conns m') = dom (cs_conns m) - own p
    \<and> (\<forall>b. b \<notin> own p \<longrightarrow> b < cs_next m \<longrightarrow> cs_conns m' b = cs_conns m b) \<and> cs_next m \<le> cs_next m'
    \<and> (\<forall>a \<in> dom (cs_conns m'). a < cs_next m')"
proof -
  from destroy_all_free [OF inv, of "free_conns p" "[]" os] obtain m1 where 1:
    "destroy_all os (free_conns p) m = Ok m1" "cp_inv {} (p\<lparr>free_conns := []\<rparr>) m1"
    "evolves {} p m {} (p\<lparr>free_conns := []\<rparr>) m1" by auto
  from destroy_all_closed [OF 1(2), of "closed_conns p" "[]" os] obtain m2 where 2:
    "destroy_all os (closed_conns p) m1 = Ok m2" "cp_inv {} (p\<lparr>free_conns := [], closed_conns := []\<rparr>) m2"
    "evolves {} (p\<lparr>free_conns := []\<rparr>) m1 {} (p\<lparr>free_conns := [], closed_conns := []\<rparr>) m2" by auto
  note e = evolves_trans [OF 1(3) 2(3)]
  have o: "own (p\<lparr>free_conns := [], closed_conns := []\<rparr>) = {}" using al by (simp add: own_def)
  have "cp_destroy os p m = Ok m2"
    using al 1(1) 2(1) by (simp add: cp_destroy_def can_be_destroyed_def cp_stop_probe_def)
  with e o 2(2) show ?thesis by (auto simp: evolves_def cp_inv_def)
qed

section \<open>The pool with its users and its timers\<close>

text \<open>The probe thread runs a handler that is ready.\<close>

definition run_probe ::
  "'w transport_os \<Rightarrow> probe_handler \<Rightarrow> conn_pool \<Rightarrow> 'w cstore \<Rightarrow> (conn_pool \<times> 'w cstore) outcome" where
  "run_probe os h = (case h of HUpdate \<Rightarrow> update_status os | HQuick \<Rightarrow> quick_update_status os
     | HReclaim \<Rightarrow> reclaim_connections os)"

definition set_timers :: "probe_timers \<Rightarrow> conn_pool \<Rightarrow> conn_pool" where
  "set_timers t p = p\<lparr>cp_timers := t\<rparr>"

text \<open>The store holds the connections of this pool; every user puts back and closes what it got.\<close>

definition cp_init :: "'w transport_os \<Rightarrow> tc_config \<Rightarrow> int \<Rightarrow> int \<Rightarrow> conn_pool \<times> 'w cstore \<Rightarrow> bool" where
  "cp_init os cfg mn mx s \<longleftrightarrow> (\<exists>m. cs_conns m = Map.empty \<and> cp_new os cfg mn mx m = Ok s)"

text \<open>A timer fires, or the probe thread runs a handler.\<close>

inductive probe_step :: "'w transport_os \<Rightarrow> conn_pool \<times> 'w cstore \<Rightarrow> conn_pool \<times> 'w cstore \<Rightarrow> bool" for os where
  update_due: "cp_timers p = t \<Longrightarrow> update_waits t = h # hs \<Longrightarrow>
    probe_step os (p, m) (set_timers (t\<lparr>update_waits := hs, ready := ready t @ [h]\<rparr>) p, m)"
| reclaim_due: "cp_timers p = t \<Longrightarrow> reclaim_waits t = h # hs \<Longrightarrow>
    probe_step os (p, m) (set_timers (t\<lparr>reclaim_waits := hs, ready := ready t @ [h]\<rparr>) p, m)"
| probe_run: "cp_timers p = t \<Longrightarrow> ready t = h # hs \<Longrightarrow>
    run_probe os h (set_timers (t\<lparr>ready := hs\<rparr>) p) m = Ok s \<Longrightarrow> probe_step os (p, m) s"

inductive cp_step :: "'w transport_os \<Rightarrow> conn_pool \<times> 'w cstore \<Rightarrow> conn_pool \<times> 'w cstore \<Rightarrow> bool" for os where
  cps_get: "cp_get os p m = Ok (r, p', m') \<Longrightarrow> cp_step os (p, m) (p', m')"
| cps_put: "a \<in> set (allocated_conns p) \<Longrightarrow> cp_put os (Some a) p m = Ok s \<Longrightarrow> cp_step os (p, m) s"
| cps_close: "a \<in> set (allocated_conns p) \<Longrightarrow> cp_close os (Some a) p m = Ok s \<Longrightarrow> cp_step os (p, m) s"
| cps_probe: "probe_step os s t \<Longrightarrow> cp_step os s t"

definition cp_sys_inv :: "'w transport_os \<Rightarrow> conn_pool \<times> 'w cstore \<Rightarrow> bool" where
  "cp_sys_inv os s \<longleftrightarrow> (open_opens os \<longrightarrow> cp_inv {} (fst s) (snd s) \<and> pool_ready os (fst s)
     \<and> dom (cs_conns (snd s)) = own (fst s) \<and> timers_ok (fst s))"

lemma set_timers_facts [simp]:
  "same_sets p (set_timers t p)" "keeps p (set_timers t p)"
  "pending (set_timers t p) = update_waits t @ reclaim_waits t @ ready t"
  by (simp_all add: set_timers_def same_sets_def keeps_def pending_def)

lemma pending_split: "cp_timers p = t \<Longrightarrow> pending p = update_waits t @ reclaim_waits t @ ready t"
  by (simp add: pending_def)

text \<open>Nothing leaks over an operation that starts and ends with empty hands.\<close>

lemma evolves_dom:
  assumes e: "evolves {} p m {} p' m'" and d: "dom (cs_conns m) = own p" and i: "cp_inv {} p' m'"
  shows "dom (cs_conns m') = own p'"
  using e d i by (auto simp: evolves_def cp_inv_def)

lemma cp_sys_keep:
  assumes "cp_sys_inv os (p, m)" and "open_opens os" and "cp_inv {} p' m'" and "evolves {} p m {} p' m'"
    and "cp_config p' = cp_config p" and "timers_ok p'"
  shows "cp_sys_inv os (p', m')"
  using assms evolves_dom [OF assms(4) _ assms(3)] by (simp add: cp_sys_inv_def pool_ready_def)

lemma run_probe_inv:
  assumes "cp_inv {} p m" and "pool_ready os p"
  shows "runs_ok p m (run_probe os h p m)"
  using update_status_inv [OF assms] reclaim_inv [OF assms] by (cases h) (simp_all add: run_probe_def)

lemma run_probe_pending:
  "run_probe os h p m = Ok (p', m') \<Longrightarrow> k \<noteq> HQuick \<Longrightarrow>
     count_list (pending p') k = count_list (pending p) k + (if k = h then 1 else 0)"
  by (cases h) (auto simp: run_probe_def update_status_pending reclaim_pending dest: update_status_pending(2))

lemma probe_step_inv:
  assumes step: "probe_step os (p, m) (p', m')" and inv: "cp_inv {} p m" and ready: "pool_ready os p"
  shows "cp_inv {} p' m' \<and> evolves {} p m {} p' m' \<and> keeps p p' \<and> (timers_ok p \<longrightarrow> timers_ok p')"
  using step
proof cases
  case (update_due tm h hs)
  let ?q = "set_timers (tm\<lparr>update_waits := hs, ready := ready tm @ [h]\<rparr>) p"
  have q: "same_sets p ?q" "keeps p ?q" by simp_all
  have "timers_ok p \<longrightarrow> timers_ok ?q"
    using update_due pending_split [OF update_due(3)] by (simp add: timers_ok_def split: if_splits)
  with update_due evolves_same [OF q(1)] inv q(2) show ?thesis by (simp add: cp_inv_same [OF q(1)])
next
  case (reclaim_due tm h hs)
  let ?q = "set_timers (tm\<lparr>reclaim_waits := hs, ready := ready tm @ [h]\<rparr>) p"
  have q: "same_sets p ?q" "keeps p ?q" by simp_all
  have "timers_ok p \<longrightarrow> timers_ok ?q"
    using reclaim_due pending_split [OF reclaim_due(3)] by (simp add: timers_ok_def split: if_splits)
  with reclaim_due evolves_same [OF q(1)] inv q(2) show ?thesis by (simp add: cp_inv_same [OF q(1)])
next
  case (probe_run tm h hs)
  let ?q = "set_timers (tm\<lparr>ready := hs\<rparr>) p"
  have q: "same_sets p ?q" "keeps p ?q" by simp_all
  have iq: "cp_inv {} ?q m" using inv by (simp only: cp_inv_same [OF q(1)])
  from run_probe_inv [OF iq pool_ready_keeps [OF q(2) ready], of h] probe_run(3)
  have r: "cp_inv {} p' m'" "evolves {} ?q m {} p' m'" "keeps ?q p'" by (auto simp: runs_ok_def)
  have "timers_ok p \<longrightarrow> timers_ok p'"
    using probe_run pending_split [OF probe_run(1)] run_probe_pending [OF probe_run(3)]
    by (simp add: timers_ok_def split: if_splits)
  with r(1) evolves_trans [OF evolves_same [OF q(1)] r(2)] keeps_trans [OF q(2) r(3)]
  show ?thesis by simp
qed

lemma cp_new_sys_inv: "cp_init os cfg mn mx s \<Longrightarrow> cp_sys_inv os s"
proof -
  assume "cp_init os cfg mn mx s"
  then obtain m where m: "cs_conns m = Map.empty" "cp_new os cfg mn mx m = Ok s" by (auto simp: cp_init_def)
  have addr: "cf_host cfg \<noteq> []" "cf_port cfg \<noteq> 0" using m(2) by (auto simp: cp_new_def outcome_simps)
  show ?thesis
  proof (cases "open_opens os")
    case True
    from cp_new_runs [OF _ this addr, of m mn mx] m obtain p' m' where 1: "s = (p', m')" "cp_inv {} p' m'"
      "evolves {} (cp_blank cfg mn mx) m {} p' m'" "keeps (cp_blank cfg mn mx) p'" "timers_ok p'" by auto
    have "dom (cs_conns m') = own p'" using evolves_dom [OF 1(3) _ 1(2)] m(1) by simp
    with 1 True show ?thesis
      using pool_ready_keeps [OF 1(4), of os] by (simp add: cp_sys_inv_def)
  qed (simp add: cp_sys_inv_def)
qed

lemma cp_step_sys_inv:
  assumes inv: "cp_sys_inv os s" and step: "cp_step os s t"
  shows "cp_sys_inv os t"
proof (cases "open_opens os")
  case os: True
  obtain p m where s: "s = (p, m)" by (cases s)
  have i: "cp_inv {} p m" "pool_ready os p" "timers_ok p" using inv os by (simp_all add: s cp_sys_inv_def)
  note keep = cp_sys_keep [OF inv [unfolded s] os]
  from step [unfolded s] show ?thesis
  proof cases
    case (cps_get r p' m')
    with cp_get_inv [OF i(1,2)] have "cp_inv {} p' m'" "evolves {} p m {} p' m'" "cp_config p' = cp_config p"
      by auto
    with cps_get keep i(3) cp_get_pending [OF cps_get(2)] show ?thesis by (simp add: timers_ok_def)
  next
    case (cps_put a)
    obtain p' m' where t: "t = (p', m')" by (cases t)
    with cp_put_inv [OF i(1) cps_put(1), of os] cps_put(2)
    have "cp_inv {} p' m'" "evolves {} p m {} p' m'" "cp_config p' = cp_config p" by auto
    with t keep i(3) cp_put_pending [OF cps_put(2) [unfolded t]] show ?thesis by (simp add: timers_ok_def)
  next
    case (cps_close a)
    obtain p' m' where t: "t = (p', m')" by (cases t)
    have "a \<in> own p" using cps_close(1) by (simp add: own_def)
    from cp_close_inv [OF i(1) this, of os] cps_close(2) t
    have "cp_inv {} p' m'" "evolves {} p m {} p' m'" "cp_config p' = cp_config p"
      by (auto simp: runs_ok_def keeps_def)
    with t keep i(3) cp_close_pending [OF cps_close(2) [unfolded t]] show ?thesis by (simp add: timers_ok_def)
  next
    case cps_probe
    obtain p' m' where t: "t = (p', m')" by (cases t)
    from probe_step_inv [OF _ i(1,2), of p' m'] cps_probe t
    have "cp_inv {} p' m'" "evolves {} p m {} p' m'" "keeps p p'" "timers_ok p'" using i(3) by auto
    with t keep show ?thesis by (simp add: keeps_def)
  qed
qed (simp add: cp_sys_inv_def)

interpretation conn_pool_sys: step_system "cp_init os cfg mn mx" "cp_step os" "cp_sys_inv os"
  for os :: "'w transport_os" and cfg mn mx
  by unfold_locales (auto intro: cp_new_sys_inv cp_step_sys_inv)

text \<open>A concrete pool.\<close>

definition lab_cfg :: tc_config where
  "lab_cfg = \<lparr>cf_host = ''db1'', cf_port = 9090, cf_framed = True, cf_auto_connect = True,
     cf_conn_timeout = 50, cf_send_timeout = 50, cf_recv_timeout = 50\<rparr>"

definition lab_store :: "nat cstore" where
  "lab_store = \<lparr>cs_conns = Map.empty, cs_next = 1, cs_world = 0\<rparr>"

lemma lab_pool_exists:
  "\<exists>p m. cp_new lab_tr lab_cfg 1 2 lab_store = Ok (p, m) \<and> reach (cp_init lab_tr lab_cfg 1 2) (cp_step lab_tr) (p, m)"
proof -
  from cp_new_runs [of lab_store lab_tr lab_cfg 1 2] lab_tr_opens obtain p m
    where "cp_new lab_tr lab_cfg 1 2 lab_store = Ok (p, m)" by (auto simp: lab_store_def lab_cfg_def)
  moreover from this have "cp_init lab_tr lab_cfg 1 2 (p, m)" by (auto simp: cp_init_def lab_store_def intro!: exI [of _ lab_store])
  ultimately show ?thesis by (auto intro: reach_init)
qed

section \<open>Properties\<close>

text \<open>In every reachable state of a connection pool each connection object is in exactly one of
  the free, allocated and closed sets, is referenced exactly when it is allocated, and none is leaked
  or freed while listed.\<close>

theorem conn_pool_ownership:
  assumes "open_opens os" and "reach (cp_init os cfg mn mx) (cp_step os) (p, m)"
  shows "dom (cs_conns m) = set (free_conns p) \<union> set (allocated_conns p) \<union> set (closed_conns p)
    \<and> distinct (free_conns p @ allocated_conns p @ closed_conns p)
    \<and> (\<forall>a c. cs_conns m a = Some c \<longrightarrow> (tc_in_use c \<longleftrightarrow> a \<in> set (allocated_conns p)))"
proof -
  have i: "cp_inv {} p m" "dom (cs_conns m) = own p"
    using conn_pool_sys.reachable_inv [OF assms(2)] assms(1) by (simp_all add: cp_sys_inv_def)
  have "distinct xs" if "ptr_ok xs" for xs :: "nat list" using set_ok_distinct [OF that] by simp
  with i(1) have "distinct (free_conns p @ allocated_conns p @ closed_conns p)" by (auto simp: cp_inv_def)
  moreover have "tc_in_use c \<longleftrightarrow> a \<in> set (allocated_conns p)" if "cs_conns m a = Some c" for a c
  proof -
    have "a \<in> own p" using that i(2) by auto
    then obtain c' where "cs_conns m a = Some c'" "tc_in_use c' \<longleftrightarrow> a \<in> set (allocated_conns p)"
      using i(1) unfolding cp_inv_def by blast
    then show ?thesis using that by simp
  qed
  ultimately show ?thesis using i(2) by (simp add: own_def)
qed

theorem conn_pool_ownership_witness:
  "\<exists>p m. cp_new lab_tr lab_cfg 1 2 lab_store = Ok (p, m)
     \<and> distinct (free_conns p @ allocated_conns p @ closed_conns p)"
proof -
  obtain p m where new: "cp_new lab_tr lab_cfg 1 2 lab_store = Ok (p, m)"
    and "reach (cp_init lab_tr lab_cfg 1 2) (cp_step lab_tr) (p, m)" using lab_pool_exists by blast
  then have "distinct (free_conns p @ allocated_conns p @ closed_conns p)"
    using conn_pool_ownership [OF lab_tr_opens] by auto
  with new show ?thesis by blast
qed

text \<open>The status check and the reclaiming are never lost: however often close re-arms the timer
  of the status check, exactly one periodic check and one reclaim are waiting or ready, and running
  the check schedules the next one.\<close>

theorem conn_pool_timers:
  assumes "open_opens os" and "reach (cp_init os cfg mn mx) (cp_step os) (p, m)"
  shows "count_list (pending p) HUpdate = 1 \<and> count_list (pending p) HReclaim = 1
    \<and> (\<forall>p' m'. update_status os p m = Ok (p', m') \<longrightarrow> update_waits (cp_timers p') = [HUpdate])"
proof -
  have "timers_ok p" using conn_pool_sys.reachable_inv [OF assms(2)] assms(1) by (simp add: cp_sys_inv_def)
  moreover have "update_waits (cp_timers p') = [HUpdate]" if "update_status os p m = Ok (p', m')" for p' m'
    using that by (auto simp: update_status_def outcome_simps Let_def set_update_status_def rearm_update_def)
  ultimately show ?thesis by (simp add: timers_ok_def)
qed

theorem conn_pool_timers_witness:
  "\<exists>p m. cp_new lab_tr lab_cfg 1 2 lab_store = Ok (p, m) \<and> count_list (pending p) HUpdate = 1"
proof -
  obtain p m where new: "cp_new lab_tr lab_cfg 1 2 lab_store = Ok (p, m)"
    and "reach (cp_init lab_tr lab_cfg 1 2) (cp_step lab_tr) (p, m)" using lab_pool_exists by blast
  with conn_pool_timers [OF lab_tr_opens this(2)] show ?thesis by blast
qed

text \<open>No operation of a reachable pool fails an assertion or uses a freed connection: get, put and
  close of a connection in use, each handler of the probe thread and reclaiming all return; get
  gives an open connection that nobody held, and put takes it back.\<close>

theorem conn_pool_runs:
  assumes os: "open_opens os" and reachable: "reach (cp_init os cfg mn mx) (cp_step os) (p, m)"
  shows "(\<exists>r p' m'. cp_get os p m = Ok (r, p', m') \<and> (\<forall>a. r = Some a \<longrightarrow>
        a \<notin> set (allocated_conns p) \<and> a \<in> set (allocated_conns p') \<and> tc_is_open os a m' = Ok True))
    \<and> (\<forall>a \<in> set (allocated_conns p). \<exists>p' m'. cp_put os (Some a) p m = Ok (p', m')
        \<and> set (allocated_conns p') = set (allocated_conns p) - {a} \<and> (a \<in> set (free_conns p') \<or> a \<in> set (closed_conns p')))
    \<and> (\<forall>a \<in> set (allocated_conns p). \<exists>s. cp_close os (Some a) p m = Ok s)
    \<and> (\<forall>h. \<exists>s. run_probe os h p m = Ok s)"
proof (intro conjI ballI allI)
  have i: "cp_inv {} p m" "pool_ready os p"
    using conn_pool_sys.reachable_inv [OF reachable] os by (simp_all add: cp_sys_inv_def)
  show "\<exists>r p' m'. cp_get os p m = Ok (r, p', m') \<and> (\<forall>a. r = Some a \<longrightarrow>
        a \<notin> set (allocated_conns p) \<and> a \<in> set (allocated_conns p') \<and> tc_is_open os a m' = Ok True)"
  proof -
    from cp_get_inv [OF i] obtain r p' m' where g: "cp_get os p m = Ok (r, p', m')" "case r of
         None \<Rightarrow> allocated_conns p' = allocated_conns p
       | Some a \<Rightarrow> a \<notin> set (allocated_conns p) \<and> allocated_conns p' = ptr_insert a (allocated_conns p)
           \<and> tc_is_open os a m' = Ok True" by blast
    have "\<forall>a. r = Some a \<longrightarrow> a \<notin> set (allocated_conns p) \<and> a \<in> set (allocated_conns p') \<and> tc_is_open os a m' = Ok True"
      using g(2) by (cases r) (simp_all add: std_simps)
    with g(1) show ?thesis by blast
  qed
  show "\<exists>s. run_probe os h p m = Ok s" for h using run_probe_inv [OF i, of h] by (auto simp: runs_ok_def)
  fix a assume a: "a \<in> set (allocated_conns p)"
  then have "a \<in> own p" by (simp add: own_def)
  from cp_close_inv [OF i(1) this, of os] show "\<exists>s. cp_close os (Some a) p m = Ok s" by (auto simp: runs_ok_def)
  have ok: "ptr_ok (allocated_conns p)" using i(1) by (simp add: cp_inv_def)
  from cp_put_inv [OF i(1) a, of os] obtain p' m' where p': "cp_put os (Some a) p m = Ok (p', m')"
    "cp_inv {} p' m'" "allocated_conns p' = ptr_erase a (allocated_conns p)" by blast
  have "a \<in> set (free_conns p') \<or> a \<in> set (closed_conns p')"
    using p'(1) by (auto simp: cp_put_def put_connection_def outcome_simps Let_def std_simps)
  with p' ok show "\<exists>p' m'. cp_put os (Some a) p m = Ok (p', m')
      \<and> set (allocated_conns p') = set (allocated_conns p) - {a} \<and> (a \<in> set (free_conns p') \<or> a \<in> set (closed_conns p'))"
    by (auto simp: std_simps)
qed

theorem conn_pool_runs_witness:
  "\<exists>p m s. cp_new lab_tr lab_cfg 1 2 lab_store = Ok (p, m) \<and> cp_get lab_tr p m = Ok s"
proof -
  obtain p m where new: "cp_new lab_tr lab_cfg 1 2 lab_store = Ok (p, m)"
    and "reach (cp_init lab_tr lab_cfg 1 2) (cp_step lab_tr) (p, m)" using lab_pool_exists by blast
  then have "\<exists>r p' m'. cp_get lab_tr p m = Ok (r, p', m')" using conn_pool_runs [OF lab_tr_opens] by metis
  with new show ?thesis by blast
qed

text \<open>C25: Reclaiming when more connections than max\_conn exist and free ones are in surplus: the
  connections in use stay, min\_free\_conn free ones stay, and the total ends at max\_conn or, when
  too many are in use, at those plus min\_free\_conn.\<close>

theorem conn_pool_reclaim_bound:
  assumes os: "open_opens os" and reachable: "reach (cp_init os cfg mn mx) (cp_step os) (p, m)"
    and full: "to_size (cp_max p)
      \<le> length (allocated_conns p) + length (free_conns p) + length (closed_conns p)"
    and surplus: "to_size (cp_min_free p) < length (free_conns p)"
  shows "\<exists>p' m'. reclaim_connections os p m = Ok (p', m') \<and> allocated_conns p' = allocated_conns p
    \<and> to_size (cp_min_free p) \<le> length (free_conns p') \<and> card (dom (cs_conns m'))
      = max (to_size (cp_max p)) (length (allocated_conns p) + to_size (cp_min_free p))"
proof -
  have i: "cp_inv {} p m" "pool_ready os p" "dom (cs_conns m) = own p"
    using conn_pool_sys.reachable_inv [OF reachable] os by (simp_all add: cp_sys_inv_def)
  from reclaim_inv [OF i(1,2)] obtain p' m' where r: "reclaim_connections os p m = Ok (p', m')"
    "cp_inv {} p' m'" "evolves {} p m {} p' m'" by (auto simp: runs_ok_def)
  have "distinct (free_conns p' @ allocated_conns p' @ closed_conns p')"
    using r(2) set_ok_distinct [of id] by (auto simp: cp_inv_def)
  then have "card (own p') = length (allocated_conns p') + length (free_conns p') + length (closed_conns p')"
    using distinct_card [of "free_conns p' @ allocated_conns p' @ closed_conns p'"] by (simp add: own_def Un_assoc)
  moreover have "dom (cs_conns m') = own p'" by (rule evolves_dom [OF r(3) i(3) r(2)])
  ultimately have "card (dom (cs_conns m')) = max (to_size (cp_max p)) (length (allocated_conns p) + to_size (cp_min_free p))"
    using reclaim_lengths [OF i(1) full surplus r(1)] by metis
  then show ?thesis using r(1) reclaim_lengths [OF i(1) full surplus r(1)] by blast
qed

text \<open>A pool without bounds, after one get and one put.\<close>

lemmas lab_run = cp_new_def lab_tr_def lab_cfg_def lab_store_def cp_blank_def cp_start_probe_def
  set_update_status_immediate_def rearm_update_def set_reclaim_connections_def cp_get_def take_connection_def
  create_connection_def tc_new_def tc_connect_def tc_close_def tc_at_def tc_set_def assert_open_def
  tc_is_open_def tc_get_def cp_put_def tc_put_def put_connection_def Let_def

theorem conn_pool_reclaim_bound_witness:
  "\<exists>p m p' m'. reach (cp_init lab_tr lab_cfg 0 0) (cp_step lab_tr) (p, m) \<and> length (free_conns p) = 1
     \<and> reclaim_connections lab_tr p m = Ok (p', m') \<and> card (dom (cs_conns m')) = 0"
proof -
  obtain p1 m1 where 1: "cp_new lab_tr lab_cfg 0 0 lab_store = Ok (p1, m1)"
    "allocated_conns p1 = []" "free_conns p1 = []" "closed_conns p1 = []"
    by (simp add: lab_run)
  obtain p2 m2 where 2: "cp_get lab_tr p1 m1 = Ok (Some 1, p2, m2)" "allocated_conns p2 = [1]"
    "free_conns p2 = []" "closed_conns p2 = []" using 1 by (auto simp: lab_run)
  obtain p3 m3 where 3: "cp_put lab_tr (Some 1) p2 m2 = Ok (p3, m3)" "allocated_conns p3 = []"
    "free_conns p3 = [1]" "closed_conns p3 = []" "cp_max p3 = 0" "cp_min_free p3 = 0" using 1 2 by (auto simp: lab_run)
  have "cp_init lab_tr lab_cfg 0 0 (p1, m1)" using 1 by (auto simp: cp_init_def lab_store_def intro!: exI [of _ lab_store])
  then have "reach (cp_init lab_tr lab_cfg 0 0) (cp_step lab_tr) (p2, m2)"
    using cps_get [OF 2(1)] by (blast intro: reach_init reach_step)
  moreover have "cp_step lab_tr (p2, m2) (p3, m3)" using cps_put [of 1 p2 lab_tr m2] 2 3 by simp
  ultimately have r: "reach (cp_init lab_tr lab_cfg 0 0) (cp_step lab_tr) (p3, m3)" by (blast intro: reach_step)
  with conn_pool_reclaim_bound [OF lab_tr_opens r] 3 show ?thesis by (force simp: to_size_def)
qed

text \<open>A pool is destroyed only when every connection was put back (the assertion fails
  otherwise), and then every connection object it owned is deleted.\<close>

theorem conn_pool_destroy:
  assumes "open_opens os" and "reach (cp_init os cfg mn mx) (cp_step os) (p, m)"
  shows "if can_be_destroyed p then \<exists>m'. cp_destroy os p m = Ok m' \<and> cs_conns m' = Map.empty
    else cp_destroy os p m = Abort"
proof -
  have i: "cp_inv {} p m" "dom (cs_conns m) = own p"
    using conn_pool_sys.reachable_inv [OF assms(2)] assms(1) by (simp_all add: cp_sys_inv_def)
  show ?thesis
    using cp_destroy_runs [OF i(1), of os] i(2)
    by (auto simp: can_be_destroyed_def cp_destroy_def cp_stop_probe_def)
qed

theorem conn_pool_destroy_witness:
  "\<exists>p m. cp_new lab_tr lab_cfg 1 2 lab_store = Ok (p, m)
     \<and> (can_be_destroyed p \<longrightarrow> (\<exists>m'. cp_destroy lab_tr p m = Ok m' \<and> cs_conns m' = Map.empty))"
proof -
  obtain p m where new: "cp_new lab_tr lab_cfg 1 2 lab_store = Ok (p, m)"
    and "reach (cp_init lab_tr lab_cfg 1 2) (cp_step lab_tr) (p, m)" using lab_pool_exists by blast
  with conn_pool_destroy [OF lab_tr_opens this(2)] show ?thesis by auto
qed

end
