(* ===== verification/ThriftPool.thy ===== *)
theory ThriftPool
  imports ConnPoolSpec
begin

text \<open>
  src/sync/thrift\_pool.h: \<open>ThriftPool\<close>, the pools of several servers, one \<open>ThriftConnectionPool\<close>
  each, with the map from connections in use to their pools, the round robin over the servers, the
  queue of removed servers and the thread that destroys them.  Pools live in a heap at their
  addresses beside the connections.
\<close>

record 'w pool_heap =
  pm_pools :: "nat \<Rightarrow> conn_pool option"
  pm_next :: nat
  pm_conns :: "'w cstore"

text \<open>\<open>remove_thread_\<close>: no thread, a thread that runs, a thread that returned.\<close>

datatype thread_state = No_Thread | Running | Returned

record thrift_pool =
  tp_template :: tc_config
  tp_min_free :: int
  tp_max :: int
  tp_localhost_name :: string
  tp_total_conn :: int
  tp_index :: u64
  tp_conn_map :: "(nat \<times> nat) list"
  tp_pools :: "nat list"
  tp_localhost :: "nat option"
  tp_stop_flag :: bool
  tp_thread :: thread_state
  tp_queue :: "nat list"

text \<open>
  Outside the repository: the transport, boost's \<open>split\<close> at the characters given and
  \<open>lexical_cast<int>\<close> (\<open>None\<close> when it throws).  \<open>set_max_conn\<close> and \<open>set_min_free_conn\<close> are members that
  \<open>set_total_conn\<close> calls and that no class of the repository defines.
\<close>

record 'w tp_env =
  te_os :: "'w transport_os"
  te_split :: "string \<Rightarrow> string \<Rightarrow> string list"
  te_cast :: "string \<Rightarrow> int option"
  te_set_max_conn :: "int \<Rightarrow> conn_pool \<Rightarrow> conn_pool"
  te_set_min_free_conn :: "int \<Rightarrow> conn_pool \<Rightarrow> conn_pool"

definition pool_at :: "'w pool_heap \<Rightarrow> nat \<Rightarrow> conn_pool outcome" where
  "pool_at h i = (case pm_pools h i of None \<Rightarrow> Undef | Some p \<Rightarrow> Ok p)"

definition pool_put :: "nat \<Rightarrow> conn_pool \<times> 'w cstore \<Rightarrow> 'w pool_heap \<Rightarrow> 'w pool_heap" where
  "pool_put i s h = h\<lparr>pm_pools := (pm_pools h)(i \<mapsto> fst s), pm_conns := snd s\<rparr>"

definition pool_addr :: "conn_pool \<Rightarrow> string \<times> int" where
  "pool_addr p = (cf_host (cp_config p), cf_port (cp_config p))"

section \<open>The thread that destroys removed servers\<close>

definition start_remove_thread :: "thrift_pool \<Rightarrow> thrift_pool" where
  "start_remove_thread t = (if tp_thread t = No_Thread
     then t\<lparr>tp_stop_flag := False, tp_thread := Running\<rparr> else t)"

text \<open>One turn of the loop in \<open>remove_thread\<close>: what stays in the queue.\<close>

fun remove_pass ::
  "'w transport_os \<Rightarrow> nat list \<Rightarrow> 'w pool_heap \<Rightarrow> (nat list \<times> 'w pool_heap) outcome" where
  "remove_pass os [] h = Ok ([], h)"
| "remove_pass os (i # is) h =
     bind_outcome (pool_at h i) (\<lambda>p.
       if can_be_destroyed p then
         bind_outcome (cp_destroy os p (pm_conns h)) (\<lambda>m.
           remove_pass os is (h\<lparr>pm_pools := (pm_pools h)(i := None), pm_conns := m\<rparr>))
       else map_ok (\<lambda>(q, h). (i # q, h)) (remove_pass os is h))"

definition remove_thread_turn ::
  "'w transport_os \<Rightarrow> thrift_pool \<Rightarrow> 'w pool_heap \<Rightarrow> (thrift_pool \<times> 'w pool_heap) outcome" where
  "remove_thread_turn os t h = map_ok (\<lambda>(q, h).
     (t\<lparr>tp_queue := q, tp_thread := (if \<not> tp_stop_flag t \<and> q = [] then Returned else Running)\<rparr>, h))
     (remove_pass os (tp_queue t) h)"

text \<open>The join of \<open>stop_remove_thread\<close> returns when the thread has returned.\<close>

definition stop_remove_thread_begin :: "thrift_pool \<Rightarrow> thrift_pool" where
  "stop_remove_thread_begin t = (if tp_thread t = No_Thread then t else t\<lparr>tp_stop_flag := True\<rparr>)"

definition join_returns :: "thrift_pool \<Rightarrow> bool" where
  "join_returns t \<longleftrightarrow> tp_thread t \<noteq> Running"

text \<open>The destructor up to the join.\<close>

definition tp_destroy_begin :: "thrift_pool \<Rightarrow> thrift_pool" where
  "tp_destroy_begin t =
     stop_remove_thread_begin (t\<lparr>tp_queue := tp_queue t @ tp_pools t, tp_pools := []\<rparr>)"

section \<open>Servers\<close>

definition new_pool ::
  "'w transport_os \<Rightarrow> string \<times> int \<Rightarrow> thrift_pool \<Rightarrow> 'w pool_heap \<Rightarrow> (nat \<times> 'w pool_heap) outcome" where
  "new_pool os addr t h =
     map_ok (\<lambda>s. (pm_next h, (pool_put (pm_next h) s h)\<lparr>pm_next := Suc (pm_next h)\<rparr>))
       (cp_new os ((tp_template t)\<lparr>cf_host := fst addr, cf_port := snd addr\<rparr>) (tp_min_free t) (tp_max t)
         (pm_conns h))"

definition push_pool :: "string \<Rightarrow> nat \<Rightarrow> thrift_pool \<Rightarrow> thrift_pool" where
  "push_pool host i t = t\<lparr>tp_pools := tp_pools t @ [i],
     tp_localhost := (if tp_localhost_name t = host then Some i else tp_localhost t)\<rparr>"

fun has_server :: "'w pool_heap \<Rightarrow> string \<times> int \<Rightarrow> nat list \<Rightarrow> bool outcome" where
  "has_server h addr [] = Ok False"
| "has_server h addr (i # is) = bind_outcome (pool_at h i) (\<lambda>p.
     if pool_addr p = addr then Ok True else has_server h addr is)"

definition add_server ::
  "'w transport_os \<Rightarrow> string \<Rightarrow> int \<Rightarrow> thrift_pool \<Rightarrow> 'w pool_heap
     \<Rightarrow> (bool \<times> thrift_pool \<times> 'w pool_heap) outcome" where
  "add_server os host port t h =
     bind_outcome (assert_ok (host \<noteq> [] \<and> port \<noteq> 0) ()) (\<lambda>_.
     bind_outcome (has_server h (host, port) (tp_pools t)) (\<lambda>found.
       if found then Ok (False, t, h)
       else map_ok (\<lambda>(i, h). (True, push_pool host i t, h)) (new_pool os (host, port) t h)))"

text \<open>The first requested server equal to \<open>x\<close> that no pool has claimed.\<close>

fun claim :: "string \<times> int \<Rightarrow> (string \<times> int) list \<Rightarrow> bool list \<Rightarrow> bool list option" where
  "claim x (s # ss) (f # fs) =
     (if s = x \<and> \<not> f then Some (True # fs) else map_option ((#) f) (claim x ss fs))"
| "claim x _ _ = None"

text \<open>The first loop of \<open>update_servers\<close>: the pools kept, the ones moved to the queue.\<close>

fun keep_pools ::
  "'w pool_heap \<Rightarrow> (string \<times> int) list \<Rightarrow> string \<Rightarrow> nat list \<Rightarrow> bool list \<Rightarrow> nat option
     \<Rightarrow> (nat list \<times> nat list \<times> bool list \<times> nat option) outcome" where
  "keep_pools h ss lname [] fs l = Ok ([], [], fs, l)"
| "keep_pools h ss lname (i # is) fs l =
     bind_outcome (pool_at h i) (\<lambda>p. case claim (pool_addr p) ss fs of
         Some fs \<Rightarrow> map_ok (\<lambda>(k, d, r). (i # k, d, r)) (keep_pools h ss lname is fs l)
       | None \<Rightarrow> map_ok (\<lambda>(k, d, r). (k, i # d, r))
           (keep_pools h ss lname is fs (if lname = fst (pool_addr p) then None else l)))"

text \<open>The second loop: the queue's pools that are wanted again.\<close>

fun restore_pools ::
  "'w pool_heap \<Rightarrow> (string \<times> int) list \<Rightarrow> nat list \<Rightarrow> bool list \<Rightarrow> thrift_pool
     \<Rightarrow> (nat list \<times> bool list \<times> thrift_pool) outcome" where
  "restore_pools h ss [] fs t = Ok ([], fs, t)"
| "restore_pools h ss (i # is) fs t =
     bind_outcome (pool_at h i) (\<lambda>p. case claim (pool_addr p) ss fs of
         Some fs \<Rightarrow> restore_pools h ss is fs (push_pool (fst (pool_addr p)) i t)
       | None \<Rightarrow> map_ok (\<lambda>(q, r). (i # q, r)) (restore_pools h ss is fs t))"

text \<open>The third: a new pool for every server not found.\<close>

fun add_missing ::
  "'w transport_os \<Rightarrow> ((string \<times> int) \<times> bool) list \<Rightarrow> thrift_pool \<Rightarrow> 'w pool_heap
     \<Rightarrow> (thrift_pool \<times> 'w pool_heap) outcome" where
  "add_missing os [] t h = Ok (t, h)"
| "add_missing os ((s, found) # ss) t h =
     (if found then add_missing os ss t h
      else bind_outcome (new_pool os s t h) (\<lambda>(i, h). add_missing os ss (push_pool (fst s) i t) h))"

definition update_servers ::
  "'w transport_os \<Rightarrow> string list \<Rightarrow> int list \<Rightarrow> thrift_pool \<Rightarrow> 'w pool_heap
     \<Rightarrow> (bool \<times> thrift_pool \<times> 'w pool_heap) outcome" where
  "update_servers os hosts ports t h =
     (if length hosts \<noteq> length ports then Ok (False, t, h)
      else let ss = zip hosts ports in
        bind_outcome (keep_pools h ss (tp_localhost_name t) (tp_pools t) (replicate (length hosts) False) (tp_localhost t))
          (\<lambda>(k, d, fs, l).
        bind_outcome (restore_pools h ss (tp_queue t @ d) fs (t\<lparr>tp_pools := k, tp_localhost := l\<rparr>))
          (\<lambda>(q, fs, t).
        map_ok (\<lambda>(t, h). (True, t, h)) (add_missing os (zip ss fs) (t\<lparr>tp_queue := q\<rparr>) h))))"

text \<open>\<open>set_total_conn\<close>: a division of \<open>int\<close> by \<open>size_t\<close>, stored in an \<open>int\<close>.\<close>

definition div10 :: "int \<Rightarrow> int" where
  "div10 n = (if n < 0 then - ((- n) div 10) else n div 10)"

definition to_int :: "nat \<Rightarrow> int" where
  "to_int n = sint (word_of_nat n :: 32 word)"

fun set_limits ::
  "'w tp_env \<Rightarrow> int \<Rightarrow> int \<Rightarrow> nat list \<Rightarrow> 'w pool_heap \<Rightarrow> 'w pool_heap outcome" where
  "set_limits env mx mn [] h = Ok h"
| "set_limits env mx mn (i # is) h = bind_outcome (pool_at h i) (\<lambda>p.
     set_limits env mx mn is
       (pool_put i (te_set_min_free_conn env (max (div10 mx) mn) (te_set_max_conn env mx p), pm_conns h) h))"

definition set_total_conn ::
  "'w tp_env \<Rightarrow> int \<Rightarrow> thrift_pool \<Rightarrow> 'w pool_heap \<Rightarrow> (thrift_pool \<times> 'w pool_heap) outcome" where
  "set_total_conn env n t h =
     bind_outcome
       (if n = 0 then Ok h
        else if tp_pools t = [] then Undef
        else set_limits env (to_int (to_size n div length (tp_pools t) + 1)) (tp_min_free t) (tp_pools t) h)
       (\<lambda>h. map_ok (\<lambda>h. (t\<lparr>tp_total_conn := n\<rparr>, h))
         (case tp_localhost t of None \<Rightarrow> Ok h | Some i \<Rightarrow> set_limits env n (tp_min_free t) [i] h))"

fun find_server :: "'w pool_heap \<Rightarrow> string \<times> int \<Rightarrow> nat list \<Rightarrow> nat option outcome" where
  "find_server h addr [] = Ok None"
| "find_server h addr (i # is) = bind_outcome (pool_at h i) (\<lambda>p.
     if pool_addr p = addr then Ok (Some i) else find_server h addr is)"

definition remove_server ::
  "'w tp_env \<Rightarrow> string \<Rightarrow> int \<Rightarrow> thrift_pool \<Rightarrow> 'w pool_heap \<Rightarrow> (thrift_pool \<times> 'w pool_heap) outcome" where
  "remove_server env host port t h =
     bind_outcome (find_server h (host, port) (tp_pools t)) (\<lambda>r. case r of
         None \<Rightarrow> Ok (t, h)
       | Some i \<Rightarrow>
           let t = t\<lparr>tp_localhost := (if tp_localhost_name t = host then None else tp_localhost t),
                     tp_pools := remove1 i (tp_pools t), tp_queue := tp_queue t @ [i]\<rparr>
           in set_total_conn env (tp_total_conn t) t h)"

text \<open>The constructors.\<close>

definition tp_blank :: "string \<Rightarrow> tc_config \<Rightarrow> int \<Rightarrow> int \<Rightarrow> thrift_pool" where
  "tp_blank lname cfg mn mx = \<lparr>tp_template = cfg, tp_min_free = mn, tp_max = mx, tp_localhost_name = lname,
     tp_total_conn = 0, tp_index = 0, tp_conn_map = [], tp_pools = [], tp_localhost = None,
     tp_stop_flag = False, tp_thread = No_Thread, tp_queue = []\<rparr>"

definition tp_new :: "string \<Rightarrow> tc_config \<Rightarrow> int \<Rightarrow> int \<Rightarrow> thrift_pool" where
  "tp_new lname cfg mn mx = start_remove_thread (tp_blank lname cfg mn mx)"

fun add_backends ::
  "'w tp_env \<Rightarrow> string list \<Rightarrow> thrift_pool \<Rightarrow> 'w pool_heap \<Rightarrow> (thrift_pool \<times> 'w pool_heap) outcome" where
  "add_backends env [] t h = Ok (t, h)"
| "add_backends env (s # ss) t h =
     bind_outcome
       (case te_split env '':'' s of
          [host, port] \<Rightarrow> (case te_cast env port of
              None \<Rightarrow> Ok (t, h)
            | Some n \<Rightarrow> map_ok snd (add_server (te_os env) host n t h))
        | _ \<Rightarrow> Ok (t, h))
       (\<lambda>(t, h). add_backends env ss t h)"

definition tp_new_backends ::
  "'w tp_env \<Rightarrow> string \<Rightarrow> tc_config \<Rightarrow> int \<Rightarrow> int \<Rightarrow> string \<Rightarrow> 'w pool_heap
     \<Rightarrow> (thrift_pool \<times> 'w pool_heap) outcome" where
  "tp_new_backends env lname cfg mn mx backends h =
     map_ok (\<lambda>(t, h). (start_remove_thread t, h))
       (add_backends env (te_split env '','' backends) (tp_blank lname cfg mn mx) h)"

section \<open>get, put, close\<close>

text \<open>\<open>index_ = index_ % servers_size\<close>, then \<open>index_++\<close>: the slot and the servers with the next index.\<close>

definition next_server :: "nat list \<times> u64 \<Rightarrow> nat \<times> nat list \<times> u64" where
  "next_server s = (let k = unat (snd s) mod length (fst s) in (k, fst s, word_of_nat k + 1))"

text \<open>The loop over the servers: the last pool looked at, and the index.\<close>

fun select_pool ::
  "'w pool_heap \<Rightarrow> nat \<Rightarrow> nat list \<times> u64 \<Rightarrow> nat option \<Rightarrow> (nat option \<times> u64) outcome" where
  "select_pool h 0 s seen = Ok (seen, snd s)"
| "select_pool h (Suc n) s seen =
     (let (k, s') = next_server s; i = fst s ! k
      in bind_outcome (pool_at h i) (\<lambda>p.
           if cp_status p = kTCConnected then Ok (Some i, snd s') else select_pool h n s' (Some i)))"

definition get_from ::
  "'w transport_os \<Rightarrow> nat \<Rightarrow> thrift_pool \<Rightarrow> 'w pool_heap \<Rightarrow> (nat option \<times> thrift_pool \<times> 'w pool_heap) outcome" where
  "get_from os i t h =
     bind_outcome (pool_at h i) (\<lambda>p.
     map_ok (\<lambda>(r, s). case r of
         None \<Rightarrow> (None, t, pool_put i s h)
       | Some a \<Rightarrow> (Some a, t\<lparr>tp_conn_map := map_put a i (tp_conn_map t)\<rparr>, pool_put i s h))
       (cp_get os p (pm_conns h)))"

definition pool_connected :: "'w pool_heap \<Rightarrow> nat option \<Rightarrow> bool outcome" where
  "pool_connected h r = (case r of None \<Rightarrow> Ok False
     | Some i \<Rightarrow> map_ok (\<lambda>p. cp_status p = kTCConnected) (pool_at h i))"

definition tp_get ::
  "'w transport_os \<Rightarrow> thrift_pool \<Rightarrow> 'w pool_heap \<Rightarrow> (nat option \<times> thrift_pool \<times> 'w pool_heap) outcome" where
  "tp_get os t h =
     bind_outcome (pool_connected h (tp_localhost t)) (\<lambda>local.
       case (if local then tp_localhost t else None) of
         Some i \<Rightarrow> get_from os i t h
       | None \<Rightarrow>
           if tp_pools t = [] then Ok (None, t, h)
           else bind_outcome (select_pool h (length (tp_pools t)) (tp_pools t, tp_index t) None) (\<lambda>(r, idx).
                bind_outcome (pool_connected h r) (\<lambda>up.
                  case (if up then r else None) of
                    Some i \<Rightarrow> get_from os i (t\<lparr>tp_index := idx\<rparr>) h
                  | None \<Rightarrow> Ok (None, t\<lparr>tp_index := idx\<rparr>, h))))"

definition tp_put ::
  "'w transport_os \<Rightarrow> nat option \<Rightarrow> thrift_pool \<Rightarrow> 'w pool_heap \<Rightarrow> (bool \<times> thrift_pool \<times> 'w pool_heap) outcome" where
  "tp_put os c t h = (case c of
       None \<Rightarrow> Ok (False, t, h)
     | Some a \<Rightarrow> (case map_of (tp_conn_map t) a of
           None \<Rightarrow> Ok (False, t, h)
         | Some i \<Rightarrow> bind_outcome (pool_at h i) (\<lambda>p.
             map_ok (\<lambda>s. (True, t\<lparr>tp_conn_map := set_erase fst a (tp_conn_map t)\<rparr>, pool_put i s h))
               (cp_put os (Some a) p (pm_conns h)))))"

definition tp_close ::
  "'w transport_os \<Rightarrow> nat option \<Rightarrow> thrift_pool \<Rightarrow> 'w pool_heap \<Rightarrow> (bool \<times> 'w pool_heap) outcome" where
  "tp_close os c t h = (case c of
       None \<Rightarrow> Ok (False, h)
     | Some a \<Rightarrow> (case map_of (tp_conn_map t) a of
           None \<Rightarrow> Ok (False, h)
         | Some i \<Rightarrow> bind_outcome (pool_at h i) (\<lambda>p.
             map_ok (\<lambda>s. (True, pool_put i s h)) (cp_close os (Some a) p (pm_conns h)))))"

section \<open>Reports\<close>

fun pools_at :: "'w pool_heap \<Rightarrow> nat list \<Rightarrow> conn_pool list outcome" where
  "pools_at h [] = Ok []"
| "pools_at h (i # is) = bind_outcome (pool_at h i) (\<lambda>p. map_ok ((#) p) (pools_at h is))"

fun any_connected :: "'w pool_heap \<Rightarrow> nat list \<Rightarrow> bool outcome" where
  "any_connected h [] = Ok False"
| "any_connected h (i # is) = bind_outcome (pool_at h i) (\<lambda>p.
     if cp_status p = kTCConnected then Ok True else any_connected h is)"

definition tp_get_status :: "thrift_pool \<Rightarrow> 'w pool_heap \<Rightarrow> kTCStatus outcome" where
  "tp_get_status t h = map_ok (\<lambda>b. if b then kTCConnected else kTCClosed) (any_connected h (tp_pools t))"

text \<open>\<open>connected * 100 / total\<close> in \<open>size_t\<close>.\<close>

definition tp_get_health :: "thrift_pool \<Rightarrow> 'w pool_heap \<Rightarrow> nat outcome" where
  "tp_get_health t h = bind_outcome (pools_at h (tp_pools t)) (\<lambda>ps.
     if ps = [] then Undef
     else Ok ((length (filter (\<lambda>p. cp_status p = kTCConnected) ps) * 100) mod 2 ^ 64 div length ps))"

definition tp_get_options ::
  "thrift_pool \<Rightarrow> 'w pool_heap \<Rightarrow> (string \<rightharpoonup> string) \<Rightarrow> (string \<rightharpoonup> string) outcome" where
  "tp_get_options t h os = map_ok (\<lambda>ps. fold cp_get_options ps os) (pools_at h (tp_pools t))"

definition tp_get_stat :: "thrift_pool \<Rightarrow> 'w pool_heap \<Rightarrow> string outcome" where
  "tp_get_stat t h = map_ok (\<lambda>ps. ''['' @ concat (map cp_get_stat ps) @ '']'') (pools_at h (tp_pools t))"

end
