(* ===== verification/ThriftPoolSpec.thy ===== *)
theory ThriftPoolSpec
  imports ThriftPool
begin

text \<open>
  \<open>ThriftPool\<close> (src/sync/thrift\_pool.h) as a system: the pools of the heap share one store of
  connections without sharing a connection, the map knows exactly the connections in use, and the
  servers are the ones last requested.
\<close>

section \<open>The heap of pools\<close>

definition heap_ok :: "'w transport_os \<Rightarrow> 'w pool_heap \<Rightarrow> bool" where
  "heap_ok os h \<longleftrightarrow>
     (\<forall>i p. pm_pools h i = Some p \<longrightarrow> cp_inv {} p (pm_conns h) \<and> pool_ready os p \<and> i < pm_next h)
     \<and> (\<forall>i j p q. pm_pools h i = Some p \<longrightarrow> pm_pools h j = Some q \<longrightarrow> i \<noteq> j \<longrightarrow> own p \<inter> own q = {})
     \<and> (\<forall>a \<in> dom (cs_conns (pm_conns h)). a < cs_next (pm_conns h)
          \<and> (\<exists>i p. pm_pools h i = Some p \<and> a \<in> own p))"

lemma heap_okD:
  assumes "heap_ok os h" and "pm_pools h i = Some p"
  shows "cp_inv {} p (pm_conns h)" "pool_ready os p" "i < pm_next h"
  using assms by (auto simp: heap_ok_def)

text \<open>Another pool's invariant over a step of one pool.\<close>

lemma cp_inv_frame:
  assumes q: "cp_inv {} q m" and disj: "own p \<inter> own q = {}" and e: "evolves {} p m {} p' m'"
    and i: "cp_inv {} p' m'"
  shows "cp_inv {} q m' \<and> own p' \<inter> own q = {}"
proof -
  have b: "a < cs_next m" if "a \<in> own q" for a using q that by (fastforce simp: cp_inv_def)
  have same: "cs_conns m' a = cs_conns m a" if "a \<in> own q" for a
    using e that disj b unfolding evolves_def by blast
  have "own p' \<inter> own q = {}" using e disj b by (fastforce simp: evolves_def)
  with q i same show ?thesis by (simp add: cp_inv_def)
qed

text \<open>One pool changes (or, with \<open>p\<close> owning nothing, is new).\<close>

lemma heap_ok_set:
  assumes h: "heap_ok os h"
    and p: "\<And>j q. j \<noteq> i \<Longrightarrow> pm_pools h j = Some q \<Longrightarrow> own p \<inter> own q = {}"
    and old: "\<And>q. pm_pools h i = Some q \<Longrightarrow> own q \<subseteq> own p"
    and e: "evolves {} p (pm_conns h) {} p' m'" and i: "cp_inv {} p' m'" and r: "pool_ready os p'"
    and n: "i < n" "pm_next h \<le> n"
  shows "heap_ok os (h\<lparr>pm_pools := (pm_pools h)(i \<mapsto> p'), pm_next := n, pm_conns := m'\<rparr>)"
proof -
  have fr: "cp_inv {} q m' \<and> own p' \<inter> own q = {}" if "j \<noteq> i" "pm_pools h j = Some q" for j q
    using cp_inv_frame [OF heap_okD(1) [OF h that(2)] p [OF that] e i] .
  have "\<exists>j q. ((pm_pools h)(i \<mapsto> p')) j = Some q \<and> a \<in> own q" if a: "a \<in> dom (cs_conns m')" for a
  proof (cases "a \<in> own p'")
    case False
    then have "a \<in> dom (cs_conns (pm_conns h))" "a \<notin> own p"
      using e a unfolding evolves_def by auto
    with h obtain j q where "pm_pools h j = Some q" "a \<in> own q" unfolding heap_ok_def by blast
    with old [of q] \<open>a \<notin> own p\<close> have "j \<noteq> i" by auto
    with \<open>pm_pools h j = Some q\<close> \<open>a \<in> own q\<close> show ?thesis by (intro exI [of _ j]) simp
  qed (intro exI [of _ i], simp)
  moreover have "\<forall>a \<in> dom (cs_conns m'). a < cs_next m'" using i by (simp add: cp_inv_def)
  moreover have "own x \<inter> own y = {}" if "((pm_pools h)(i \<mapsto> p')) j = Some x" "((pm_pools h)(i \<mapsto> p')) k = Some y" "j \<noteq> k" for j k x y
    using that fr [of j x] fr [of k y] h by (auto simp: heap_ok_def split: if_splits)
  moreover have "cp_inv {} x m' \<and> pool_ready os x \<and> j < n" if "((pm_pools h)(i \<mapsto> p')) j = Some x" for j x
    using that fr [of j x] i r n heap_okD [OF h, of j x] by (auto split: if_splits)
  ultimately show ?thesis unfolding heap_ok_def by simp
qed

lemma heap_ok_put:
  assumes h: "heap_ok os h" and p: "pm_pools h i = Some p"
    and e: "evolves {} p (pm_conns h) {} p' m'" and i: "cp_inv {} p' m'" and c: "cp_config p' = cp_config p"
  shows "heap_ok os (pool_put i (p', m') h)"
proof -
  have "own p \<inter> own q = {}" if "j \<noteq> i" "pm_pools h j = Some q" for j q
    using h p that unfolding heap_ok_def by metis
  moreover have "pool_ready os p'" using heap_okD(2) [OF h p] c by (simp add: pool_ready_def)
  ultimately show ?thesis
    using heap_ok_set [OF h _ _ e i _ heap_okD(3) [OF h p] order_refl] p
    by (simp add: pool_put_def)
qed

lemma heap_ok_delete:
  assumes h: "heap_ok os h" and p: "pm_pools h i = Some p" and al: "allocated_conns p = []"
  shows "\<exists>m'. cp_destroy os p (pm_conns h) = Ok m'
    \<and> heap_ok os (h\<lparr>pm_pools := (pm_pools h)(i := None), pm_conns := m'\<rparr>)"
proof -
  note ip = heap_okD(1) [OF h p]
  from cp_destroy_runs [OF ip al, of os] obtain m' where m': "cp_destroy os p (pm_conns h) = Ok m'"
    "dom (cs_conns m') = dom (cs_conns (pm_conns h)) - own p" "\<forall>a \<in> dom (cs_conns m'). a < cs_next m'"
    "\<And>b. b \<notin> own p \<Longrightarrow> b < cs_next (pm_conns h) \<Longrightarrow> cs_conns m' b = cs_conns (pm_conns h) b" by auto
  have disj: "own p \<inter> own q = {}" if "j \<noteq> i" "pm_pools h j = Some q" for j q
    using h p that unfolding heap_ok_def by metis
  have fr: "cp_inv {} q m'" if j: "j \<noteq> i" "pm_pools h j = Some q" for j q
  proof -
    have q: "cp_inv {} q (pm_conns h)" by (rule heap_okD(1) [OF h j(2)])
    have "cs_conns m' a = cs_conns (pm_conns h) a" if "a \<in> own q" for a
    proof (rule m'(4))
      show "a \<notin> own p" using disj [OF j] that by auto
      show "a < cs_next (pm_conns h)" using q that by (fastforce simp: cp_inv_def)
    qed
    with q m'(3) show ?thesis by (simp add: cp_inv_def)
  qed
  have "\<exists>j q. ((pm_pools h)(i := None)) j = Some q \<and> a \<in> own q" if a: "a \<in> dom (cs_conns m')" for a
  proof -
    have "a \<in> dom (cs_conns (pm_conns h))" "a \<notin> own p" using a m'(2) by auto
    with h obtain j q where "pm_pools h j = Some q" "a \<in> own q" unfolding heap_ok_def by blast
    with p \<open>a \<notin> own p\<close> show ?thesis by (intro exI [of _ j]) auto
  qed
  with m'(1,3) fr h show ?thesis by (auto simp: heap_ok_def)
qed

section \<open>The invariant\<close>

definition addr_at :: "'w pool_heap \<Rightarrow> nat \<Rightarrow> string \<times> int" where
  "addr_at h i = pool_addr (the (pm_pools h i))"

text \<open>The map holds exactly the connections in use, each with the pool it came from.\<close>

definition map_agrees :: "(nat \<times> nat) list \<Rightarrow> 'w pool_heap \<Rightarrow> bool" where
  "map_agrees m h \<longleftrightarrow> map_ok_std m
     \<and> (\<forall>a i. map_of m a = Some i \<longleftrightarrow> (\<exists>p. pm_pools h i = Some p \<and> a \<in> set (allocated_conns p)))"

definition lists_ok :: "thrift_pool \<Rightarrow> 'w pool_heap \<Rightarrow> bool" where
  "lists_ok t h \<longleftrightarrow> distinct (tp_pools t @ tp_queue t) \<and> set (tp_pools t @ tp_queue t) = dom (pm_pools h)
     \<and> (\<forall>i. tp_localhost t = Some i \<longrightarrow> i \<in> set (tp_pools t) \<and> fst (addr_at h i) = tp_localhost_name t)"

definition tp_ok :: "'w transport_os \<Rightarrow> thrift_pool \<times> 'w pool_heap \<Rightarrow> bool" where
  "tp_ok os s \<longleftrightarrow> open_opens os \<and> heap_ok os (snd s) \<and> map_agrees (tp_conn_map (fst s)) (snd s)
     \<and> lists_ok (fst s) (snd s)"

lemma tp_okD:
  assumes "tp_ok os (t, h)"
  shows "open_opens os" "heap_ok os h" "map_agrees (tp_conn_map t) h" "lists_ok t h"
  using assms by (simp_all add: tp_ok_def)

lemma listed_pool: "lists_ok t h \<Longrightarrow> i \<in> set (tp_pools t) \<or> i \<in> set (tp_queue t) \<Longrightarrow> \<exists>p. pm_pools h i = Some p"
  by (auto simp: lists_ok_def)

text \<open>The map over a step of one pool that does not allocate.\<close>

lemma map_agrees_set:
  assumes "map_agrees m h" and "pm_pools h i = Some p" and "allocated_conns p' = allocated_conns p"
  shows "map_agrees m (pool_put i (p', m') h)"
  using assms by (auto simp: map_agrees_def pool_put_def)

lemma lists_ok_put:
  assumes "lists_ok t h" and "pm_pools h i = Some p" and "cp_config p' = cp_config p"
  shows "lists_ok t (pool_put i (p', m') h)"
  using assms by (auto simp: lists_ok_def pool_put_def addr_at_def pool_addr_def)

lemma tp_ok_keep:
  assumes t: "tp_ok os (t, h)" and p: "pm_pools h i = Some p"
    and r: "cp_inv {} p' m'" "evolves {} p (pm_conns h) {} p' m'" "keeps p p'"
  shows "tp_ok os (t, pool_put i (p', m') h)"
  using heap_ok_put [OF tp_okD(2) [OF t] p r(2,1)] map_agrees_set [OF tp_okD(3) [OF t] p, of p' m']
    lists_ok_put [OF tp_okD(4) [OF t] p, of p' m'] r(3) tp_okD(1) [OF t]
  by (simp add: tp_ok_def keeps_def)

text \<open>A connection is allocated in at most one pool.\<close>

lemma allocated_once:
  assumes "heap_ok os h" and "pm_pools h i = Some p" and "pm_pools h j = Some q"
    and "a \<in> set (allocated_conns p)" and "a \<in> own q"
  shows "i = j"
proof (rule ccontr)
  assume "i \<noteq> j"
  then have "own p \<inter> own q = {}" using assms(1-3) unfolding heap_ok_def by metis
  with assms(4,5) show False by (auto simp: own_def)
qed

section \<open>get, put, close\<close>

lemma get_from_ok:
  assumes t: "tp_ok os (t, h)" and i: "pm_pools h i = Some p"
  shows "\<exists>r t' h'. get_from os i t h = Ok (r, t', h') \<and> tp_ok os (t', h') \<and> (\<forall>a. r = Some a \<longrightarrow>
      map_of (tp_conn_map t) a = None \<and> map_of (tp_conn_map t') a = Some i \<and> tc_is_open os a (pm_conns h') = Ok True)
    \<and> tp_pools t' = tp_pools t \<and> tp_index t' = tp_index t \<and> tp_localhost t' = tp_localhost t \<and> tp_queue t' = tp_queue t
    \<and> dom (map_of (tp_conn_map t')) = set_option r \<union> dom (map_of (tp_conn_map t))"
proof -
  note ip = heap_okD [OF tp_okD(2) [OF t] i]
  from cp_get_inv [OF ip(1,2)] obtain r p' m' where g: "cp_get os p (pm_conns h) = Ok (r, p', m')"
    "cp_inv {} p' m'" "evolves {} p (pm_conns h) {} p' m'" "cp_config p' = cp_config p" and c: "case r of
         None \<Rightarrow> allocated_conns p' = allocated_conns p
       | Some a \<Rightarrow> a \<notin> set (allocated_conns p) \<and> allocated_conns p' = ptr_insert a (allocated_conns p)
           \<and> tc_is_open os a m' = Ok True" by blast
  let ?h = "pool_put i (p', m') h"
  have hk: "heap_ok os ?h" by (rule heap_ok_put [OF tp_okD(2) [OF t] i g(3,2,4)])
  note lk = lists_ok_put [OF tp_okD(4) [OF t] i g(4), of m']
  have mk: "map_ok_std (tp_conn_map t)" and ag: "\<And>a j. map_of (tp_conn_map t) a = Some j \<longleftrightarrow>
      (\<exists>p. pm_pools h j = Some p \<and> a \<in> set (allocated_conns p))"
    using tp_okD(3) [OF t] by (simp_all add: map_agrees_def)
  show ?thesis
  proof (cases r)
    case None
    then have "map_agrees (tp_conn_map t) ?h" using map_agrees_set [OF tp_okD(3) [OF t] i] c by simp
    with None g hk lk tp_okD(1) [OF t] show ?thesis by (simp add: get_from_def pool_at_def i tp_ok_def)
  next
    case (Some a)
    let ?t = "t\<lparr>tp_conn_map := map_put a i (tp_conn_map t)\<rparr>"
    have a: "a \<notin> set (allocated_conns p)" "set (allocated_conns p') = insert a (set (allocated_conns p))"
      using c Some by (simp_all add: std_simps)
    have other: "a \<notin> set (allocated_conns q)" if q: "pm_pools h j = Some q" for j q
    proof (cases "j = i")
      case False
      then have "pm_pools ?h j = Some q" "pm_pools ?h i = Some p'" using q by (simp_all add: pool_put_def)
      with allocated_once [OF hk this] False a(2) show ?thesis by (auto simp: own_def)
    qed (use q i a in simp)
    have "map_agrees (tp_conn_map ?t) ?h"
      using mk ag a other i by (auto simp: map_agrees_def std_simps pool_put_def)
    moreover have "lists_ok ?t ?h" using lk by (simp add: lists_ok_def)
    moreover have "map_of (tp_conn_map t) a = None" using ag [of a] other by (cases "map_of (tp_conn_map t) a") auto
    ultimately show ?thesis using Some g hk c mk tp_okD(1) [OF t]
      by (simp add: get_from_def pool_at_def i tp_ok_def std_simps) (simp add: pool_put_def)
  qed
qed

lemma tp_put_ok:
  assumes t: "tp_ok os (t, h)"
  shows "\<exists>b t' h'. tp_put os r t h = Ok (b, t', h') \<and> tp_ok os (t', h')
    \<and> (b \<longleftrightarrow> (\<exists>a. r = Some a \<and> a \<in> dom (map_of (tp_conn_map t))))
    \<and> map_of (tp_conn_map t') = (if b then (map_of (tp_conn_map t))(the r := None) else map_of (tp_conn_map t))"
proof (cases "\<exists>a i. r = Some a \<and> map_of (tp_conn_map t) a = Some i")
  case False
  with t show ?thesis by (auto simp: tp_put_def split: option.splits)
next
  case True
  then obtain a i where a: "r = Some a" "map_of (tp_conn_map t) a = Some i" by blast
  have mk: "map_ok_std (tp_conn_map t)" and ag: "\<And>a j. map_of (tp_conn_map t) a = Some j \<longleftrightarrow>
      (\<exists>p. pm_pools h j = Some p \<and> a \<in> set (allocated_conns p))"
    using tp_okD(3) [OF t] by (simp_all add: map_agrees_def)
  from a ag obtain p where i: "pm_pools h i = Some p" "a \<in> set (allocated_conns p)" by blast
  note ip = heap_okD [OF tp_okD(2) [OF t] i(1)]
  from cp_put_inv [OF ip(1) i(2), of os] obtain p' m' where g: "cp_put os (Some a) p (pm_conns h) = Ok (p', m')"
    "cp_inv {} p' m'" "evolves {} p (pm_conns h) {} p' m'" "cp_config p' = cp_config p"
    "allocated_conns p' = ptr_erase a (allocated_conns p)" by blast
  let ?h = "pool_put i (p', m') h" and ?t = "t\<lparr>tp_conn_map := set_erase fst a (tp_conn_map t)\<rparr>"
  have "ptr_ok (allocated_conns p)" using ip(1) by (simp add: cp_inv_def)
  then have sa: "set (allocated_conns p') = set (allocated_conns p) - {a}" using g(5) by (simp add: ptr_set_erase)
  have me: "map_of (set_erase fst a (tp_conn_map t)) = (map_of (tp_conn_map t))(a := None)"
    by (rule map_of_erase [OF mk])
  have "map_ok_std (set_erase fst a (tp_conn_map t))" using mk by (simp add: map_ok_std_def set_ok_erase)
  moreover have "map_of (tp_conn_map ?t) b = Some j \<longleftrightarrow> (\<exists>q. pm_pools ?h j = Some q \<and> b \<in> set (allocated_conns q))" for b j
  proof (cases "b = a")
    case True
    have "a \<notin> set (allocated_conns q)" if "pm_pools ?h j = Some q" for q
    proof (cases "j = i")
      case False
      then show ?thesis using that allocated_once [OF tp_okD(2) [OF t] _ i(1), of j q a] i(2)
        by (auto simp: pool_put_def own_def)
    qed (use that sa in \<open>simp add: pool_put_def\<close>)
    with True me show ?thesis by auto
  qed (use ag me sa i in \<open>auto simp: pool_put_def\<close>)
  ultimately have "map_agrees (tp_conn_map ?t) ?h" by (simp add: map_agrees_def)
  moreover have "lists_ok ?t ?h" using lists_ok_put [OF tp_okD(4) [OF t] i(1) g(4), of m'] by (simp add: lists_ok_def)
  ultimately have "tp_ok os (?t, ?h)"
    using heap_ok_put [OF tp_okD(2) [OF t] i(1) g(3,2,4)] tp_okD(1) [OF t] by (simp add: tp_ok_def)
  moreover have "a \<in> dom (map_of (tp_conn_map t))" using a(2) by blast
  ultimately show ?thesis using a i g me by (auto simp: tp_put_def pool_at_def intro!: exI [of _ True])
qed

lemma tp_close_ok:
  assumes t: "tp_ok os (t, h)"
  shows "\<exists>b h'. tp_close os r t h = Ok (b, h') \<and> tp_ok os (t, h')
    \<and> (b \<longleftrightarrow> (\<exists>a. r = Some a \<and> a \<in> dom (map_of (tp_conn_map t))))"
proof (cases "\<exists>a i. r = Some a \<and> map_of (tp_conn_map t) a = Some i")
  case False
  with t show ?thesis by (auto simp: tp_close_def split: option.splits)
next
  case True
  then obtain a i where a: "r = Some a" "map_of (tp_conn_map t) a = Some i" by blast
  with tp_okD(3) [OF t] obtain p where i: "pm_pools h i = Some p" "a \<in> set (allocated_conns p)"
    by (auto simp: map_agrees_def)
  then have "a \<in> own p" by (simp add: own_def)
  from cp_close_inv [OF heap_okD(1) [OF tp_okD(2) [OF t] i(1)] this, of os] obtain p' m'
    where g: "cp_close os (Some a) p (pm_conns h) = Ok (p', m')" "cp_inv {} p' m'"
      "evolves {} p (pm_conns h) {} p' m'" "keeps p p'" by (auto simp: runs_ok_def)
  moreover have "a \<in> dom (map_of (tp_conn_map t))" using a(2) by blast
  ultimately show ?thesis using tp_ok_keep [OF t i(1) g(2-4)] a i by (auto simp: tp_close_def pool_at_def intro!: exI [of _ True])
qed

section \<open>Selection\<close>

definition up :: "'w pool_heap \<Rightarrow> nat \<Rightarrow> bool" where
  "up h i \<longleftrightarrow> (\<exists>p. pm_pools h i = Some p \<and> cp_status p = kTCConnected)"

text \<open>The servers in the order in which one \<open>get\<close> looks at them.\<close>

definition rotation :: "nat list \<Rightarrow> u64 \<Rightarrow> nat list" where
  "rotation ps idx = map ((!) ps) (fst (picks next_server (length ps) (ps, idx)))"

interpretation server_rr: round_robin "\<lambda>s. length (fst s)" next_server "\<lambda>s. unat (snd s)"
  "\<lambda>s. fst s \<noteq> [] \<and> length (fst s) < 2 ^ 64"
proof unfold_locales
  fix s :: "nat list \<times> u64" assume s: "fst s \<noteq> [] \<and> length (fst s) < 2 ^ 64"
  let ?k = "unat (snd s) mod length (fst s)"
  have k: "Suc ?k \<le> length (fst s)" using s by (simp add: Suc_leI)
  have "unat (word_of_nat ?k + 1 :: u64) = Suc ?k"
  proof -
    have "Suc ?k < 2 ^ LENGTH(64)" using s k by simp
    then have "unat (word_of_nat (Suc ?k) :: u64) = Suc ?k" by (rule of_nat_inverse [OF refl])
    then show ?thesis by (simp add: add.commute)
  qed
  then show "unat (snd (snd (next_server s))) mod length (fst s) = Suc (unat (snd s)) mod length (fst s)"
    by (simp add: next_server_def Let_def mod_Suc_eq)
qed (simp_all add: next_server_def Let_def)

text \<open>What a loop that looked at the servers \<open>looked\<close> leaves as its last pool.\<close>

definition loop_result :: "'w pool_heap \<Rightarrow> nat list \<Rightarrow> nat list \<Rightarrow> nat option \<Rightarrow> nat option \<Rightarrow> bool" where
  "loop_result h ps looked seen r \<longleftrightarrow>
     (\<forall>i. find (up h) looked = Some i \<longrightarrow> r = Some i \<and> i \<in> set ps)
     \<and> (find (up h) looked = None \<longrightarrow> r = seen \<or> (\<exists>i \<in> set ps. r = Some i \<and> \<not> up h i))"

lemma loop_result_down:
  "loop_result h ps looked (Some j) r \<Longrightarrow> j \<in> set ps \<Longrightarrow> \<not> up h j \<Longrightarrow> find (up h) looked' = find (up h) looked
    \<Longrightarrow> loop_result h ps looked' seen r"
  by (auto simp: loop_result_def)

lemma select_pool_finds:
  assumes "fst s \<noteq> []" and "\<And>i. i \<in> set (fst s) \<Longrightarrow> \<exists>p. pm_pools h i = Some p"
  shows "\<exists>r idx. select_pool h n s seen = Ok (r, idx)
    \<and> loop_result h (fst s) (map ((!) (fst s)) (fst (picks next_server n s))) seen r"
  using assms
proof (induction n arbitrary: s seen)
  case 0
  then show ?case by (simp add: loop_result_def)
next
  case (Suc n)
  obtain k ps idx where k: "next_server s = (k, ps, idx)" by (cases "next_server s") auto
  have ps: "ps = fst s" and "k < length (fst s)"
    using k Suc.prems(1) by (auto simp: next_server_def Let_def)
  then have i: "fst s ! k \<in> set (fst s)" by simp
  with Suc.prems(2) obtain p where p: "pm_pools h (fst s ! k) = Some p" by blast
  from Suc.IH [of "(ps, idx)" "Some (fst s ! k)"] Suc.prems obtain r idx' where
    r: "select_pool h n (ps, idx) (Some (fst s ! k)) = Ok (r, idx')"
      "loop_result h (fst s) (map ((!) (fst s)) (fst (picks next_server n (ps, idx)))) (Some (fst s ! k)) r"
    by (auto simp: ps)
  show ?case
  proof (cases "cp_status p = kTCConnected")
    case True
    with p have "up h (fst s ! k)" by (simp add: up_def)
    with True k p i show ?thesis by (simp add: pool_at_def split_beta loop_result_def)
  next
    case False
    with p have nu: "\<not> up h (fst s ! k)" by (simp add: up_def)
    have e: "find (up h) (map ((!) (fst s)) (fst (picks next_server (Suc n) s)))
        = find (up h) (map ((!) (fst s)) (fst (picks next_server n (ps, idx))))"
      using nu k by (simp add: split_beta)
    have "select_pool h (Suc n) s seen = Ok (r, idx')" using False k p r(1) by (simp add: pool_at_def)
    then show ?thesis using loop_result_down [OF r(2) i nu e] by blast
  qed
qed

lemma rotation_mset:
  assumes "ps \<noteq> []" and "length ps < 2 ^ 64"
  shows "mset (rotation ps idx) = mset ps"
proof -
  have "mset (fst (picks next_server (length ps) (ps, idx))) = mset [0..<length ps]"
    using server_rr.full_turn [of "(ps, idx)"] assms by simp
  then have "mset (rotation ps idx) = image_mset ((!) ps) (mset [0..<length ps])"
    unfolding rotation_def mset_map by (simp only:)
  also have "\<dots> = mset ps" by (metis map_nth mset_map)
  finally show ?thesis .
qed

lemma rotation_find:
  assumes "ps \<noteq> []" and "length ps < 2 ^ 64"
  shows "(find (up h) (rotation ps idx) = None) \<longleftrightarrow> (\<forall>i \<in> set ps. \<not> up h i)"
  using rotation_mset [OF assms, of idx] by (metis find_None_iff mset_eq_setD)

text \<open>The pool that serves a \<open>get\<close>: the local one when it is connected, otherwise the first
  connected one in the order of the rotation.\<close>

definition serving :: "thrift_pool \<Rightarrow> 'w pool_heap \<Rightarrow> nat option" where
  "serving t h = (case tp_localhost t of
       Some i \<Rightarrow> if up h i then Some i else find (up h) (rotation (tp_pools t) (tp_index t))
     | None \<Rightarrow> find (up h) (rotation (tp_pools t) (tp_index t)))"

lemma pool_connected_up:
  "(\<And>i. r = Some i \<Longrightarrow> \<exists>p. pm_pools h i = Some p) \<Longrightarrow>
    pool_connected h r = Ok (\<exists>i. r = Some i \<and> up h i)"
  by (cases r) (auto simp: pool_connected_def pool_at_def up_def split: option.splits)

lemma tp_ok_index: "tp_ok os (t, h) \<Longrightarrow> tp_ok os (t\<lparr>tp_index := x\<rparr>, h)"
  by (simp add: tp_ok_def lists_ok_def)

lemma serving_listed:
  assumes "lists_ok t h" and "serving t h = Some i"
  shows "i \<in> set (tp_pools t) \<and> up h i"
proof (cases "tp_localhost t = Some i \<and> up h i")
  case True
  with assms show ?thesis by (simp add: lists_ok_def)
next
  case False
  with assms(2) have "find (up h) (rotation (tp_pools t) (tp_index t)) = Some i"
    by (auto simp: serving_def split: option.splits if_splits)
  then have i: "up h i" "i \<in> set (rotation (tp_pools t) (tp_index t))"
    by (auto simp: find_Some_iff)
  moreover have "set (rotation ps idx) \<subseteq> set ps" for ps idx
  proof (cases "ps = []")
    case False
    have "k < length ps" if "k \<in> set (fst (picks next_server n (ps, idx)))" for k n idx
      using that False
    proof (induction n arbitrary: idx)
      case (Suc n)
      then show ?case by (auto simp: next_server_def Let_def split_beta)
    qed simp
    then show ?thesis by (auto simp: rotation_def)
  qed (simp add: rotation_def)
  ultimately show ?thesis by blast
qed

lemma tp_get_serving:
  assumes t: "tp_ok os (t, h)"
  shows "case serving t h of
      None \<Rightarrow> \<exists>x. tp_get os t h = Ok (None, t\<lparr>tp_index := x\<rparr>, h)
    | Some i \<Rightarrow> \<exists>x. tp_get os t h = get_from os i (t\<lparr>tp_index := x\<rparr>) h"
proof -
  note l = tp_okD(4) [OF t]
  have local: "pool_connected h (tp_localhost t) = Ok (\<exists>i. tp_localhost t = Some i \<and> up h i)"
    by (rule pool_connected_up) (use l in \<open>auto simp: lists_ok_def\<close>)
  have self: "t = t\<lparr>tp_index := tp_index t\<rparr>" by simp
  show ?thesis
  proof (cases "\<exists>i. tp_localhost t = Some i \<and> up h i")
    case True
    then obtain i where "tp_localhost t = Some i" "up h i" by blast
    then have "serving t h = Some i" "tp_get os t h = get_from os i t h"
      using local by (simp_all add: serving_def tp_get_def)
    with self show ?thesis by (auto intro!: exI [of _ "tp_index t"])
  next
    case no: False
    then have sv: "serving t h = find (up h) (rotation (tp_pools t) (tp_index t))"
      by (auto simp: serving_def split: option.splits)
    show ?thesis
    proof (cases "tp_pools t = []")
      case True
      then have "serving t h = None" "tp_get os t h = Ok (None, t, h)"
        using sv local no by (simp_all add: rotation_def tp_get_def)
      with self show ?thesis by (auto intro!: exI [of _ "tp_index t"])
    next
      case False
      have ex: "\<exists>p. pm_pools h i = Some p" if "i \<in> set (tp_pools t)" for i using listed_pool [OF l] that by blast
      from select_pool_finds [of "(tp_pools t, tp_index t)" h "length (tp_pools t)" None] False ex
      obtain r idx where r: "select_pool h (length (tp_pools t)) (tp_pools t, tp_index t) None = Ok (r, idx)"
        and "loop_result h (tp_pools t) (rotation (tp_pools t) (tp_index t)) None r"
        by (auto simp: rotation_def)
      then have r2: "\<And>i. serving t h = Some i \<Longrightarrow> r = Some i \<and> i \<in> set (tp_pools t)"
        "serving t h = None \<Longrightarrow> r = None \<or> (\<exists>i \<in> set (tp_pools t). r = Some i \<and> \<not> up h i)"
        by (auto simp: sv loop_result_def)
      have c: "pool_connected h r = Ok (\<exists>i. r = Some i \<and> up h i)"
        by (rule pool_connected_up) (use r2 ex in \<open>cases "serving t h"; auto\<close>)
      show ?thesis
      proof (cases "serving t h")
        case None
        then have "\<not> (\<exists>i. r = Some i \<and> up h i)" using r2(2) by auto
        with None no False local r c show ?thesis by (auto simp: tp_get_def)
      next
        case (Some i)
        with serving_listed [OF l] r2(1) have "r = Some i" "up h i" by auto
        with Some no False local r c show ?thesis by (auto simp: tp_get_def)
      qed
    qed
  qed
qed

section \<open>Servers\<close>

lemma new_pool_ok:
  assumes t: "tp_ok os (t, h)" and addr: "fst s \<noteq> []" "snd s \<noteq> 0"
  shows "\<exists>h'. new_pool os s t h = Ok (pm_next h, h') \<and> tp_ok os (push_pool (fst s) (pm_next h) t, h')
    \<and> addr_at h' (pm_next h) = s \<and> (\<forall>j. j \<noteq> pm_next h \<longrightarrow> pm_pools h' j = pm_pools h j)
    \<and> pm_pools h (pm_next h) = None"
proof -
  let ?i = "pm_next h" and ?cfg = "(tp_template t)\<lparr>cf_host := fst s, cf_port := snd s\<rparr>"
  let ?b = "cp_blank ?cfg (tp_min_free t) (tp_max t)"
  note ho = tp_okD(2) [OF t]
  have fresh: "pm_pools h ?i = None" using heap_okD(3) [OF ho, of ?i] by (cases "pm_pools h ?i") auto
  have "\<forall>a \<in> dom (cs_conns (pm_conns h)). a < cs_next (pm_conns h)" using ho by (simp add: heap_ok_def)
  from cp_new_runs [OF this tp_okD(1) [OF t], of ?cfg "tp_min_free t" "tp_max t"] addr
  obtain p' m' where n: "cp_new os ?cfg (tp_min_free t) (tp_max t) (pm_conns h) = Ok (p', m')" "cp_inv {} p' m'"
    "evolves {} ?b (pm_conns h) {} p' m'" "keeps ?b p'" by auto
  let ?h = "(pool_put ?i (p', m') h)\<lparr>pm_next := Suc ?i\<rparr>"
  have r: "pool_ready os p'" by (rule pool_ready_keeps [OF n(4)]) (use tp_okD(1) [OF t] in simp)
  have h': "heap_ok os ?h"
  proof -
    have "?h = h\<lparr>pm_pools := (pm_pools h)(?i \<mapsto> p'), pm_next := Suc ?i, pm_conns := m'\<rparr>" by (simp add: pool_put_def)
    with heap_ok_set [OF ho _ _ n(3,2) r, of ?i "Suc ?i"] fresh show ?thesis by simp
  qed
  have al: "allocated_conns p' = []" and ad: "pool_addr p' = s"
    using n(4) by (simp_all add: keeps_def pool_addr_def cp_blank_def)
  have "map_agrees (tp_conn_map t) ?h"
    using tp_okD(3) [OF t] fresh al by (auto simp: map_agrees_def pool_put_def)
  moreover have "lists_ok (push_pool (fst s) ?i t) ?h"
    using tp_okD(4) [OF t] fresh ad by (auto simp: lists_ok_def push_pool_def pool_put_def addr_at_def)
  ultimately have "tp_ok os (push_pool (fst s) ?i t, ?h)"
    using h' tp_okD(1) [OF t] by (simp add: tp_ok_def push_pool_def)
  then show ?thesis using n(1) fresh ad by (simp add: new_pool_def addr_at_def pool_put_def)
qed

lemma has_server_result:
  assumes "set is \<subseteq> dom (pm_pools h)"
  shows "has_server h addr is = Ok (addr \<in> addr_at h ` set is)"
  using assms
proof (induction "is")
  case (Cons i "is")
  then obtain p where "pm_pools h i = Some p" by auto
  with Cons show ?case by (auto simp: pool_at_def addr_at_def)
qed simp

lemma push_pool_simps [simp]:
  "tp_pools (push_pool n i t) = tp_pools t @ [i]" "tp_queue (push_pool n i t) = tp_queue t"
  "tp_conn_map (push_pool n i t) = tp_conn_map t" "tp_localhost_name (push_pool n i t) = tp_localhost_name t"
  "tp_thread (push_pool n i t) = tp_thread t" "tp_stop_flag (push_pool n i t) = tp_stop_flag t"
  by (simp_all add: push_pool_def)

lemma add_server_ok:
  assumes t: "tp_ok os (t, h)" and addr: "host \<noteq> []" "port \<noteq> 0"
  shows "\<exists>b t' h'. add_server os host port t h = Ok (b, t', h') \<and> tp_ok os (t', h')
    \<and> (b \<longleftrightarrow> (host, port) \<notin> addr_at h ` set (tp_pools t)) \<and> (\<not> b \<longrightarrow> t' = t \<and> h' = h)
    \<and> map (addr_at h') (tp_pools t') = map (addr_at h) (tp_pools t) @ (if b then [(host, port)] else [])"
proof -
  have ex: "set (tp_pools t) \<subseteq> dom (pm_pools h)" using tp_okD(4) [OF t] by (auto simp: lists_ok_def)
  note hs = has_server_result [OF ex, of "(host, port)"]
  from new_pool_ok [OF t, of "(host, port)"] addr obtain h' where n: "new_pool os (host, port) t h = Ok (pm_next h, h')"
    "tp_ok os (push_pool host (pm_next h) t, h')" "addr_at h' (pm_next h) = (host, port)"
    "\<And>j. j \<noteq> pm_next h \<Longrightarrow> pm_pools h' j = pm_pools h j" "pm_pools h (pm_next h) = None" by auto
  have "map (addr_at h') (tp_pools t) = map (addr_at h) (tp_pools t)"
  proof -
    have "addr_at h' i = addr_at h i" if "i \<in> set (tp_pools t)" for i
    proof -
      have "i \<noteq> pm_next h" using that ex n(5) by auto
      then show ?thesis by (simp add: addr_at_def n(4))
    qed
    then show ?thesis by simp
  qed
  with hs n(1-3) t addr show ?thesis by (simp add: add_server_def)
qed

text \<open>The requested servers not claimed yet.\<close>

definition unclaimed :: "('a \<times> 'b) list \<Rightarrow> bool list \<Rightarrow> ('a \<times> 'b) list" where
  "unclaimed ss fs = map fst (filter (\<lambda>(_, f). \<not> f) (zip ss fs))"

lemma unclaimed_simps [simp]:
  "unclaimed [] fs = []" "unclaimed (s # ss) (f # fs) = (if f then [] else [s]) @ unclaimed ss fs"
  by (simp_all add: unclaimed_def)

lemma unclaimed_all: "unclaimed ss (replicate (length ss) False) = ss"
  by (induction ss) simp_all

lemma claim_Some:
  "claim x ss fs = Some fs' \<Longrightarrow> length ss = length fs \<Longrightarrow>
     length fs' = length fs \<and> mset (unclaimed ss fs) = add_mset x (mset (unclaimed ss fs'))"
  by (induction x ss fs arbitrary: fs' rule: claim.induct) (auto split: if_splits)

lemma claim_None:
  "claim x ss fs = None \<Longrightarrow> length ss = length fs \<Longrightarrow> x \<notin> set (unclaimed ss fs)"
  by (induction x ss fs rule: claim.induct) (auto split: if_splits)

lemma keep_pools_result:
  assumes "set is \<subseteq> dom (pm_pools h)" and "length fs = length ss"
  shows "\<exists>k d fs' l'. keep_pools h ss n is fs l = Ok (k, d, fs', l') \<and> mset k + mset d = mset is
    \<and> length fs' = length ss \<and> mset (unclaimed ss fs) = mset (map (addr_at h) k) + mset (unclaimed ss fs')
    \<and> (\<forall>i \<in> set d. addr_at h i \<notin> set (unclaimed ss fs')) \<and> (l' = l \<or> l' = None)
    \<and> (l' \<noteq> None \<longrightarrow> (\<forall>i \<in> set d. fst (addr_at h i) \<noteq> n))"
  using assms
proof (induction "is" arbitrary: fs l)
  case Nil
  then show ?case by simp
next
  case (Cons i "is")
  then obtain p where p: "pm_pools h i = Some p" by auto
  then have a: "pool_addr p = addr_at h i" by (simp add: addr_at_def)
  show ?case
  proof (cases "claim (pool_addr p) ss fs")
    case (Some fs1)
    with claim_Some [OF Some] Cons.prems(2) have c: "length fs1 = length ss"
      "mset (unclaimed ss fs) = add_mset (addr_at h i) (mset (unclaimed ss fs1))" by (auto simp: a)
    from Cons.IH [OF _ c(1), of l] Cons.prems(1) obtain k d fs' l' where
      "keep_pools h ss n is fs1 l = Ok (k, d, fs', l')" "mset k + mset d = mset is" "length fs' = length ss"
      "mset (unclaimed ss fs1) = mset (map (addr_at h) k) + mset (unclaimed ss fs')"
      "\<forall>i \<in> set d. addr_at h i \<notin> set (unclaimed ss fs')" "l' = l \<or> l' = None"
      "l' \<noteq> None \<longrightarrow> (\<forall>i \<in> set d. fst (addr_at h i) \<noteq> n)" by auto
    with p Some c(2) show ?thesis by (auto simp: pool_at_def)
  next
    case None
    let ?l = "if n = fst (pool_addr p) then None else l"
    from Cons.IH [OF _ Cons.prems(2), of ?l] Cons.prems(1) obtain k d fs' l' where r:
      "keep_pools h ss n is fs ?l = Ok (k, d, fs', l')" "mset k + mset d = mset is" "length fs' = length ss"
      "mset (unclaimed ss fs) = mset (map (addr_at h) k) + mset (unclaimed ss fs')"
      "\<forall>i \<in> set d. addr_at h i \<notin> set (unclaimed ss fs')" "l' = ?l \<or> l' = None"
      "l' \<noteq> None \<longrightarrow> (\<forall>i \<in> set d. fst (addr_at h i) \<noteq> n)" by auto
    have "addr_at h i \<notin> set (unclaimed ss fs)" using claim_None [OF None] Cons.prems(2) by (simp add: a)
    with r(4) have "addr_at h i \<notin> set (unclaimed ss fs')" by (metis set_mset_mset union_iff)
    with p None r show ?thesis by (auto simp: pool_at_def a split: if_splits)
  qed
qed

text \<open>What the second loop does to the state: pools are appended and the local one is set.\<close>

lemma restore_pools_result:
  assumes "set is \<subseteq> dom (pm_pools h)" and "length fs = length ss"
  shows "\<exists>q fs' r. restore_pools h ss is fs t = Ok (q, fs', fold (\<lambda>i. push_pool (fst (addr_at h i)) i) r t)
    \<and> mset r + mset q = mset is \<and> length fs' = length ss
    \<and> mset (unclaimed ss fs) = mset (map (addr_at h) r) + mset (unclaimed ss fs')
    \<and> (\<forall>i \<in> set q. addr_at h i \<notin> set (unclaimed ss fs'))"
  using assms
proof (induction "is" arbitrary: fs t)
  case Nil
  then show ?case by (auto intro!: exI [of _ "[]"])
next
  case (Cons i "is")
  then obtain p where p: "pm_pools h i = Some p" by auto
  then have a: "pool_addr p = addr_at h i" by (simp add: addr_at_def)
  show ?case
  proof (cases "claim (pool_addr p) ss fs")
    case (Some fs1)
    with claim_Some [OF Some] Cons.prems(2) have c: "length fs1 = length ss"
      "mset (unclaimed ss fs) = add_mset (addr_at h i) (mset (unclaimed ss fs1))" by (auto simp: a)
    from Cons.IH [OF _ c(1), of "push_pool (fst (addr_at h i)) i t"] Cons.prems(1) obtain q fs' r where
      "restore_pools h ss is fs1 (push_pool (fst (addr_at h i)) i t)
         = Ok (q, fs', fold (\<lambda>i. push_pool (fst (addr_at h i)) i) r (push_pool (fst (addr_at h i)) i t))"
      "mset r + mset q = mset is" "length fs' = length ss"
      "mset (unclaimed ss fs1) = mset (map (addr_at h) r) + mset (unclaimed ss fs')"
      "\<forall>i \<in> set q. addr_at h i \<notin> set (unclaimed ss fs')" by auto
    with p Some c(2) show ?thesis by (intro exI [of _ q] exI [of _ fs'] exI [of _ "i # r"]) (simp add: pool_at_def a)
  next
    case None
    from Cons.IH [OF _ Cons.prems(2), of t] Cons.prems(1) obtain q fs' r where r:
      "restore_pools h ss is fs t = Ok (q, fs', fold (\<lambda>i. push_pool (fst (addr_at h i)) i) r t)"
      "mset r + mset q = mset is" "length fs' = length ss"
      "mset (unclaimed ss fs) = mset (map (addr_at h) r) + mset (unclaimed ss fs')"
      "\<forall>i \<in> set q. addr_at h i \<notin> set (unclaimed ss fs')" by auto
    have "addr_at h i \<notin> set (unclaimed ss fs)" using claim_None [OF None] Cons.prems(2) by (simp add: a)
    with r(4) have "addr_at h i \<notin> set (unclaimed ss fs')" by (metis set_mset_mset union_iff)
    with p None r show ?thesis
      by (intro exI [of _ "i # q"] exI [of _ fs'] exI [of _ r]) (simp add: pool_at_def a)
  qed
qed

abbreviation push_all :: "'w pool_heap \<Rightarrow> nat list \<Rightarrow> thrift_pool \<Rightarrow> thrift_pool" where
  "push_all h \<equiv> fold (\<lambda>i. push_pool (fst (addr_at h i)) i)"

lemma push_all_simps [simp]:
  "tp_pools (push_all h r t) = tp_pools t @ r" "tp_queue (push_all h r t) = tp_queue t"
  "tp_conn_map (push_all h r t) = tp_conn_map t" "tp_localhost_name (push_all h r t) = tp_localhost_name t"
  "tp_thread (push_all h r t) = tp_thread t" "tp_stop_flag (push_all h r t) = tp_stop_flag t"
  by (induction r arbitrary: t) simp_all

lemma push_all_localhost:
  "tp_localhost (push_all h r t) = Some i \<Longrightarrow>
     i \<in> set r \<and> fst (addr_at h i) = tp_localhost_name t \<or> tp_localhost t = Some i"
  by (induction r arbitrary: t) (fastforce simp: push_pool_def split: if_splits)+

lemma add_missing_ok:
  assumes "tp_ok os (t, h)" and "\<forall>s \<in> set (unclaimed ss fs). fst s \<noteq> [] \<and> snd s \<noteq> 0"
    and "length fs = length ss"
  shows "\<exists>t' h'. add_missing os (zip ss fs) t h = Ok (t', h') \<and> tp_ok os (t', h')
    \<and> (\<exists>new. tp_pools t' = tp_pools t @ new \<and> map (addr_at h') new = unclaimed ss fs \<and> set new \<inter> dom (pm_pools h) = {})
    \<and> tp_queue t' = tp_queue t \<and> tp_conn_map t' = tp_conn_map t \<and> tp_localhost_name t' = tp_localhost_name t
    \<and> (\<forall>j \<in> dom (pm_pools h). pm_pools h' j = pm_pools h j)"
  using assms(3,1,2)
proof (induction fs ss arbitrary: t h rule: list_induct2)
  case Nil
  then show ?case by auto
next
  case (Cons f fs s ss)
  show ?case
  proof (cases f)
    case True
    with Cons show ?thesis by auto
  next
    case False
    from new_pool_ok [OF Cons.prems(1), of s] Cons.prems(2) False obtain h1 where n:
      "new_pool os s t h = Ok (pm_next h, h1)" "tp_ok os (push_pool (fst s) (pm_next h) t, h1)"
      "addr_at h1 (pm_next h) = s" "\<And>j. j \<noteq> pm_next h \<Longrightarrow> pm_pools h1 j = pm_pools h j" "pm_pools h (pm_next h) = None"
      by auto
    from Cons.IH [OF n(2)] Cons.prems(2) False obtain t' h' new where r:
      "add_missing os (zip ss fs) (push_pool (fst s) (pm_next h) t) h1 = Ok (t', h')" "tp_ok os (t', h')"
      "tp_pools t' = tp_pools t @ [pm_next h] @ new" "map (addr_at h') new = unclaimed ss fs"
      "set new \<inter> dom (pm_pools h1) = {}" "tp_queue t' = tp_queue t" "tp_conn_map t' = tp_conn_map t"
      "tp_localhost_name t' = tp_localhost_name t" "\<And>j. j \<in> dom (pm_pools h1) \<Longrightarrow> pm_pools h' j = pm_pools h1 j"
      by auto
    have "pm_next h \<in> dom (pm_pools h1)"
      using tp_okD(4) [OF n(2)] by (auto simp: lists_ok_def)
    then have a: "addr_at h' (pm_next h) = s" using r(9) n(3) by (simp add: addr_at_def)
    have d: "j \<in> dom (pm_pools h1)" "j \<noteq> pm_next h" if "j \<in> dom (pm_pools h)" for j
    proof -
      show "j \<noteq> pm_next h" using that n(5) by auto
      with that n(4) [of j] show "j \<in> dom (pm_pools h1)" by auto
    qed
    have "pm_pools h' j = pm_pools h j" if "j \<in> dom (pm_pools h)" for j
      using r(9) [OF d(1) [OF that]] n(4) [OF d(2) [OF that]] by simp
    moreover have "set (pm_next h # new) \<inter> dom (pm_pools h) = {}" using r(5) d unfolding list.set by blast
    ultimately show ?thesis
      by (intro exI [of _ t'] exI [of _ h'] conjI exI [of _ "pm_next h # new"])
        (use False n(1) r a in auto)
  qed
qed

lemma update_servers_ok:
  assumes t: "tp_ok os (t, h)" and len: "length hosts = length ports"
    and valid: "\<forall>s \<in> set (zip hosts ports). fst s \<noteq> [] \<and> snd s \<noteq> 0"
  shows "\<exists>t' h'. update_servers os hosts ports t h = Ok (True, t', h') \<and> tp_ok os (t', h')
    \<and> mset (map (addr_at h') (tp_pools t')) = mset (zip hosts ports) \<and> tp_conn_map t' = tp_conn_map t
    \<and> (\<forall>j \<in> dom (pm_pools h). pm_pools h' j = pm_pools h j)
    \<and> (\<forall>i \<in> set (tp_queue t'). \<forall>j \<in> set (tp_pools t') - dom (pm_pools h). addr_at h' j \<noteq> addr_at h' i)"
proof -
  let ?ss = "zip hosts ports" and ?n = "tp_localhost_name t"
  note l = tp_okD(4) [OF t]
  have sub: "set (tp_pools t) \<subseteq> dom (pm_pools h)" "set (tp_queue t) \<subseteq> dom (pm_pools h)"
    using l by (auto simp: lists_ok_def)
  have un: "unclaimed ?ss (replicate (length hosts) False) = ?ss" using unclaimed_all [of ?ss] len by simp
  have "length (replicate (length hosts) False) = length ?ss" using len by simp
  from keep_pools_result [OF sub(1) this, of ?n "tp_localhost t"] obtain k d fs l' where k:
    "keep_pools h ?ss ?n (tp_pools t) (replicate (length hosts) False) (tp_localhost t) = Ok (k, d, fs, l')"
    "mset k + mset d = mset (tp_pools t)" "length fs = length ?ss"
    "mset ?ss = mset (map (addr_at h) k) + mset (unclaimed ?ss fs)"
    "\<forall>i \<in> set d. addr_at h i \<notin> set (unclaimed ?ss fs)" "l' = tp_localhost t \<or> l' = None"
    "l' \<noteq> None \<longrightarrow> (\<forall>i \<in> set d. fst (addr_at h i) \<noteq> ?n)" unfolding un by blast
  have kd: "set k \<union> set d = set (tp_pools t)" using k(2) by (metis set_mset_mset set_mset_union)
  let ?t = "t\<lparr>tp_pools := k, tp_localhost := l'\<rparr>"
  have "set (tp_queue t @ d) \<subseteq> dom (pm_pools h)" using sub kd by auto
  from restore_pools_result [OF this k(3), of ?t] obtain q fs' r where r:
    "restore_pools h ?ss (tp_queue t @ d) fs ?t = Ok (q, fs', push_all h r ?t)"
    "mset r + mset q = mset (tp_queue t @ d)" "length fs' = length ?ss"
    "mset (unclaimed ?ss fs) = mset (map (addr_at h) r) + mset (unclaimed ?ss fs')"
    "\<forall>i \<in> set q. addr_at h i \<notin> set (unclaimed ?ss fs')" by blast
  let ?u = "(push_all h r ?t)\<lparr>tp_queue := q\<rparr>"
  have ms: "mset (tp_pools ?u @ tp_queue ?u) = mset (tp_pools t @ tp_queue t)"
    using k(2) [symmetric] r(2) by (simp add: ac_simps)
  have "distinct (tp_pools ?u @ tp_queue ?u) \<and> set (tp_pools ?u @ tp_queue ?u) = dom (pm_pools h)"
    using l mset_eq_setD [OF ms] mset_eq_imp_distinct_iff [OF ms] by (simp only: lists_ok_def)
  moreover have "i \<in> set (k @ r) \<and> fst (addr_at h i) = ?n" if "tp_localhost ?u = Some i" for i
  proof -
    have "i \<in> set r \<and> fst (addr_at h i) = ?n \<or> l' = Some i" using push_all_localhost [of h r ?t i] that by simp
    moreover have "i \<in> set k \<and> fst (addr_at h i) = ?n" if "l' = Some i"
    proof -
      have "tp_localhost t = Some i" using k(6) that by auto
      then have "i \<in> set (tp_pools t)" "fst (addr_at h i) = ?n" using l by (simp_all add: lists_ok_def)
      with k(7) that kd show ?thesis by auto
    qed
    ultimately show ?thesis by auto
  qed
  ultimately have "lists_ok ?u h" by (simp add: lists_ok_def)
  then have u: "tp_ok os (?u, h)" using t by (simp add: tp_ok_def)
  have "set (unclaimed ?ss fs') \<subseteq> set ?ss" by (auto simp: unclaimed_def dest: set_zip_leftD)
  with valid have v: "\<forall>s \<in> set (unclaimed ?ss fs'). fst s \<noteq> [] \<and> snd s \<noteq> 0" by blast
  from add_missing_ok [OF u v r(3)] obtain t' h' new where m: "add_missing os (zip ?ss fs') ?u h = Ok (t', h')"
    "tp_ok os (t', h')" "tp_pools t' = k @ r @ new" "map (addr_at h') new = unclaimed ?ss fs'"
    "set new \<inter> dom (pm_pools h) = {}" "tp_queue t' = q" "tp_conn_map t' = tp_conn_map t"
    "\<forall>j \<in> dom (pm_pools h). pm_pools h' j = pm_pools h j" by auto
  have qd: "set q \<subseteq> dom (pm_pools h)" and kr: "set (k @ r) \<subseteq> dom (pm_pools h)"
    using \<open>lists_ok ?u h\<close> by (auto simp: lists_ok_def)
  have same: "addr_at h' i = addr_at h i" if "i \<in> dom (pm_pools h)" for i
    using m(8) that by (simp add: addr_at_def)
  have "map (addr_at h') (k @ r) = map (addr_at h) (k @ r)"
    by (rule map_cong [OF refl]) (rule same [OF subsetD [OF kr]])
  then have "mset (map (addr_at h') (tp_pools t')) = mset ?ss"
    using k(4) r(4) m(3,4) by (metis append.assoc map_append mset_append union_assoc)
  moreover have "addr_at h' j \<noteq> addr_at h' i" if "i \<in> set q" "j \<in> set (tp_pools t') - dom (pm_pools h)" for i j
  proof -
    have "j \<in> set new" using that(2) m(3) subsetD [OF kr, of j] by auto
    then have "addr_at h' j \<in> set (unclaimed ?ss fs')" unfolding m(4) [symmetric] by simp
    moreover have "addr_at h' i \<notin> set (unclaimed ?ss fs')" using r(5) that(1) same [OF subsetD [OF qd that(1)]] by simp
    ultimately show ?thesis by metis
  qed
  moreover have "update_servers os hosts ports t h = Ok (True, t', h')"
    using len k(1) r(1) m(1) by (simp add: update_servers_def)
  ultimately show ?thesis using m(2,6-8) by auto
qed

section \<open>Removing servers\<close>

text \<open>What the two missing members may do: set their field, leaving connections and address.\<close>

definition limits_ok :: "'w tp_env \<Rightarrow> bool" where
  "limits_ok env \<longleftrightarrow> (\<forall>n p. same_sets p (te_set_max_conn env n p) \<and> same_sets p (te_set_min_free_conn env n p)
     \<and> cp_config (te_set_max_conn env n p) = cp_config p \<and> cp_config (te_set_min_free_conn env n p) = cp_config p)"

lemma set_limits_ok:
  assumes "limits_ok env" and "tp_ok os (t, h)" and "set is \<subseteq> dom (pm_pools h)"
  shows "\<exists>h'. set_limits env mx mn is h = Ok h' \<and> tp_ok os (t, h') \<and> dom (pm_pools h') = dom (pm_pools h)"
  using assms(2,3)
proof (induction "is" arbitrary: h)
  case (Cons i "is")
  then obtain p where p: "pm_pools h i = Some p" by auto
  let ?p = "te_set_min_free_conn env (max (div10 mx) mn) (te_set_max_conn env mx p)"
  let ?h = "pool_put i (?p, pm_conns h) h"
  have s: "same_sets p ?p" and c: "cp_config ?p = cp_config p"
    using assms(1) by (auto simp: limits_ok_def intro: same_sets_trans)
  have "cp_inv {} ?p (pm_conns h)" using heap_okD(1) [OF tp_okD(2) [OF Cons.prems(1)] p] by (simp only: cp_inv_same [OF s])
  from heap_ok_put [OF tp_okD(2) [OF Cons.prems(1)] p evolves_same [OF s] this c]
  have "heap_ok os ?h" .
  moreover have "allocated_conns ?p = allocated_conns p" using s by (simp add: same_sets_def)
  ultimately have "tp_ok os (t, ?h)"
    using map_agrees_set [OF tp_okD(3) [OF Cons.prems(1)] p, of ?p "pm_conns h"]
      lists_ok_put [OF tp_okD(4) [OF Cons.prems(1)] p c, of "pm_conns h"] tp_okD(1) [OF Cons.prems(1)]
    by (simp add: tp_ok_def)
  moreover have d: "dom (pm_pools ?h) = dom (pm_pools h)" using p by (auto simp: pool_put_def)
  ultimately show ?case using Cons.IH [of ?h] Cons.prems(2) p by (simp add: pool_at_def)
qed simp

lemma set_total_conn_ok:
  assumes "limits_ok env" and t: "tp_ok os (t, h)" and n: "n = 0 \<or> tp_pools t \<noteq> []"
  shows "\<exists>t' h'. set_total_conn env n t h = Ok (t', h') \<and> tp_ok os (t', h')
    \<and> t' = t\<lparr>tp_total_conn := n\<rparr> \<and> dom (pm_pools h') = dom (pm_pools h)"
proof -
  have sub: "set (tp_pools t) \<subseteq> dom (pm_pools h)" using tp_okD(4) [OF t] by (auto simp: lists_ok_def)
  have "\<exists>h1. (if n = 0 then Ok h else if tp_pools t = [] then Undef
        else set_limits env (to_int (to_size n div length (tp_pools t) + 1)) (tp_min_free t) (tp_pools t) h) = Ok h1
      \<and> tp_ok os (t, h1) \<and> dom (pm_pools h1) = dom (pm_pools h)"
    using set_limits_ok [OF assms(1) t sub] t n by auto
  then obtain h1 where h1: "(if n = 0 then Ok h else if tp_pools t = [] then Undef
        else set_limits env (to_int (to_size n div length (tp_pools t) + 1)) (tp_min_free t) (tp_pools t) h) = Ok h1"
    "tp_ok os (t, h1)" "dom (pm_pools h1) = dom (pm_pools h)" by blast
  have "\<exists>h2. (case tp_localhost t of None \<Rightarrow> Ok h1 | Some i \<Rightarrow> set_limits env n (tp_min_free t) [i] h1) = Ok h2
      \<and> tp_ok os (t, h2) \<and> dom (pm_pools h2) = dom (pm_pools h1)"
  proof (cases "tp_localhost t")
    case (Some i)
    then have "set [i] \<subseteq> dom (pm_pools h1)" using tp_okD(4) [OF t] sub h1(3) by (auto simp: lists_ok_def)
    from set_limits_ok [OF assms(1) h1(2) this] Some show ?thesis by simp
  qed (use h1 in simp)
  then obtain h2 where h2: "(case tp_localhost t of None \<Rightarrow> Ok h1 | Some i \<Rightarrow> set_limits env n (tp_min_free t) [i] h1) = Ok h2"
    "tp_ok os (t, h2)" "dom (pm_pools h2) = dom (pm_pools h1)" by blast
  have "set_total_conn env n t h = Ok (t\<lparr>tp_total_conn := n\<rparr>, h2)"
    unfolding set_total_conn_def h1(1) by (simp add: h2(1))
  moreover have "tp_ok os (t\<lparr>tp_total_conn := n\<rparr>, h2)" using h2(2) by (simp add: tp_ok_def lists_ok_def)
  ultimately show ?thesis using h1(3) h2(3) by auto
qed

lemma find_server_result:
  assumes "set is \<subseteq> dom (pm_pools h)"
  shows "find_server h addr is = Ok (find (\<lambda>i. addr_at h i = addr) is)"
  using assms
proof (induction "is")
  case (Cons i "is")
  then obtain p where "pm_pools h i = Some p" by auto
  with Cons show ?case by (auto simp: pool_at_def addr_at_def)
qed simp

lemma remove_server_ok:
  assumes lim: "limits_ok env" and t: "tp_ok os (t, h)"
  shows "case find (\<lambda>i. addr_at h i = (host, port)) (tp_pools t) of
      None \<Rightarrow> remove_server env host port t h = Ok (t, h)
    | Some i \<Rightarrow> if tp_total_conn t \<noteq> 0 \<and> tp_pools t = [i] then remove_server env host port t h = Undef
        else \<exists>t' h'. remove_server env host port t h = Ok (t', h') \<and> tp_ok os (t', h')
          \<and> tp_pools t' = remove1 i (tp_pools t) \<and> tp_queue t' = tp_queue t @ [i] \<and> tp_conn_map t' = tp_conn_map t"
proof -
  note l = tp_okD(4) [OF t]
  have sub: "set (tp_pools t) \<subseteq> dom (pm_pools h)" using l by (auto simp: lists_ok_def)
  note f = find_server_result [OF sub, of "(host, port)"]
  show ?thesis
  proof (cases "find (\<lambda>i. addr_at h i = (host, port)) (tp_pools t)")
    case None
    with f show ?thesis by (simp add: remove_server_def)
  next
    case (Some i)
    then have i: "i \<in> set (tp_pools t)" "addr_at h i = (host, port)" by (auto simp: find_Some_iff)
    let ?t = "t\<lparr>tp_localhost := (if tp_localhost_name t = host then None else tp_localhost t),
                tp_pools := remove1 i (tp_pools t), tp_queue := tp_queue t @ [i]\<rparr>"
    have "lists_ok ?t h" using l i by (auto simp: lists_ok_def)
    then have ok: "tp_ok os (?t, h)" using t by (simp add: tp_ok_def)
    have r: "remove_server env host port t h = set_total_conn env (tp_total_conn t) ?t h"
      using f Some by (simp add: remove_server_def)
    have e: "remove1 i (tp_pools t) = [] \<longleftrightarrow> tp_pools t = [i]"
      using i(1) by (cases "tp_pools t") (auto split: if_splits)
    show ?thesis
    proof (cases "tp_total_conn t \<noteq> 0 \<and> tp_pools t = [i]")
      case True
      then have "remove_server env host port t h = Undef" unfolding r by (simp add: set_total_conn_def)
      with True Some show ?thesis by simp
    next
      case False
      then have "tp_total_conn t = 0 \<or> tp_pools ?t \<noteq> []" using e by simp
      from set_total_conn_ok [OF lim ok this] False Some r show ?thesis by auto
    qed
  qed
qed

lemma remove_pass_ok:
  assumes "tp_ok os (t\<lparr>tp_queue := qs @ is\<rparr>, h)"
  shows "\<exists>q h'. remove_pass os is h = Ok (q, h') \<and> tp_ok os (t\<lparr>tp_queue := qs @ q\<rparr>, h')
    \<and> q = filter (\<lambda>i. allocated_conns (the (pm_pools h i)) \<noteq> []) is
    \<and> (\<forall>j. pm_pools h' j = (if j \<in> set is \<and> j \<notin> set q then None else pm_pools h j))"
  using assms
proof (induction "is" arbitrary: qs h)
  case Nil
  then show ?case by simp
next
  case (Cons i "is")
  note t = Cons.prems
  note l = tp_okD(4) [OF t]
  from l have di: "i \<in> dom (pm_pools h)" "i \<notin> set is" by (auto simp: lists_ok_def)
  then obtain p where p: "pm_pools h i = Some p" by auto
  show ?case
  proof (cases "allocated_conns p = []")
    case True
    from heap_ok_delete [OF tp_okD(2) [OF t] p True] obtain m where m: "cp_destroy os p (pm_conns h) = Ok m"
      "heap_ok os (h\<lparr>pm_pools := (pm_pools h)(i := None), pm_conns := m\<rparr>)" by blast
    let ?h = "h\<lparr>pm_pools := (pm_pools h)(i := None), pm_conns := m\<rparr>"
    have "map_agrees (tp_conn_map t) ?h" using tp_okD(3) [OF t] p True by (auto simp: map_agrees_def)
    moreover have "lists_ok (t\<lparr>tp_queue := qs @ is\<rparr>) ?h" using l by (auto simp: lists_ok_def addr_at_def)
    ultimately have "tp_ok os (t\<lparr>tp_queue := qs @ is\<rparr>, ?h)" using m(2) tp_okD(1) [OF t] by (simp add: tp_ok_def)
    from Cons.IH [OF this] obtain q h' where r: "remove_pass os is ?h = Ok (q, h')"
      "tp_ok os (t\<lparr>tp_queue := qs @ q\<rparr>, h')" "q = filter (\<lambda>i. allocated_conns (the (pm_pools ?h i)) \<noteq> []) is"
      "\<forall>j. pm_pools h' j = (if j \<in> set is \<and> j \<notin> set q then None else pm_pools ?h j)" by blast
    have "q = filter (\<lambda>i. allocated_conns (the (pm_pools h i)) \<noteq> []) is"
      unfolding r(3) by (rule filter_cong) (use di(2) in auto)
    then show ?thesis using r di p True m(1) by (auto simp: pool_at_def can_be_destroyed_def)
  next
    case False
    have "tp_ok os (t\<lparr>tp_queue := (qs @ [i]) @ is\<rparr>, h)" using t by simp
    from Cons.IH [OF this] obtain q h' where "remove_pass os is h = Ok (q, h')"
      "tp_ok os (t\<lparr>tp_queue := qs @ i # q\<rparr>, h')" "q = filter (\<lambda>i. allocated_conns (the (pm_pools h i)) \<noteq> []) is"
      "\<forall>j. pm_pools h' j = (if j \<in> set is \<and> j \<notin> set q then None else pm_pools h j)" by auto
    then show ?thesis using di p False by (auto simp: pool_at_def can_be_destroyed_def)
  qed
qed

lemma remove_thread_turn_ok:
  assumes t: "tp_ok os (t, h)"
  shows "\<exists>t' h'. remove_thread_turn os t h = Ok (t', h') \<and> tp_ok os (t', h')
    \<and> tp_queue t' = filter (\<lambda>i. allocated_conns (the (pm_pools h i)) \<noteq> []) (tp_queue t)
    \<and> tp_thread t' = (if \<not> tp_stop_flag t \<and> tp_queue t' = [] then Returned else Running)
    \<and> (\<forall>i \<in> set (tp_queue t) - set (tp_queue t'). pm_pools h' i = None)"
proof -
  have "tp_ok os (t\<lparr>tp_queue := [] @ tp_queue t\<rparr>, h)" using t by simp
  from remove_pass_ok [OF this] obtain q h' where r: "remove_pass os (tp_queue t) h = Ok (q, h')"
    "tp_ok os (t\<lparr>tp_queue := q\<rparr>, h')" "q = filter (\<lambda>i. allocated_conns (the (pm_pools h i)) \<noteq> []) (tp_queue t)"
    "\<forall>j. pm_pools h' j = (if j \<in> set (tp_queue t) \<and> j \<notin> set q then None else pm_pools h j)" by auto
  let ?t = "t\<lparr>tp_queue := q, tp_thread := (if \<not> tp_stop_flag t \<and> q = [] then Returned else Running)\<rparr>"
  have "remove_thread_turn os t h = Ok (?t, h')" using r(1) by (simp add: remove_thread_turn_def)
  moreover have "tp_ok os (?t, h')" using r(2) by (simp add: tp_ok_def lists_ok_def)
  ultimately show ?thesis using r(3,4) by simp
qed

end
