(* ===== verification/ThriftPoolSystem.thy ===== *)
theory ThriftPoolSystem
  imports ThriftPoolSpec
begin

text \<open>
  The whole of src/sync/thrift\_pool.h as one system: users of a \<open>ThriftPool\<close>, changes of its
  servers, the thread that destroys removed servers and the probe thread of every server.
\<close>

section \<open>Steps\<close>

inductive tp_step ::
  "'w tp_env \<Rightarrow> thrift_pool \<times> 'w pool_heap \<Rightarrow> thrift_pool \<times> 'w pool_heap \<Rightarrow> bool" for env where
  tps_get: "tp_get (te_os env) t h = Ok (r, s) \<Longrightarrow> tp_step env (t, h) s"
| tps_put: "tp_put (te_os env) c t h = Ok (b, s) \<Longrightarrow> tp_step env (t, h) s"
| tps_close: "tp_close (te_os env) c t h = Ok (b, h') \<Longrightarrow> tp_step env (t, h) (t, h')"
| tps_add: "add_server (te_os env) host port t h = Ok (b, s) \<Longrightarrow> tp_step env (t, h) s"
| tps_update: "\<forall>s \<in> set (zip hosts ports). fst s \<noteq> [] \<and> snd s \<noteq> 0 \<Longrightarrow>
    update_servers (te_os env) hosts ports t h = Ok (b, s) \<Longrightarrow> tp_step env (t, h) s"
| tps_remove: "remove_server env host port t h = Ok s \<Longrightarrow> tp_step env (t, h) s"
| tps_total: "set_total_conn env n t h = Ok s \<Longrightarrow> tp_step env (t, h) s"
| tps_turn: "tp_thread t = Running \<Longrightarrow> remove_thread_turn (te_os env) t h = Ok s \<Longrightarrow> tp_step env (t, h) s"
| tps_probe: "pm_pools h i = Some p \<Longrightarrow> probe_step (te_os env) (p, pm_conns h) s \<Longrightarrow>
    tp_step env (t, h) (t, pool_put i s h)"

inductive_cases tp_stepE: "tp_step env (t, h) s"

text \<open>A new pool, with or without backends, in an empty store.\<close>

definition tp_init :: "'w tp_env \<Rightarrow> thrift_pool \<times> 'w pool_heap \<Rightarrow> bool" where
  "tp_init env s \<longleftrightarrow> (\<exists>lname cfg mn mx h. pm_pools h = Map.empty \<and> cs_conns (pm_conns h) = Map.empty
     \<and> (s = (tp_new lname cfg mn mx, h)
        \<or> (\<exists>backends. tp_new_backends env lname cfg mn mx backends h = Ok s)))"

lemma tp_ok_thread: "tp_ok os (t, h) \<Longrightarrow> tp_ok os (start_remove_thread t, h)"
  by (simp add: tp_ok_def lists_ok_def start_remove_thread_def)

lemma tp_ok_blank:
  "open_opens os \<Longrightarrow> pm_pools h = Map.empty \<Longrightarrow> cs_conns (pm_conns h) = Map.empty
    \<Longrightarrow> tp_ok os (tp_blank lname cfg mn mx, h)"
  by (simp add: tp_ok_def heap_ok_def map_agrees_def lists_ok_def tp_blank_def)

lemma add_backends_ok:
  "tp_ok (te_os env) (t, h) \<Longrightarrow> add_backends env ss t h = Ok (t', h') \<Longrightarrow> tp_ok (te_os env) (t', h')"
proof (induction ss arbitrary: t h)
  case (Cons s ss)
  have one: "tp_ok (te_os env) (t1, h1)" if "add_server (te_os env) host n t h = Ok (b, t1, h1)" for host n b t1 h1
  proof -
    have "host \<noteq> [] \<and> n \<noteq> 0" using that by (auto simp: add_server_def outcome_simps)
    with add_server_ok [OF Cons.prems(1), of host n] that show ?thesis by auto
  qed
  from Cons.prems(2) obtain t1 h1 where a: "(case te_split env '':'' s of
          [host, port] \<Rightarrow> (case te_cast env port of
              None \<Rightarrow> Ok (t, h)
            | Some n \<Rightarrow> map_ok snd (add_server (te_os env) host n t h))
        | _ \<Rightarrow> Ok (t, h)) = Ok (t1, h1)" "add_backends env ss t1 h1 = Ok (t', h')" by (auto simp: outcome_simps)
  have "tp_ok (te_os env) (t1, h1)"
    using a(1) one Cons.prems(1) by (auto simp: outcome_simps split: list.splits option.splits)
  from Cons.IH [OF this a(2)] show ?case .
qed simp

definition tp_sys_inv :: "'w tp_env \<Rightarrow> thrift_pool \<times> 'w pool_heap \<Rightarrow> bool" where
  "tp_sys_inv env s \<longleftrightarrow> (open_opens (te_os env) \<and> limits_ok env \<longrightarrow> tp_ok (te_os env) s)"

lemma tp_init_inv: "tp_init env s \<Longrightarrow> tp_sys_inv env s"
  unfolding tp_init_def tp_sys_inv_def
  by (auto simp: tp_new_def tp_new_backends_def outcome_simps
      intro!: tp_ok_thread tp_ok_blank elim!: add_backends_ok [rotated])

lemma tp_get_ok:
  assumes t: "tp_ok os (t, h)"
  shows "\<exists>r t' h'. tp_get os t h = Ok (r, t', h') \<and> tp_ok os (t', h')
    \<and> tp_pools t' = tp_pools t \<and> tp_queue t' = tp_queue t \<and> tp_localhost t' = tp_localhost t
    \<and> (case serving t h of None \<Rightarrow> r = None \<and> h' = h
       | Some i \<Rightarrow> \<forall>a. r = Some a \<longrightarrow> map_of (tp_conn_map t) a = None
           \<and> map_of (tp_conn_map t') a = Some i \<and> tc_is_open os a (pm_conns h') = Ok True)
    \<and> dom (map_of (tp_conn_map t')) = set_option r \<union> dom (map_of (tp_conn_map t))"
proof (cases "serving t h")
  case None
  with tp_get_serving [OF t] obtain x where "tp_get os t h = Ok (None, t\<lparr>tp_index := x\<rparr>, h)" by auto
  with None tp_ok_index [OF t, of x] show ?thesis by simp
next
  case (Some i)
  with tp_get_serving [OF t] obtain x where x: "tp_get os t h = get_from os i (t\<lparr>tp_index := x\<rparr>) h" by auto
  have "i \<in> dom (pm_pools h)"
    using serving_listed [OF tp_okD(4) [OF t] Some] tp_okD(4) [OF t] by (auto simp: lists_ok_def)
  then obtain p where "pm_pools h i = Some p" by blast
  from get_from_ok [OF tp_ok_index [OF t, of x] this] x Some show ?thesis by auto
qed

lemma tp_step_inv:
  assumes inv: "tp_sys_inv env s" and step: "tp_step env s s'"
  shows "tp_sys_inv env s'"
proof (cases "open_opens (te_os env) \<and> limits_ok env")
  case True
  obtain t h where s: "s = (t, h)" by (cases s)
  have t: "tp_ok (te_os env) (t, h)" using inv True by (simp add: s tp_sys_inv_def)
  have "tp_ok (te_os env) s'"
    using step [unfolded s]
  proof cases
    case (tps_get r)
    with tp_get_ok [OF t] show ?thesis by auto
  next
    case (tps_put c b)
    with tp_put_ok [OF t, of c] show ?thesis by auto
  next
    case (tps_close c b h')
    with tp_close_ok [OF t, of c] show ?thesis by auto
  next
    case (tps_add host port b)
    then have "host \<noteq> [] \<and> port \<noteq> 0" by (auto simp: add_server_def outcome_simps)
    with tps_add add_server_ok [OF t, of host port] show ?thesis by auto
  next
    case (tps_update hosts ports b)
    with update_servers_ok [OF t _ tps_update(1)] t show ?thesis
      by (cases "length hosts = length ports") (auto simp: update_servers_def [of _ hosts ports])
  next
    case (tps_remove host port)
    with remove_server_ok [OF conjunct2 [OF True] t, of host port] t show ?thesis
      by (auto split: option.splits if_splits)
  next
    case (tps_total n)
    then have "n = 0 \<or> tp_pools t \<noteq> []" by (auto simp: set_total_conn_def split: if_splits)
    with tps_total set_total_conn_ok [OF conjunct2 [OF True] t, of n] show ?thesis by auto
  next
    case tps_turn
    with remove_thread_turn_ok [OF t] show ?thesis by auto
  next
    case (tps_probe i p x)
    obtain p' m' where x: "x = (p', m')" by (cases x)
    note ip = heap_okD [OF tp_okD(2) [OF t] tps_probe(2)]
    from probe_step_inv [OF tps_probe(3) [unfolded x] ip(1,2)] tp_ok_keep [OF t tps_probe(2), of p' m'] tps_probe(1) x
    show ?thesis by simp
  qed
  then show ?thesis by (simp add: tp_sys_inv_def)
next
  case False
  then show ?thesis unfolding tp_sys_inv_def by blast
qed

interpretation thrift_pool_sys: step_system "tp_init env" "tp_step env" "tp_sys_inv env"
  for env :: "'w tp_env"
  by unfold_locales (auto intro: tp_init_inv tp_step_inv)

section \<open>Lending contracts\<close>

text \<open>Both pools lend connections: one server's pool, and the pool of servers.\<close>

interpretation conn_pool_lender: lender "\<lambda>s. cp_inv {} (fst s) (snd s) \<and> pool_ready os (fst s)"
  "\<lambda>s. set (allocated_conns (fst s))" "\<lambda>s. cp_get os (fst s) (snd s)"
  "\<lambda>a s. cp_put os (Some a) (fst s) (snd s)" for os :: "'w transport_os"
proof (unfold_locales, goal_cases)
  case (1 s)
  obtain p m where s: "s = (p, m)" by (cases s)
  with 1 have i: "cp_inv {} p m" "pool_ready os p" by simp_all
  from cp_get_inv [OF this] obtain r p' m' where g: "cp_get os p m = Ok (r, p', m')" "cp_inv {} p' m'"
    "cp_config p' = cp_config p" and c: "case r of None \<Rightarrow> allocated_conns p' = allocated_conns p
       | Some a \<Rightarrow> a \<notin> set (allocated_conns p) \<and> allocated_conns p' = ptr_insert a (allocated_conns p)
           \<and> tc_is_open os a m' = Ok True" by blast
  have "set (allocated_conns p') = set_option r \<union> set (allocated_conns p) \<and> set_option r \<inter> set (allocated_conns p) = {}"
    using c by (cases r) (simp_all add: ptr_set_insert)
  with g i s show ?case by (simp add: pool_ready_def)
next
  case (2 s a)
  obtain p m where s: "s = (p, m)" by (cases s)
  with 2 have i: "cp_inv {} p m" "pool_ready os p" "a \<in> set (allocated_conns p)" by simp_all
  from cp_put_inv [OF i(1,3), of os] obtain p' m' where g: "cp_put os (Some a) p m = Ok (p', m')" "cp_inv {} p' m'"
    "cp_config p' = cp_config p" "allocated_conns p' = ptr_erase a (allocated_conns p)" by blast
  have "ptr_ok (allocated_conns p)" using i(1) by (simp add: cp_inv_def)
  with g i s show ?case by (simp add: pool_ready_def ptr_set_erase)
qed

interpretation thrift_pool_lender: lender "tp_ok os" "\<lambda>s. dom (map_of (tp_conn_map (fst s)))"
  "\<lambda>s. tp_get os (fst s) (snd s)" "\<lambda>a s. map_ok snd (tp_put os (Some a) (fst s) (snd s))" for os :: "'w transport_os"
proof (unfold_locales, goal_cases)
  case (1 s)
  obtain t h where s: "s = (t, h)" by (cases s)
  from tp_get_ok [OF 1 [unfolded s]] obtain r t' h' where g: "tp_get os t h = Ok (r, t', h')" "tp_ok os (t', h')"
    "dom (map_of (tp_conn_map t')) = set_option r \<union> dom (map_of (tp_conn_map t))" and c: "case serving t h of None \<Rightarrow> r = None \<and> h' = h
       | Some i \<Rightarrow> \<forall>a. r = Some a \<longrightarrow> map_of (tp_conn_map t) a = None
           \<and> map_of (tp_conn_map t') a = Some i \<and> tc_is_open os a (pm_conns h') = Ok True" by blast
  have "set_option r \<inter> dom (map_of (tp_conn_map t)) = {}"
    using c by (cases r; cases "serving t h") auto
  with g s show ?case by simp
next
  case (2 s a)
  obtain t h where s: "s = (t, h)" by (cases s)
  with 2 have a: "a \<in> dom (map_of (tp_conn_map t))" by simp
  from tp_put_ok [OF 2(1) [unfolded s], of "Some a"] obtain b t' h' where p: "tp_put os (Some a) t h = Ok (b, t', h')"
    "tp_ok os (t', h')" "b \<longleftrightarrow> (\<exists>x. Some a = Some x \<and> x \<in> dom (map_of (tp_conn_map t)))"
    "map_of (tp_conn_map t') = (if b then (map_of (tp_conn_map t))(the (Some a) := None) else map_of (tp_conn_map t))" by blast
  have b using p(3) a by blast
  then have "dom (map_of (tp_conn_map t')) = dom (map_of (tp_conn_map t)) - {a}" using p(4) by simp
  with p(1,2) s show ?case by simp
qed

section \<open>A concrete pool of servers\<close>

definition lab_env :: "nat tp_env" where
  "lab_env = \<lparr>te_os = lab_tr, te_split = (\<lambda>_ s. [s]), te_cast = (\<lambda>_. None),
     te_set_max_conn = (\<lambda>n p. p\<lparr>cp_max := n\<rparr>), te_set_min_free_conn = (\<lambda>n p. p\<lparr>cp_min_free := n\<rparr>)\<rparr>"

lemma lab_env_ok: "open_opens (te_os lab_env)" "limits_ok lab_env"
  using lab_tr_opens by (simp_all add: lab_env_def limits_ok_def same_sets_def)

definition lab_heap :: "nat pool_heap" where
  "lab_heap = \<lparr>pm_pools = Map.empty, pm_next = 0, pm_conns = lab_store\<rparr>"

definition lab_thrift_pool :: thrift_pool where
  "lab_thrift_pool = tp_new ''db1'' lab_cfg 1 2"

lemma lab_thrift_pool_reach: "reach (tp_init lab_env) (tp_step lab_env) (lab_thrift_pool, lab_heap)"
proof (rule reach_init)
  have "pm_pools lab_heap = Map.empty" "cs_conns (pm_conns lab_heap) = Map.empty"
    by (simp_all add: lab_heap_def lab_store_def)
  then show "tp_init lab_env (lab_thrift_pool, lab_heap)" unfolding tp_init_def lab_thrift_pool_def by blast
qed

text \<open>With one server added.\<close>

lemma lab_one_server:
  "\<exists>t h. add_server (te_os lab_env) ''db1'' 9090 lab_thrift_pool lab_heap = Ok (True, t, h)
     \<and> tp_pools t = [0] \<and> tp_localhost t = Some 0 \<and> tp_total_conn t = 0 \<and> tp_queue t = [] \<and> tp_thread t = Running
     \<and> \<not> tp_stop_flag t \<and> reach (tp_init lab_env) (tp_step lab_env) (t, h)"
proof -
  from lab_thrift_pool_reach have "tp_ok (te_os lab_env) (lab_thrift_pool, lab_heap)"
    using thrift_pool_sys.reachable_inv lab_env_ok by (auto simp: tp_sys_inv_def)
  from new_pool_ok [OF this, of "(''db1'', 9090)"] obtain h where
    "new_pool (te_os lab_env) (''db1'', 9090) lab_thrift_pool lab_heap = Ok (0, h)"
    by (auto simp: lab_heap_def)
  then have a: "add_server (te_os lab_env) ''db1'' 9090 lab_thrift_pool lab_heap
      = Ok (True, push_pool ''db1'' 0 lab_thrift_pool, h)"
    by (simp add: add_server_def lab_thrift_pool_def tp_new_def start_remove_thread_def tp_blank_def)
  have "reach (tp_init lab_env) (tp_step lab_env) (push_pool ''db1'' 0 lab_thrift_pool, h)"
  proof (rule reach_step)
    show "reach (tp_init lab_env) (tp_step lab_env) (lab_thrift_pool, lab_heap)" by (rule lab_thrift_pool_reach)
    show "tp_step lab_env (lab_thrift_pool, lab_heap) (push_pool ''db1'' 0 lab_thrift_pool, h)"
      by (rule tp_step.tps_add [where host = "''db1''" and port = 9090 and b = True]) (rule a)
  qed
  moreover have "tp_pools (push_pool ''db1'' 0 lab_thrift_pool) = [0]"
    "tp_localhost (push_pool ''db1'' 0 lab_thrift_pool) = Some 0"
    "tp_total_conn (push_pool ''db1'' 0 lab_thrift_pool) = 0" "tp_queue (push_pool ''db1'' 0 lab_thrift_pool) = []"
    "tp_thread (push_pool ''db1'' 0 lab_thrift_pool) = Running" "\<not> tp_stop_flag (push_pool ''db1'' 0 lab_thrift_pool)"
    by (simp_all add: push_pool_def lab_thrift_pool_def tp_new_def start_remove_thread_def tp_blank_def)
  ultimately show ?thesis using a by blast
qed

section \<open>Properties\<close>

lemma reach_tp_ok:
  assumes "open_opens (te_os env)" and "limits_ok env" and "reach (tp_init env) (tp_step env) s"
  shows "tp_ok (te_os env) s"
  using thrift_pool_sys.reachable_inv [OF assms(3)] assms(1,2) by (simp add: tp_sys_inv_def)

text \<open>C10: In every reachable state of a ThriftPool the map from connections to pools holds exactly the
  connections that are in use, each with the live pool it came from; the pools listed or waiting for
  removal are exactly the live ones, each once; no two pools share a connection and none is leaked.\<close>

theorem thrift_pool_consistent:
  assumes "open_opens (te_os env)" and "limits_ok env" and "reach (tp_init env) (tp_step env) (t, h)"
  shows "(\<forall>a i. map_of (tp_conn_map t) a = Some i
        \<longleftrightarrow> (\<exists>p. pm_pools h i = Some p \<and> a \<in> set (allocated_conns p)))
    \<and> distinct (tp_pools t @ tp_queue t) \<and> set (tp_pools t @ tp_queue t) = dom (pm_pools h)
    \<and> (\<forall>i j p q. pm_pools h i = Some p \<longrightarrow> pm_pools h j = Some q \<longrightarrow> i \<noteq> j \<longrightarrow> own p \<inter> own q = {})
    \<and> (\<forall>a \<in> dom (cs_conns (pm_conns h)). \<exists>i p. pm_pools h i = Some p \<and> a \<in> own p)"
  using tp_okD [OF reach_tp_ok [OF assms]] by (simp add: map_agrees_def lists_ok_def heap_ok_def)

theorem thrift_pool_consistent_witness:
  "\<exists>t h. add_server (te_os lab_env) ''db1'' 9090 lab_thrift_pool lab_heap = Ok (True, t, h)
     \<and> set (tp_pools t @ tp_queue t) = dom (pm_pools h)"
proof -
  from lab_one_server obtain t h where "add_server (te_os lab_env) ''db1'' 9090 lab_thrift_pool lab_heap = Ok (True, t, h)"
    "reach (tp_init lab_env) (tp_step lab_env) (t, h)" by blast
  with thrift_pool_consistent [OF lab_env_ok this(2)] show ?thesis by auto
qed

text \<open>Getting n connections from a reachable ThriftPool and putting them back in any order never
  fails an assertion or touches freed memory; the connections got are distinct, and in the end the
  ones in use are those in use before.\<close>

theorem thrift_pool_gets_puts:
  assumes "open_opens (te_os env)" and "limits_ok env" and "reach (tp_init env) (tp_step env) s"
  shows "\<exists>as s'. gets (\<lambda>s. tp_get (te_os env) (fst s) (snd s)) n s = Ok (as, s') \<and> distinct as
    \<and> (\<forall>bs. mset bs = mset as \<longrightarrow>
        (\<exists>s''. puts (\<lambda>a s. map_ok snd (tp_put (te_os env) (Some a) (fst s) (snd s))) bs s' = Ok s''
          \<and> dom (map_of (tp_conn_map (fst s''))) = dom (map_of (tp_conn_map (fst s)))))"
  using thrift_pool_lender.gets_puts [OF reach_tp_ok [OF assms], of n] by meson

theorem thrift_pool_gets_puts_witness:
  "\<exists>t h as s'. add_server (te_os lab_env) ''db1'' 9090 lab_thrift_pool lab_heap = Ok (True, t, h)
     \<and> gets (\<lambda>s. tp_get (te_os lab_env) (fst s) (snd s)) 3 (t, h) = Ok (as, s') \<and> distinct as"
proof -
  from lab_one_server obtain t h where "add_server (te_os lab_env) ''db1'' 9090 lab_thrift_pool lab_heap = Ok (True, t, h)"
    "reach (tp_init lab_env) (tp_step lab_env) (t, h)" by blast
  with thrift_pool_gets_puts [OF lab_env_ok this(2), of 3] show ?thesis by blast
qed

text \<open>get returns an open connection nobody holds, from the local server when that one is
  connected, otherwise from the first connected server of the rotation; when no server is connected
  it returns NULL and changes no pool.\<close>

theorem thrift_pool_get_serves:
  assumes "open_opens (te_os env)" and "limits_ok env" and "reach (tp_init env) (tp_step env) (t, h)"
    and len: "length (tp_pools t) < 2 ^ 64"
  shows "\<exists>r t' h'. tp_get (te_os env) t h = Ok (r, t', h')
    \<and> ((\<forall>i \<in> set (tp_pools t). \<not> up h i) \<longrightarrow> r = None \<and> h' = h)
    \<and> ((\<exists>i \<in> set (tp_pools t). up h i) \<longrightarrow> (\<exists>i \<in> set (tp_pools t). up h i
        \<and> (case tp_localhost t of
            Some l \<Rightarrow> if up h l then i = l else find (up h) (rotation (tp_pools t) (tp_index t)) = Some i
          | None \<Rightarrow> find (up h) (rotation (tp_pools t) (tp_index t)) = Some i)
        \<and> (\<forall>a. r = Some a \<longrightarrow> map_of (tp_conn_map t) a = None \<and> map_of (tp_conn_map t') a = Some i
            \<and> tc_is_open (te_os env) a (pm_conns h') = Ok True)))"
proof -
  note t = reach_tp_ok [OF assms(1-3)]
  note l = tp_okD(4) [OF t]
  from tp_get_ok [OF t] obtain r t' h' where g: "tp_get (te_os env) t h = Ok (r, t', h')"
    "case serving t h of None \<Rightarrow> r = None \<and> h' = h
       | Some i \<Rightarrow> \<forall>a. r = Some a \<longrightarrow> map_of (tp_conn_map t) a = None
           \<and> map_of (tp_conn_map t') a = Some i \<and> tc_is_open (te_os env) a (pm_conns h') = Ok True" by blast
  show ?thesis
  proof (cases "serving t h")
    case None
    have "\<not> up h i" if i: "i \<in> set (tp_pools t)" for i
    proof
      assume "up h i"
      have "tp_pools t \<noteq> []" using i by auto
      with rotation_find [OF _ len, of h "tp_index t"] \<open>up h i\<close> i
      have "find (up h) (rotation (tp_pools t) (tp_index t)) \<noteq> None" by blast
      with None show False by (auto simp: serving_def split: option.splits if_splits)
    qed
    with g None show ?thesis by auto
  next
    case (Some i)
    from serving_listed [OF l Some] have i: "i \<in> set (tp_pools t)" "up h i" by simp_all
    have c: "case tp_localhost t of
            Some l \<Rightarrow> if up h l then i = l else find (up h) (rotation (tp_pools t) (tp_index t)) = Some i
          | None \<Rightarrow> find (up h) (rotation (tp_pools t) (tp_index t)) = Some i"
      using Some by (auto simp: serving_def split: option.splits if_splits)
    have "\<forall>a. r = Some a \<longrightarrow> map_of (tp_conn_map t) a = None \<and> map_of (tp_conn_map t') a = Some i
            \<and> tc_is_open (te_os env) a (pm_conns h') = Ok True" using g(2) Some by simp
    with g(1) i c show ?thesis by blast
  qed
qed

theorem thrift_pool_get_serves_witness:
  "\<exists>t h s. add_server (te_os lab_env) ''db1'' 9090 lab_thrift_pool lab_heap = Ok (True, t, h)
     \<and> tp_get (te_os lab_env) t h = Ok s"
proof -
  from lab_one_server obtain t h where t: "add_server (te_os lab_env) ''db1'' 9090 lab_thrift_pool lab_heap = Ok (True, t, h)"
    "tp_pools t = [0]" "reach (tp_init lab_env) (tp_step lab_env) (t, h)" by blast
  with thrift_pool_get_serves [OF lab_env_ok t(3)] have "\<exists>r t' h'. tp_get (te_os lab_env) t h = Ok (r, t', h')" by force
  with t(1) show ?thesis by blast
qed

text \<open>C11: update_servers leaves exactly the requested servers in use, each as often as it was
  requested: connections in use and the existing pools are untouched, and a pool that waits for
  removal is taken back rather than a second pool made for its server.\<close>

theorem update_servers_exact:
  assumes "open_opens (te_os env)" and "limits_ok env" and "reach (tp_init env) (tp_step env) (t, h)"
    and "length hosts = length ports" and "\<forall>s \<in> set (zip hosts ports). fst s \<noteq> [] \<and> snd s \<noteq> 0"
  shows "\<exists>t' h'. update_servers (te_os env) hosts ports t h = Ok (True, t', h')
    \<and> mset (map (addr_at h') (tp_pools t')) = mset (zip hosts ports) \<and> tp_conn_map t' = tp_conn_map t
    \<and> (\<forall>j \<in> dom (pm_pools h). pm_pools h' j = pm_pools h j)
    \<and> (\<forall>i \<in> set (tp_queue t'). \<forall>j \<in> set (tp_pools t') - dom (pm_pools h). addr_at h' j \<noteq> addr_at h' i)"
  using update_servers_ok [OF reach_tp_ok [OF assms(1-3)] assms(4,5)] by blast

theorem update_servers_exact_witness:
  "\<exists>t' h'. update_servers (te_os lab_env) [''db1'', ''db2'', ''db1''] [9090, 9090, 9090] lab_thrift_pool lab_heap = Ok (True, t', h')
     \<and> mset (map (addr_at h') (tp_pools t')) = {#(''db1'', 9090), (''db1'', 9090), (''db2'', 9090)#}"
proof -
  let ?h = "[''db1'', ''db2'', ''db1'']" and ?p = "[9090, 9090, 9090] :: int list"
  have "\<forall>s \<in> set (zip ?h ?p). fst s \<noteq> [] \<and> snd s \<noteq> 0" by simp
  from update_servers_exact [OF lab_env_ok lab_thrift_pool_reach _ this] obtain t' h' where
    "update_servers (te_os lab_env) ?h ?p lab_thrift_pool lab_heap = Ok (True, t', h')"
    "mset (map (addr_at h') (tp_pools t')) = mset (zip ?h ?p)" by auto
  then show ?thesis by (simp add: add_mset_commute)
qed

section \<open>The removing thread\<close>

text \<open>A thread that has returned is never started again, and then no pool is deleted.\<close>

definition grows :: "'w pool_heap \<Rightarrow> 'w pool_heap \<Rightarrow> bool" where
  "grows h h' \<longleftrightarrow> dom (pm_pools h) \<subseteq> dom (pm_pools h')"

lemma grows_pool_put [simp]: "grows h (pool_put i s h)" "grows h ((pool_put i s h)\<lparr>pm_next := n\<rparr>)"
  by (auto simp: grows_def pool_put_def)

lemma grows_refl [simp]: "grows h h"
  by (simp add: grows_def)

lemma grows_trans: "grows h h1 \<Longrightarrow> grows h1 h2 \<Longrightarrow> grows h h2"
  by (auto simp: grows_def)

lemma grows_put: "grows h x \<Longrightarrow> grows h (pool_put i s x)"
  by (rule grows_trans [OF _ grows_pool_put(1)])

lemma set_limits_grows: "set_limits env mx mn is h = Ok h' \<Longrightarrow> grows h h'"
  by (induction "is" arbitrary: h) (auto simp: outcome_simps intro: grows_trans [OF grows_pool_put(1)])

lemma set_total_conn_grows: "set_total_conn env n t h = Ok (t', h') \<Longrightarrow> grows h h' \<and> tp_thread t' = tp_thread t"
  unfolding set_total_conn_def
  by (auto simp: outcome_simps split: if_splits option.splits dest!: set_limits_grows intro: grows_trans grows_put)

lemma add_missing_grows:
  "add_missing os ss t h = Ok (t', h') \<Longrightarrow> grows h h' \<and> tp_thread t' = tp_thread t"
proof (induction os ss t h rule: add_missing.induct)
  case (2 os s found ss t h)
  show ?case
  proof (cases found)
    case False
    with "2.prems" obtain i h1 where n: "new_pool os s t h = Ok (i, h1)"
      "add_missing os ss (push_pool (fst s) i t) h1 = Ok (t', h')" by (auto simp: outcome_simps)
    then have "grows h h1" by (auto simp: new_pool_def outcome_simps)
    with "2.IH"(2) [OF False, of "(i, h1)"] n show ?thesis by (auto intro: grows_trans)
  qed (use 2 in simp)
qed simp

lemma restore_pools_thread: "restore_pools h ss is fs t = Ok (q, fs', t') \<Longrightarrow> tp_thread t' = tp_thread t"
proof (induction "is" arbitrary: fs t q)
  case (Cons i "is")
  then obtain p where p: "pool_at h i = Ok p" by (auto simp: outcome_simps)
  with Cons show ?case by (cases "claim (pool_addr p) ss fs") (auto simp: outcome_simps)
qed simp

lemma tp_step_grows:
  assumes "tp_step env (t, h) (t', h')" and "tp_thread t = Returned"
  shows "tp_thread t' = Returned \<and> grows h h'"
  using assms(1)
proof cases
  case (tps_get r)
  then show ?thesis using assms(2)
    by (auto simp: tp_get_def get_from_def outcome_simps split: option.splits if_splits)
next
  case (tps_put c b)
  then show ?thesis using assms(2) by (auto simp: tp_put_def outcome_simps split: option.splits)
next
  case (tps_close c b)
  then show ?thesis using assms(2) by (auto simp: tp_close_def outcome_simps split: option.splits)
next
  case (tps_add host port b)
  then show ?thesis using assms(2) by (auto simp: add_server_def new_pool_def outcome_simps split: if_splits)
next
  case (tps_update hosts ports b)
  then show ?thesis using assms(2)
    by (auto simp: update_servers_def outcome_simps Let_def split: if_splits
        dest!: add_missing_grows restore_pools_thread)
next
  case (tps_remove host port)
  then show ?thesis using assms(2)
    by (auto simp: remove_server_def outcome_simps Let_def split: option.splits dest!: set_total_conn_grows)
next
  case (tps_total n)
  then show ?thesis using assms(2) by (auto dest!: set_total_conn_grows)
next
  case tps_turn
  then show ?thesis using assms(2) by simp
next
  case (tps_probe i p s)
  then show ?thesis using assms(2) by simp
qed

fun remove_turns ::
  "'w transport_os \<Rightarrow> nat \<Rightarrow> thrift_pool \<times> 'w pool_heap \<Rightarrow> (thrift_pool \<times> 'w pool_heap) outcome" where
  "remove_turns os 0 s = Ok s"
| "remove_turns os (Suc n) s = bind_outcome (remove_thread_turn os (fst s) (snd s)) (remove_turns os n)"

text \<open>C12: The removing thread leaves its loop when it must run and not when it must stop: with
  nothing to remove and no stop requested the first turn ends it, and from then on no pool is ever
  deleted; once the destructor has asked a running thread to stop it never returns.\<close>

theorem remove_thread_inverted:
  assumes "open_opens (te_os env)" and "limits_ok env" and "reach (tp_init env) (tp_step env) (t, h)"
    and run: "tp_thread t = Running"
  shows "(tp_queue t = [] \<longrightarrow> \<not> tp_stop_flag t \<longrightarrow> (\<exists>t'. remove_thread_turn (te_os env) t h = Ok (t', h)
        \<and> tp_thread t' = Returned \<and> (\<forall>t'' h''. (tp_step env)\<^sup>*\<^sup>* (t', h) (t'', h'') \<longrightarrow>
            tp_thread t'' = Returned \<and> dom (pm_pools h) \<subseteq> dom (pm_pools h''))))
    \<and> (\<forall>n. \<exists>t' h'. remove_turns (te_os env) n (tp_destroy_begin t, h) = Ok (t', h') \<and> \<not> join_returns t')"
proof (intro conjI impI allI)
  let ?t = "t\<lparr>tp_thread := Returned\<rparr>"
  assume "tp_queue t = []" "\<not> tp_stop_flag t"
  then have "remove_thread_turn (te_os env) t h = Ok (?t, h)" by (simp add: remove_thread_turn_def)
  moreover have "tp_thread (fst s) = Returned \<and> grows h (snd s)" if "(tp_step env)\<^sup>*\<^sup>* (?t, h) s" for s
    using that
  proof (induction rule: rtranclp_induct)
    case (step s s')
    then show ?case using tp_step_grows [of env "fst s" "snd s" "fst s'" "snd s'"] grows_trans by auto
  qed simp
  ultimately show "\<exists>t'. remove_thread_turn (te_os env) t h = Ok (t', h) \<and> tp_thread t' = Returned
      \<and> (\<forall>t'' h''. (tp_step env)\<^sup>*\<^sup>* (t', h) (t'', h'') \<longrightarrow> tp_thread t'' = Returned \<and> dom (pm_pools h) \<subseteq> dom (pm_pools h''))"
    by (fastforce simp: grows_def)
next
  fix n
  have turns: "\<exists>t' h'. remove_turns (te_os env) n (t, h) = Ok (t', h') \<and> \<not> join_returns t'"
    if "tp_ok (te_os env) (t\<lparr>tp_localhost := None\<rparr>, h)" "tp_stop_flag t" "tp_thread t = Running" for n t h
    using that
  proof (induction n arbitrary: t h)
    case 0
    then show ?case by (simp add: join_returns_def)
  next
    case (Suc n)
    from remove_pass_ok [of "te_os env" "[]" "tp_queue t" "t\<lparr>tp_localhost := None\<rparr>" h] Suc.prems(1) obtain q h'
      where r: "remove_pass (te_os env) (tp_queue t) h = Ok (q, h')"
        "tp_ok (te_os env) (t\<lparr>tp_localhost := None, tp_queue := q\<rparr>, h')"
      by (auto simp: tp_ok_def lists_ok_def)
    let ?t = "t\<lparr>tp_queue := q, tp_thread := Running\<rparr>"
    have "remove_thread_turn (te_os env) t h = Ok (?t, h')" using r(1) Suc.prems(2) by (simp add: remove_thread_turn_def)
    moreover have "tp_ok (te_os env) (?t\<lparr>tp_localhost := None\<rparr>, h')" using r(2) by (simp add: tp_ok_def lists_ok_def)
    ultimately show ?case using Suc.IH [of ?t h'] Suc.prems(2) by simp
  qed
  note t = reach_tp_ok [OF assms(1-3)]
  have "lists_ok ((tp_destroy_begin t)\<lparr>tp_localhost := None\<rparr>) h"
    using tp_okD(4) [OF t] run by (auto simp: lists_ok_def tp_destroy_begin_def stop_remove_thread_begin_def)
  then have "tp_ok (te_os env) ((tp_destroy_begin t)\<lparr>tp_localhost := None\<rparr>, h)"
    using t run by (simp add: tp_ok_def tp_destroy_begin_def stop_remove_thread_begin_def)
  moreover have "tp_stop_flag (tp_destroy_begin t)" "tp_thread (tp_destroy_begin t) = Running"
    using run by (simp_all add: tp_destroy_begin_def stop_remove_thread_begin_def)
  ultimately show "\<exists>t' h'. remove_turns (te_os env) n (tp_destroy_begin t, h) = Ok (t', h') \<and> \<not> join_returns t'"
    by (rule turns)
qed

theorem remove_thread_inverted_witness:
  "\<exists>t h t'. add_server (te_os lab_env) ''db1'' 9090 lab_thrift_pool lab_heap = Ok (True, t, h)
     \<and> remove_thread_turn (te_os lab_env) t h = Ok (t', h) \<and> tp_thread t' = Returned"
proof -
  from lab_one_server obtain t h where t: "add_server (te_os lab_env) ''db1'' 9090 lab_thrift_pool lab_heap = Ok (True, t, h)"
    "tp_queue t = []" "tp_thread t = Running" "\<not> tp_stop_flag t" "reach (tp_init lab_env) (tp_step lab_env) (t, h)" by blast
  with remove_thread_inverted [OF lab_env_ok t(5,3)] show ?thesis by blast
qed

text \<open>Removing the only server of a pool whose total\_conn was set divides by the number of
  servers left, zero; with no total set, or another server left, the server leaves the pool for
  the queue and the connections in use stay mapped.\<close>

theorem remove_server_result:
  assumes "open_opens (te_os env)" and "limits_ok env" and "reach (tp_init env) (tp_step env) (t, h)"
    and f: "find (\<lambda>i. addr_at h i = (host, port)) (tp_pools t) = Some i"
  shows "if tp_total_conn t \<noteq> 0 \<and> tp_pools t = [i] then remove_server env host port t h = Undef
    else \<exists>t' h'. remove_server env host port t h = Ok (t', h') \<and> tp_pools t' = remove1 i (tp_pools t)
      \<and> tp_queue t' = tp_queue t @ [i] \<and> tp_conn_map t' = tp_conn_map t"
  using remove_server_ok [OF assms(2) reach_tp_ok [OF assms(1-3)], of host port] f by (auto split: if_splits)

theorem remove_server_result_witness:
  "\<exists>t h. add_server (te_os lab_env) ''db1'' 9090 lab_thrift_pool lab_heap = Ok (True, t, h)
     \<and> (\<forall>i. find (\<lambda>i. addr_at h i = (''db1'', 9090)) (tp_pools t) = Some i \<longrightarrow>
          (\<exists>t' h'. remove_server lab_env ''db1'' 9090 t h = Ok (t', h') \<and> tp_queue t' = [i]))"
proof -
  from lab_one_server obtain t h where t: "add_server (te_os lab_env) ''db1'' 9090 lab_thrift_pool lab_heap = Ok (True, t, h)"
    "tp_queue t = []" "tp_total_conn t = 0" "reach (tp_init lab_env) (tp_step lab_env) (t, h)" by blast
  with remove_server_result [OF lab_env_ok t(4), of "''db1''" 9090] show ?thesis by (metis append_Nil)
qed

lemma percent:
  fixes c n :: nat
  assumes "c \<le> n" and "0 < n"
  shows "c * 100 div n \<le> 100 \<and> (c * 100 div n = 100 \<longleftrightarrow> c = n)"
proof (cases "c = n")
  case False
  then have "c * 100 < 100 * n" using assms by simp
  then have "c * 100 div n < 100" by (rule less_mult_imp_div_less)
  with False show ?thesis by simp
qed (use assms in simp)

text \<open>The health of a pool is a percentage: 100 exactly when every server is connected, 0 when none
  is; without servers it is a division by zero.\<close>

theorem thrift_pool_health:
  assumes "open_opens (te_os env)" and "limits_ok env" and "reach (tp_init env) (tp_step env) (t, h)"
    and len: "length (tp_pools t) < 2 ^ 57"
  shows "if tp_pools t = [] then tp_get_health t h = Undef else \<exists>n. tp_get_health t h = Ok n \<and> n \<le> 100
    \<and> (n = 100 \<longleftrightarrow> (\<forall>i \<in> set (tp_pools t). up h i)) \<and> ((\<forall>i \<in> set (tp_pools t). \<not> up h i) \<longrightarrow> n = 0)"
proof -
  have "set (tp_pools t) \<subseteq> dom (pm_pools h)"
    using tp_okD(4) [OF reach_tp_ok [OF assms(1-3)]] by (auto simp: lists_ok_def)
  then have "\<exists>ps. pools_at h is = Ok ps \<and> map (\<lambda>p. cp_status p = kTCConnected) ps = map (up h) is"
    if "set is \<subseteq> set (tp_pools t)" for "is"
    using that
  proof (induction "is")
    case (Cons i "is")
    then obtain p where "pm_pools h i = Some p" by auto
    with Cons show ?case by (auto simp: pool_at_def up_def)
  qed simp
  from this [OF order_refl] obtain ps where ps: "pools_at h (tp_pools t) = Ok ps"
    "map (\<lambda>p. cp_status p = kTCConnected) ps = map (up h) (tp_pools t)" by blast
  let ?c = "length (filter (\<lambda>p. cp_status p = kTCConnected) ps)" and ?n = "length (tp_pools t)"
  have n: "length ps = ?n" using ps(2) by (metis length_map)
  have "length (filter id (map (\<lambda>p. cp_status p = kTCConnected) ps)) = length (filter id (map (up h) (tp_pools t)))"
    unfolding ps(2) ..
  then have c: "?c = length (filter (up h) (tp_pools t))" by (simp add: filter_map comp_def)
  have le: "?c \<le> ?n" unfolding c by (rule length_filter_le)
  have "?c * 100 < 2 ^ 64" using le len by simp
  then have r: "tp_get_health t h = (if tp_pools t = [] then Undef else Ok (?c * 100 div ?n))"
    using ps(1) n by (auto simp: tp_get_health_def)
  have full: "?c = ?n \<longleftrightarrow> (\<forall>i \<in> set (tp_pools t). up h i)"
    unfolding c by (metis filter_id_conv length_filter_less less_irrefl)
  show ?thesis
  proof (cases "tp_pools t = []")
    case False
    then have pos: "0 < ?n" by simp
    note percent [OF le pos]
    moreover have "(\<forall>i \<in> set (tp_pools t). \<not> up h i) \<longrightarrow> ?c = 0" unfolding c by simp
    ultimately show ?thesis using r full False by simp
  qed (simp add: r)
qed

theorem thrift_pool_health_witness:
  "\<exists>t h n. add_server (te_os lab_env) ''db1'' 9090 lab_thrift_pool lab_heap = Ok (True, t, h)
     \<and> tp_get_health t h = Ok n \<and> n \<le> 100"
proof -
  from lab_one_server obtain t h where t: "add_server (te_os lab_env) ''db1'' 9090 lab_thrift_pool lab_heap = Ok (True, t, h)"
    "tp_pools t = [0]" "reach (tp_init lab_env) (tp_step lab_env) (t, h)" by blast
  with thrift_pool_health [OF lab_env_ok t(3)] show ?thesis by auto
qed

end
