(* ===== verification/SyncServer.thy ===== *)
theory SyncServer
  imports StdContainers
begin

text \<open>
  src/sync/base\_server.cpp, threaded\_server.cpp and thread\_pool\_server.cpp: the synchronous
  servers that close their port while they are overloaded.  The server transport, the transport and
  protocol factories, the event handler, the processor, the thread factory and the thread manager
  of Thrift are the argument \<open>sync_os\<close> over a threaded world; each call may throw.
\<close>

text \<open>Exceptions by the catch clauses of the source; \<open>TTransport True\<close> has type INTERRUPTED.\<close>

datatype exn = TTransport bool | TTooMany | TOther | StdOther

record 'w sync_os =
  so_listen :: "'w \<Rightarrow> exn option \<times> 'w"
  so_close :: "'w \<Rightarrow> exn option \<times> 'w"
  so_interrupt :: "'w \<Rightarrow> 'w"
  so_pre_serve :: "'w \<Rightarrow> exn option \<times> 'w"
  so_accept :: "'w \<Rightarrow> (exn + nat) \<times> 'w"
  so_in_transport :: "nat \<Rightarrow> 'w \<Rightarrow> (exn + nat) \<times> 'w"
  so_out_transport :: "nat \<Rightarrow> 'w \<Rightarrow> (exn + nat) \<times> 'w"
  so_in_protocol :: "nat \<Rightarrow> 'w \<Rightarrow> (exn + nat) \<times> 'w"
  so_out_protocol :: "nat \<Rightarrow> 'w \<Rightarrow> (exn + nat) \<times> 'w"
  so_close_client :: "nat \<Rightarrow> 'w \<Rightarrow> exn option \<times> 'w"
  so_new_thread :: "nat \<Rightarrow> 'w \<Rightarrow> exn option \<times> 'w"
  so_start_thread :: "nat \<Rightarrow> 'w \<Rightarrow> exn option \<times> 'w"
  so_pending :: "'w \<Rightarrow> nat"
  so_pending_max :: "'w \<Rightarrow> nat"
  so_add_task :: "nat \<times> nat \<Rightarrow> int \<Rightarrow> int \<Rightarrow> 'w \<Rightarrow> exn option \<times> 'w"
  so_join :: "'w \<Rightarrow> exn option \<times> 'w"

section \<open>BaseServer\<close>

record 'w base_server =
  is_listen :: bool
  stop_flag :: bool
  bs_world :: 'w

definition base_server_init :: "'w \<Rightarrow> 'w base_server" where
  "base_server_init w = \<lparr>is_listen = False, stop_flag = False, bs_world = w\<rparr>"

definition base_stop :: "'w sync_os \<Rightarrow> 'w base_server \<Rightarrow> 'w base_server" where
  "base_stop os s = s\<lparr>stop_flag := True, bs_world := so_interrupt os (bs_world s)\<rparr>"

text \<open>The result of a call that may throw.\<close>

definition startListen :: "'w sync_os \<Rightarrow> 'w base_server \<Rightarrow> (exn + bool) \<times> 'w base_server" where
  "startListen os s =
     (if is_listen s then (Inr True, s)
      else case so_listen os (bs_world s) of
          (None, w) \<Rightarrow> (Inr True, s\<lparr>is_listen := True, bs_world := w\<rparr>)
        | (Some (TTransport _), w) \<Rightarrow> (Inr False, s\<lparr>bs_world := w\<rparr>)
        | (Some e, w) \<Rightarrow> (Inl e, s\<lparr>bs_world := w\<rparr>))"

definition stopListen :: "'w sync_os \<Rightarrow> 'w base_server \<Rightarrow> exn option \<times> 'w base_server" where
  "stopListen os s =
     (if \<not> is_listen s then (None, s)
      else case so_close os (bs_world s) of
          (None, w) \<Rightarrow> (None, s\<lparr>is_listen := False, bs_world := w\<rparr>)
        | (Some e, w) \<Rightarrow> (Some e, s\<lparr>bs_world := w\<rparr>))"

definition safeStopListen :: "'w sync_os \<Rightarrow> 'w base_server \<Rightarrow> 'w base_server" where
  "safeStopListen os s = snd (stopListen os s)"

section \<open>Task::run\<close>

text \<open>
  \<open>tk_stop\<close> reads the server's \<open>stop_\<close>, which other threads write.  The two servers have the same
  code up to the bookkeeping at its end.
\<close>

record 'w task_os =
  tk_begin :: "'w \<Rightarrow> exn option \<times> 'w"
  tk_stop :: "'w \<Rightarrow> bool \<times> 'w"
  tk_process :: "'w \<Rightarrow> (exn + bool) \<times> 'w"
  tk_peek :: "'w \<Rightarrow> (exn + bool) \<times> 'w"
  tk_end :: "'w \<Rightarrow> exn option \<times> 'w"
  tk_close_in :: "'w \<Rightarrow> exn option \<times> 'w"
  tk_close_out :: "'w \<Rightarrow> exn option \<times> 'w"

text \<open>One turn of the loop: \<open>None\<close> to go on, otherwise how the \<open>try\<close> block was left.\<close>

definition task_turn :: "'w task_os \<Rightarrow> 'w \<Rightarrow> exn option option \<times> 'w" where
  "task_turn tk w =
     (case tk_stop tk w of
        (True, w) \<Rightarrow> (Some None, w)
      | (False, w) \<Rightarrow> (case tk_process tk w of
            (Inl e, w) \<Rightarrow> (Some (Some e), w)
          | (Inr False, w) \<Rightarrow> (Some None, w)
          | (Inr True, w) \<Rightarrow> (case tk_peek tk w of
                (Inl e, w) \<Rightarrow> (Some (Some e), w)
              | (Inr False, w) \<Rightarrow> (Some None, w)
              | (Inr True, w) \<Rightarrow> (None, w))))"

text \<open>\<open>None\<close>: the loop does not end.\<close>

partial_function (option) task_loop :: "'w task_os \<Rightarrow> 'w \<Rightarrow> (exn option \<times> 'w) option" where
  "task_loop tk w = (case task_turn tk w of
       (None, w) \<Rightarrow> task_loop tk w
     | (Some r, w) \<Rightarrow> Some (r, w))"

text \<open>A close in a \<open>try\<close> with a clause for TTransportException only.\<close>

definition caught_close :: "exn option \<times> 'w \<Rightarrow> exn option \<times> 'w" where
  "caught_close r = (case r of (Some (TTransport _), w) \<Rightarrow> (None, w) | _ \<Rightarrow> r)"

definition and_then :: "exn option \<times> 'w \<Rightarrow> ('w \<Rightarrow> exn option \<times> 'w) \<Rightarrow> exn option \<times> 'w" where
  "and_then r f = (case r of (None, w) \<Rightarrow> f w | (Some e, w) \<Rightarrow> (Some e, w))"

text \<open>After the loop; the exception that left it was caught.\<close>

definition task_finish :: "'w task_os \<Rightarrow> ('w \<Rightarrow> 'w) \<Rightarrow> 'w \<Rightarrow> exn option \<times> 'w" where
  "task_finish tk bookkeeping w =
     and_then (tk_end tk w) (\<lambda>w.
     and_then (caught_close (tk_close_in tk w)) (\<lambda>w.
     and_then (caught_close (tk_close_out tk w)) (\<lambda>w. (None, bookkeeping w))))"

definition task_run :: "'w task_os \<Rightarrow> ('w \<Rightarrow> 'w) \<Rightarrow> 'w \<Rightarrow> (exn option \<times> 'w) option" where
  "task_run tk bookkeeping w = (case tk_begin tk w of
       (Some e, w) \<Rightarrow> Some (Some e, w)
     | (None, w) \<Rightarrow> map_option (\<lambda>(_, w). task_finish tk bookkeeping w) (task_loop tk w))"

section \<open>Accepting a client\<close>

record client_parts =
  cl_client :: "nat option"
  cl_in :: "nat option"
  cl_out :: "nat option"

definition no_parts :: client_parts where
  "no_parts = \<lparr>cl_client = None, cl_in = None, cl_out = None\<rparr>"

text \<open>The calls of the \<open>try\<close> block up to the protocols, with the transports made so far.\<close>

definition make_client ::
  "'w sync_os \<Rightarrow> 'w \<Rightarrow> client_parts \<times> (exn + nat \<times> nat) \<times> 'w" where
  "make_client os w =
     (case so_accept os w of
        (Inl e, w) \<Rightarrow> (no_parts, Inl e, w)
      | (Inr c, w) \<Rightarrow> let ps = no_parts\<lparr>cl_client := Some c\<rparr> in (case so_in_transport os c w of
            (Inl e, w) \<Rightarrow> (ps, Inl e, w)
          | (Inr i, w) \<Rightarrow> let ps = ps\<lparr>cl_in := Some i\<rparr> in (case so_out_transport os c w of
                (Inl e, w) \<Rightarrow> (ps, Inl e, w)
              | (Inr j, w) \<Rightarrow> let ps = ps\<lparr>cl_out := Some j\<rparr> in (case so_in_protocol os i w of
                    (Inl e, w) \<Rightarrow> (ps, Inl e, w)
                  | (Inr pi, w) \<Rightarrow> (case so_out_protocol os j w of
                        (Inl e, w) \<Rightarrow> (ps, Inl e, w)
                      | (Inr po, w) \<Rightarrow> (ps, Inr (pi, po), w))))))"

definition close_part :: "'w sync_os \<Rightarrow> nat option \<Rightarrow> 'w \<Rightarrow> exn option \<times> 'w" where
  "close_part os t w = (case t of None \<Rightarrow> (None, w) | Some c \<Rightarrow> so_close_client os c w)"

text \<open>The closes of every catch clause: an exception of one leaves \<open>serve\<close>.\<close>

definition close_parts :: "'w sync_os \<Rightarrow> client_parts \<Rightarrow> 'w \<Rightarrow> exn option \<times> 'w" where
  "close_parts os ps w =
     and_then (close_part os (cl_in ps) w) (\<lambda>w.
     and_then (close_part os (cl_out ps) w) (close_part os (cl_client ps)))"

text \<open>Where \<open>serve\<close> is: at the loop's head, in the \<open>try\<close> block, waiting for the workers, returned, or
  left by an exception.\<close>

datatype phase = Top | Accepting | Waiting | Done | Escaped exn

section \<open>ThreadedServer\<close>

text \<open>\<open>tasks\<close>: the set of task pointers; \<open>threads\<close>: the tasks whose thread runs.\<close>

record 'w threaded =
  th_base :: "'w base_server"
  th_max :: nat
  tasks :: "nat list"
  threads :: "nat list"
  th_phase :: phase

definition threaded_init :: "nat \<Rightarrow> 'w \<Rightarrow> 'w threaded" where
  "threaded_init mx w = \<lparr>th_base = base_server_init w, th_max = mx, tasks = [], threads = [], th_phase = Done\<rparr>"

text \<open>\<open>serve\<close> up to the loop.\<close>

definition serve_begin :: "'w sync_os \<Rightarrow> 'w base_server \<Rightarrow> phase \<times> 'w base_server" where
  "serve_begin os s = (case startListen os s of
       (Inl e, s) \<Rightarrow> (Escaped e, s)
     | (Inr False, s) \<Rightarrow> (Done, s)
     | (Inr True, s) \<Rightarrow> (case so_pre_serve os (bs_world s) of
           (Some e, w) \<Rightarrow> (Escaped e, s\<lparr>bs_world := w\<rparr>)
         | (None, w) \<Rightarrow> (Top, s\<lparr>bs_world := w, stop_flag := False\<rparr>)))"

text \<open>The head of the loop when \<open>stop_\<close> is not set.\<close>

definition loop_head :: "'w sync_os \<Rightarrow> bool \<Rightarrow> 'w base_server \<Rightarrow> phase \<times> 'w base_server" where
  "loop_head os full s =
     (if full then (Top, if is_listen s then safeStopListen os s else s)
      else if is_listen s then (Accepting, s)
      else case startListen os s of
          (Inl e, s) \<Rightarrow> (Escaped e, s)
        | (Inr False, s) \<Rightarrow> (Done, s)
        | (Inr True, s) \<Rightarrow> (Accepting, s))"

text \<open>After the loop when \<open>stop_\<close> is set: a TException of \<open>close\<close> is caught.\<close>

definition threaded_close :: "'w sync_os \<Rightarrow> 'w base_server \<Rightarrow> phase \<times> 'w base_server" where
  "threaded_close os s = (case so_close os (bs_world s) of
       (Some StdOther, w) \<Rightarrow> (Escaped StdOther, s\<lparr>bs_world := w\<rparr>)
     | (_, w) \<Rightarrow> (Waiting, s\<lparr>bs_world := w\<rparr>))"

definition threaded_top :: "'w sync_os \<Rightarrow> 'w threaded \<Rightarrow> 'w threaded" where
  "threaded_top os s =
     (let (ph, b) = (if stop_flag (th_base s) then threaded_close os (th_base s)
                     else loop_head os (th_max s \<le> length (tasks s)) (th_base s))
      in s\<lparr>th_phase := ph, th_base := b\<rparr>)"

text \<open>After a catch clause: the clauses for TException continue, the last one breaks, and the code
  after the loop looks at \<open>stop_\<close>.\<close>

definition threaded_catch :: "'w sync_os \<Rightarrow> exn \<Rightarrow> client_parts \<Rightarrow> 'w \<Rightarrow> 'w threaded \<Rightarrow> 'w threaded" where
  "threaded_catch os e ps w s =
     (case close_parts os ps w of
        (Some e', w) \<Rightarrow> s\<lparr>th_phase := Escaped e', th_base := (th_base s)\<lparr>bs_world := w\<rparr>\<rparr>
      | (None, w) \<Rightarrow>
          let b = (th_base s)\<lparr>bs_world := w\<rparr>
          in if e = StdOther then
               (if stop_flag b then let (ph, b) = threaded_close os b in s\<lparr>th_phase := ph, th_base := b\<rparr>
                else s\<lparr>th_phase := Done, th_base := b\<rparr>)
             else s\<lparr>th_phase := Top, th_base := b\<rparr>)"

text \<open>The \<open>try\<close> block; \<open>a\<close> is the address of the new task.\<close>

definition threaded_accept :: "'w sync_os \<Rightarrow> nat \<Rightarrow> 'w threaded \<Rightarrow> 'w threaded" where
  "threaded_accept os a s =
     (case make_client os (bs_world (th_base s)) of
        (ps, Inl e, w) \<Rightarrow> threaded_catch os e ps w s
      | (ps, Inr _, w) \<Rightarrow> (case so_new_thread os a w of
            (Some e, w) \<Rightarrow> threaded_catch os e ps w s
          | (None, w) \<Rightarrow>
              let s = s\<lparr>tasks := ptr_insert a (tasks s)\<rparr>
              in (case so_start_thread os a w of
                    (Some e, w) \<Rightarrow> threaded_catch os e ps w s
                  | (None, w) \<Rightarrow> s\<lparr>threads := ptr_insert a (threads s), th_phase := Top,
                                   th_base := (th_base s)\<lparr>bs_world := w\<rparr>\<rparr>)))"

text \<open>The wait for the workers, and what follows it.\<close>

definition threaded_wait :: "'w threaded \<Rightarrow> 'w threaded" where
  "threaded_wait s = (if tasks s = []
     then s\<lparr>th_phase := Done, th_base := (th_base s)\<lparr>stop_flag := False\<rparr>\<rparr> else s)"

text \<open>The bookkeeping at the end of a task, as its thread ends.\<close>

definition task_done :: "nat \<Rightarrow> 'w threaded \<Rightarrow> 'w threaded" where
  "task_done a s = s\<lparr>tasks := ptr_erase a (tasks s), threads := ptr_erase a (threads s)\<rparr>"

definition threaded_stop :: "'w sync_os \<Rightarrow> 'w threaded \<Rightarrow> 'w threaded" where
  "threaded_stop os s = s\<lparr>th_base := base_stop os (th_base s)\<rparr>"

definition threaded_serve :: "'w sync_os \<Rightarrow> 'w threaded \<Rightarrow> 'w threaded" where
  "threaded_serve os s = (let (ph, b) = serve_begin os (th_base s) in s\<lparr>th_phase := ph, th_base := b\<rparr>)"

section \<open>ThreadPoolServer\<close>

record 'w pool_server =
  ps_base :: "'w base_server"
  ps_timeout :: int
  ps_expiration :: int
  ps_phase :: phase

definition pool_server_init :: "int \<Rightarrow> int \<Rightarrow> 'w \<Rightarrow> 'w pool_server" where
  "pool_server_init tmo expiry w =
     \<lparr>ps_base = base_server_init w, ps_timeout = tmo, ps_expiration = expiry, ps_phase = Done\<rparr>"

text \<open>\<open>Task::run\<close> of this server keeps no books.\<close>

definition pool_task_run :: "'w task_os \<Rightarrow> 'w \<Rightarrow> (exn option \<times> 'w) option" where
  "pool_task_run tk = task_run tk (\<lambda>w. w)"


definition pool_overloaded :: "'w sync_os \<Rightarrow> 'w \<Rightarrow> bool" where
  "pool_overloaded os w \<longleftrightarrow> so_pending_max os w \<le> so_pending os w"

text \<open>After the loop when \<open>stop_\<close> is set: a TException is caught and the rest of the block skipped.\<close>

definition pool_close :: "'w sync_os \<Rightarrow> 'w base_server \<Rightarrow> phase \<times> 'w base_server" where
  "pool_close os s =
     (let (r, s) = (case stopListen os s of
          (Some e, s) \<Rightarrow> (Some e, s)
        | (None, s) \<Rightarrow> (case so_join os (bs_world s) of (r, w) \<Rightarrow> (r, s\<lparr>bs_world := w\<rparr>)))
      in if r = Some StdOther then (Escaped StdOther, s) else (Done, s\<lparr>stop_flag := False\<rparr>))"

definition pool_top :: "'w sync_os \<Rightarrow> 'w pool_server \<Rightarrow> 'w pool_server" where
  "pool_top os s =
     (let (ph, b) = (if stop_flag (ps_base s) then pool_close os (ps_base s)
                     else loop_head os (pool_overloaded os (bs_world (ps_base s))) (ps_base s))
      in s\<lparr>ps_phase := ph, ps_base := b\<rparr>)"

definition pool_catch :: "'w sync_os \<Rightarrow> exn \<Rightarrow> client_parts \<Rightarrow> 'w \<Rightarrow> 'w pool_server \<Rightarrow> 'w pool_server" where
  "pool_catch os e ps w s =
     (case close_parts os ps w of
        (Some e', w) \<Rightarrow> s\<lparr>ps_phase := Escaped e', ps_base := (ps_base s)\<lparr>bs_world := w\<rparr>\<rparr>
      | (None, w) \<Rightarrow>
          let b = (ps_base s)\<lparr>bs_world := w\<rparr>
          in if e = TTooMany then s\<lparr>ps_phase := Top, ps_base := safeStopListen os b\<rparr>
             else if e = StdOther then
               (if stop_flag b then let (ph, b) = pool_close os b in s\<lparr>ps_phase := ph, ps_base := b\<rparr>
                else s\<lparr>ps_phase := Done, ps_base := b\<rparr>)
             else s\<lparr>ps_phase := Top, ps_base := b\<rparr>)"

definition pool_accept :: "'w sync_os \<Rightarrow> 'w pool_server \<Rightarrow> 'w pool_server" where
  "pool_accept os s =
     (case make_client os (bs_world (ps_base s)) of
        (ps, Inl e, w) \<Rightarrow> pool_catch os e ps w s
      | (ps, Inr p, w) \<Rightarrow> (case so_add_task os p (ps_timeout s) (ps_expiration s) w of
            (Some e, w) \<Rightarrow> pool_catch os e ps w s
          | (None, w) \<Rightarrow> s\<lparr>ps_phase := Top, ps_base := (ps_base s)\<lparr>bs_world := w\<rparr>\<rparr>))"

definition pool_serve :: "'w sync_os \<Rightarrow> 'w pool_server \<Rightarrow> 'w pool_server" where
  "pool_serve os s = (let (ph, b) = serve_begin os (ps_base s) in s\<lparr>ps_phase := ph, ps_base := b\<rparr>)"

definition pool_stop :: "'w sync_os \<Rightarrow> 'w pool_server \<Rightarrow> 'w pool_server" where
  "pool_stop os s = s\<lparr>ps_base := base_stop os (ps_base s)\<rparr>"

end
