(* ===== verification/SyncServerSpec.thy ===== *)
theory SyncServerSpec
  imports SyncServer
begin

text \<open>
  The synchronous servers (src/sync) as systems: the accepting thread, the worker threads and calls
  of \<open>stop\<close> take turns.
\<close>

section \<open>Load shedding\<close>

text \<open>The contract of the loop's head, which both servers share.\<close>

locale shedding =
  fixes top :: "'s \<Rightarrow> 's" and ph :: "'s \<Rightarrow> phase" and stopped full listening :: "'s \<Rightarrow> bool"
  assumes accepts: "\<not> stopped s \<Longrightarrow> ph (top s) = Accepting \<Longrightarrow> \<not> full s \<and> listening (top s)"
    and sheds: "\<not> stopped s \<Longrightarrow> full s \<Longrightarrow> ph (top s) = Top \<and> (listening (top s) \<longrightarrow> listening s)"
    and leaves: "stopped s \<Longrightarrow> ph (top s) \<noteq> Accepting \<and> ph (top s) \<noteq> Top"
begin

lemma overloaded_never_accepts:
  assumes "\<And>k. k < n \<Longrightarrow> full ((top ^^ k) s) \<and> \<not> stopped ((top ^^ k) s)"
  shows "0 < n \<longrightarrow> ph ((top ^^ n) s) = Top" and "listening ((top ^^ n) s) \<longrightarrow> listening s"
  using assms
proof (induction n)
  case (Suc n)
  { case 1
    then show ?case using sheds [of "(top ^^ n) s"] by auto }
  { case 2
    then show ?case using Suc.IH(2) sheds [of "(top ^^ n) s"] by auto }
qed simp_all

end

lemma startListen_listening: "startListen os b = (Inr True, b') \<Longrightarrow> is_listen b'"
  by (auto simp: startListen_def split: if_splits prod.splits option.splits exn.splits)

lemma safeStopListen_listening: "is_listen (safeStopListen os b) \<Longrightarrow> is_listen b"
  by (auto simp: safeStopListen_def stopListen_def split: if_splits prod.splits option.splits)

lemma loop_head_cases:
  assumes "loop_head os full b = (ph, b')"
  shows "(full \<longrightarrow> ph = Top \<and> (is_listen b' \<longrightarrow> is_listen b)) \<and> (ph = Accepting \<longrightarrow> \<not> full \<and> is_listen b')
    \<and> ph \<noteq> Waiting"
  using assms
  by (auto simp: loop_head_def dest: safeStopListen_listening startListen_listening
      split: if_splits prod.splits sum.splits bool.splits)

lemma threaded_close_phase: "threaded_close os b = (ph, b') \<Longrightarrow> ph = Waiting \<or> (\<exists>e. ph = Escaped e)"
  by (auto simp: threaded_close_def split: prod.splits option.splits exn.splits)

lemma pool_close_phase: "pool_close os b = (ph, b') \<Longrightarrow> ph = Done \<or> (\<exists>e. ph = Escaped e)"
  by (auto simp: pool_close_def Let_def split: prod.splits option.splits if_splits)

interpretation threaded_shedding: shedding "threaded_top os" th_phase "\<lambda>s. stop_flag (th_base s)"
  "\<lambda>s. th_max s \<le> length (tasks s)" "\<lambda>s. is_listen (th_base s)" for os :: "'w sync_os"
  by unfold_locales
    (auto simp: threaded_top_def split: prod.splits dest!: loop_head_cases threaded_close_phase)

interpretation pool_shedding: shedding "pool_top os" ps_phase "\<lambda>s. stop_flag (ps_base s)"
  "\<lambda>s. pool_overloaded os (bs_world (ps_base s))" "\<lambda>s. is_listen (ps_base s)" for os :: "'w sync_os"
  by unfold_locales
    (auto simp: pool_top_def split: prod.splits dest!: loop_head_cases pool_close_phase)

section \<open>ThreadedServer as a system\<close>

text \<open>A new task has an address that no live task has; the worker threads change the world.\<close>

inductive threaded_step :: "'w sync_os \<Rightarrow> 'w threaded \<Rightarrow> 'w threaded \<Rightarrow> bool" for os where
  ths_serve: "th_phase s = Done \<Longrightarrow> threaded_step os s (threaded_serve os s)"
| ths_top: "th_phase s = Top \<Longrightarrow> threaded_step os s (threaded_top os s)"
| ths_accept: "th_phase s = Accepting \<Longrightarrow> a \<notin> set (threads s) \<Longrightarrow> threaded_step os s (threaded_accept os a s)"
| ths_wait: "th_phase s = Waiting \<Longrightarrow> threaded_step os s (threaded_wait s)"
| ths_done: "a \<in> set (threads s) \<Longrightarrow> threaded_step os s (task_done a s)"
| ths_stop: "threaded_step os s (threaded_stop os s)"
| ths_world: "threaded_step os s (s\<lparr>th_base := (th_base s)\<lparr>bs_world := w\<rparr>\<rparr>)"

definition threaded_inv :: "'w threaded \<Rightarrow> bool" where
  "threaded_inv s \<longleftrightarrow> ptr_ok (tasks s) \<and> ptr_ok (threads s) \<and> set (threads s) \<subseteq> set (tasks s)
     \<and> length (tasks s) \<le> th_max s
     \<and> (th_phase s = Accepting \<longrightarrow> length (tasks s) < th_max s \<and> is_listen (th_base s))"

lemma threaded_catch_facts [simp]:
  "tasks (threaded_catch os e ps w s) = tasks s" "threads (threaded_catch os e ps w s) = threads s"
  "th_max (threaded_catch os e ps w s) = th_max s" "th_phase (threaded_catch os e ps w s) \<noteq> Accepting"
  by (auto simp: threaded_catch_def Let_def split: prod.splits option.splits dest: threaded_close_phase)

lemma serve_begin_phase: "serve_begin os b = (ph, b') \<Longrightarrow> ph \<noteq> Accepting \<and> ph \<noteq> Waiting"
  by (auto simp: serve_begin_def split: prod.splits sum.splits bool.splits option.splits)

lemma length_ptr_insert: "ptr_ok xs \<Longrightarrow> length (ptr_insert a xs) \<le> Suc (length xs)"
  by (simp add: length_set_insert)

lemma threaded_accept_inv:
  assumes inv: "threaded_inv s" and ph: "th_phase s = Accepting"
  shows "threaded_inv (threaded_accept os a s)"
proof -
  have t: "ptr_ok (tasks s)" "ptr_ok (threads s)" "set (threads s) \<subseteq> set (tasks s)" "length (tasks s) < th_max s"
    using inv ph by (simp_all add: threaded_inv_def)
  have i: "ptr_ok (ptr_insert a (tasks s))" "ptr_ok (ptr_insert a (threads s))"
    "length (ptr_insert a (tasks s)) \<le> th_max s"
    using t length_ptr_insert [OF t(1), of a] by (simp_all add: set_ok_insert)
  show ?thesis
    using t i by (auto simp: threaded_accept_def threaded_inv_def Let_def ptr_set_insert
        split: prod.splits sum.splits option.splits)
qed

lemma threaded_step_inv: "threaded_inv s \<Longrightarrow> threaded_step os s s' \<Longrightarrow> threaded_inv s'"
proof -
  assume inv: "threaded_inv s" and step: "threaded_step os s s'"
  from step show ?thesis
  proof cases
    case ths_serve
    with inv serve_begin_phase show ?thesis
      by (fastforce simp: threaded_inv_def threaded_serve_def split: prod.splits)
  next
    case ths_top
    obtain p b where b: "(if stop_flag (th_base s) then threaded_close os (th_base s)
        else loop_head os (th_max s \<le> length (tasks s)) (th_base s)) = (p, b)" by fastforce
    then have "p = Accepting \<longrightarrow> length (tasks s) < th_max s \<and> is_listen b"
      by (auto split: if_splits dest!: loop_head_cases threaded_close_phase)
    with inv b ths_top show ?thesis by (simp add: threaded_inv_def threaded_top_def)
  next
    case (ths_accept a)
    with threaded_accept_inv [OF inv] show ?thesis by simp
  next
    case ths_wait
    with inv show ?thesis by (auto simp: threaded_inv_def threaded_wait_def)
  next
    case (ths_done a)
    have "length (ptr_erase a (tasks s)) \<le> length (tasks s)"
      using inv by (simp add: threaded_inv_def length_set_erase)
    with inv ths_done show ?thesis by (auto simp: threaded_inv_def task_done_def ptr_set_erase set_ok_erase)
  next
    case ths_stop
    with inv show ?thesis by (simp add: threaded_inv_def threaded_stop_def base_stop_def)
  next
    case (ths_world w)
    with inv show ?thesis by (simp add: threaded_inv_def)
  qed
qed

lemma threaded_init_inv: "threaded_inv (threaded_init mx w)"
  by (simp add: threaded_inv_def threaded_init_def)

interpretation threaded_sys: step_system "\<lambda>s. \<exists>mx w. s = threaded_init mx w" "threaded_step os" threaded_inv
  for os :: "'w sync_os"
  by unfold_locales (blast intro: threaded_init_inv threaded_step_inv)+

text \<open>A world in which every call succeeds.\<close>

definition lab_sync :: "nat sync_os" where
  "lab_sync = \<lparr>so_listen = (\<lambda>w. (None, w)), so_close = (\<lambda>w. (None, w)), so_interrupt = (\<lambda>w. w),
     so_pre_serve = (\<lambda>w. (None, w)), so_accept = (\<lambda>w. (Inr w, Suc w)),
     so_in_transport = (\<lambda>c w. (Inr c, w)), so_out_transport = (\<lambda>c w. (Inr c, w)),
     so_in_protocol = (\<lambda>c w. (Inr c, w)), so_out_protocol = (\<lambda>c w. (Inr c, w)),
     so_close_client = (\<lambda>_ w. (None, w)), so_new_thread = (\<lambda>_ w. (None, w)), so_start_thread = (\<lambda>_ w. (None, w)),
     so_pending = (\<lambda>_. 0), so_pending_max = (\<lambda>_. 0), so_add_task = (\<lambda>_ _ _ w. (None, w)), so_join = (\<lambda>w. (None, w))\<rparr>"

text \<open>The same, but no thread can be started.\<close>

definition lab_no_threads :: "nat sync_os" where
  "lab_no_threads = lab_sync\<lparr>so_start_thread := (\<lambda>_ w. (Some TOther, w))\<rparr>"

section \<open>Properties\<close>

text \<open>C27: A ThreadedServer never has more than workerThreadCountMax tasks, every running worker is in the
  set of tasks, and a connection is accepted only below the maximum and while is\_listen\_ is set.  The
  flag is not the state of the port: when serve ends after a stop the port is closed and the flag
  stays set, so that a second serve accepts with the port closed.\<close>

theorem threaded_server_bounded:
  assumes "reach (\<lambda>s. \<exists>mx w. s = threaded_init mx w) (threaded_step os) s"
  shows "length (tasks s) \<le> th_max s \<and> distinct (tasks s) \<and> distinct (threads s) \<and> set (threads s) \<subseteq> set (tasks s)
    \<and> (th_phase s = Accepting \<longrightarrow> length (tasks s) < th_max s \<and> is_listen (th_base s))"
  using threaded_sys.reachable_inv [OF assms] set_ok_distinct [of id] by (auto simp: threaded_inv_def)

theorem threaded_server_bounded_witness:
  "tasks (threaded_accept lab_sync 7 (threaded_top lab_sync (threaded_serve lab_sync (threaded_init 1 0)))) = [7]
   \<and> length (tasks (threaded_accept lab_sync 7 (threaded_top lab_sync (threaded_serve lab_sync (threaded_init 1 0))))) \<le> 1"
proof -
  let ?s1 = "threaded_serve lab_sync (threaded_init 1 0)"
  let ?s2 = "threaded_top lab_sync ?s1"
  let ?s3 = "threaded_accept lab_sync 7 ?s2"
  have p: "th_phase (threaded_init 1 0 :: nat threaded) = Done" "th_phase ?s1 = Top" "th_phase ?s2 = Accepting"
    "threads ?s2 = []" "th_max ?s3 = 1" "tasks ?s3 = [7]"
    by (simp_all add: threaded_serve_def serve_begin_def startListen_def lab_sync_def threaded_init_def
        base_server_init_def threaded_top_def loop_head_def threaded_accept_def make_client_def Let_def)
  have "reach (\<lambda>s. \<exists>mx w. s = threaded_init mx w) (threaded_step lab_sync) (threaded_init 1 0)"
    by (rule reach_init) blast
  from reach_step [OF this ths_serve] p(1) have "reach (\<lambda>s. \<exists>mx w. s = threaded_init mx w) (threaded_step lab_sync) ?s1" by simp
  from reach_step [OF this ths_top] p(2) have "reach (\<lambda>s. \<exists>mx w. s = threaded_init mx w) (threaded_step lab_sync) ?s2" by simp
  from reach_step [OF this ths_accept] p(3,4) have "reach (\<lambda>s. \<exists>mx w. s = threaded_init mx w) (threaded_step lab_sync) ?s3" by simp
  from threaded_server_bounded [OF this] p(5,6) show ?thesis by simp
qed

text \<open>A task without a worker, in a server that waits for its workers.\<close>

definition orphan :: "nat \<Rightarrow> 'w threaded \<Rightarrow> bool" where
  "orphan a s \<longleftrightarrow> th_phase s = Waiting \<and> a \<in> set (tasks s) - set (threads s) \<and> ptr_ok (tasks s) \<and> ptr_ok (threads s)"

lemma orphan_step: "threaded_step os s t \<Longrightarrow> orphan a s \<Longrightarrow> orphan a t"
proof (induction rule: threaded_step.induct)
  case (ths_wait s)
  then show ?case by (auto simp: orphan_def threaded_wait_def)
next
  case (ths_done b s)
  then have "ptr_ok (tasks s)" "ptr_ok (threads s)" by (simp_all add: orphan_def)
  note ptr_set_erase [OF this(1), of b] ptr_set_erase [OF this(2), of b]
    set_ok_erase [OF this(1), of b] set_ok_erase [OF this(2), of b]
  with ths_done show ?case by (auto simp: orphan_def task_done_def)
qed (simp_all add: orphan_def threaded_stop_def)

lemma orphan_star: "(threaded_step os)\<^sup>*\<^sup>* s t \<Longrightarrow> orphan a s \<Longrightarrow> orphan a t"
  by (induction rule: rtranclp_induct) (auto intro: orphan_step)

text \<open>When the thread of a new task cannot be started the task stays in the set of tasks without a
  worker, and a server that then waits for its workers never returns from serve.\<close>

theorem start_failure_blocks_stop:
  assumes "make_client os (bs_world (th_base s)) = (ps, Inr pr, w)" and "so_new_thread os a w = (None, w1)"
    and "so_start_thread os a w1 = (Some e, w2)" and "a \<notin> set (threads s)" and "ptr_ok (tasks s)" "ptr_ok (threads s)"
  shows "a \<in> set (tasks (threaded_accept os a s)) - set (threads (threaded_accept os a s))
    \<and> (\<forall>t u. tasks t = tasks (threaded_accept os a s) \<longrightarrow> threads t = threads (threaded_accept os a s) \<longrightarrow>
        th_phase t = Waiting \<longrightarrow> (threaded_step os)\<^sup>*\<^sup>* t u \<longrightarrow> th_phase u = Waiting \<and> a \<in> set (tasks u))"
proof -
  let ?s = "threaded_accept os a s"
  have r: "tasks ?s = ptr_insert a (tasks s)" "threads ?s = threads s"
    using assms(1-3) by (simp_all add: threaded_accept_def Let_def)
  have "ptr_ok (ptr_insert a (tasks s))" by (rule set_ok_insert [OF assms(5)])
  then have "orphan a t" if "tasks t = tasks ?s" "threads t = threads ?s" "th_phase t = Waiting" for t
    using that r assms(4,6) by (simp add: orphan_def ptr_set_insert)
  then have "orphan a u" if "tasks t = tasks ?s" "threads t = threads ?s" "th_phase t = Waiting"
      "(threaded_step os)\<^sup>*\<^sup>* t u" for t u
    using orphan_star [OF that(4)] that(1-3) by blast
  then have "th_phase u = Waiting \<and> a \<in> set (tasks u)" if "tasks t = tasks ?s" "threads t = threads ?s"
      "th_phase t = Waiting" "(threaded_step os)\<^sup>*\<^sup>* t u" for t u
    using that unfolding orphan_def by blast
  moreover have "a \<in> set (tasks ?s) - set (threads ?s)" using r assms(4) by (simp add: ptr_set_insert)
  ultimately show ?thesis by blast
qed

theorem start_failure_blocks_stop_witness:
  "7 \<in> set (tasks (threaded_accept lab_no_threads 7 (threaded_init 1 0)))"
proof -
  have "make_client lab_no_threads (bs_world (th_base (threaded_init 1 0 :: nat threaded)))
      = (\<lparr>cl_client = Some 0, cl_in = Some 0, cl_out = Some 0\<rparr>, Inr (0, 0), 1)"
    by (simp add: make_client_def lab_no_threads_def lab_sync_def threaded_init_def base_server_init_def no_parts_def Let_def)
  moreover have "so_new_thread lab_no_threads 7 1 = (None, 1)" "so_start_thread lab_no_threads 7 1 = (Some TOther, 1)"
    by (simp_all add: lab_no_threads_def lab_sync_def)
  ultimately show ?thesis
    using start_failure_blocks_stop [of lab_no_threads "threaded_init 1 0 :: nat threaded" _ "(0, 0)" 1 7 1 TOther 1]
    by (auto simp: threaded_init_def)
qed

text \<open>A ThreadedServer that stopped still counts as listening though its port is closed, so a second
  serve does not listen again; a ThreadPoolServer listens again. A stop requested before serve has
  started is lost in both.\<close>

theorem stop_and_serve_again:
  assumes listening: "is_listen (th_base s)" and stopped: "stop_flag (th_base s)" and "tasks s = []"
    and close: "so_close os (bs_world (th_base s)) = (None, w)"
    and pl: "is_listen (ps_base q)" "stop_flag (ps_base q)" "so_close os (bs_world (ps_base q)) = (None, wq)"
      "so_join os wq = (None, wq')"
  shows "let s' = threaded_wait (threaded_top os s); q' = pool_top os q
    in th_phase s' = Done \<and> is_listen (th_base s')
      \<and> startListen os (th_base s') = (Inr True, th_base s')
      \<and> ps_phase q' = Done \<and> \<not> is_listen (ps_base q')
      \<and> (th_phase (threaded_serve os (threaded_stop os s')) = Top \<longrightarrow>
          \<not> stop_flag (th_base (threaded_serve os (threaded_stop os s'))))
      \<and> (ps_phase (pool_serve os (pool_stop os q')) = Top \<longrightarrow> \<not> stop_flag (ps_base (pool_serve os (pool_stop os q'))))"
proof -
  have 1: "serve_begin os b = (Top, b') \<Longrightarrow> \<not> stop_flag b'" for b b'
    by (auto simp: serve_begin_def split: prod.splits sum.splits bool.splits option.splits)
  have 2: "th_phase (threaded_serve os t) = Top \<longrightarrow> \<not> stop_flag (th_base (threaded_serve os t))" for t
    using 1 [of "th_base t"] by (auto simp: threaded_serve_def split: prod.splits)
  have 3: "ps_phase (pool_serve os t) = Top \<longrightarrow> \<not> stop_flag (ps_base (pool_serve os t))" for t
    using 1 [of "ps_base t"] by (auto simp: pool_serve_def split: prod.splits)
  have "th_phase (threaded_wait (threaded_top os s)) = Done" "is_listen (th_base (threaded_wait (threaded_top os s)))"
    using assms by (simp_all add: threaded_top_def threaded_close_def threaded_wait_def)
  moreover have "ps_phase (pool_top os q) = Done" "\<not> is_listen (ps_base (pool_top os q))"
    using pl by (simp_all add: pool_top_def pool_close_def stopListen_def)
  ultimately show ?thesis using 2 3 by (simp add: Let_def startListen_def)
qed

theorem stop_and_serve_again_witness:
  "\<exists>b. is_listen (th_base (threaded_wait (threaded_top lab_sync
      \<lparr>th_base = b, th_max = 1, tasks = [], threads = [], th_phase = Top\<rparr>))) \<and> stop_flag b"
proof -
  let ?b = "\<lparr>is_listen = True, stop_flag = True, bs_world = 0 :: nat\<rparr>"
  have "is_listen (th_base (threaded_wait (threaded_top lab_sync
      \<lparr>th_base = ?b, th_max = 1, tasks = [], threads = [], th_phase = Top\<rparr>)))"
    using stop_and_serve_again [of "\<lparr>th_base = ?b, th_max = 1, tasks = [], threads = [], th_phase = Top\<rparr>" lab_sync 0
        "\<lparr>ps_base = ?b, ps_timeout = 0, ps_expiration = 0, ps_phase = Top\<rparr>" 0 0]
    by (simp add: Let_def lab_sync_def)
  then show ?thesis by (intro exI [of _ ?b]) simp
qed

text \<open>While a ThreadPoolServer is overloaded its loop never reaches accept, never opens the port and
  closes it when that succeeds; with a pendingTaskCountMax of 0, which the thread manager takes as
  no limit, it is always overloaded and never accepts a connection.\<close>

theorem pool_overload_never_accepts:
  assumes run: "\<And>k. k < n \<Longrightarrow> \<not> stop_flag (ps_base ((pool_top os ^^ k) s))" and n: "0 < n"
    and full: "(\<forall>w. so_pending_max os w = 0) \<or> (\<forall>k < n. pool_overloaded os (bs_world (ps_base ((pool_top os ^^ k) s))))"
  shows "ps_phase ((pool_top os ^^ n) s) = Top \<and> (is_listen (ps_base ((pool_top os ^^ n) s)) \<longrightarrow> is_listen (ps_base s))
    \<and> ((\<forall>w. fst (so_close os w) = None) \<longrightarrow> \<not> is_listen (ps_base ((pool_top os ^^ n) s)))"
proof -
  have all: "pool_overloaded os (bs_world (ps_base ((pool_top os ^^ k) s))) \<and> \<not> stop_flag (ps_base ((pool_top os ^^ k) s))"
    if "k < n" for k
    using full run [OF that] that by (auto simp: pool_overloaded_def)
  obtain m where m: "n = Suc m" using n by (cases n) auto
  let ?t = "(pool_top os ^^ m) s"
  have "\<not> is_listen (ps_base (pool_top os ?t))" if c: "\<forall>w. fst (so_close os w) = None"
  proof -
    obtain w where "so_close os (bs_world (ps_base ?t)) = (None, w)"
      using c by (metis prod.collapse)
    then show ?thesis using all [of m] m
      by (simp add: pool_top_def loop_head_def safeStopListen_def stopListen_def)
  qed
  then show ?thesis using pool_shedding.overloaded_never_accepts [of n os s, OF all] n by (auto simp: m)
qed

theorem pool_overload_never_accepts_witness:
  "ps_phase ((pool_top lab_sync ^^ 1) \<lparr>ps_base = \<lparr>is_listen = True, stop_flag = False, bs_world = 0\<rparr>,
     ps_timeout = 0, ps_expiration = 100, ps_phase = Top\<rparr>) = Top"
  using pool_overload_never_accepts [of 1 lab_sync "\<lparr>ps_base = \<lparr>is_listen = True, stop_flag = False, bs_world = 0\<rparr>,
     ps_timeout = 0, ps_expiration = 100, ps_phase = Top\<rparr>"]
  by (simp add: lab_sync_def)

section \<open>Tasks\<close>

text \<open>
  What a worker does, call by call.  A turn that goes on: \<open>stop_\<close> is not set, a request was processed and
  the transport has more.
\<close>

inductive turn_served :: "'w task_os \<Rightarrow> 'w \<Rightarrow> 'w \<Rightarrow> bool" for tk where
  "tk_stop tk w = (False, w1) \<Longrightarrow> tk_process tk w1 = (Inr True, w2) \<Longrightarrow> tk_peek tk w2 = (Inr True, w3)
    \<Longrightarrow> turn_served tk w w3"

text \<open>A turn that leaves the loop, with the exception that was caught.\<close>

inductive turn_leaves :: "'w task_os \<Rightarrow> exn option \<Rightarrow> 'w \<Rightarrow> 'w \<Rightarrow> bool" for tk where
  leave_stopped: "tk_stop tk w = (True, w1) \<Longrightarrow> turn_leaves tk None w w1"
| leave_throws: "tk_stop tk w = (False, w1) \<Longrightarrow> tk_process tk w1 = (Inl e, w2) \<Longrightarrow> turn_leaves tk (Some e) w w2"
| leave_done: "tk_stop tk w = (False, w1) \<Longrightarrow> tk_process tk w1 = (Inr False, w2) \<Longrightarrow> turn_leaves tk None w w2"
| leave_peek_throws: "tk_stop tk w = (False, w1) \<Longrightarrow> tk_process tk w1 = (Inr True, w2) \<Longrightarrow> tk_peek tk w2 = (Inl e, w3)
    \<Longrightarrow> turn_leaves tk (Some e) w w3"
| leave_closed: "tk_stop tk w = (False, w1) \<Longrightarrow> tk_process tk w1 = (Inr True, w2) \<Longrightarrow> tk_peek tk w2 = (Inr False, w3)
    \<Longrightarrow> turn_leaves tk None w w3"

text \<open>After the loop: the end event, the two closes, which may throw a TTransportException, the bookkeeping.\<close>

definition closes_to :: "exn option \<times> 'w \<Rightarrow> 'w \<Rightarrow> bool" where
  "closes_to r w \<longleftrightarrow> snd r = w \<and> (fst r = None \<or> (\<exists>b. fst r = Some (TTransport b)))"

inductive task_ends :: "'w task_os \<Rightarrow> ('w \<Rightarrow> 'w) \<Rightarrow> 'w \<Rightarrow> exn option \<Rightarrow> 'w \<Rightarrow> bool" for tk f where
  ends_handler: "tk_end tk w = (Some e, w1) \<Longrightarrow> task_ends tk f w (Some e) w1"
| ends_in: "tk_end tk w = (None, w1) \<Longrightarrow> tk_close_in tk w1 = (Some e, w2) \<Longrightarrow> \<nexists>b. e = TTransport b
    \<Longrightarrow> task_ends tk f w (Some e) w2"
| ends_out: "tk_end tk w = (None, w1) \<Longrightarrow> closes_to (tk_close_in tk w1) w2 \<Longrightarrow> tk_close_out tk w2 = (Some e, w3)
    \<Longrightarrow> \<nexists>b. e = TTransport b \<Longrightarrow> task_ends tk f w (Some e) w3"
| ends_all: "tk_end tk w = (None, w1) \<Longrightarrow> closes_to (tk_close_in tk w1) w2 \<Longrightarrow> closes_to (tk_close_out tk w2) w3
    \<Longrightarrow> task_ends tk f w None (f w3)"

inductive_simps turn_served_iff: "turn_served tk w w'"
inductive_simps turn_leaves_iff: "turn_leaves tk r w w'"
inductive_simps task_ends_iff: "task_ends tk f w r w'"

lemma turn_goes_on: "task_turn tk w = (None, w') \<longleftrightarrow> turn_served tk w w'"
  and turn_ends: "task_turn tk w = (Some r, w') \<longleftrightarrow> turn_leaves tk r w w'"
  by (auto simp: task_turn_def turn_served_iff turn_leaves_iff split: prod.splits bool.splits sum.splits)

text \<open>A close is caught: it goes on, or throws.\<close>

lemma caught_cases:
  "caught_close r = (None, w) \<longleftrightarrow> closes_to r w"
  "caught_close r = (Some e, w) \<longleftrightarrow> r = (Some e, w) \<and> (\<nexists>b. e = TTransport b)"
  by (cases r; auto simp: caught_close_def closes_to_def split: option.splits exn.splits)+

lemma and_then_iff:
  "and_then r f = (x, w) \<longleftrightarrow> (\<exists>e. r = (Some e, w) \<and> x = Some e) \<or> (\<exists>v. r = (None, v) \<and> f v = (x, w))"
  by (auto simp: and_then_def split: prod.splits option.splits)

lemma finish_iff: "task_finish tk f w = (r, w') \<longleftrightarrow> task_ends tk f w r w'"
  unfolding task_finish_def and_then_iff caught_cases task_ends_iff by (auto; blast)

lemma loop_left:
  assumes "task_loop tk w = Some x"
  shows "\<exists>u. (turn_served tk)\<^sup>*\<^sup>* w u \<and> turn_leaves tk (fst x) u (snd x)"
proof (rule task_loop.raw_induct [of "\<lambda>tk w x. \<exists>u. (turn_served tk)\<^sup>*\<^sup>* w u \<and> turn_leaves tk (fst x) u (snd x)",
    OF _ assms], goal_cases)
  case (1 loop tk w x)
  obtain t w1 where t: "task_turn tk w = (t, w1)" by (cases "task_turn tk w")
  show ?case
  proof (cases t)
    case None
    with 1(2) t have "loop tk w1 = Some x" by simp
    from 1(1) [OF this] obtain u where "(turn_served tk)\<^sup>*\<^sup>* w1 u" "turn_leaves tk (fst x) u (snd x)" by blast
    with t [unfolded None turn_goes_on] show ?thesis by (blast intro: converse_rtranclp_into_rtranclp)
  next
    case (Some r)
    with 1(2) t have "x = (r, w1)" by simp
    with t [unfolded Some turn_ends] show ?thesis by (intro exI [of _ w]) simp
  qed
qed

lemma loop_leaves:
  assumes "(turn_served tk)\<^sup>*\<^sup>* w u" and "turn_leaves tk r u v"
  shows "task_loop tk w = Some (r, v)"
  using assms(1)
proof (induction rule: converse_rtranclp_induct)
  case base
  from assms(2) [folded turn_ends] show ?case by (subst task_loop.simps) simp
next
  case (step x y)
  from step(1) [folded turn_goes_on] step(3) show ?case by (subst task_loop.simps) simp
qed

lemma loop_iff: "task_loop tk w = Some (r, v) \<longleftrightarrow> (\<exists>u. (turn_served tk)\<^sup>*\<^sup>* w u \<and> turn_leaves tk r u v)"
  using loop_left [of tk w "(r, v)"] loop_leaves [of tk w _ r v] by auto

lemma loop_runs_on: "task_loop tk w = None \<longleftrightarrow> (\<exists>ws. ws 0 = w \<and> (\<forall>n. turn_served tk (ws n) (ws (Suc n))))"
proof
  assume none: "task_loop tk w = None"
  have next_turn: "\<exists>v. (turn_served tk)\<^sup>*\<^sup>* w v \<and> turn_served tk u v" if u: "(turn_served tk)\<^sup>*\<^sup>* w u" for u
  proof -
    obtain t v where t: "task_turn tk u = (t, v)" by (cases "task_turn tk u")
    have "t = None"
    proof (rule ccontr)
      assume "t \<noteq> None"
      then obtain r where "t = Some r" by blast
      with t have "turn_leaves tk r u v" by (simp add: turn_ends)
      from loop_leaves [OF u this] none show False by simp
    qed
    with t have "turn_served tk u v" by (simp add: turn_goes_on)
    with u show ?thesis by (blast intro: rtranclp.rtrancl_into_rtrancl)
  qed
  have "\<exists>ws. \<forall>n. ((turn_served tk)\<^sup>*\<^sup>* w (ws n) \<and> (n = 0 \<longrightarrow> ws n = w)) \<and> turn_served tk (ws n) (ws (Suc n))"
  proof (rule dependent_nat_choice)
    fix u and n :: nat
    assume "(turn_served tk)\<^sup>*\<^sup>* w u \<and> (n = 0 \<longrightarrow> u = w)"
    with next_turn [of u] show "\<exists>v. ((turn_served tk)\<^sup>*\<^sup>* w v \<and> (Suc n = 0 \<longrightarrow> v = w)) \<and> turn_served tk u v" by simp
  qed blast
  then show "\<exists>ws. ws 0 = w \<and> (\<forall>n. turn_served tk (ws n) (ws (Suc n)))" by blast
next
  assume "\<exists>ws. ws 0 = w \<and> (\<forall>n. turn_served tk (ws n) (ws (Suc n)))"
  then obtain ws where ws: "ws 0 = w" "\<And>n. turn_served tk (ws n) (ws (Suc n))" by blast
  show "task_loop tk w = None"
  proof (rule ccontr)
    assume "task_loop tk w \<noteq> None"
    then obtain x where "task_loop tk w = Some x" by auto
    from loop_left [OF this] obtain r u v where u: "(turn_served tk)\<^sup>*\<^sup>* w u" "turn_leaves tk r u v" by blast
    have "\<exists>n. u = ws n" using u(1)
    proof (induction rule: rtranclp_induct)
      case base
      then show ?case using ws(1) by metis
    next
      case (step y z)
      then obtain n where "y = ws n" by blast
      with step(2) ws(2) [of n] have "z = ws (Suc n)" unfolding turn_goes_on [symmetric] by simp
      then show ?case by blast
    qed
    then obtain n where "u = ws n" by blast
    with ws(2) [of n] u(2) show False unfolding turn_goes_on [symmetric] turn_ends [symmetric] by simp
  qed
qed

text \<open>C28: A worker of the synchronous servers returns exactly when, after turns in which stop\_ was not
  set, a request was processed and more was to read, one turn finds stop\_ set, the processor done or
  throwing, or nothing more to read or the transport throwing; such an exception goes no further.
  Then the end event is called, both transports are closed and the bookkeeping runs; what the event
  handler throws, or a close throws that is not a TTransportException, leaves run at once, and the
  bookkeeping is skipped.  The worker does not return exactly when such turns go on for ever.\<close>

theorem task_run_ends:
  "(task_run tk f w = Some (r, w') \<longleftrightarrow>
      (\<exists>e. tk_begin tk w = (Some e, w') \<and> r = Some e)
      \<or> (\<exists>w1 u v why. tk_begin tk w = (None, w1) \<and> (turn_served tk)\<^sup>*\<^sup>* w1 u \<and> turn_leaves tk why u v \<and> task_ends tk f v r w'))
   \<and> (task_run tk f w = None \<longleftrightarrow>
      (\<exists>ws. tk_begin tk w = (None, ws 0) \<and> (\<forall>n. turn_served tk (ws n) (ws (Suc n)))))
   \<and> pool_task_run tk w = task_run tk (\<lambda>w. w) w"
proof (cases "tk_begin tk w")
  case (Pair b w1)
  show ?thesis
  proof (cases b)
    case None
    have "task_run tk f w = Some (r, w') \<longleftrightarrow> (\<exists>why v. task_loop tk w1 = Some (why, v) \<and> task_finish tk f v = (r, w'))"
      using Pair None by (auto simp: task_run_def)
    also have "\<dots> \<longleftrightarrow> (\<exists>u v why. (turn_served tk)\<^sup>*\<^sup>* w1 u \<and> turn_leaves tk why u v \<and> task_ends tk f v r w')"
      unfolding finish_iff loop_iff by auto
    finally show ?thesis using Pair None loop_runs_on [of tk w1]
      by (auto simp: task_run_def pool_task_run_def)
  next
    case (Some e)
    with Pair show ?thesis by (auto simp: task_run_def pool_task_run_def)
  qed
qed

text \<open>A client that sends two requests and closes; the world counts what was done.\<close>

definition lab_task :: "nat task_os" where
  "lab_task = \<lparr>tk_begin = (\<lambda>w. (None, w)), tk_stop = (\<lambda>w. (False, w)), tk_process = (\<lambda>w. (Inr True, Suc w)),
     tk_peek = (\<lambda>w. (Inr (w < 2), w)), tk_end = (\<lambda>w. (None, w)), tk_close_in = (\<lambda>w. (Some (TTransport False), w + 10)),
     tk_close_out = (\<lambda>w. (None, w + 10))\<rparr>"

theorem task_run_ends_witness: "task_run lab_task Suc 0 = Some (None, 23)"
proof -
  have "turn_served lab_task 0 1" by (rule turn_served.intros [where ?w1.0 = 0 and ?w2.0 = 1]) (simp_all add: lab_task_def)
  moreover have "turn_leaves lab_task None 1 2" by (rule leave_closed [where ?w1.0 = 1 and ?w2.0 = 2]) (simp_all add: lab_task_def)
  moreover have "task_ends lab_task Suc 2 None (Suc 22)" by (rule ends_all [where ?w1.0 = 2 and ?w2.0 = 12]) (auto simp: lab_task_def closes_to_def)
  moreover have "tk_begin lab_task 0 = (None, 0)" by (simp add: lab_task_def)
  ultimately show ?thesis using task_run_ends [of lab_task Suc 0 None "Suc 22"] by auto
qed

end
