(* ===== verification/ThriftPoolTss.thy ===== *)
theory ThriftPoolTss
  imports ThriftConnection
begin

text \<open>
  src/sync/thrift\_pool\_tss.h and src/sync/host.cpp: \<open>ThriftConnectionTss\<close>, a connection without a
  reference, and \<open>ThriftPoolTss\<close>, which clones a connection to a random server and keeps one
  connection per thread.  Connections live in a store at their addresses, the variables of
  \<open>boost::thread_specific_ptr\<close> are maps from thread numbers.
\<close>

section \<open>Resolving host names\<close>

text \<open>
  \<open>getaddrinfo\<close> (the family and the socket address of the first result, \<open>None\<close> on failure), the
  constant \<open>AF_INET\<close>, and \<open>inet_ntop\<close> on the \<open>sin_addr\<close> or \<open>sin6_addr\<close> of the socket address.
\<close>

record 'a resolver =
  rs_getaddrinfo :: "string \<Rightarrow> (int \<times> 'a) option"
  rs_af_inet :: int
  rs_ntop_in :: "int \<Rightarrow> 'a \<Rightarrow> string"
  rs_ntop_in6 :: "int \<Rightarrow> 'a \<Rightarrow> string"

definition resolve_host :: "'a resolver \<Rightarrow> string \<Rightarrow> string option" where
  "resolve_host rs host = (case rs_getaddrinfo rs host of
       None \<Rightarrow> None
     | Some (family, addr) \<Rightarrow>
         Some ((if family = rs_af_inet rs then rs_ntop_in rs else rs_ntop_in6 rs) family addr))"

section \<open>Connections\<close>

text \<open>The configuration has the host as given; the resolved host is what the socket is made with.\<close>

record tss_conn =
  ts_cfg :: tc_config
  ts_resolved :: string

record 'w tss_store =
  ts_conns :: "nat \<Rightarrow> tss_conn option"
  ts_next :: nat
  ts_world :: 'w

definition ts_at :: "nat \<Rightarrow> 'w tss_store \<Rightarrow> tss_conn outcome" where
  "ts_at a m = (case ts_conns m a of None \<Rightarrow> Undef | Some c \<Rightarrow> Ok c)"

definition ts_is_open :: "'w transport_os \<Rightarrow> nat \<Rightarrow> 'w tss_store \<Rightarrow> bool outcome" where
  "ts_is_open os a m = map_ok (\<lambda>_. tr_is_open os a (ts_world m)) (ts_at a m)"

definition ts_close :: "'w transport_os \<Rightarrow> nat \<Rightarrow> 'w tss_store \<Rightarrow> 'w tss_store outcome" where
  "ts_close os a m = map_ok (\<lambda>_. m\<lparr>ts_world := tr_close os a (ts_world m)\<rparr>) (ts_at a m)"

definition ts_connect :: "'w transport_os \<Rightarrow> nat \<Rightarrow> 'w tss_store \<Rightarrow> (bool \<times> 'w tss_store) outcome" where
  "ts_connect os a m =
     map_ok (\<lambda>m. case tr_open os a (ts_world m) of
         (True, w) \<Rightarrow> (True, m\<lparr>ts_world := w\<rparr>)
       | (False, w) \<Rightarrow> (False, m\<lparr>ts_world := tr_close os a w\<rparr>)) (ts_close os a m)"

definition ts_assure_connect :: "'w transport_os \<Rightarrow> nat \<Rightarrow> 'w tss_store \<Rightarrow> 'w tss_store outcome" where
  "ts_assure_connect os a m =
     bind_outcome (ts_is_open os a m) (\<lambda>opn. if \<not> opn then map_ok snd (ts_connect os a m) else Ok m)"

definition ts_client :: "'w transport_os \<Rightarrow> nat \<Rightarrow> 'w tss_store \<Rightarrow> (nat \<times> 'w tss_store) outcome" where
  "ts_client os a m = map_ok (Pair a) (ts_assure_connect os a m)"

text \<open>The constructor (with \<open>inner_init\<close>, whose result is dropped), the destructor and \<open>clone\<close>.\<close>

definition ts_new :: "'w transport_os \<Rightarrow> tss_conn \<Rightarrow> 'w tss_store \<Rightarrow> (nat \<times> 'w tss_store) outcome" where
  "ts_new os c m =
     (let a = ts_next m;
          m1 = m\<lparr>ts_conns := (ts_conns m)(a \<mapsto> c), ts_next := Suc a,
                 ts_world := tr_setup os a (ts_cfg c\<lparr>cf_host := ts_resolved c\<rparr>) (ts_world m)\<rparr>
      in map_ok (\<lambda>(_, m). (a, m)) (ts_connect os a m1))"

definition ts_delete :: "'w transport_os \<Rightarrow> nat \<Rightarrow> 'w tss_store \<Rightarrow> 'w tss_store outcome" where
  "ts_delete os a m = map_ok (\<lambda>m. m\<lparr>ts_conns := (ts_conns m)(a := None)\<rparr>) (ts_close os a m)"

definition ts_clone :: "'w transport_os \<Rightarrow> nat \<Rightarrow> 'w tss_store \<Rightarrow> (nat \<times> 'w tss_store) outcome" where
  "ts_clone os a m = bind_outcome (ts_at a m) (\<lambda>c. ts_new os c m)"

section \<open>The pool\<close>

text \<open>
  \<open>tq_rand\<close> is the state of the random number generator; \<open>tq_index\<close> and \<open>tq_connection\<close> hold the
  thread specific variables (no entry: null).
\<close>

record 'r tss_pool =
  tq_rand :: 'r
  tq_template :: tc_config
  tq_pools :: "nat list"
  tq_index :: "nat \<Rightarrow> u64 option"
  tq_connection :: "nat \<Rightarrow> nat option"

record ('w, 'r, 'a) tss_env =
  tv_os :: "'w transport_os"
  tv_random :: "'r \<Rightarrow> u64 \<times> 'r"
  tv_resolver :: "'a resolver"
  tv_split :: "string \<Rightarrow> string \<Rightarrow> string list"
  tv_cast :: "string \<Rightarrow> int option"

definition tss_add_server ::
  "('w, 'r, 'a) tss_env \<Rightarrow> string \<Rightarrow> int \<Rightarrow> 'r tss_pool \<times> 'w tss_store \<Rightarrow> ('r tss_pool \<times> 'w tss_store) outcome" where
  "tss_add_server env host port = (\<lambda>(q, m).
     let resolved = (case resolve_host (tv_resolver env) host of None \<Rightarrow> host | Some r \<Rightarrow> r);
         c = \<lparr>ts_cfg = tq_template q\<lparr>cf_host := host, cf_port := port\<rparr>, ts_resolved = resolved\<rparr>
     in map_ok (\<lambda>(a, m). (q\<lparr>tq_pools := tq_pools q @ [a]\<rparr>, m)) (ts_new (tv_os env) c m))"

definition get_random_number :: "('w, 'r, 'a) tss_env \<Rightarrow> 'r tss_pool \<Rightarrow> u64 \<times> 'r tss_pool" where
  "get_random_number env q = (let (n, r) = tv_random env (tq_rand q) in (n, q\<lparr>tq_rand := r\<rparr>))"

definition get_tss_index :: "('w, 'r, 'a) tss_env \<Rightarrow> nat \<Rightarrow> 'r tss_pool \<Rightarrow> u64 \<times> 'r tss_pool" where
  "get_tss_index env t q = (case tq_index q t of
       Some n \<Rightarrow> (n, q)
     | None \<Rightarrow> (let (n, q) = get_random_number env q in (n, q\<lparr>tq_index := (tq_index q)(t \<mapsto> n)\<rparr>)))"

text \<open>The backends are split at commas and colons; a port that is no number skips its backend.\<close>

fun tss_add_backends ::
  "('w, 'r, 'a) tss_env \<Rightarrow> string list \<Rightarrow> 'r tss_pool \<times> 'w tss_store \<Rightarrow> ('r tss_pool \<times> 'w tss_store) outcome" where
  "tss_add_backends env [] s = Ok s"
| "tss_add_backends env (b # bs) s =
     bind_outcome
       (case tv_split env '':'' b of
          [host, port] \<Rightarrow> (case tv_cast env port of None \<Rightarrow> Ok s | Some n \<Rightarrow> tss_add_server env host n s)
        | _ \<Rightarrow> Ok s)
       (tss_add_backends env bs)"

definition tss_pool_new ::
  "('w, 'r, 'a) tss_env \<Rightarrow> 'r \<Rightarrow> tc_config \<Rightarrow> string \<Rightarrow> 'w tss_store \<Rightarrow> ('r tss_pool \<times> 'w tss_store) outcome" where
  "tss_pool_new env seed cfg backends m =
     tss_add_backends env (tv_split env '','' backends)
       (\<lparr>tq_rand = seed, tq_template = cfg, tq_pools = [], tq_index = Map.empty, tq_connection = Map.empty\<rparr>, m)"

fun delete_each :: "'w transport_os \<Rightarrow> nat list \<Rightarrow> 'w tss_store \<Rightarrow> 'w tss_store outcome" where
  "delete_each os [] m = Ok m"
| "delete_each os (a # as) m = bind_outcome (ts_delete os a m) (delete_each os as)"

definition tss_pool_destroy ::
  "('w, 'r, 'a) tss_env \<Rightarrow> 'r tss_pool \<times> 'w tss_store \<Rightarrow> ('r tss_pool \<times> 'w tss_store) outcome" where
  "tss_pool_destroy env = (\<lambda>(q, m).
     map_ok (Pair (q\<lparr>tq_pools := []\<rparr>)) (delete_each (tv_os env) (tq_pools q) m))"

text \<open>The loop of \<open>get\<close>: \<open>n\<close> attempts from \<open>index + i\<close>, a \<open>size_t\<close>.\<close>

fun tss_tries ::
  "'w transport_os \<Rightarrow> nat list \<Rightarrow> nat \<Rightarrow> u64 \<Rightarrow> 'w tss_store \<Rightarrow> (nat option \<times> 'w tss_store) outcome" where
  "tss_tries os pools 0 k m = Ok (None, m)"
| "tss_tries os pools (Suc n) k m =
     (if pools = [] then Undef
      else bind_outcome (ts_clone os (pools ! (unat k mod length pools)) m) (\<lambda>(a, m).
           bind_outcome (ts_is_open os a m) (\<lambda>opn.
             if opn then Ok (Some a, m)
             else bind_outcome (ts_delete os a m) (tss_tries os pools n (k + 1)))))"

definition tss_get ::
  "('w, 'r, 'a) tss_env \<Rightarrow> nat \<Rightarrow> 'r tss_pool \<times> 'w tss_store
     \<Rightarrow> (nat option \<times> 'r tss_pool \<times> 'w tss_store) outcome" where
  "tss_get env t = (\<lambda>(q, m).
     let (_, q) = get_tss_index env t q;
         (k, q) = get_random_number env q;
         q = q\<lparr>tq_index := (tq_index q)(t \<mapsto> k)\<rparr>
     in map_ok (\<lambda>(r, m). (r, q, m)) (tss_tries (tv_os env) (tq_pools q) 3 k m))"

text \<open>\<open>delete\<close> does nothing with a null pointer.\<close>

definition tss_put ::
  "('w, 'r, 'a) tss_env \<Rightarrow> nat option \<Rightarrow> 'r tss_pool \<times> 'w tss_store \<Rightarrow> ('r tss_pool \<times> 'w tss_store) outcome" where
  "tss_put env r = (\<lambda>(q, m). case r of
       None \<Rightarrow> Ok (q, m)
     | Some a \<Rightarrow> map_ok (Pair q) (ts_delete (tv_os env) a m))"

text \<open>\<open>thread_specific_ptr::reset\<close> deletes the old object unless the new pointer is the same.\<close>

definition reset_tss ::
  "('w, 'r, 'a) tss_env \<Rightarrow> nat \<Rightarrow> nat option \<Rightarrow> 'r tss_pool \<times> 'w tss_store
     \<Rightarrow> ('r tss_pool \<times> 'w tss_store) outcome" where
  "reset_tss env t r = (\<lambda>(q, m).
     let q' = q\<lparr>tq_connection := (tq_connection q)(t := r)\<rparr>
     in if tq_connection q t = r then Ok (q, m) else tss_put env (tq_connection q t) (q', m))"

definition get_tss ::
  "('w, 'r, 'a) tss_env \<Rightarrow> nat \<Rightarrow> 'r tss_pool \<times> 'w tss_store
     \<Rightarrow> (nat option \<times> 'r tss_pool \<times> 'w tss_store) outcome" where
  "get_tss env t = (\<lambda>(q, m).
     bind_outcome (case tq_connection q t of
         None \<Rightarrow> Ok False
       | Some a \<Rightarrow> ts_is_open (tv_os env) a m) (\<lambda>usable.
     if usable then Ok (tq_connection q t, q, m)
     else bind_outcome (tss_get env t (q, m)) (\<lambda>(r, s). map_ok (Pair r) (reset_tss env t r s))))"

end
