(* ===== verification/ThriftPoolTssSpec.thy ===== *)
theory ThriftPoolTssSpec
  imports ThriftPoolTss
begin

text \<open>
  What \<open>ThriftPoolTss\<close> guarantees: who owns the connections, in any interleaving of the operations of
  its threads, each operation being one step, while the peers come and go.
\<close>

section \<open>Connections\<close>

lemma ts_connect_Some: "ts_conns m a = Some c \<Longrightarrow> \<exists>b w. ts_connect os a m = Ok (b, m\<lparr>ts_world := w\<rparr>)"
  by (simp add: ts_connect_def ts_close_def ts_at_def split: prod.splits bool.splits) blast

lemma ts_delete_Some:
  "ts_conns m a = Some c \<Longrightarrow> ts_delete os a m
     = Ok (m\<lparr>ts_world := tr_close os a (ts_world m), ts_conns := (ts_conns m)(a := None)\<rparr>)"
  by (simp add: ts_delete_def ts_close_def ts_at_def)

text \<open>A new object, and a clone, which has the same configuration.\<close>

lemma ts_new_ok:
  "\<exists>w. ts_new os c m = Ok (ts_next m,
     m\<lparr>ts_conns := (ts_conns m)(ts_next m \<mapsto> c), ts_next := Suc (ts_next m), ts_world := w\<rparr>)"
proof -
  define m1 where "m1 = m\<lparr>ts_conns := (ts_conns m)(ts_next m \<mapsto> c), ts_next := Suc (ts_next m),
    ts_world := tr_setup os (ts_next m) (ts_cfg c\<lparr>cf_host := ts_resolved c\<rparr>) (ts_world m)\<rparr>"
  have "ts_conns m1 (ts_next m) = Some c" by (simp add: m1_def)
  from ts_connect_Some [OF this, of os] obtain b w where "ts_connect os (ts_next m) m1 = Ok (b, m1\<lparr>ts_world := w\<rparr>)" by blast
  then have "ts_new os c m = Ok (ts_next m, m1\<lparr>ts_world := w\<rparr>)" by (simp add: ts_new_def Let_def m1_def)
  then show ?thesis by (auto simp: m1_def)
qed

lemma ts_clone_Some:
  assumes "ts_conns m a = Some c"
  obtains w where "ts_clone os a m = Ok (ts_next m,
    m\<lparr>ts_conns := (ts_conns m)(ts_next m \<mapsto> c), ts_next := Suc (ts_next m), ts_world := w\<rparr>)"
  using ts_new_ok [of os c m] that assms by (auto simp: ts_clone_def ts_at_def)

text \<open>Closing a transport leaves the others as they are.\<close>

definition close_local :: "'w transport_os \<Rightarrow> bool" where
  "close_local os \<longleftrightarrow> (\<forall>a b w. a \<noteq> b \<longrightarrow> tr_is_open os b (tr_close os a w) = tr_is_open os b w)"

section \<open>Ownership\<close>

definition fresh_above :: "'w tss_store \<Rightarrow> bool" where
  "fresh_above m \<longleftrightarrow> (\<forall>a. ts_next m \<le> a \<longrightarrow> ts_conns m a = None)"

definition tss_ok :: "'r tss_pool \<times> 'w tss_store \<Rightarrow> bool" where
  "tss_ok s \<longleftrightarrow> fresh_above (snd s) \<and> tq_pools (fst s) \<noteq> [] \<and> distinct (tq_pools (fst s))
     \<and> set (tq_pools (fst s)) \<subseteq> dom (ts_conns (snd s))
     \<and> ran (tq_connection (fst s)) \<subseteq> dom (ts_conns (snd s)) - set (tq_pools (fst s))
     \<and> inj_on (tq_connection (fst s)) (dom (tq_connection (fst s)))"

text \<open>The connections the callers of \<open>get\<close> hold: neither the pool's own nor a thread's.\<close>

definition held :: "'r tss_pool \<times> 'w tss_store \<Rightarrow> nat set" where
  "held s = dom (ts_conns (snd s)) - set (tq_pools (fst s)) - ran (tq_connection (fst s))"

text \<open>The attempts of \<open>get\<close> leave exactly one new open connection, or nothing.\<close>

lemma tss_tries_ok:
  assumes "fresh_above m" and "pools \<noteq> []" and "set pools \<subseteq> dom (ts_conns m)"
  shows "\<exists>r m'. tss_tries os pools n k m = Ok (r, m') \<and> fresh_above m' \<and> ts_next m \<le> ts_next m'
    \<and> (case r of None \<Rightarrow> ts_conns m' = ts_conns m
       | Some a \<Rightarrow> ts_next m \<le> a \<and> tr_is_open os a (ts_world m')
           \<and> (\<exists>p \<in> set pools. ts_conns m' = (ts_conns m)(a := ts_conns m p)))"
  using assms
proof (induction n arbitrary: k m)
  case (Suc n)
  define p where "p = pools ! (unat k mod length pools)"
  have p: "p \<in> set pools" using Suc.prems(2) by (simp add: p_def)
  with Suc.prems(3) obtain c where c: "ts_conns m p = Some c" by blast
  define a where "a = ts_next m"
  have new: "ts_conns m a = None" using Suc.prems(1) by (simp add: fresh_above_def a_def)
  from ts_clone_Some [OF c] obtain w where clone: "ts_clone os p m = Ok (a,
      m\<lparr>ts_conns := (ts_conns m)(a \<mapsto> c), ts_next := Suc a, ts_world := w\<rparr>)" unfolding a_def by blast
  define m1 where "m1 = m\<lparr>ts_conns := (ts_conns m)(a \<mapsto> c), ts_next := Suc a, ts_world := w\<rparr>"
  have f: "fresh_above m1" using Suc.prems(1) by (simp add: fresh_above_def m1_def a_def)
  show ?case
  proof (cases "tr_is_open os a w")
    case True
    then have "tss_tries os pools (Suc n) k m = Ok (Some a, m1)"
      using clone Suc.prems(2) by (simp add: p_def [symmetric] m1_def [symmetric] ts_is_open_def ts_at_def) (simp add: m1_def)
    moreover have "ts_conns m1 = (ts_conns m)(a := ts_conns m p)" using c by (simp add: m1_def)
    ultimately show ?thesis using f True p by (auto simp: m1_def a_def intro!: bexI [of _ p])
  next
    case False
    define m2 where "m2 = m1\<lparr>ts_world := tr_close os a w, ts_conns := ts_conns m\<rparr>"
    have d: "ts_delete os a m1 = Ok m2"
      using ts_delete_Some [of m1 a c os] new by (simp add: m1_def m2_def fun_upd_idem)
    have t: "tss_tries os pools (Suc n) k m = tss_tries os pools n (k + 1) m2"
      using False clone d Suc.prems(2) by (simp add: p_def [symmetric] m1_def [symmetric] ts_is_open_def ts_at_def) (simp add: m1_def)
    have "fresh_above m2" "set pools \<subseteq> dom (ts_conns m2)" using Suc.prems by (simp_all add: fresh_above_def m2_def m1_def a_def)
    from Suc.IH [OF this(1) Suc.prems(2) this(2), of "k + 1"] obtain r m' where i:
      "tss_tries os pools n (k + 1) m2 = Ok (r, m')" "fresh_above m'" "ts_next m2 \<le> ts_next m'"
      "case r of None \<Rightarrow> ts_conns m' = ts_conns m2
       | Some a \<Rightarrow> ts_next m2 \<le> a \<and> tr_is_open os a (ts_world m') \<and> (\<exists>p \<in> set pools. ts_conns m' = (ts_conns m2)(a := ts_conns m2 p))" by blast
    have e: "ts_conns m2 = ts_conns m" "ts_next m \<le> ts_next m2" by (simp_all add: m2_def m1_def a_def)
    have "case r of None \<Rightarrow> ts_conns m' = ts_conns m
       | Some a \<Rightarrow> ts_next m \<le> a \<and> tr_is_open os a (ts_world m') \<and> (\<exists>p \<in> set pools. ts_conns m' = (ts_conns m)(a := ts_conns m p))"
      using i(4) e by (auto split: option.splits)
    with t i(1-3) e(2) show ?thesis by auto
  qed
qed simp


lemma tss_get_ok:
  assumes "tss_ok s"
  shows "\<exists>r s'. tss_get env t s = Ok (r, s') \<and> tss_ok s' \<and> held s' = set_option r \<union> held s
    \<and> set_option r \<inter> dom (ts_conns (snd s)) = {} \<and> tq_connection (fst s') = tq_connection (fst s)
    \<and> (\<forall>a. r = Some a \<longrightarrow> ts_is_open (tv_os env) a (snd s') = Ok True)"
proof -
  obtain q m where s: "s = (q, m)" by (cases s)
  obtain k1 q1 where i: "get_tss_index env t q = (k1, q1)" by fastforce
  obtain k2 q2 where n: "get_random_number env q1 = (k2, q2)" by fastforce
  define q' where "q' = q2\<lparr>tq_index := (tq_index q2)(t \<mapsto> k2)\<rparr>"
  have q: "tq_pools q' = tq_pools q" "tq_pools q2 = tq_pools q" "tq_connection q' = tq_connection q"
    using i n by (auto simp: q'_def get_tss_index_def get_random_number_def split: prod.splits option.splits)
  from assms have a: "fresh_above m" "tq_pools q \<noteq> []" "set (tq_pools q) \<subseteq> dom (ts_conns m)"
    by (simp_all add: tss_ok_def s)
  from tss_tries_ok [OF a, of "tv_os env" 3 k2] obtain r m' where tr:
    "tss_tries (tv_os env) (tq_pools q) 3 k2 m = Ok (r, m')" "fresh_above m'" "ts_next m \<le> ts_next m'"
    "case r of None \<Rightarrow> ts_conns m' = ts_conns m
       | Some a \<Rightarrow> ts_next m \<le> a \<and> tr_is_open (tv_os env) a (ts_world m')
           \<and> (\<exists>p \<in> set (tq_pools q). ts_conns m' = (ts_conns m)(a := ts_conns m p))" by blast
  have g: "tss_get env t s = Ok (r, q', m')"
    by (simp add: tss_get_def s i n q'_def [symmetric] q tr(1))
  show ?thesis
  proof (cases r)
    case None
    with g tr assms q show ?thesis by (auto simp: s tss_ok_def held_def)
  next
    case (Some a)
    with tr(4) obtain p where p: "p \<in> set (tq_pools q)" "ts_conns m' = (ts_conns m)(a := ts_conns m p)"
      "ts_next m \<le> a" "tr_is_open (tv_os env) a (ts_world m')" by auto
    have new: "a \<notin> dom (ts_conns m)" using a(1) p(3) by (auto simp: fresh_above_def)
    from p(1) a(3) obtain c where c: "ts_conns m p = Some c" by blast
    have d: "dom (ts_conns m') = insert a (dom (ts_conns m))" using p(2) c by simp
    have sub: "set (tq_pools q) \<subseteq> dom (ts_conns m)" "ran (tq_connection q) \<subseteq> dom (ts_conns m) - set (tq_pools q)"
      using assms by (simp_all add: tss_ok_def s)
    have ok: "tss_ok (q', m')" using assms tr(2) sub d unfolding tss_ok_def s by (simp add: q) blast
    have h: "held (q', m') = insert a (held (q, m))" using d sub new unfolding held_def by (simp add: q) blast
    have "ts_is_open (tv_os env) a m' = Ok True" using p c by (simp add: ts_is_open_def ts_at_def)
    with g Some ok h q(3) new show ?thesis by (auto simp: s)
  qed
qed

lemma tss_put_ok:
  assumes "tss_ok s" and "set_option r \<subseteq> held s"
  shows "\<exists>s'. tss_put env r s = Ok s' \<and> tss_ok s' \<and> held s' = held s - set_option r
    \<and> tq_connection (fst s') = tq_connection (fst s)
    \<and> (close_local (tv_os env) \<longrightarrow> (\<forall>b. b \<notin> set_option r \<longrightarrow>
         ts_is_open (tv_os env) b (snd s') = ts_is_open (tv_os env) b (snd s)))"
proof (cases r)
  case None
  then show ?thesis using assms(1) by (cases s) (simp add: tss_put_def)
next
  case (Some a)
  obtain q m where s: "s = (q, m)" by (cases s)
  from assms(2) Some s have a: "a \<in> dom (ts_conns m)" "a \<notin> set (tq_pools q)" "a \<notin> ran (tq_connection q)"
    by (auto simp: held_def)
  from a(1) obtain c where c: "ts_conns m a = Some c" by blast
  define m' where "m' = m\<lparr>ts_world := tr_close (tv_os env) a (ts_world m), ts_conns := (ts_conns m)(a := None)\<rparr>"
  have p: "tss_put env r s = Ok (q, m')"
    using ts_delete_Some [OF c] by (simp add: tss_put_def Some s m'_def)
  have d: "dom (ts_conns m') = dom (ts_conns m) - {a}" by (simp add: m'_def)
  have sub: "set (tq_pools q) \<subseteq> dom (ts_conns m)" "ran (tq_connection q) \<subseteq> dom (ts_conns m) - set (tq_pools q)"
    using assms(1) by (simp_all add: tss_ok_def s)
  have "fresh_above m'" using assms(1) by (simp add: tss_ok_def s fresh_above_def m'_def)
  then have ok: "tss_ok (q, m')" using assms(1) d sub a unfolding tss_ok_def s by simp blast
  have h: "held (q, m') = held (q, m) - {a}" using d unfolding held_def by simp blast
  have "ts_is_open (tv_os env) b m' = ts_is_open (tv_os env) b m" if "close_local (tv_os env)" "b \<noteq> a" for b
    using that unfolding close_local_def by (simp add: ts_is_open_def ts_at_def m'_def)
  with p ok h show ?thesis by (simp add: s Some)
qed

text \<open>
  Storing a pointer nobody else owns, or null, as a thread's connection: the old one is deleted.
\<close>

lemma reset_tss_ok:
  assumes "tss_ok s" and "set_option r \<subseteq> held s"
  shows "\<exists>s'. reset_tss env t r s = Ok s' \<and> tss_ok s' \<and> held s' = held s - set_option r
    \<and> tq_connection (fst s') = (tq_connection (fst s))(t := r)
    \<and> (close_local (tv_os env) \<longrightarrow> (\<forall>a. r = Some a \<longrightarrow>
         ts_is_open (tv_os env) a (snd s') = ts_is_open (tv_os env) a (snd s)))"
proof -
  obtain q m where s: "s = (q, m)" by (cases s)
  show ?thesis
  proof (cases "tq_connection q t = r")
    case True
    then have "set_option r \<inter> held s = {}" by (cases r) (auto simp: held_def s ranI)
    with assms(2) have "r = None" by (cases r) auto
    with True assms(1) show ?thesis by (auto simp: reset_tss_def s fun_upd_idem)
  next
    case False
    define q' where "q' = q\<lparr>tq_connection := (tq_connection q)(t := r)\<rparr>"
    have sub: "ran (tq_connection q) \<subseteq> dom (ts_conns m) - set (tq_pools q)"
      "inj_on (tq_connection q) (dom (tq_connection q))" using assms(1) by (simp_all add: tss_ok_def s)
    have new: "set_option r \<inter> ran (tq_connection q) = {}" "set_option r \<subseteq> dom (ts_conns m) - set (tq_pools q)"
      using assms(2) by (auto simp: held_def s)
    have ran: "ran (tq_connection q') \<subseteq> set_option r \<union> ran (tq_connection q)"
      by (auto simp: q'_def ran_def split: if_splits)
    have inj: "inj_on (tq_connection q') (dom (tq_connection q'))"
    proof (rule inj_onI)
      fix x y assume e: "x \<in> dom (tq_connection q')" "y \<in> dom (tq_connection q')" "tq_connection q' x = tq_connection q' y"
      then show "x = y" using sub(2) new(1)
        by (cases r) (auto simp: q'_def inj_on_def ran_def dom_def split: if_splits)
    qed
    have ok: "tss_ok (q', m)" using assms(1) sub ran new(2) inj unfolding tss_ok_def s by (simp add: q'_def) blast
    have mem: "x \<in> ran (tq_connection q') \<longleftrightarrow> r = Some x \<or> (\<exists>u. u \<noteq> t \<and> tq_connection q u = Some x)" for x
      by (auto simp: q'_def ran_def)
    have once: "u = t" if "tq_connection q u = Some x" "tq_connection q t = Some x" for u x
      using inj_onD [OF sub(2), of u t] that by auto
    have ran': "ran (tq_connection q') = set_option r \<union> (ran (tq_connection q) - set_option (tq_connection q t))"
    proof (rule set_eqI)
      fix x show "x \<in> ran (tq_connection q') \<longleftrightarrow> x \<in> set_option r \<union> (ran (tq_connection q) - set_option (tq_connection q t))"
        unfolding mem using once by (auto simp: ran_def elem_set) metis
    qed
    have h: "held (q', m) = (held s - set_option r) \<union> set_option (tq_connection q t)"
    proof -
      have "set_option (tq_connection q t) \<subseteq> ran (tq_connection q)" by (cases "tq_connection q t") (auto intro: ranI)
      then show ?thesis using ran' sub(1) new unfolding held_def s by (simp add: q'_def) blast
    qed
    then have "set_option (tq_connection q t) \<subseteq> held (q', m)" by blast
    from tss_put_ok [OF ok this, of env] obtain s' where p: "tss_put env (tq_connection q t) (q', m) = Ok s'"
      "tss_ok s'" "held s' = held (q', m) - set_option (tq_connection q t)" "tq_connection (fst s') = tq_connection q'"
      "close_local (tv_os env) \<longrightarrow> (\<forall>b. b \<notin> set_option (tq_connection q t) \<longrightarrow>
         ts_is_open (tv_os env) b (snd s') = ts_is_open (tv_os env) b m)"
      by auto
    have "set_option (tq_connection q t) \<inter> held s = {}"
      by (cases "tq_connection q t") (auto simp: held_def s intro: ranI)
    with p h have hs: "held s' = held s - set_option r" by blast
    have run: "reset_tss env t r s = Ok s'" using False p(1) by (simp add: reset_tss_def s q'_def [symmetric] Let_def)
    have "tq_connection (fst s') = (tq_connection q)(t := r)" using p(4) by (simp add: q'_def)
    with run p(2,5) hs False show ?thesis by (auto simp: s)
  qed
qed


lemma get_tss_ok:
  assumes "tss_ok s"
  shows "\<exists>r s'. get_tss env t s = Ok (r, s') \<and> tss_ok s' \<and> held s' = held s
    \<and> tq_connection (fst s') = (tq_connection (fst s))(t := r)
    \<and> (close_local (tv_os env) \<longrightarrow> (\<forall>a. r = Some a \<longrightarrow> ts_is_open (tv_os env) a (snd s') = Ok True))"
proof -
  obtain q m where s: "s = (q, m)" by (cases s)
  have sub: "ran (tq_connection q) \<subseteq> dom (ts_conns m)" using assms by (auto simp: tss_ok_def s)
  obtain usable where u: "(case tq_connection q t of None \<Rightarrow> Ok False | Some a \<Rightarrow> ts_is_open (tv_os env) a m) = Ok usable"
    using sub by (cases "tq_connection q t") (auto simp: ts_is_open_def ts_at_def dest: ranI split: option.splits)
  show ?thesis
  proof (cases usable)
    case True
    then have run: "get_tss env t s = Ok (tq_connection q t, s)" using u by (simp add: get_tss_def s)
    have "\<forall>a. tq_connection q t = Some a \<longrightarrow> ts_is_open (tv_os env) a m = Ok True" using u True
      by (cases "tq_connection q t") simp_all
    then have opn: "\<forall>a. tq_connection q t = Some a \<longrightarrow> ts_is_open (tv_os env) a (snd s) = Ok True" by (simp add: s)
    have "tq_connection (fst s) = (tq_connection (fst s))(t := tq_connection q t)" by (simp add: s)
    with run assms opn show ?thesis by blast
  next
    case False
    from tss_get_ok [OF assms, of env t] obtain r s1 where g: "tss_get env t s = Ok (r, s1)" "tss_ok s1"
      "held s1 = set_option r \<union> held s" "set_option r \<inter> dom (ts_conns (snd s)) = {}"
      "tq_connection (fst s1) = tq_connection (fst s)"
      "\<forall>a. r = Some a \<longrightarrow> ts_is_open (tv_os env) a (snd s1) = Ok True" by blast
    have r: "set_option r \<subseteq> held s1" using g(3) by blast
    from reset_tss_ok [OF g(2) r, of env t] obtain s2 where z: "reset_tss env t r s1 = Ok s2" "tss_ok s2"
      "held s2 = held s1 - set_option r" "tq_connection (fst s2) = (tq_connection (fst s1))(t := r)"
      "close_local (tv_os env) \<longrightarrow> (\<forall>a. r = Some a \<longrightarrow>
         ts_is_open (tv_os env) a (snd s2) = ts_is_open (tv_os env) a (snd s1))" by blast
    have "held s \<inter> set_option r = {}" using g(4) by (auto simp: held_def)
    then have h: "held s2 = held s" using z(3) g(3) by blast
    have c: "tq_connection (fst s2) = (tq_connection (fst s))(t := r)" using z(4) g(5) by simp
    have run: "get_tss env t s = Ok (r, s2)" using u False g(1) z(1) by (simp add: get_tss_def s)
    have opn: "close_local (tv_os env) \<longrightarrow> (\<forall>a. r = Some a \<longrightarrow> ts_is_open (tv_os env) a (snd s2) = Ok True)"
      using g(6) z(5) by simp
    show ?thesis using run z(2) h c opn by blast
  qed
qed

section \<open>The constructor\<close>

definition tss_loaded :: "'r tss_pool \<times> 'w tss_store \<Rightarrow> bool" where
  "tss_loaded s \<longleftrightarrow> fresh_above (snd s) \<and> distinct (tq_pools (fst s))
     \<and> set (tq_pools (fst s)) \<subseteq> dom (ts_conns (snd s)) \<and> tq_connection (fst s) = Map.empty"

lemma tss_add_server_loaded:
  assumes "tss_loaded s"
  shows "\<exists>s'. tss_add_server env host port s = Ok s' \<and> tss_loaded s'"
proof -
  obtain q m where s: "s = (q, m)" by (cases s)
  define c where "c = \<lparr>ts_cfg = tq_template q\<lparr>cf_host := host, cf_port := port\<rparr>,
    ts_resolved = (case resolve_host (tv_resolver env) host of None \<Rightarrow> host | Some r \<Rightarrow> r)\<rparr>"
  from ts_new_ok [of "tv_os env" c m] obtain w where n: "ts_new (tv_os env) c m = Ok (ts_next m,
      m\<lparr>ts_conns := (ts_conns m)(ts_next m \<mapsto> c), ts_next := Suc (ts_next m), ts_world := w\<rparr>)" by blast
  have "tss_add_server env host port s = map_ok (\<lambda>(a, m). (q\<lparr>tq_pools := tq_pools q @ [a]\<rparr>, m)) (ts_new (tv_os env) c m)"
    by (simp add: tss_add_server_def s Let_def c_def)
  moreover have "tss_loaded (q\<lparr>tq_pools := tq_pools q @ [ts_next m]\<rparr>,
      m\<lparr>ts_conns := (ts_conns m)(ts_next m \<mapsto> c), ts_next := Suc (ts_next m), ts_world := w\<rparr>)"
    using assms by (auto simp: tss_loaded_def s fresh_above_def)
  ultimately show ?thesis by (simp add: n)
qed

lemma tss_add_backends_loaded: "tss_loaded s \<Longrightarrow> \<exists>s'. tss_add_backends env bs s = Ok s' \<and> tss_loaded s'"
proof (induction bs arbitrary: s)
  case (Cons b bs)
  define add where "add = (case tv_split env '':'' b of
          [host, port] \<Rightarrow> (case tv_cast env port of None \<Rightarrow> Ok s | Some n \<Rightarrow> tss_add_server env host n s)
        | _ \<Rightarrow> Ok s)"
  have "\<exists>s1. add = Ok s1 \<and> tss_loaded s1"
    using Cons.prems tss_add_server_loaded [OF Cons.prems] unfolding add_def
    by (cases s) (auto split: list.splits option.splits)
  then obtain s1 where "add = Ok s1" "tss_loaded s1" by blast
  with Cons.IH [of s1] show ?case by (simp add: add_def)
qed simp

text \<open>The pool can always be made; without a usable backend it has no server.\<close>

lemma tss_pool_new_ok:
  assumes "ts_conns m = Map.empty"
  shows "\<exists>s. tss_pool_new env seed cfg backends m = Ok s \<and> tss_loaded s"
  unfolding tss_pool_new_def
  by (rule tss_add_backends_loaded) (simp add: tss_loaded_def fresh_above_def assms)

lemma tss_loaded_ok: "tss_loaded s \<Longrightarrow> tq_pools (fst s) \<noteq> [] \<Longrightarrow> tss_ok s"
  by (simp add: tss_loaded_def tss_ok_def)

text \<open>A pool without servers divides by zero in \<open>get\<close>.\<close>

lemma tss_no_server: "tq_pools q = [] \<Longrightarrow> tss_get env t (q, m) = Undef"
  by (auto simp: tss_get_def get_tss_index_def get_random_number_def eval_nat_numeral split: prod.splits option.splits)

section \<open>The system\<close>

text \<open>
  The operations of all threads in any order; only what \<open>get\<close> gave and is still held is put back or
  made a thread's connection.  In between the world outside changes at will.
\<close>

inductive tss_step ::
  "('w, 'r, 'a) tss_env \<Rightarrow> 'r tss_pool \<times> 'w tss_store \<Rightarrow> 'r tss_pool \<times> 'w tss_store \<Rightarrow> bool" for env where
  tss_gets: "tss_get env t s = Ok (r, s') \<Longrightarrow> tss_step env s s'"
| tss_puts: "set_option r \<subseteq> held s \<Longrightarrow> tss_put env r s = Ok s' \<Longrightarrow> tss_step env s s'"
| tss_gets_own: "get_tss env t s = Ok (r, s') \<Longrightarrow> tss_step env s s'"
| tss_resets: "set_option r \<subseteq> held s \<Longrightarrow> reset_tss env t r s = Ok s' \<Longrightarrow> tss_step env s s'"
| tss_world: "tss_step env (q, m) (q, m\<lparr>ts_world := w\<rparr>)"

definition tss_init :: "('w, 'r, 'a) tss_env \<Rightarrow> 'r tss_pool \<times> 'w tss_store \<Rightarrow> bool" where
  "tss_init env s \<longleftrightarrow> tq_pools (fst s) \<noteq> []
     \<and> (\<exists>seed cfg backends m. ts_conns m = Map.empty \<and> tss_pool_new env seed cfg backends m = Ok s)"

lemma tss_init_ok: "tss_init env s \<Longrightarrow> tss_ok s"
proof -
  assume "tss_init env s"
  then obtain seed cfg backends m where "tq_pools (fst s) \<noteq> []" "ts_conns m = Map.empty"
    "tss_pool_new env seed cfg backends m = Ok s" unfolding tss_init_def by blast
  with tss_pool_new_ok [of m env seed cfg backends] show ?thesis by (simp add: tss_loaded_ok)
qed

lemma tss_step_ok: "tss_ok s \<Longrightarrow> tss_step env s s' \<Longrightarrow> tss_ok s'"
proof (erule tss_step.cases, goal_cases)
  case (1 t s r s')
  with tss_get_ok [of s env t] show ?case by auto
next
  case (2 r s s')
  with tss_put_ok [of s r env] show ?case by auto
next
  case (3 t s r s')
  with get_tss_ok [of s env t] show ?case by auto
next
  case (4 r s t s')
  with reset_tss_ok [of s r env t] show ?case by auto
next
  case (5 q m w)
  then show ?case by (simp add: tss_ok_def fresh_above_def)
qed

interpretation tss_sys: step_system "tss_init env" "tss_step env" tss_ok
  for env :: "('w, 'r, 'a) tss_env"
  by unfold_locales (auto intro: tss_init_ok tss_step_ok)

interpretation tss_lender: lender tss_ok held "tss_get env t" "\<lambda>a. tss_put env (Some a)"
  for env :: "('w, 'r, 'a) tss_env" and t :: nat
proof (unfold_locales, goal_cases)
  case (1 s)
  from tss_get_ok [OF this, of env t] obtain r s' where g: "tss_get env t s = Ok (r, s')" "tss_ok s'"
    "held s' = set_option r \<union> held s" "set_option r \<inter> dom (ts_conns (snd s)) = {}"
    "tq_connection (fst s') = tq_connection (fst s)"
    "\<forall>a. r = Some a \<longrightarrow> ts_is_open (tv_os env) a (snd s') = Ok True" by blast
  have "held s \<subseteq> dom (ts_conns (snd s))" by (auto simp: held_def)
  then have "set_option r \<inter> held s = {}" using g(4) by blast
  with g(1-3) show ?case by (intro exI [of _ r] exI [of _ s'] conjI)
next
  case (2 s a)
  then have "set_option (Some a) \<subseteq> held s" by simp
  from tss_put_ok [OF 2(1) this, of env] obtain s' where "tss_put env (Some a) s = Ok s'" "tss_ok s'"
    "held s' = held s - set_option (Some a)" by blast
  then show ?case by simp
qed

section \<open>Properties\<close>

text \<open>The connection \<open>get_tss\<close> returns is found again.\<close>

lemma get_tss_again:
  assumes "tq_connection (fst s) t = Some a" and "ts_is_open (tv_os env) a (snd s) = Ok True"
  shows "get_tss env t s = Ok (Some a, s)"
  using assms by (cases s) (simp add: get_tss_def)

text \<open>A pool with one server, whose transports open and close as told.\<close>

definition listed_tr :: "nat list transport_os" where
  "listed_tr = \<lparr>tr_setup = (\<lambda>_ _ w. w), tr_open = (\<lambda>a w. (True, a # w)), tr_close = (\<lambda>a w. removeAll a w),
     tr_is_open = (\<lambda>a w. a \<in> set w), tr_get_status = (\<lambda>_ w. (Some True, w))\<rparr>"

definition tss_lab :: "(nat list, u64, unit) tss_env" where
  "tss_lab = \<lparr>tv_os = listed_tr, tv_random = (\<lambda>n. (n, n + 1)),
     tv_resolver = \<lparr>rs_getaddrinfo = (\<lambda>_. None), rs_af_inet = 2, rs_ntop_in = (\<lambda>_ _. []), rs_ntop_in6 = (\<lambda>_ _. [])\<rparr>,
     tv_split = (\<lambda>c s. if c = '','' then [s] else [s, ''9090'']), tv_cast = (\<lambda>_. Some 9090)\<rparr>"

definition tss_cfg :: tc_config where
  "tss_cfg = \<lparr>cf_host = [], cf_port = 0, cf_framed = True, cf_auto_connect = True, cf_conn_timeout = 50,
     cf_send_timeout = 50, cf_recv_timeout = 50\<rparr>"

lemma tss_lab_reach:
  "\<exists>s. tss_pool_new tss_lab 7 tss_cfg ''db1'' \<lparr>ts_conns = Map.empty, ts_next = 0, ts_world = []\<rparr> = Ok s
     \<and> reach (tss_init tss_lab) (tss_step tss_lab) s"
proof -
  define m :: "nat list tss_store" where "m = \<lparr>ts_conns = Map.empty, ts_next = 0, ts_world = []\<rparr>"
  have m: "ts_conns m = Map.empty" by (simp add: m_def)
  from tss_pool_new_ok [OF m, of tss_lab 7 tss_cfg "''db1''"] obtain s where
    n: "tss_pool_new tss_lab 7 tss_cfg ''db1'' m = Ok s" by blast
  then have "tq_pools (fst s) \<noteq> []"
    by (auto simp: tss_pool_new_def tss_lab_def tss_add_server_def Let_def outcome_simps split: prod.splits)
  with n m have "tss_init tss_lab s" unfolding tss_init_def by blast
  then have "reach (tss_init tss_lab) (tss_step tss_lab) s" by (rule reach_init)
  with n show ?thesis unfolding m_def by blast
qed

lemma tss_lab_local: "close_local (tv_os tss_lab)"
  by (simp add: close_local_def tss_lab_def listed_tr_def)

text \<open>C32: In every reachable state the threads' own connections are live, belong to one thread only and to
  nobody who holds one from \<open>get\<close>; \<open>get_tss\<close> neither fails nor changes another thread's connection or
  what is held, and what it returns is open and is returned again by the next call.
\<close>

theorem tss_threads_private:
  assumes "reach (tss_init env) (tss_step env) s" and "close_local (tv_os env)"
  shows "(\<forall>t a. tq_connection (fst s) t = Some a \<longrightarrow> ts_conns (snd s) a \<noteq> None \<and> a \<notin> held s
            \<and> (\<forall>u. tq_connection (fst s) u = Some a \<longrightarrow> u = t))
    \<and> (\<exists>r s'. get_tss env t s = Ok (r, s') \<and> held s' = held s
         \<and> tq_connection (fst s') = (tq_connection (fst s))(t := r)
         \<and> (\<forall>a. r = Some a \<longrightarrow> ts_is_open (tv_os env) a (snd s') = Ok True \<and> get_tss env t s' = Ok (Some a, s')))"
proof (intro conjI)
  have ok: "tss_ok s" using tss_sys.reachable_inv [OF assms(1)] .
  then have sub: "ran (tq_connection (fst s)) \<subseteq> dom (ts_conns (snd s))"
    "inj_on (tq_connection (fst s)) (dom (tq_connection (fst s)))" by (auto simp: tss_ok_def)
  show "\<forall>t a. tq_connection (fst s) t = Some a \<longrightarrow> ts_conns (snd s) a \<noteq> None \<and> a \<notin> held s
            \<and> (\<forall>u. tq_connection (fst s) u = Some a \<longrightarrow> u = t)"
  proof (intro allI impI conjI)
    fix t a assume a: "tq_connection (fst s) t = Some a"
    then show "ts_conns (snd s) a \<noteq> None" using sub(1) by (auto dest: ranI)
    show "a \<notin> held s" using a by (auto simp: held_def dest: ranI)
    fix u assume "tq_connection (fst s) u = Some a"
    with a show "u = t" using inj_onD [OF sub(2), of u t] by auto
  qed
  from get_tss_ok [OF ok, of env t] obtain r s' where g: "get_tss env t s = Ok (r, s')" "tss_ok s'" "held s' = held s"
    "tq_connection (fst s') = (tq_connection (fst s))(t := r)"
    "close_local (tv_os env) \<longrightarrow> (\<forall>a. r = Some a \<longrightarrow> ts_is_open (tv_os env) a (snd s') = Ok True)" by blast
  have "\<forall>a. r = Some a \<longrightarrow> ts_is_open (tv_os env) a (snd s') = Ok True \<and> get_tss env t s' = Ok (Some a, s')"
    using g(4,5) assms(2) get_tss_again [of s' t _ env] by simp
  with g(1,3,4) show "\<exists>r s'. get_tss env t s = Ok (r, s') \<and> held s' = held s
         \<and> tq_connection (fst s') = (tq_connection (fst s))(t := r)
         \<and> (\<forall>a. r = Some a \<longrightarrow> ts_is_open (tv_os env) a (snd s') = Ok True \<and> get_tss env t s' = Ok (Some a, s'))"
    by (intro exI [of _ r] exI [of _ s'] conjI)
qed

theorem tss_threads_private_witness:
  "\<exists>s. tss_pool_new tss_lab 7 tss_cfg ''db1'' \<lparr>ts_conns = Map.empty, ts_next = 0, ts_world = []\<rparr> = Ok s
     \<and> (\<exists>r s'. get_tss tss_lab 1 s = Ok (r, s') \<and> held s' = held s)"
proof -
  from tss_lab_reach obtain s where
    s: "tss_pool_new tss_lab 7 tss_cfg ''db1'' \<lparr>ts_conns = Map.empty, ts_next = 0, ts_world = []\<rparr> = Ok s"
      "reach (tss_init tss_lab) (tss_step tss_lab) s" by blast
  from tss_threads_private [OF s(2) tss_lab_local, of 1] have "\<exists>r s'. get_tss tss_lab 1 s = Ok (r, s') \<and> held s' = held s"
    by (elim conjE exE) (intro exI conjI)
  with s(1) show ?thesis by blast
qed

text \<open>Any number of connections got from a reachable pool by a thread are new and distinct, and putting
  them back in any order never frees one twice and leaves what was held before.
\<close>

theorem tss_gets_puts:
  assumes "reach (tss_init env) (tss_step env) s"
  shows "\<exists>as s'. gets (tss_get env t) n s = Ok (as, s') \<and> distinct as \<and> (\<forall>bs. mset bs = mset as \<longrightarrow>
      (\<exists>s''. puts (\<lambda>a. tss_put env (Some a)) bs s' = Ok s'' \<and> tss_ok s'' \<and> held s'' = held s))"
  by (rule tss_lender.gets_puts [OF tss_sys.reachable_inv [OF assms]])

theorem tss_gets_puts_witness:
  "\<exists>s as s'. gets (tss_get tss_lab 1) 3 s = Ok (as, s') \<and> distinct as"
proof -
  from tss_lab_reach obtain s where "reach (tss_init tss_lab) (tss_step tss_lab) s" by blast
  from tss_gets_puts [OF this, of 1 3] show ?thesis by blast
qed

end
