(* ===== verification/GeneratorText.thy ===== *)
theory GeneratorText
  imports Prelude
begin

text \<open>
  The text the generator writes: type names, namespaces and signatures
  (src/thrift\_0.5.0\_patch/t\_cpp\_generator.cc) and the \<open>to_string\<close> functions and asynchronous
  signatures (t\_cpp\_generator.cc.inl).  The type tree is the one of the Thrift compiler, with what these
  functions ask of it.  A line of output is its indentation and its text.
\<close>

section \<open>Types\<close>

datatype t_base = TYPE_VOID | TYPE_STRING | TYPE_BOOL | TYPE_BYTE | TYPE_I16 | TYPE_I32 | TYPE_I64 | TYPE_DOUBLE

text \<open>A program: its identity and its C++ namespace, with periods.\<close>

type_synonym program = "nat \<times> string"

datatype ttype = TBase t_base
  | TList ttype "string option" | TSet ttype "string option" | TMap ttype ttype "string option"
  | TStruct "program option" string | TXception "program option" string
  | TEnum "program option" string | TTypedef "program option" string ttype

text \<open>\<open>program_\<close> and \<open>gen_pure_enums_\<close>.\<close>

record gen_env =
  gen_program :: program
  gen_pure_enums :: bool

fun get_true_type :: "ttype \<Rightarrow> ttype" where
  "get_true_type (TTypedef p n t) = get_true_type t"
| "get_true_type t = t"

definition is_complex_type :: "ttype \<Rightarrow> bool" where
  "is_complex_type t = (case get_true_type t of
       TList _ _ \<Rightarrow> True | TSet _ _ \<Rightarrow> True | TMap _ _ _ \<Rightarrow> True
     | TStruct _ _ \<Rightarrow> True | TXception _ _ \<Rightarrow> True
     | TBase b \<Rightarrow> b = TYPE_STRING
     | _ \<Rightarrow> False)"

text \<open>The loops over \<open>ns.find(".")\<close>: the part before the first period and the rest, if there is one.\<close>

fun cut_dot :: "string \<Rightarrow> (string \<times> string) option" where
  "cut_dot [] = None"
| "cut_dot (c # cs) = (if c = CHR ''.'' then Some ([], cs) else map_option (\<lambda>(a, b). (c # a, b)) (cut_dot cs))"

lemma cut_dot_shorter: "cut_dot s = Some (a, b) \<Longrightarrow> length b < length s"
  by (induction s arbitrary: a) (auto split: if_splits)

function prefix_loop :: "string \<Rightarrow> string \<Rightarrow> string" where
  "prefix_loop ns result = (case cut_dot ns of
       Some (a, b) \<Rightarrow> prefix_loop b (result @ a @ ''::'')
     | None \<Rightarrow> if ns \<noteq> [] then result @ ns @ ''::'' else result)"
  by pat_completeness auto
termination by (relation "measure (length \<circ> fst)") (auto dest: cut_dot_shorter)

function open_loop :: "string \<Rightarrow> string \<Rightarrow> string \<Rightarrow> string" where
  "open_loop ns result separator = (case cut_dot ns of
       Some (a, b) \<Rightarrow> open_loop b (result @ separator @ ''namespace '' @ a @ '' {'') '' ''
     | None \<Rightarrow> if ns \<noteq> [] then result @ separator @ ''namespace '' @ ns @ '' {'' else result)"
  by pat_completeness auto
termination by (relation "measure (length \<circ> fst)") (auto dest: cut_dot_shorter)

function close_loop :: "string \<Rightarrow> string \<Rightarrow> string" where
  "close_loop ns result = (case cut_dot ns of
       Some (a, b) \<Rightarrow> close_loop b (result @ ''}'')
     | None \<Rightarrow> result)"
  by pat_completeness auto
termination by (relation "measure (length \<circ> fst)") (auto dest: cut_dot_shorter)

declare prefix_loop.simps [simp del] open_loop.simps [simp del] close_loop.simps [simp del]

definition namespace_prefix :: "string \<Rightarrow> string" where
  "namespace_prefix ns = (if ns = [] then [] else prefix_loop ns [])"

definition namespace_open :: "string \<Rightarrow> string" where
  "namespace_open ns = (if ns = [] then [] else open_loop ns [] [])"

definition namespace_close :: "string \<Rightarrow> string" where
  "namespace_close ns = (if ns = [] then [] else close_loop ns ''}'' @ '' // namespace'')"

fun base_type_name :: "t_base \<Rightarrow> string" where
  "base_type_name TYPE_VOID = ''void''"
| "base_type_name TYPE_STRING = ''std::string''"
| "base_type_name TYPE_BOOL = ''bool''"
| "base_type_name TYPE_BYTE = ''int8_t''"
| "base_type_name TYPE_I16 = ''int16_t''"
| "base_type_name TYPE_I32 = ''int32_t''"
| "base_type_name TYPE_I64 = ''int64_t''"
| "base_type_name TYPE_DOUBLE = ''double''"

text \<open>The name of a type that is neither a base type nor a container.\<close>

definition named_type :: "gen_env \<Rightarrow> bool \<Rightarrow> program option \<Rightarrow> string \<Rightarrow> string" where
  "named_type g cls prog name = (let class_prefix = (if cls then ''class '' else [])
     in case prog of
          Some (p, ns) \<Rightarrow> if p \<noteq> fst (gen_program g) then class_prefix @ namespace_prefix ns @ name else class_prefix @ name
        | None \<Rightarrow> class_prefix @ name)"

definition as_argument :: "bool \<Rightarrow> bool \<Rightarrow> string \<Rightarrow> string" where
  "as_argument arg reference name =
     (if arg then if reference then ''const '' @ name @ ''&'' else ''const '' @ name else name)"

fun type_name :: "gen_env \<Rightarrow> bool \<Rightarrow> bool \<Rightarrow> ttype \<Rightarrow> string" where
  "type_name g in_typedef arg (TBase b) = as_argument arg (b = TYPE_STRING) (base_type_name b)"
| "type_name g in_typedef arg (TMap k v cpp) = as_argument arg True (case cpp of Some n \<Rightarrow> n
     | None \<Rightarrow> ''std::map<'' @ type_name g in_typedef False k @ '', '' @ type_name g in_typedef False v @ ''> '')"
| "type_name g in_typedef arg (TSet e cpp) = as_argument arg True (case cpp of Some n \<Rightarrow> n
     | None \<Rightarrow> ''std::set<'' @ type_name g in_typedef False e @ ''> '')"
| "type_name g in_typedef arg (TList e cpp) = as_argument arg True (case cpp of Some n \<Rightarrow> n
     | None \<Rightarrow> ''std::vector<'' @ type_name g in_typedef False e @ ''> '')"
| "type_name g in_typedef arg (TStruct p n) = as_argument arg True (named_type g in_typedef p n)"
| "type_name g in_typedef arg (TXception p n) = as_argument arg True (named_type g in_typedef p n)"
| "type_name g in_typedef arg (TEnum p n) =
     as_argument arg False (named_type g False p n @ (if gen_pure_enums g then [] else ''::type''))"
| "type_name g in_typedef arg (TTypedef p n t) =
     as_argument arg (is_complex_type (TTypedef p n t)) (named_type g False p n)"

section \<open>Signatures\<close>

record t_field =
  fd_name :: string
  fd_type :: ttype
  fd_optional :: bool

record t_function =
  tf_name :: string
  tf_return :: ttype
  tf_args :: "t_field list"
  tf_oneway :: bool

fun argument_loop :: "gen_env \<Rightarrow> bool \<Rightarrow> t_field list \<Rightarrow> bool \<Rightarrow> string \<Rightarrow> string" where
  "argument_loop g name_params [] first result = result"
| "argument_loop g name_params (f # fs) first result =
     argument_loop g name_params fs False (result @ (if first then [] else '', '') @ type_name g False True (fd_type f) @ '' ''
       @ (if name_params then fd_name f else ''/* '' @ fd_name f @ '' */''))"

definition argument_list :: "gen_env \<Rightarrow> t_field list \<Rightarrow> bool \<Rightarrow> string" where
  "argument_list g fs name_params = argument_loop g name_params fs True []"

definition function_signature :: "gen_env \<Rightarrow> t_function \<Rightarrow> string \<Rightarrow> bool \<Rightarrow> string" where
  "function_signature g f prefix name_params =
     (if is_complex_type (tf_return f) then
        ''void '' @ prefix @ tf_name f @ ''('' @ type_name g False False (tf_return f)
        @ (if name_params then ''& _return'' else ''& /* _return */'')
        @ (if tf_args f = [] then [] else '', '' @ argument_list g (tf_args f) name_params) @ '')''
      else
        type_name g False False (tf_return f) @ '' '' @ prefix @ tf_name f @ ''('' @ argument_list g (tf_args f) name_params @ '')'')"

text \<open>\<open>is_void\<close> asks the type itself, typedefs are not resolved.\<close>

definition async_if_function_signature :: "gen_env \<Rightarrow> t_function \<Rightarrow> string \<Rightarrow> bool \<Rightarrow> string" where
  "async_if_function_signature g f prefix name_params =
     (if prefix = [] then ''virtual '' else []) @ ''void '' @ (if prefix \<noteq> [] then prefix else [])
     @ ''async_'' @ tf_name f @ ''(''
     @ (if tf_return f \<noteq> TBase TYPE_VOID then type_name g False False (tf_return f) @ ''& _return, '' else [])
     @ (if tf_args f \<noteq> [] then argument_list g (tf_args f) name_params @ '', '' else [])
     @ ''::apache::thrift::async::AsyncRPCCallback callback'' @ '')''"

definition async_process_function_signature :: "t_function \<Rightarrow> string \<Rightarrow> string" where
  "async_process_function_signature f prefix =
     ''void '' @ (if prefix \<noteq> [] then prefix else []) @ ''process_'' @ tf_name f @ ''('' @ ''int32_t seqid, ''
     @ ''::apache::thrift::async::AsyncProcessorCallback callback, ''
     @ ''::apache::thrift::protocol::TProtocol * input_protocol, ''
     @ ''::apache::thrift::protocol::TProtocol * output_protocol'' @ '')''"

definition async_complete_function_signature :: "t_function \<Rightarrow> string \<Rightarrow> string \<Rightarrow> string" where
  "async_complete_function_signature f svcname prefix =
     ''void '' @ (if prefix \<noteq> [] then prefix else []) @ ''complete_'' @ tf_name f @ ''('' @ ''int32_t seqid, ''
     @ ''::apache::thrift::async::AsyncProcessorCallback callback, ''
     @ ''::apache::thrift::protocol::TProtocol * input_protocol, ''
     @ ''::apache::thrift::protocol::TProtocol * output_protocol, ''
     @ ''boost::shared_ptr<'' @ svcname @ ''_'' @ tf_name f @ ''_args> '' @ tf_name f @ ''_args, ''
     @ (if \<not> tf_oneway f then ''boost::shared_ptr<'' @ svcname @ ''_'' @ tf_name f @ ''_result> '' @ tf_name f @ ''_result, '' else [])
     @ ''const boost::system::error_code& ec'' @ '')''"

section \<open>The to\_string functions\<close>

datatype line = Line nat string | Blank

definition get_iterator_name :: "string \<Rightarrow> nat \<Rightarrow> string" where
  "get_iterator_name name recursive = replicate recursive (CHR ''_'') @ name"

text \<open>\<open>oss << 'c';\<close>, and a text in double quotes.\<close>

definition put_char :: "char \<Rightarrow> string" where
  "put_char c = ''oss << '' @ [CHR 0x27, c, CHR 0x27] @ '';''"

definition quoted :: "string \<Rightarrow> string" where
  "quoted s = [CHR 0x22] @ s @ [CHR 0x22]"

text \<open>The two lines that open the loop over a container.\<close>

definition loop_lines :: "gen_env \<Rightarrow> nat \<Rightarrow> ttype \<Rightarrow> string \<Rightarrow> nat \<Rightarrow> line list" where
  "loop_lines g k t field_name r =
     (let a = get_iterator_name ''first'' r; b = get_iterator_name ''last'' r
      in [Line k (type_name g False False t @ ''::const_iterator '' @ a @ '' = '' @ field_name @ ''.begin(), ''
                    @ b @ '' = '' @ field_name @ ''.end();''),
          Line k (''for (; '' @ a @ ''!='' @ b @ ''; ++'' @ a @ '') {'')])"

definition deref :: "nat \<Rightarrow> string" where
  "deref r = ''(*'' @ get_iterator_name ''first'' r @ '')''"

text \<open>\<open>k\<close> is the indentation at the call; every function leaves it as it was.\<close>

fun generate_type_tostring :: "gen_env \<Rightarrow> nat \<Rightarrow> ttype \<Rightarrow> string \<Rightarrow> nat \<Rightarrow> line list" where
  "generate_type_tostring g k (TList e cpp) field_name r =
     [Line k (put_char (CHR ''[''))] @ loop_lines g k (TList e cpp) field_name r
     @ generate_type_tostring g (k + 1) e (deref r) (r + 1)
     @ [Line (k + 1) (put_char (CHR '','')), Line k ''}'', Line k (put_char (CHR '']''))]"
| "generate_type_tostring g k (TSet e cpp) field_name r =
     [Line k (put_char (CHR ''{''))] @ loop_lines g k (TSet e cpp) field_name r
     @ generate_type_tostring g (k + 1) e (deref r) (r + 1)
     @ [Line (k + 1) (put_char (CHR '','')), Line k ''}'', Line k (put_char (CHR ''}''))]"
| "generate_type_tostring g k (TMap key val cpp) field_name r =
     [Line k (put_char (CHR ''{''))] @ loop_lines g k (TMap key val cpp) field_name r
     @ [Line (k + 1) ''{''] @ generate_type_tostring g (k + 2) key (deref r @ ''.first'') (r + 1)
     @ [Line (k + 1) ''}'', Line (k + 1) (put_char (CHR '':'')), Line (k + 1) ''{'']
     @ generate_type_tostring g (k + 2) val (deref r @ ''.second'') (r + 1)
     @ [Line (k + 1) ''}'', Line (k + 1) (put_char (CHR '','')), Line k ''}'', Line k (put_char (CHR ''}''))]"
| "generate_type_tostring g k t field_name r =
     (let q = quoted [CHR 0x27, CHR 0x27, CHR 0x27]
      in if t = TBase TYPE_STRING then [Line k (''oss << '' @ q @ '' << '' @ field_name @ '' << '' @ q @ '';'')]
         else [Line k (''oss << '' @ field_name @ '';'')])"

definition field_lines :: "gen_env \<Rightarrow> nat \<Rightarrow> t_field \<Rightarrow> line list" where
  "field_lines g k f = [Line k (''oss << '' @ quoted (fd_name f @ '' = '') @ '';'')]
     @ generate_type_tostring g k (fd_type f) (fd_name f) 0 @ [Line k ''oss << std::endl;'']"

definition generate_field_tostring :: "gen_env \<Rightarrow> nat \<Rightarrow> t_field \<Rightarrow> line list" where
  "generate_field_tostring g k f =
     (if fd_optional f then
        [Line k (''if (__isset.'' @ fd_name f @ '') {'')] @ field_lines g (k + 1) f
        @ [Line k ''} else {'', Line (k + 1) (''oss << '' @ quoted (fd_name f @ '' is not set'') @ '' << std::endl;''), Line k ''}'']
      else [Line k ''{''] @ field_lines g (k + 1) f @ [Line k ''}'']) @ [Blank]"

definition generate_tostring :: "gen_env \<Rightarrow> nat \<Rightarrow> string \<Rightarrow> t_field list \<Rightarrow> line list" where
  "generate_tostring g k name fs =
     [Line k (''void '' @ name @ ''::to_string(::std::string * s) const {''), Line (k + 1) ''std::ostringstream oss;'',
      Line (k + 1) (put_char (CHR ''('')), Blank]
     @ concat (map (generate_field_tostring g (k + 1)) fs)
     @ [Line (k + 1) (put_char (CHR '')'')), Blank, Line (k + 1) ''*s = oss.str();'', Line k ''}'', Blank]"

section \<open>Blocks\<close>

text \<open>
  The depth after a list of lines that starts at depth \<open>d\<close>, \<open>None\<close> when a line is not indented by the
  depth it stands at: a line that begins with a closing brace stands one up, a line that ends with an
  opening brace begins a block.
\<close>

fun depth :: "nat \<Rightarrow> line list \<Rightarrow> nat option" where
  "depth d [] = Some d"
| "depth d (Blank # ls) = depth d ls"
| "depth d (Line k s # ls) =
     (let up = s \<noteq> [] \<and> hd s = CHR ''}''; down = s \<noteq> [] \<and> last s = CHR ''{'';
          d' = (if up then d - 1 else d)
      in if up \<and> d = 0 \<or> k \<noteq> d' then None else depth (if down then d' + 1 else d') ls)"

lemma depth_append: "depth d (ls @ ms) = (case depth d ls of None \<Rightarrow> None | Some d' \<Rightarrow> depth d' ms)"
  by (induction d ls rule: depth.induct) (auto simp: Let_def)

lemma put_char_ends [simp]: "put_char c \<noteq> []" "hd (put_char c) = CHR ''o''" "last (put_char c) = CHR '';''"
  by (simp_all add: put_char_def)

lemma depth_put_char [simp]: "depth k (Line k (put_char c) # ls) = depth k ls"
  by (simp add: put_char_ends)

text \<open>No custom container name begins with a closing brace.\<close>

fun custom_names :: "ttype \<Rightarrow> string list" where
  "custom_names (TList e cpp) = (case cpp of None \<Rightarrow> [] | Some n \<Rightarrow> [n]) @ custom_names e"
| "custom_names (TSet e cpp) = (case cpp of None \<Rightarrow> [] | Some n \<Rightarrow> [n]) @ custom_names e"
| "custom_names (TMap k v cpp) = (case cpp of None \<Rightarrow> [] | Some n \<Rightarrow> [n]) @ custom_names k @ custom_names v"
| "custom_names t = []"

definition names_ok :: "ttype \<Rightarrow> bool" where
  "names_ok t \<longleftrightarrow> list_all (\<lambda>n. n = [] \<or> hd n \<noteq> CHR ''}'') (custom_names t)"

definition is_container :: "ttype \<Rightarrow> bool" where
  "is_container t = (case t of TList _ _ \<Rightarrow> True | TSet _ _ \<Rightarrow> True | TMap _ _ _ \<Rightarrow> True | _ \<Rightarrow> False)"

lemma names_ok_simps [simp]:
  "names_ok (TList e cpp) \<longleftrightarrow> (\<forall>n. cpp = Some n \<longrightarrow> n = [] \<or> hd n \<noteq> CHR ''}'') \<and> names_ok e"
  "names_ok (TSet e cpp) \<longleftrightarrow> (\<forall>n. cpp = Some n \<longrightarrow> n = [] \<or> hd n \<noteq> CHR ''}'') \<and> names_ok e"
  "names_ok (TMap key v cpp) \<longleftrightarrow> (\<forall>n. cpp = Some n \<longrightarrow> n = [] \<or> hd n \<noteq> CHR ''}'') \<and> names_ok key \<and> names_ok v"
  by (cases cpp; auto simp: names_ok_def)+

lemma hd_type_name: "is_container t \<Longrightarrow> names_ok t \<Longrightarrow> type_name g False False t = [] \<or> hd (type_name g False False t) \<noteq> CHR ''}''"
  by (cases t) (auto simp: is_container_def as_argument_def split: option.splits)

lemma depth_loop_lines:
  assumes "is_container t" and "names_ok t"
  shows "depth k (loop_lines g k t field_name r @ ls) = depth (k + 1) ls"
proof -
  have "hd (type_name g False False t @ ''::const_iterator '' @ x) \<noteq> CHR ''}''" for x
    using hd_type_name [OF assms, of g] by (cases "type_name g False False t") auto
  then show ?thesis by (simp add: loop_lines_def Let_def)
qed

lemma depth_type_tostring:
  "names_ok t \<Longrightarrow> depth k (generate_type_tostring g k t field_name r @ ls) = depth k ls"
proof (induction g k t field_name r arbitrary: ls rule: generate_type_tostring.induct)
  case (1 g k e cpp field_name r)
  then have "names_ok (TList e cpp)" by simp
  from depth_loop_lines [OF _ this] 1 show ?case by (simp add: is_container_def)
next
  case (2 g k e cpp field_name r)
  then have "names_ok (TSet e cpp)" by simp
  from depth_loop_lines [OF _ this] 2 show ?case by (simp add: is_container_def)
next
  case (3 g k key val cpp field_name r)
  then have "names_ok (TMap key val cpp)" by simp
  from depth_loop_lines [OF _ this] 3 show ?case by (simp add: is_container_def)
qed (auto simp: Let_def)

lemma depth_field_lines: "names_ok (fd_type f) \<Longrightarrow> depth k (field_lines g k f @ ls) = depth k ls"
  using depth_type_tostring [of "fd_type f" k g "fd_name f" 0] by (simp add: field_lines_def Let_def)

lemma depth_field: "names_ok (fd_type f) \<Longrightarrow> depth k (generate_field_tostring g k f @ ls) = depth k ls"
  using depth_field_lines [of f "k + 1" g] by (simp add: generate_field_tostring_def Let_def)

lemma depth_fields:
  "\<forall>f \<in> set fs. names_ok (fd_type f) \<Longrightarrow> depth k (concat (map (generate_field_tostring g k) fs) @ ls) = depth k ls"
  by (induction fs) (auto simp: depth_field)

text \<open>In the text of a to_string function every line is indented by the number of blocks open around
  it and every block opened is closed, whatever the fields and however deeply the containers nest.\<close>

theorem tostring_blocks_nest:
  assumes "\<forall>f \<in> set fs. names_ok (fd_type f)"
  shows "depth k (generate_tostring g k name fs) = Some k"
  using depth_fields [OF assms, of "k + 1" g] by (simp add: generate_tostring_def Let_def put_char_ends)

definition sample_env :: gen_env where
  "sample_env = \<lparr>gen_program = (0, ''thrift_ext''), gen_pure_enums = False\<rparr>"

definition cost_field :: t_field where
  "cost_field = \<lparr>fd_name = ''rpc_cost'', fd_type = TMap (TBase TYPE_STRING) (TMap (TBase TYPE_I32) (TBase TYPE_I64) None) None,
     fd_optional = True\<rparr>"

theorem tostring_blocks_nest_witness:
  "depth 0 (generate_tostring sample_env 0 ''ServiceStatusRT'' [cost_field]) = Some 0"
  by (rule tostring_blocks_nest) (simp add: cost_field_def names_ok_def)

text \<open>A container field called like the iterator reads the iterator it declares.\<close>

lemma field_named_first:
  "Line 1 ''std::vector<int32_t> ::const_iterator first = first.begin(), last = first.end();''
     \<in> set (generate_type_tostring sample_env 1 (TList (TBase TYPE_I32) None) ''first'' 0)"
  by (simp add: loop_lines_def get_iterator_name_def as_argument_def Let_def)

text \<open>A field whose type is a typedef of a container is written out as it is.\<close>

lemma typedef_not_resolved:
  "generate_type_tostring g k (TTypedef p n (TList e cpp)) field_name r = [Line k (''oss << '' @ field_name @ '';'')]"
  by simp

section \<open>Namespaces\<close>

text \<open>The names between the periods.\<close>

fun components :: "string \<Rightarrow> string list" where
  "components [] = [[]]"
| "components (c # cs) = (if c = CHR ''.'' then [] # components cs else (c # hd (components cs)) # tl (components cs))"

lemma components_cut: "components ns = (case cut_dot ns of None \<Rightarrow> [ns] | Some (a, b) \<Rightarrow> a # components b)"
  by (induction ns) (auto split: option.splits)

lemma components_ne: "components ns \<noteq> []"
  by (cases ns) auto

definition named_components :: "string \<Rightarrow> string list" where
  "named_components ns = (if last (components ns) = [] then butlast (components ns) else components ns)"

lemma named_components_cut:
  "cut_dot ns = Some (a, b) \<Longrightarrow> named_components ns = a # named_components b"
  "cut_dot ns = None \<Longrightarrow> named_components ns = (if ns = [] then [] else [ns])"
  by (simp_all add: named_components_def components_cut [of ns] components_ne)

lemma prefix_loop_components:
  "prefix_loop ns result = result @ concat (map (\<lambda>c. c @ ''::'') (named_components ns))"
  by (induction ns result rule: prefix_loop.induct)
    (subst prefix_loop.simps, auto simp: named_components_cut split: option.splits)

lemma cut_dot_set: "cut_dot s = Some (a, b) \<Longrightarrow> set a \<union> set b \<subseteq> set s"
proof (induction s arbitrary: a)
  case (Cons x s)
  then show ?case by (cases "cut_dot s") (fastforce split: if_splits)+
qed simp

lemma open_loop_braces:
  "CHR ''{'' \<notin> set ns \<Longrightarrow> CHR ''{'' \<notin> set separator \<Longrightarrow>
     count_list (open_loop ns result separator) (CHR ''{'') = count_list result (CHR ''{'') + length (named_components ns)"
proof (induction ns result separator rule: open_loop.induct)
  case (1 ns result separator)
  show ?case
  proof (cases "cut_dot ns")
    case None
    with 1 show ?thesis by (subst open_loop.simps) (simp add: named_components_cut)
  next
    case (Some ab)
    obtain a b where ab: "ab = (a, b)" by (cases ab)
    have s: "CHR ''{'' \<notin> set a" "CHR ''{'' \<notin> set b" using cut_dot_set [of ns a b] Some ab 1 by auto
    with 1 Some ab show ?thesis by (subst open_loop.simps) (simp add: named_components_cut)
  qed
qed

lemma close_loop_braces:
  "count_list (close_loop ns result) (CHR ''}'') = count_list result (CHR ''}'') + length (components ns) - 1"
proof (induction ns result rule: close_loop.induct)
  case (1 ns result)
  show ?case
  proof (cases "cut_dot ns")
    case None
    then show ?thesis by (subst close_loop.simps) (simp add: components_cut)
  next
    case (Some ab)
    obtain a b where ab: "ab = (a, b)" by (cases ab)
    have "components b \<noteq> []" by (rule components_ne)
    with 1 Some ab show ?thesis by (subst close_loop.simps) (simp add: components_cut [of ns])
  qed
qed

lemma components_one: "components ns = [x] \<Longrightarrow> x = ns"
proof (induction ns arbitrary: x)
  case (Cons c cs)
  then show ?case using components_ne [of cs] by (cases "components cs") (auto split: if_splits)
qed simp

lemma components_last: "last (components ns) = [] \<longleftrightarrow> ns = [] \<or> last ns = CHR ''.''"
proof (induction ns)
  case (Cons c cs)
  then show ?case using components_ne [of cs] components_one [of cs] by (cases "components cs") auto
qed simp

text \<open>The prefix of a namespace names its components in turn; the text that opens it begins one block
  for each, and the one that closes it ends as many exactly when the namespace does not end in a period.\<close>

theorem namespace_blocks:
  assumes "CHR ''{'' \<notin> set ns"
  shows "namespace_prefix ns = concat (map (\<lambda>c. c @ ''::'') (named_components ns))
    \<and> count_list (namespace_open ns) (CHR ''{'') = length (named_components ns)
    \<and> (count_list (namespace_open ns) (CHR ''{'') = count_list (namespace_close ns) (CHR ''}'')
        \<longleftrightarrow> ns = [] \<or> last ns \<noteq> CHR ''.'')"
proof (cases "ns = []")
  case True
  then show ?thesis by (simp add: namespace_prefix_def namespace_open_def namespace_close_def named_components_def)
next
  case False
  have "length (components ns) - Suc 0 \<noteq> length (components ns)" using components_ne [of ns] by (cases "components ns") simp_all
  with False assms open_loop_braces [of ns "[]" "[]"] close_loop_braces [of ns "''}''"] prefix_loop_components [of ns "[]"]
    components_last [of ns]
  show ?thesis by (auto simp: namespace_prefix_def namespace_open_def namespace_close_def named_components_def)
qed

theorem namespace_blocks_witness:
  "namespace_prefix ''facebook.fb303'' = ''facebook::fb303::''"
  using namespace_blocks [of "''facebook.fb303''"] by (simp add: named_components_def)

end
