(* ===== verification/GeneratorClasses.thy ===== *)
theory GeneratorClasses
  imports GeneratorText
begin

text \<open>
  The files \<open>generate_async\<close> writes for a service (src/thrift\_0.5.0\_patch/t\_cpp\_generator.cc.inl): the
  classes of the asynchronous client, interface, null handler and processor in a header, and their
  functions in a source file.  A file is a list of lines; \<open>Line k s\<close> is \<open>k\<close> indentations and \<open>s\<close>.
\<close>

section \<open>Services and files\<close>

text \<open>A service: its name, the C++ namespace of its program, its functions and the service it extends.\<close>

datatype t_service = Svc (sv_name: string) (sv_ns: string) (sv_functions: "t_function list")
  (sv_extends: "t_service option")

text \<open>\<open>get_out_dir\<close>, \<open>autogen_comment\<close>, \<open>use_include_prefix_\<close>, the include prefix of the program and
  \<open>out_dir_base_\<close>.\<close>

record gen_files =
  gf_out_dir :: string
  gf_autogen :: "line list"
  gf_use_prefix :: bool
  gf_prefix :: string
  gf_out_base :: string

text \<open>Up to the last slash.\<close>

definition before_slash :: "string \<Rightarrow> string option" where
  "before_slash s = (if CHR ''/'' \<in> set s then Some (rev (tl (dropWhile (\<lambda>c. c \<noteq> CHR ''/'') (rev s)))) else None)"

definition get_include_prefix :: "gen_files \<Rightarrow> string" where
  "get_include_prefix e =
     (if \<not> gf_use_prefix e \<or> (gf_prefix e \<noteq> [] \<and> hd (gf_prefix e) = CHR ''/'') then []
      else case before_slash (gf_prefix e) of Some d \<Rightarrow> d @ ''/'' @ gf_out_base e @ ''/'' | None \<Rightarrow> [])"

definition to_upper :: "char \<Rightarrow> char" where
  "to_upper c = (let n = of_char c :: nat in if 97 \<le> n \<and> n \<le> 122 then char_of (n - 32) else c)"

text \<open>The names of the classes.\<close>

definition client_class :: "t_service \<Rightarrow> string" where
  "client_class s = ''Async'' @ sv_name s @ ''Client''"

definition if_class :: "t_service \<Rightarrow> string" where
  "if_class s = ''Async'' @ sv_name s @ ''If''"

definition null_class :: "t_service \<Rightarrow> string" where
  "null_class s = ''Async'' @ sv_name s @ ''Null''"

definition processor_class :: "t_service \<Rightarrow> string" where
  "processor_class s = ''Async'' @ sv_name s @ ''Processor''"

definition op_enum :: "t_function \<Rightarrow> string" where
  "op_enum f = ''kasync_'' @ tf_name f"

definition is_void :: "t_function \<Rightarrow> bool" where
  "is_void f \<longleftrightarrow> tf_return f = TBase TYPE_VOID"

section \<open>generate\_async\_client, the header\<close>

definition enum_lines :: "t_service \<Rightarrow> line list" where
  "enum_lines s =
     [Line 2 (''kasync_'' @ client_class s @ ''_begin = '' @ (case sv_extends s of
         Some b \<Rightarrow> namespace_prefix (sv_ns b) @ client_class b @ ''::kasync_'' @ client_class b @ ''_end,''
       | None \<Rightarrow> ''0,''))]
     @ map (\<lambda>f. Line 2 (op_enum f @ '','')) (sv_functions s)
     @ [Line 2 (''kasync_'' @ client_class s @ ''_end,'')]"

definition client_declarations :: "gen_env \<Rightarrow> t_function \<Rightarrow> line list" where
  "client_declarations g f = [Line 1 (async_if_function_signature g f [] True @ '';''),
     Line 1 (''virtual '' @ function_signature g f [] True @ '';'')]"

definition client_header :: "gen_env \<Rightarrow> t_service \<Rightarrow> line list" where
  "client_header g s =
     [Line 0 (''class '' @ client_class s), Line 1 ('': virtual public '' @ sv_name s @ ''If,'')]
     @ (case sv_extends s of
          Some b \<Rightarrow> [Line 1 (''public '' @ namespace_prefix (sv_ns b) @ client_class b)]
        | None \<Rightarrow> [Line 1 ''public ::apache::thrift::async::AsyncThriftClient''])
     @ [Line 0 ''{'', Line 0 ''public:'',
        Line 1 (client_class s @ ''();''),
        Line 1 (''explicit '' @ client_class s @ ''(const boost::shared_ptr<boost::asio::ip::tcp::socket>& socket);''),
        Line 1 (''virtual ~'' @ client_class s @ ''();''), Blank]
     @ concat (map (client_declarations g) (sv_functions s)) @ [Blank]
     @ [Line 0 ''public:'', Line 1 ''enum {''] @ enum_lines s @ [Line 1 ''};'', Blank]
     @ [Line 0 ''protected:'', Line 1 ''virtual void fill_result(AsyncOp& op);'', Blank,
        Line 0 ''private:'', Line 1 (''boost::shared_ptr<'' @ sv_name s @ ''Client> client_;''),
        Line 0 ''};'', Blank]"

section \<open>generate\_async\_client, the source\<close>

definition client_constructors :: "t_service \<Rightarrow> line list" where
  "client_constructors s =
     (let cls = client_class s;
          base = (case sv_extends s of Some b \<Rightarrow> client_class b | None \<Rightarrow> ''AsyncThriftClient'');
          reset = Line 1 (''client_.reset(new '' @ sv_name s @ ''Client(input_proto_, output_proto_));'')
      in [Line 0 (cls @ ''::'' @ cls @ ''() : '' @ base @ ''() {''), reset, Line 0 ''}'', Blank,
          Line 0 (cls @ ''::'' @ cls @ ''(const boost::shared_ptr<boost::asio::ip::tcp::socket>& socket) : ''
            @ base @ ''(socket) {''), reset, Line 0 ''}'', Blank,
          Line 0 (cls @ ''::~'' @ cls @ ''() {}''), Blank])"

fun arg_string :: "t_field list \<Rightarrow> string" where
  "arg_string [] = []"
| "arg_string [f] = fd_name f"
| "arg_string (f # fs) = fd_name f @ '', '' @ arg_string fs"

definition not_connected_line :: line where
  "not_connected_line = Line 2
     ''boost::system::error_code ec(boost::system::posix_error::not_connected, boost::system::get_posix_category());''"

text \<open>The variables a stub declares, and the sending of the call.\<close>

definition frame_variables :: "line list" where
  "frame_variables = [Line 1 ''uint32_t out_frame_size;'', Line 1 ''uint8_t * out_frame;'']"

definition send_lines :: "t_function \<Rightarrow> string \<Rightarrow> line list" where
  "send_lines f semicolon = [Line 1 ''output_buffer_->resetBuffer();'',
     Line 1 (''client_->send_'' @ tf_name f @ ''('' @ arg_string (tf_args f) @ '');''),
     Line 1 (''output_buffer_->getBuffer(&out_frame, &out_frame_size);'' @ semicolon), Blank]"

definition async_write_lines :: "string \<Rightarrow> line list" where
  "async_write_lines handler = [Line 2 ''boost::asio::async_write(*socket_,'',
     Line 3 ''boost::asio::buffer(out_frame, out_frame_size),'', Line 3 ''boost::asio::transfer_all(),'', Line 3 handler]"

definition async_stub_lines :: "gen_env \<Rightarrow> t_service \<Rightarrow> t_function \<Rightarrow> line list" where
  "async_stub_lines g s f =
     [Line 0 (async_if_function_signature g f (client_class s @ ''::'') True @ '' {''),
      Line 1 ''if (!is_open()) {'', not_connected_line, Line 2 ''callback(ec);'', Line 2 ''return;'', Line 1 ''}'', Blank]
     @ frame_variables @ [Blank]
     @ [Line 1 ''boost::shared_ptr<AsyncOp> op(new AsyncOp);'', Line 1 ''op->callback = callback;'',
        Line 1 (''op->rpc_type = '' @ op_enum f @ '';'')]
     @ [Line 1 (if \<not> is_void f then ''op->_return = static_cast<void*>(&_return);'' else ''op->_return = NULL;''),
        Line 1 (if tf_oneway f then ''op->is_oneway = true;'' else ''op->is_oneway = false;''), Blank,
        Line 1 ''assert(!pending_async_op_);'', Blank, Line 1 ''pending_async_op_.swap(op);'', Blank]
     @ send_lines f []
     @ [Line 1 ''if (strand_)'']
     @ async_write_lines (''strand_->wrap(boost::bind(&'' @ client_class s @ ''::handle_write, this, _1, _2)));'')
     @ [Line 1 ''else'']
     @ async_write_lines (''boost::bind(&'' @ client_class s @ ''::handle_write, this, _1, _2));'')
     @ [Line 0 ''}'', Blank]"

definition failed_lines :: "line list" where
  "failed_lines = [Line 1 ''if (ec) {'', Line 2 ''close();'',
     Line 2 (''GlobalOutput.printf('' @ quoted ''%s caught an error code: %s'' @ '', __FUNCTION__, ec.message().c_str());''),
     Line 2 ''throw boost::system::system_error(ec);'', Line 1 ''}'']"

definition receive_lines :: "line list" where
  "receive_lines = [Blank, Line 1 ''recv_buffer_.resize(kFrameSize);'',
     Line 1 ''boost::asio::read(*socket_, boost::asio::buffer(recv_buffer_), boost::asio::transfer_all(), ec);'']
     @ failed_lines
     @ [Line 1 ''get_frame_size();'', Blank,
        Line 1 ''if (frame_size_ >= kMaxFrameSize || frame_size_ == 0) {'', Line 2 ''close();'',
        Line 2 (''GlobalOutput.printf('' @ quoted ''%s illegal frame size: %u''
          @ '', socket_address_to_string(socket_).c_str(), frame_size_);''),
        Line 2 ''boost::system::error_code ec;'', Line 2 ''if (frame_size_ >= kMaxFrameSize)'',
        Line 3 ''ec = make_error_code(kProtoSizeLimit);'', Line 2 ''else'',
        Line 3 ''ec = make_error_code(kProtoNegativeSize);'', Line 2 ''throw boost::system::system_error(ec);'',
        Line 1 ''}'', Blank,
        Line 1 ''recv_buffer_.resize(kFrameSize+frame_size_);'',
        Line 1 (''boost::asio::read(*socket_, boost::asio::buffer(&recv_buffer_[0]+kFrameSize, frame_size_), ''
          @ ''boost::asio::transfer_all(), ec);''), Blank]
     @ failed_lines
     @ [Blank, Line 1 ''input_buffer_->resetBuffer(&recv_buffer_[0], recv_buffer_.size());'', Blank]"

definition sync_stub_lines :: "gen_env \<Rightarrow> t_service \<Rightarrow> t_function \<Rightarrow> line list" where
  "sync_stub_lines g s f =
     [Line 0 (function_signature g f (client_class s @ ''::'') True @ '' {''),
      Line 1 ''using ::apache::thrift::GlobalOutput;'', Blank,
      Line 1 ''if (!is_open()) {'', not_connected_line, Line 2 ''throw boost::system::system_error(ec);'', Line 1 ''}'', Blank]
     @ frame_variables @ [Line 1 ''boost::system::error_code ec;'', Blank]
     @ send_lines f '';''
     @ [Line 1 ''boost::asio::write(*socket_,'', Line 2 ''boost::asio::buffer(out_frame, out_frame_size),'',
        Line 2 ''boost::asio::transfer_all(), ec);'', Blank]
     @ failed_lines
     @ (if \<not> tf_oneway f then receive_lines
          @ [Line 1 (if is_complex_type (tf_return f) then ''client_->recv_'' @ tf_name f @ ''(_return);''
               else if \<not> is_void f then ''return client_->recv_'' @ tf_name f @ ''();''
               else ''client_->recv_'' @ tf_name f @ ''();'')]
        else [])
     @ [Line 0 ''}'', Blank]"

definition fill_case_lines :: "gen_env \<Rightarrow> t_function \<Rightarrow> line list" where
  "fill_case_lines g f =
     (if \<not> is_void f then
        [Line 1 (''case '' @ op_enum f @ '':''),
         Line 2 (if is_complex_type (tf_return f)
           then ''client_->recv_'' @ tf_name f @ ''(*(static_cast<'' @ type_name g False False (tf_return f) @ ''*>(op._return)));''
           else ''(*(static_cast<'' @ type_name g False False (tf_return f) @ ''*>(op._return))) = client_->recv_'' @ tf_name f @ ''();''),
         Line 2 ''break;'']
      else [])"

definition fill_result_lines :: "gen_env \<Rightarrow> t_service \<Rightarrow> line list" where
  "fill_result_lines g s =
     [Line 0 (''void '' @ client_class s @ ''::fill_result(AsyncOp& op) {''), Line 1 ''switch (op.rpc_type) {'']
     @ concat (map (fill_case_lines g) (sv_functions s))
     @ (case sv_extends s of Some b \<Rightarrow> [Line 1 ''default:'', Line 2 (client_class b @ ''::fill_result(op);''), Line 2 ''break;'']
        | None \<Rightarrow> [])
     @ [Line 1 ''}'', Line 0 ''}'', Blank]"

definition client_source :: "gen_env \<Rightarrow> t_service \<Rightarrow> line list" where
  "client_source g s = client_constructors s
     @ concat (map (\<lambda>f. async_stub_lines g s f @ sync_stub_lines g s f) (sv_functions s)) @ fill_result_lines g s"

section \<open>generate\_async\_if\_and\_processor, the header\<close>

definition if_header :: "gen_env \<Rightarrow> t_service \<Rightarrow> line list" where
  "if_header g s =
     [Line 0 (''class '' @ if_class s)]
     @ (case sv_extends s of Some b \<Rightarrow> [Line 1 ('': virtual public '' @ namespace_prefix (sv_ns b) @ if_class b)] | None \<Rightarrow> [])
     @ [Line 0 ''{'', Line 0 ''public:'', Line 1 (''virtual ~'' @ if_class s @ ''() {}''), Blank]
     @ map (\<lambda>f. Line 1 (async_if_function_signature g f [] True @ '' = 0;'')) (sv_functions s)
     @ [Line 0 ''};'', Blank]"

definition null_lines :: "gen_env \<Rightarrow> t_function \<Rightarrow> line list" where
  "null_lines g f = [Line 1 (async_if_function_signature g f [] True @ '' {''),
     Line 2 ''callback(boost::system::error_code());'', Line 1 ''}'']"

text \<open>A blank line between two functions.\<close>

fun blank_between :: "line list list \<Rightarrow> line list" where
  "blank_between [] = []"
| "blank_between [ls] = ls"
| "blank_between (ls # lss) = ls @ [Blank] @ blank_between lss"

text \<open>The base clause after a first base: the next base on a line of its own, if there is one.\<close>

definition base_clause :: "string \<Rightarrow> string \<Rightarrow> string option \<Rightarrow> line list" where
  "base_clause first access base = (case base of
       Some b \<Rightarrow> [Line 1 ('': virtual public '' @ first @ '',''), Line 1 (access @ b)]
     | None \<Rightarrow> [Line 1 ('': virtual public '' @ first)])"

definition null_header :: "gen_env \<Rightarrow> t_service \<Rightarrow> line list" where
  "null_header g s =
     [Line 0 (''class '' @ null_class s)]
     @ base_clause (if_class s) ''virtual public ''
         (map_option (\<lambda>b. namespace_prefix (sv_ns b) @ null_class b) (sv_extends s))
     @ [Line 0 ''{'', Line 0 ''public:'', Line 1 (''virtual ~'' @ null_class s @ ''() {}''), Blank]
     @ blank_between (map (null_lines g) (sv_functions s))
     @ [Line 0 ''};'', Blank]"

definition processor_declarations :: "t_service \<Rightarrow> t_function \<Rightarrow> line list" where
  "processor_declarations s f = [Line 1 (async_process_function_signature f [] @ '';''),
     Line 1 (async_complete_function_signature f (sv_name s) [] @ '';''), Blank]"

text \<open>A text the file contains in double quotes, and an entry of the map.\<close>

definition map_entry_line :: "t_service \<Rightarrow> t_function \<Rightarrow> line" where
  "map_entry_line s f = Line 2 (''process_fn_map_['' @ quoted (tf_name f) @ ''] = &''
     @ processor_class s @ ''::process_'' @ tf_name f @ '';'')"

definition processor_header :: "t_service \<Rightarrow> line list" where
  "processor_header s =
     [Line 0 (''class '' @ processor_class s)]
     @ base_clause ''::apache::thrift::async::AsyncProcessor'' ''public ''
         (map_option (\<lambda>b. namespace_prefix (sv_ns b) @ processor_class b) (sv_extends s))
     @ [Line 0 ''{'', Line 0 ''protected:'',
        Line 1 ''virtual void process_fn('',
        Line 2 ''::apache::thrift::protocol::TProtocol * input_protocol,'',
        Line 2 ''::apache::thrift::protocol::TProtocol * output_protocol,'',
        Line 2 ''::apache::thrift::async::AsyncProcessorCallback callback,'',
        Line 2 ''std::string& fname, int32_t seqid);'', Blank,
        Line 0 ''private:'',
        Line 1 (''boost::shared_ptr<'' @ if_class s @ ''> handler_;''), Blank,
        Line 1 ''typedef std::map<std::string,'',
        Line 2 (''void ('' @ processor_class s @ ''::*)(''),
        Line 2 ''int32_t, ::apache::thrift::async::AsyncProcessorCallback,'',
        Line 2 ''::apache::thrift::protocol::TProtocol *,'',
        Line 2 ''::apache::thrift::protocol::TProtocol *)> FunctionMap;'',
        Line 1 ''FunctionMap process_fn_map_;'', Blank]
     @ concat (map (processor_declarations s) (sv_functions s))
     @ [Line 0 ''public:'', Line 1 (processor_class s @ ''(const boost::shared_ptr<'' @ if_class s @ ''>& handler)''),
        Line 2 (case sv_extends s of
            Some b \<Rightarrow> '': '' @ namespace_prefix (sv_ns b) @ processor_class b @ ''(handler), handler_(handler) {''
          | None \<Rightarrow> '': handler_(handler) {'')]
     @ map (map_entry_line s) (sv_functions s)
     @ [Line 1 ''}'', Blank, Line 1 (''virtual ~'' @ processor_class s @ ''() {}''), Line 0 ''};'', Blank]"

section \<open>generate\_async\_if\_and\_processor, the source\<close>

definition process_fn_lines :: "t_service \<Rightarrow> line list" where
  "process_fn_lines s =
     [Line 0 (''void '' @ processor_class s @ ''::process_fn(''),
      Line 1 ''::apache::thrift::protocol::TProtocol * input_protocol,'',
      Line 1 ''::apache::thrift::protocol::TProtocol * output_protocol,'',
      Line 1 ''::apache::thrift::async::AsyncProcessorCallback callback,'',
      Line 1 ''std::string& fname, int32_t seqid) {'',
      Line 1 ''FunctionMap::iterator pfn = process_fn_map_.find(fname);'',
      Line 1 ''if (pfn == process_fn_map_.end()) {'']
     @ (case sv_extends s of
          Some b \<Rightarrow> [Line 2 (processor_class b @ ''::process_fn(input_protocol, output_protocol, callback, fname, seqid);''),
            Line 2 ''return;'']
        | None \<Rightarrow>
           [Line 2 ''input_protocol->skip(::apache::thrift::protocol::T_STRUCT);'',
            Line 2 ''input_protocol->readMessageEnd();'',
            Line 2 ''input_protocol->getTransport()->readEnd();'',
            Line 2 (''::apache::thrift::TApplicationException x(::apache::thrift::TApplicationException::UNKNOWN_METHOD, ''
              @ quoted (''Invalid method name: '' @ [CHR 0x27]) @ ''+fname+'' @ quoted [CHR 0x27] @ '');''),
            Line 2 ''output_protocol->writeMessageBegin(fname, ::apache::thrift::protocol::T_EXCEPTION, seqid);'',
            Line 2 ''x.write(output_protocol);'',
            Line 2 ''output_protocol->writeMessageEnd();'',
            Line 2 ''output_protocol->getTransport()->flush();'',
            Line 2 ''output_protocol->getTransport()->writeEnd();'',
            Line 2 ''boost::system::error_code ec = make_error_code(kAppWrongMethodName);'',
            Line 2 ''callback(ec, false);'',
            Line 2 ''return;''])
     @ [Line 1 ''}'',
        Line 1 ''(this->*(pfn->second))(seqid, callback, input_protocol, output_protocol);'',
        Line 0 ''}'', Blank]"

definition process_method_lines :: "t_service \<Rightarrow> t_function \<Rightarrow> line list" where
  "process_method_lines s f =
     (let args_class = sv_name s @ ''_'' @ tf_name f @ ''_args''; result_class = sv_name s @ ''_'' @ tf_name f @ ''_result'';
          args = tf_name f @ ''_args''; result = tf_name f @ ''_result''
      in [Line 0 (async_process_function_signature f (processor_class s @ ''::'') @ '' {''),
          Line 1 (''boost::shared_ptr<'' @ args_class @ ''> '' @ args @ ''(new '' @ args_class @ '');'')]
         @ (if \<not> tf_oneway f then
              [Line 1 (''boost::shared_ptr<'' @ result_class @ ''> '' @ result @ ''(new '' @ result_class @ '');'')] else [])
         @ [Line 1 (args @ ''->read(input_protocol);''), Line 1 ''input_protocol->readMessageEnd();'',
            Line 1 ''input_protocol->getTransport()->readEnd();'',
            Line 1 (''handler_->async_'' @ tf_name f @ ''('')]
         @ (if \<not> is_void f then [Line 2 (result @ ''->success,'')] else [])
         @ map (\<lambda>a. Line 2 (args @ ''->'' @ fd_name a @ '','')) (tf_args f)
         @ [Line 2 (''boost::bind(&'' @ processor_class s @ ''::complete_'' @ tf_name f @ '',''),
            Line 2 (''this, seqid, callback, input_protocol, output_protocol, '' @ args
              @ (if \<not> tf_oneway f then '', '' @ result else []) @ '', _1));''),
            Line 0 ''}'', Blank])"

text \<open>The message \<open>complete_X\<close> writes.\<close>

definition message_lines :: "t_function \<Rightarrow> string \<Rightarrow> string \<Rightarrow> line list" where
  "message_lines f kind body =
     [Line 2 (''output_protocol->writeMessageBegin('' @ quoted (tf_name f)
        @ '', ::apache::thrift::protocol::'' @ kind @ '', seqid);''),
      Line 2 (body @ ''(output_protocol);''),
      Line 2 ''output_protocol->writeMessageEnd();'',
      Line 2 ''output_protocol->getTransport()->flush();'',
      Line 2 ''output_protocol->getTransport()->writeEnd();'']"

definition complete_method_lines :: "t_service \<Rightarrow> t_function \<Rightarrow> line list" where
  "complete_method_lines s f =
     [Line 0 (async_complete_function_signature f (sv_name s) (processor_class s @ ''::'') @ '' {'')]
     @ (if tf_oneway f then [Line 1 ''callback(ec, true);'']
        else [Line 1 ''if (ec) {'', Line 2 ''::apache::thrift::TApplicationException x(ec.message());'']
          @ message_lines f ''T_EXCEPTION'' ''x.write''
          @ [Line 1 ''}'', Line 1 ''else {'']
          @ (if \<not> is_void f then [Line 2 (tf_name f @ ''_result->__isset.success = true;'')] else [])
          @ message_lines f ''T_REPLY'' (tf_name f @ ''_result->write'')
          @ [Line 1 ''}'', Line 1 ''callback(ec, false);''])
     @ [Line 0 ''}'', Blank]"

definition processor_source :: "t_service \<Rightarrow> line list" where
  "processor_source s = process_fn_lines s
     @ concat (map (\<lambda>f. process_method_lines s f @ complete_method_lines s f) (sv_functions s))"

section \<open>generate\_async\<close>

text \<open>The header and the source, each with the name of its file.\<close>

definition generate_async :: "gen_env \<Rightarrow> gen_files \<Rightarrow> t_service \<Rightarrow> (string \<times> line list) \<times> (string \<times> line list)" where
  "generate_async g e s =
     (let name = ''Async'' @ sv_name s; guard = map to_upper (name @ ''_H'');
          ns = snd (gen_program g); include = get_include_prefix e
      in ((gf_out_dir e @ name @ ''.h'',
           gf_autogen e
           @ [Line 0 (''#ifndef '' @ guard), Line 0 (''#define '' @ guard), Blank,
              Line 0 ''#include <async_client.h>//add include path to CPPFLAGS(-Ixxx)'',
              Line 0 (''#include '' @ quoted (include @ sv_name s @ ''.h''))]
           @ (case sv_extends s of Some b \<Rightarrow> [Line 0 (''#include '' @ quoted (include @ ''Async'' @ sv_name b @ ''.h''))] | None \<Rightarrow> [])
           @ [Blank, Line 0 (namespace_open ns), Blank]
           @ client_header g s @ if_header g s @ null_header g s @ processor_header s
           @ [Line 0 (namespace_close ns), Blank, Line 0 (''#endif //'' @ guard)]),
          (gf_out_dir e @ name @ ''.cpp'',
           gf_autogen e
           @ [Line 0 ''#include <boost/bind.hpp>'', Line 0 (''#include '' @ quoted (include @ name @ ''.h'')), Blank,
              Line 0 (namespace_open ns), Blank, Line 0 ''using namespace ::apache::thrift::async;'', Blank]
           @ client_source g s @ processor_source s @ [Line 0 (namespace_close ns)])))"

end
