(* ===== verification/AsyncClient.thy ===== *)
theory AsyncClient
  imports AsyncServer
begin

text \<open>
  src/async/async\_client.h and async\_client.cpp: the base class of the generated asynchronous
  clients, and the client stubs that the generator writes for every function
  (src/thrift\_0.5.0\_patch/t\_cpp\_generator.cc.inl).  A client has at most one call under way; its
  callback is the last thing a handler runs, so a call made inside a callback is the next step of
  the client.  What \<open>fill_result\<close> does with the reply is an argument: \<open>None\<close>, or the exception it
  throws.
\<close>

section \<open>State\<close>

record async_op =
  op_callback :: nat
  op_rpc_type :: nat
  op_has_return :: bool
  op_oneway :: bool

record client_conn = conn +
  pending_op :: "async_op option"

datatype client_effect = Invoke nat error_code | FillResult nat "u8 list"

type_synonym chandler = "(client_conn, client_effect) handler"

definition client_of :: "conn \<Rightarrow> client_conn" where
  "client_of c = conn.extend c (client_conn.fields None)"

lemma client_of_simps [simp]:
  "pending_op (client_of c) = None" "recv_buffer (client_of c) = recv_buffer c"
  "sock (client_of c) = sock c" "sock_open (client_of c) = sock_open c" "strand (client_of c) = strand c"
  by (simp_all add: client_of_def conn.defs client_conn.defs)

section \<open>Operations\<close>

definition complete_pending_op :: "error_code \<Rightarrow> chandler" where
  "complete_pending_op ec c = (case pending_op c of
       None \<Rightarrow> Abort
     | Some op \<Rightarrow> Ok (c\<lparr>pending_op := None\<rparr>, [AExt (Invoke (op_callback op) ec)]))"

definition client_destructor :: "client_conn \<Rightarrow> unit outcome" where
  "client_destructor c = assert_ok (pending_op c = None) ()"

text \<open>A socket: its service, its identity and whether it is open.  A thrown error code is \<open>Inl\<close>.\<close>

definition client_attach ::
  "(nat \<times> nat \<times> bool) option \<Rightarrow> client_conn \<Rightarrow> (error_code + client_conn) outcome" where
  "client_attach socket c =
     (if pending_op c \<noteq> None then Ok (Inl (make_thrift kThriftHasPendingOp))
      else case socket of
          None \<Rightarrow> Abort
        | Some (ios, sk, opened) \<Rightarrow>
            Ok (Inr ((conn_close c)\<lparr>io_svc := Some ios, sock := Some sk, sock_open := opened,
                      strand := None\<rparr>)))"

definition client_detach :: "client_conn \<Rightarrow> error_code + client_conn" where
  "client_detach c =
     (if pending_op c \<noteq> None then Inl (make_thrift kThriftHasPendingOp)
      else if sock c = None then Inr c
      else Inr (c\<lparr>io_svc := None, sock := None, sock_open := False, strand := None\<rparr>))"

definition client_on_close :: "error_code \<Rightarrow> chandler" where
  "client_on_close ec c =
     (let c' = base_on_close ec c
      in if ec_is_error ec then complete_pending_op ec c' else Abort)"

text \<open>The code the callback gets when \<open>fill_result\<close> returned or threw.\<close>

definition fill_error_code :: "int \<Rightarrow> cpp_exception option \<Rightarrow> error_code" where
  "fill_error_code bad_message r = (case r of
       None \<Rightarrow> \<lparr>ec_value = 0, ec_category = PosixCategory\<rparr>
     | Some e \<Rightarrow> exn_error_code bad_message e)"

definition client_on_handle_frame :: "int \<Rightarrow> cpp_exception option \<Rightarrow> chandler" where
  "client_on_handle_frame bm r c = (case pending_op c of
       None \<Rightarrow> Abort
     | Some op \<Rightarrow>
         with_actions [AExt (FillResult (op_rpc_type op) (input_buffer c))]
           (complete_pending_op (fill_error_code bm r) c))"

definition client_vt :: "int \<Rightarrow> cpp_exception option \<Rightarrow> (client_conn, client_effect) vtable" where
  "client_vt bm r = \<lparr>vt_close = client_on_close, vt_frame = client_on_handle_frame bm r\<rparr>"

definition client_on_handle_read ::
  "thrift_enums \<Rightarrow> int \<Rightarrow> cpp_exception option \<Rightarrow> error_code \<Rightarrow> nat \<Rightarrow> chandler" where
  "client_on_handle_read E bm r ec n c =
     (if pending_op c = None then Abort
      else if ec_is_error ec then client_on_close ec c
      else base_on_handle_read E (client_vt bm r) ec n c)"

definition client_on_handle_write :: "error_code \<Rightarrow> chandler" where
  "client_on_handle_write ec c = (case pending_op c of
       None \<Rightarrow> Abort
     | Some op \<Rightarrow>
         if ec_is_error ec then client_on_close ec c
         else if op_oneway op then complete_pending_op ec c
         else start_recv True c)"

text \<open>A read has put its bytes at the offset of the operation, then the handler runs.\<close>

definition client_complete_read ::
  "thrift_enums \<Rightarrow> int \<Rightarrow> cpp_exception option \<Rightarrow> nat \<Rightarrow> u8 list \<Rightarrow> chandler" where
  "client_complete_read E bm r off bs c =
     client_on_handle_read E bm r ec_success (length bs)
       (c\<lparr>recv_buffer := store_bytes off bs (recv_buffer c)\<rparr>)"

section \<open>The generated stubs\<close>

text \<open>\<open>nc\<close> is the value of the POSIX code \<open>not_connected\<close>; \<open>out\<close> is what \<open>send_\<close> put in the buffer.\<close>

definition not_connected_ec :: "int \<Rightarrow> error_code" where
  "not_connected_ec nc = \<lparr>ec_value = nc, ec_category = PosixCategory\<rparr>"

definition async_call :: "int \<Rightarrow> async_op \<Rightarrow> u8 list \<Rightarrow> chandler" where
  "async_call nc op out c =
     (if \<not> conn_is_open c then Ok (c, [AExt (Invoke (op_callback op) (not_connected_ec nc))])
      else if pending_op c \<noteq> None then Abort
      else Ok (c\<lparr>pending_op := Some op, output_buffer := out\<rparr>, [AWrite (strand c \<noteq> None) out]))"

text \<open>
  The synchronous stub.  \<open>wr\<close> is the code of the blocking write, \<open>rd\<close> and \<open>bd\<close> the codes of the
  two blocking reads with the bytes they left in their part of the buffer.  The result is the error
  thrown, or \<open>None\<close> when the stub got to \<open>recv_\<close> (or returned, for a one-way function).
\<close>

definition sync_call ::
  "thrift_enums \<Rightarrow> int \<Rightarrow> bool \<Rightarrow> u8 list \<Rightarrow> error_code \<Rightarrow> error_code \<times> u8 list \<Rightarrow>
   error_code \<times> u8 list \<Rightarrow> client_conn \<Rightarrow> (error_code option \<times> client_conn) outcome" where
  "sync_call E nc oneway out wr rd bd c =
     (if \<not> conn_is_open c then Ok (Some (not_connected_ec nc), c)
      else
        let c1 = c\<lparr>output_buffer := out\<rparr>
        in if ec_is_error wr then Ok (Some wr, conn_close c1)
        else if oneway then Ok (None, c1)
        else
          let c2 = c1\<lparr>recv_buffer := vec_resize kFrameSize (snd rd)\<rparr>
          in if ec_is_error (fst rd) then Ok (Some (fst rd), conn_close c2)
          else bind_outcome (get_frame_size c2) (\<lambda>c3.
            if unat (frame_size c3) \<ge> kMaxFrameSize
            then Ok (Some (make_proto E kProtoSizeLimit), conn_close c3)
            else if frame_size c3 = 0
            then Ok (Some (make_proto E kProtoNegativeSize), conn_close c3)
            else
              let n = unat (frame_size c3);
                  c4 = c3\<lparr>recv_buffer := recv_buffer c3 @ vec_resize n (snd bd)\<rparr>
              in if ec_is_error (fst bd) then Ok (Some (fst bd), conn_close c4)
              else Ok (None, c4\<lparr>input_buffer := recv_buffer c4\<rparr>)))"

section \<open>The client respects the base class's contract\<close>

lemma complete_pending_op_Ok [outcome_simps]:
  "complete_pending_op ec c = Ok (c', as) \<longleftrightarrow>
     (\<exists>op. pending_op c = Some op \<and> c' = c\<lparr>pending_op := None\<rparr> \<and> as = [AExt (Invoke (op_callback op) ec)])"
  by (auto simp: complete_pending_op_def split: option.splits)

lemma pending_base_on_close [simp]: "pending_op (base_on_close ec c) = pending_op c"
  by (simp add: base_on_close_def)

lemma buffer_base_on_close [simp]: "recv_buffer (base_on_close ec c) = recv_buffer c"
  by (simp add: base_on_close_def)

lemma client_on_close_Ok [outcome_simps]:
  "client_on_close ec c = Ok (c', as) \<longleftrightarrow>
     ec_is_error ec \<and> complete_pending_op ec (base_on_close ec c) = Ok (c', as)"
  by (auto simp: client_on_close_def Let_def)

lemma client_on_handle_frame_Ok [outcome_simps]:
  "client_on_handle_frame bm r c = Ok (c', as) \<longleftrightarrow>
     (\<exists>op. pending_op c = Some op \<and> c' = c\<lparr>pending_op := None\<rparr> \<and>
        as = [AExt (FillResult (op_rpc_type op) (input_buffer c)),
              AExt (Invoke (op_callback op) (fill_error_code bm r))])"
  by (auto simp: client_on_handle_frame_def outcome_simps split: option.splits)

interpretation client_fc: frame_consumer "client_vt bm r" for bm :: int and r :: "cpp_exception option"
  by unfold_locales (auto simp: client_vt_def outcome_simps same_rx_def)

section \<open>A client and its calls\<close>

text \<open>
  A client driven by its user and by completions: the operation under way, the callbacks of the
  calls made so far, and the callbacks invoked so far with their codes.
\<close>

record client_run =
  cr_conn :: client_conn
  cr_io :: "client_effect action option"
  cr_issued :: "nat list"
  cr_done :: "(nat \<times> error_code) list"

fun invoked :: "client_effect action list \<Rightarrow> (nat \<times> error_code) list" where
  "invoked [] = []"
| "invoked (AExt (Invoke cb ec) # as) = (cb, ec) # invoked as"
| "invoked (a # as) = invoked as"

definition after_client :: "client_conn \<times> client_effect action list \<Rightarrow> client_run \<Rightarrow> client_run" where
  "after_client r s = s\<lparr>cr_conn := fst r, cr_io := next_io (snd r), cr_done := cr_done s @ invoked (snd r)\<rparr>"

definition client_init :: "client_run \<Rightarrow> bool" where
  "client_init s \<longleftrightarrow> (\<exists>c. (c = conn_default \<or> (\<exists>ios sk opened. c = conn_on_socket ios sk opened))
     \<and> s = \<lparr>cr_conn = client_of c, cr_io = None, cr_issued = [], cr_done = []\<rparr>)"

inductive client_step :: "thrift_enums \<Rightarrow> int \<Rightarrow> int \<Rightarrow> client_run \<Rightarrow> client_run \<Rightarrow> bool" for E bm nc where
  cl_call: "async_call nc op out (cr_conn s) = Ok (c, as) \<Longrightarrow>
     client_step E bm nc s (s\<lparr>cr_conn := c, cr_io := (if next_io as = None then cr_io s else next_io as),
       cr_issued := cr_issued s @ [op_callback op], cr_done := cr_done s @ invoked as\<rparr>)"
| cl_sync: "pending_op (cr_conn s) = None \<Longrightarrow>
     sync_call E nc ow out wr rd bd (cr_conn s) = Ok (r, c) \<Longrightarrow> client_step E bm nc s (s\<lparr>cr_conn := c\<rparr>)"
| cl_read: "cr_io s = Some (ARead st off len) \<Longrightarrow> bs \<noteq> [] \<Longrightarrow> length bs \<le> len \<Longrightarrow>
     client_complete_read E bm f off bs (cr_conn s) = Ok r \<Longrightarrow> client_step E bm nc s (after_client r s)"
| cl_read_error: "cr_io s = Some (ARead st off len) \<Longrightarrow> ec_is_error ec \<Longrightarrow>
     client_on_handle_read E bm f ec n (cr_conn s) = Ok r \<Longrightarrow> client_step E bm nc s (after_client r s)"
| cl_write: "cr_io s = Some (AWrite st out) \<Longrightarrow>
     client_on_handle_write ec (cr_conn s) = Ok r \<Longrightarrow> client_step E bm nc s (after_client r s)"
| cl_close: "client_step E bm nc s (s\<lparr>cr_conn := conn_close (cr_conn s)\<rparr>)"
| cl_attach: "client_attach socket (cr_conn s) = Ok (Inr c) \<Longrightarrow> client_step E bm nc s (s\<lparr>cr_conn := c\<rparr>)"
| cl_detach: "client_detach (cr_conn s) = Inr c \<Longrightarrow> client_step E bm nc s (s\<lparr>cr_conn := c\<rparr>)"

inductive_cases client_stepE: "client_step E bm nc s t"

definition buffer_ok :: "client_conn \<Rightarrow> bool" where
  "buffer_ok c \<longleftrightarrow> kFrameSize \<le> length (recv_buffer c) \<and> length (recv_buffer c) < kMaxFrameSize + kFrameSize"

definition client_waits :: "client_conn \<Rightarrow> client_effect action option \<Rightarrow> bool" where
  "client_waits c io \<longleftrightarrow> (\<exists>st out. io = Some (AWrite st out)) \<or>
     (conn_wf c \<and> header_read c \<and> view_frame (contents c) = NeedMore \<and>
      unat (bytes_recv c) < length (recv_buffer c) \<and>
      io = Some (ARead (strand c \<noteq> None) (unat (bytes_recv c)) (length (recv_buffer c) - unat (bytes_recv c))))"

text \<open>
  The invariant: every call made has had its callback invoked, except the one pending; no call is
  pending without an operation under way, and none is under way without a pending call.
\<close>

definition client_inv :: "client_run \<Rightarrow> bool" where
  "client_inv s \<longleftrightarrow> buffer_ok (cr_conn s)
     \<and> mset (cr_issued s) = mset (map fst (cr_done s))
         + (case pending_op (cr_conn s) of None \<Rightarrow> {#} | Some op \<Rightarrow> {#op_callback op#})
     \<and> (case pending_op (cr_conn s) of None \<Rightarrow> cr_io s = None
          | Some op \<Rightarrow> sock (cr_conn s) \<noteq> None \<and> client_waits (cr_conn s) (cr_io s))"

lemma invoked_append [simp]: "invoked (as @ bs) = invoked as @ invoked bs"
  by (induction as rule: invoked.induct) auto

text \<open>A handler that has completed the pending call.\<close>

lemma after_client_done:
  assumes inv: "client_inv s" and op: "pending_op (cr_conn s) = Some op"
    and c: "pending_op c = None" "buffer_ok c" and as: "invoked as = [(op_callback op, ec)]" "next_io as = None"
  shows "client_inv (after_client (c, as) s)"
  using assms by (simp add: client_inv_def after_client_def)

text \<open>A handler that has started the next read.\<close>

lemma after_client_waits:
  assumes inv: "client_inv s" and op: "pending_op (cr_conn s) = Some op"
    and c: "pending_op c = Some op" "buffer_ok c" "sock c \<noteq> None" and as: "invoked as = []"
    and w: "client_waits c (next_io as)"
  shows "client_inv (after_client (c, as) s)"
  using assms by (simp add: client_inv_def after_client_def)

lemma start_recv_pending:
  "start_recv b c = Ok (c', as) \<Longrightarrow> pending_op c' = pending_op c"
  by (auto simp: start_recv_def Let_def split: if_splits)

lemma buffer_ok_wf: "conn_wf c \<Longrightarrow> buffer_ok c"
  by (simp add: conn_wf_def buffer_ok_def)

lemma buffer_ok_upd [simp]:
  "buffer_ok (c\<lparr>pending_op := p\<rparr>) = buffer_ok c" "buffer_ok (c\<lparr>input_buffer := ib\<rparr>) = buffer_ok c"
  "buffer_ok (c\<lparr>output_buffer := ob\<rparr>) = buffer_ok c" "buffer_ok (c\<lparr>frame_size := fs\<rparr>) = buffer_ok c"
  "buffer_ok (c\<lparr>state := st\<rparr>) = buffer_ok c"
  "buffer_ok (base_on_close ec c) = buffer_ok c" "buffer_ok (conn_close c) = buffer_ok c"
  by (simp_all add: buffer_ok_def conn_close_def)

text \<open>Restarting the reception of a client whose buffer has a legal length.\<close>

lemma client_restart:
  assumes ok: "buffer_ok c" and s: "sock c \<noteq> None"
  obtains c' as where "start_recv True c = Ok (c', as)" and "client_waits c' (next_io as)"
    and "buffer_ok c'" and "sock c' \<noteq> None" and "pending_op c' = pending_op c"
    and "invoked as = []"
proof -
  let ?d = "c\<lparr>bytes_recv := 0\<rparr>"
  have wf: "conn_wf ?d" using ok s by (simp add: conn_wf_def buffer_ok_def)
  have same: "start_recv True ?d = (start_recv True c :: (client_conn \<times> client_effect action list) outcome)"
    by (simp add: start_recv_def Let_def)
  show ?thesis
  proof (rule restart_facts [OF wf])
    fix c' :: client_conn
    assume run: "start_recv True ?d = Ok (c', [ARead (strand ?d \<noteq> None) 0 (length (recv_buffer c')) :: client_effect action])"
      and c': "conn_wf c'" "contents c' = []" "header_read c'" "bytes_recv c' = 0" "sock c' = sock ?d"
        "strand c' = strand ?d" "recv_buffer c' \<noteq> []"
    then have "client_waits c' (next_io [ARead (strand ?d \<noteq> None) 0 (length (recv_buffer c')) :: client_effect action])"
      by (simp add: client_waits_def view_frame_def kFrameSize_def)
    then show thesis
      using run c' s start_recv_pending [OF run]
      by (intro that [of c' "[ARead (strand ?d \<noteq> None) 0 (length (recv_buffer c'))]"])
        (simp_all add: same buffer_ok_wf)
  qed
qed

text \<open>What \<open>handle_buffer\<close> does to a client with a pending call.\<close>

definition client_goes_on :: "async_op \<Rightarrow> client_conn \<Rightarrow> client_effect action list \<Rightarrow> bool" where
  "client_goes_on op c as \<longleftrightarrow> buffer_ok c \<and>
     (pending_op c = None \<and> next_io as = None \<and> (\<exists>ec. invoked as = [(op_callback op, ec)])
      \<or> pending_op c = Some op \<and> sock c \<noteq> None \<and> client_waits c (next_io as) \<and> invoked as = [])"

lemma goes_on_inv:
  "client_inv s \<Longrightarrow> pending_op (cr_conn s) = Some op \<Longrightarrow> client_goes_on op c as \<Longrightarrow>
     client_inv (after_client (c, as) s)"
  by (auto simp: client_goes_on_def intro: after_client_done after_client_waits)

lemma goes_on_close:
  assumes "pending_op c = Some op" and "buffer_ok c" and "client_on_close ec c = Ok (c', as)"
  shows "client_goes_on op c' as"
  using assms by (auto simp: client_goes_on_def outcome_simps)

lemma client_handle_buffer:
  assumes wf: "conn_wf c" and hd: "header_read c" and op: "pending_op c = Some op"
    and run: "handle_buffer E (client_vt bm f) c = Ok (c', as)"
  shows "client_goes_on op c' as"
proof (cases "view_frame (contents c)")
  case NeedMore
  note g = grown_waits [OF wf hd NeedMore]
  have "pending_op (grown c) = pending_op c" by (simp add: grown_def)
  with NeedMore g op wf run show ?thesis
    by (auto simp: handle_buffer_eq [OF wf hd] client_goes_on_def buffer_ok_wf client_waits_def)
      (simp add: conn_wf_def)
next
  case (Illegal k)
  with run have "client_on_close (make_proto E k) (c\<lparr>frame_size := of_nat (be_nat (contents c))\<rparr>) = Ok (c', as)"
    by (simp add: handle_buffer_eq [OF wf hd] client_vt_def)
  with op wf show ?thesis by (intro goes_on_close) (simp_all add: buffer_ok_wf)
next
  case (Frame g r)
  with run op wf show ?thesis
    by (auto simp: handle_buffer_eq [OF wf hd] client_vt_def outcome_simps client_goes_on_def buffer_ok_wf)
qed

text \<open>
  The two codes of an illegal frame length are errors: in Thrift's \<open>TProtocolException\<close> only
  \<open>UNKNOWN\<close> is 0.
\<close>

definition size_codes_nonzero :: "thrift_enums \<Rightarrow> bool" where
  "size_codes_nonzero E \<longleftrightarrow> proto_value E kProtoSizeLimit \<noteq> 0 \<and> proto_value E kProtoNegativeSize \<noteq> 0"

lemma view_frame_Illegal:
  "view_frame bs = Illegal k \<Longrightarrow> k = kProtoSizeLimit \<or> k = kProtoNegativeSize"
  by (auto simp: view_frame_def split: if_splits)

lemma client_handle_buffer_total:
  assumes wf: "conn_wf c" and hd: "header_read c" and op: "pending_op c = Some op"
    and nz: "size_codes_nonzero E"
  shows "\<exists>c' as. handle_buffer E (client_vt bm f) c = Ok (c', as)"
proof (cases "view_frame (contents c)")
  case (Illegal k)
  then show ?thesis
    using view_frame_Illegal [OF Illegal] nz op
    by (auto simp: handle_buffer_eq [OF wf hd] client_vt_def outcome_simps ec_is_error_def
        make_proto_def size_codes_nonzero_def)
next
  case (Frame g r)
  with op show ?thesis by (simp add: handle_buffer_eq [OF wf hd] client_vt_def outcome_simps)
qed (simp add: handle_buffer_eq [OF wf hd])

lemma client_read_eq:
  assumes w: "client_waits c (Some (ARead st off len))" and op: "pending_op c = Some op"
    and bs: "length bs \<le> len"
  shows "client_complete_read E bm f off bs c = handle_buffer E (client_vt bm f) (received bs c)"
    and "conn_wf (received bs c)" and "header_read (received bs c)" and "pending_op (received bs c) = Some op"
proof -
  from w have wf: "conn_wf c" and hd: "header_read c" and off: "off = unat (bytes_recv c)"
    and len: "len = length (recv_buffer c) - unat (bytes_recv c)" "unat (bytes_recv c) < length (recv_buffer c)"
    by (auto simp: client_waits_def)
  have room: "unat (bytes_recv c) + length bs \<le> length (recv_buffer c)" using bs len by simp
  show "conn_wf (received bs c)" "header_read (received bs c)"
    using received_facts [OF wf hd room] by simp_all
  show "pending_op (received bs c) = Some op" using op by (simp add: received_def)
  show "client_complete_read E bm f off bs c = handle_buffer E (client_vt bm f) (received bs c)"
    using complete_read_eq [OF wf hd room, of E "client_vt bm f"] op
    by (simp add: client_complete_read_def client_on_handle_read_def complete_read_def off
        ec_success_def ec_is_error_def)
qed

section \<open>Preservation\<close>

lemma invE_pending:
  assumes "client_inv s" and "cr_io s \<noteq> None"
  obtains op where "pending_op (cr_conn s) = Some op" "sock (cr_conn s) \<noteq> None"
    "client_waits (cr_conn s) (cr_io s)" "buffer_ok (cr_conn s)"
  using assms by (auto simp: client_inv_def split: option.splits)

lemma client_write_cases:
  assumes inv: "client_inv s" and io: "cr_io s = Some (AWrite st out)"
  shows "\<exists>op c as. pending_op (cr_conn s) = Some op \<and> client_on_handle_write ec (cr_conn s) = Ok (c, as)
     \<and> client_goes_on op c as"
proof -
  from inv io obtain op where op: "pending_op (cr_conn s) = Some op" and sk: "sock (cr_conn s) \<noteq> None"
    and ok: "buffer_ok (cr_conn s)" by (auto elim: invE_pending)
  show ?thesis
  proof (cases "ec_is_error ec \<or> op_oneway op")
    case True
    with op ok show ?thesis
      by (auto simp: client_on_handle_write_def outcome_simps client_goes_on_def)
  next
    case False
    obtain c' and as :: "client_effect action list" where "start_recv True (cr_conn s) = Ok (c', as)"
      and "client_waits c' (next_io as)" and "buffer_ok c'" and "sock c' \<noteq> None"
      and "pending_op c' = pending_op (cr_conn s)" and "invoked as = []"
      using client_restart [OF ok sk] by blast
    with False op show ?thesis by (auto simp: client_on_handle_write_def client_goes_on_def)
  qed
qed

text \<open>What the handlers do with an error, and with a write that succeeded.\<close>

lemma client_error:
  assumes "pending_op c = Some op" and "ec_is_error ec"
  shows "\<exists>c'. sock c' = None \<and> pending_op c' = None
    \<and> client_on_handle_read E bm f ec n c = Ok (c', [AExt (Invoke (op_callback op) ec)])
    \<and> client_on_handle_write ec c = Ok (c', [AExt (Invoke (op_callback op) ec)])"
  using assms by (auto simp: client_on_handle_read_def client_on_handle_write_def client_on_close_def
      complete_pending_op_def base_on_close_def Let_def)

lemma client_write_ok:
  assumes op: "pending_op c = Some op" and sk: "sock c \<noteq> None" and ok: "buffer_ok c" and ec: "\<not> ec_is_error ec"
  shows "\<exists>c' as. client_on_handle_write ec c = Ok (c', as) \<and> sock c' = sock c
    \<and> (if op_oneway op then as = [AExt (Invoke (op_callback op) ec)] \<and> pending_op c' = None
       else pending_op c' = Some op \<and> (\<exists>len > 0. as = [ARead (strand c \<noteq> None) 0 len]))"
proof (cases "op_oneway op")
  case True
  with op ec show ?thesis by (simp add: client_on_handle_write_def complete_pending_op_def)
next
  case False
  with op sk ec ok show ?thesis
    by (auto simp: client_on_handle_write_def start_recv_def Let_def size_consts buffer_ok_def)
qed

lemma sync_call_keeps:
  assumes "sync_call E nc ow out wr rd bd c = Ok (r, c')" and "buffer_ok c"
  shows "buffer_ok c' \<and> pending_op c' = pending_op c"
proof -
  have len: "length (vec_resize kFrameSize xs) = kFrameSize" for xs :: "u8 list" by simp
  have frame: "get_frame_size d = Ok d' \<Longrightarrow> d' = d\<lparr>frame_size := of_nat (be_nat (recv_buffer d))\<rparr>"
    for d d' :: client_conn
    by (auto simp: get_frame_size_def split: if_splits)
  with assms show ?thesis
    by (auto simp: sync_call_def Let_def outcome_simps buffer_ok_def conn_close_def size_consts not_le
        split: if_splits dest!: frame)
qed

lemma client_call_inv:
  assumes inv: "client_inv s" and run: "async_call nc op out (cr_conn s) = Ok (c, as)"
  shows "client_inv (s\<lparr>cr_conn := c, cr_io := (if next_io as = None then cr_io s else next_io as),
       cr_issued := cr_issued s @ [op_callback op], cr_done := cr_done s @ invoked as\<rparr>)"
proof (cases "conn_is_open (cr_conn s)")
  case True
  with run have "pending_op (cr_conn s) = None"
    and c: "c = (cr_conn s)\<lparr>pending_op := Some op, output_buffer := out\<rparr>"
    and as: "as = [AWrite (strand (cr_conn s) \<noteq> None) out]"
    by (auto simp: async_call_def split: if_splits)
  with inv True show ?thesis by (simp add: client_inv_def client_waits_def conn_is_open_def)
next
  case False
  with run have "c = cr_conn s" "as = [AExt (Invoke (op_callback op) (not_connected_ec nc))]"
    by (simp_all add: async_call_def)
  with inv show ?thesis by (cases "pending_op (cr_conn s)") (simp_all add: client_inv_def)
qed

lemma client_waits_close [simp]: "client_waits (conn_close c) io = client_waits c io"
  by (simp add: conn_close_def client_waits_def conn_wf_def header_read_def contents_def)

lemma conn_close_keeps [simp]:
  "pending_op (conn_close c) = pending_op c" "sock (conn_close c) = sock c"
  by (simp_all add: conn_close_def)

lemma client_step_inv:
  assumes inv: "client_inv s" and step: "client_step E bm nc s t"
  shows "client_inv t"
  using step
proof cases
  case (cl_call op out c as)
  with client_call_inv [OF inv] show ?thesis by simp
next
  case (cl_sync ow out wr rd bd r c)
  with sync_call_keeps [OF cl_sync(3)] inv show ?thesis by (simp add: client_inv_def)
next
  case (cl_read st off len bs f r)
  obtain op where op: "pending_op (cr_conn s) = Some op"
    and w: "client_waits (cr_conn s) (Some (ARead st off len))"
    using inv cl_read(2) by (elim invE_pending) auto
  obtain c as where r: "r = (c, as)" by (cases r)
  note eq = client_read_eq [OF w op cl_read(4)]
  have "client_goes_on op c as"
    by (rule client_handle_buffer [OF eq(2,3,4)]) (use cl_read(5) in \<open>simp add: eq(1) [symmetric] r\<close>)
  with goes_on_inv [OF inv op] show ?thesis by (simp add: cl_read(1) r)
next
  case (cl_read_error st off len ec f n r)
  obtain op where op: "pending_op (cr_conn s) = Some op" and ok: "buffer_ok (cr_conn s)"
    using inv cl_read_error(2) by (elim invE_pending) auto
  obtain c as where r: "r = (c, as)" by (cases r)
  have "client_on_close ec (cr_conn s) = Ok (c, as)"
    using cl_read_error(3,4) op by (simp add: client_on_handle_read_def r)
  then have "client_goes_on op c as" by (rule goes_on_close [OF op ok])
  with goes_on_inv [OF inv op] show ?thesis by (simp add: cl_read_error(1) r)
next
  case (cl_write st out ec r)
  from client_write_cases [OF inv cl_write(2), of ec] cl_write(3) goes_on_inv [OF inv]
  show ?thesis by (auto simp: cl_write(1))
next
  case cl_close
  with inv show ?thesis by (cases "pending_op (cr_conn s)") (simp_all add: client_inv_def)
next
  case (cl_attach socket c)
  with inv show ?thesis
    by (auto simp: client_attach_def client_inv_def buffer_ok_def conn_close_def split: if_splits option.splits)
next
  case (cl_detach c)
  with inv show ?thesis
    by (auto simp: client_detach_def client_inv_def buffer_ok_def split: if_splits option.splits)
qed

lemma client_init_inv: "client_init s \<Longrightarrow> client_inv s"
  by (auto simp: client_init_def client_inv_def buffer_ok_def conn_default_def
      conn_on_socket_def common_init_def raw_conn_def size_consts)

interpretation client_sys: step_system client_init "client_step E bm nc" client_inv for E bm nc
  by unfold_locales (auto intro: client_init_inv client_step_inv)

section \<open>Properties\<close>

text \<open>C9: However calls, completions, errors, closing and attaching interleave, the callback of
  every call made so far has been invoked exactly once, except for the call that is pending; that
  call has an operation under way, so its callback is not lost, and without a pending call nothing
  is under way.\<close>

theorem client_callbacks_once:
  assumes "reach client_init (client_step E bm nc) s"
  shows "mset (cr_issued s) = mset (map fst (cr_done s))
      + (case pending_op (cr_conn s) of None \<Rightarrow> {#} | Some op \<Rightarrow> {#op_callback op#})
    \<and> (pending_op (cr_conn s) = None \<longleftrightarrow> cr_io s = None)"
  using client_sys.reachable_inv [OF assms]
  by (auto simp: client_inv_def client_waits_def split: option.splits)

text \<open>C19: No completion of the operation under way can fail an assertion or reach undefined
  behaviour in a reachable client.  Any bytes that fit the read and any error code are handled; an
  error, of a read or of a write, invokes the pending callback with exactly that code, drops the
  socket and leaves nothing pending; a write that succeeds ends a one-way call with the code of the
  write, and of any other call starts the read of the answer, with the call still pending.\<close>

theorem client_progress:
  assumes "reach client_init (client_step E bm nc) s" and "size_codes_nonzero E"
  shows "(\<forall>st off len bs. cr_io s = Some (ARead st off len) \<and> length bs \<le> len \<longrightarrow>
        (\<exists>r. client_complete_read E bm f off bs (cr_conn s) = Ok r))
    \<and> (\<forall>st out. cr_io s = Some (AWrite st out) \<longrightarrow> (\<exists>r. client_on_handle_write ec (cr_conn s) = Ok r))
    \<and> (cr_io s \<noteq> None \<and> ec_is_error ec \<longrightarrow> (\<exists>op c. pending_op (cr_conn s) = Some op \<and>
          sock c = None \<and> pending_op c = None
          \<and> client_on_handle_read E bm f ec n (cr_conn s) = Ok (c, [AExt (Invoke (op_callback op) ec)])
          \<and> client_on_handle_write ec (cr_conn s) = Ok (c, [AExt (Invoke (op_callback op) ec)])))
    \<and> (\<forall>st out. cr_io s = Some (AWrite st out) \<and> \<not> ec_is_error ec \<longrightarrow> (\<exists>op c as.
          pending_op (cr_conn s) = Some op \<and> client_on_handle_write ec (cr_conn s) = Ok (c, as) \<and> sock c = sock (cr_conn s)
          \<and> (if op_oneway op then as = [AExt (Invoke (op_callback op) ec)] \<and> pending_op c = None
             else pending_op c = Some op \<and> (\<exists>len > 0. as = [ARead (strand (cr_conn s) \<noteq> None) 0 len]))))"
proof (intro conjI allI impI)
  have inv: "client_inv s" by (rule client_sys.reachable_inv [OF assms(1)])
  fix st off len bs out
  show "\<exists>r. client_complete_read E bm f off bs (cr_conn s) = Ok r"
    if io: "cr_io s = Some (ARead st off len) \<and> length bs \<le> len"
  proof -
    obtain op where op: "pending_op (cr_conn s) = Some op"
      and w: "client_waits (cr_conn s) (Some (ARead st off len))"
      using inv io by (elim invE_pending) auto
    note eq = client_read_eq [OF w op conjunct2 [OF io]]
    show ?thesis using client_handle_buffer_total [OF eq(2,3,4) assms(2)] by (auto simp: eq(1))
  qed
  show "\<exists>r. client_on_handle_write ec (cr_conn s) = Ok r" if "cr_io s = Some (AWrite st out)"
    using client_write_cases [OF inv that, of ec] by blast
  show "\<exists>op c. pending_op (cr_conn s) = Some op \<and> sock c = None \<and> pending_op c = None
      \<and> client_on_handle_read E bm f ec n (cr_conn s) = Ok (c, [AExt (Invoke (op_callback op) ec)])
      \<and> client_on_handle_write ec (cr_conn s) = Ok (c, [AExt (Invoke (op_callback op) ec)])"
    if err: "cr_io s \<noteq> None \<and> ec_is_error ec"
  proof -
    obtain op where "pending_op (cr_conn s) = Some op" using invE_pending [OF inv conjunct1 [OF err]] by blast
    with client_error [OF this conjunct2 [OF err]] show ?thesis by blast
  qed
  show "\<exists>op c as. pending_op (cr_conn s) = Some op \<and> client_on_handle_write ec (cr_conn s) = Ok (c, as) \<and> sock c = sock (cr_conn s)
      \<and> (if op_oneway op then as = [AExt (Invoke (op_callback op) ec)] \<and> pending_op c = None
         else pending_op c = Some op \<and> (\<exists>len > 0. as = [ARead (strand (cr_conn s) \<noteq> None) 0 len]))"
    if io: "cr_io s = Some (AWrite st out) \<and> \<not> ec_is_error ec"
  proof -
    from inv io obtain op where op: "pending_op (cr_conn s) = Some op" "sock (cr_conn s) \<noteq> None" "buffer_ok (cr_conn s)"
      by (auto elim: invE_pending)
    from client_write_ok [OF op conjunct2 [OF io]] op(1) show ?thesis by blast
  qed
qed

definition idle_client :: client_run where
  "idle_client = \<lparr>cr_conn = client_of (conn_on_socket 0 7 True), cr_io = None, cr_issued = [], cr_done = []\<rparr>"

definition calling_client :: client_run where
  "calling_client = idle_client\<lparr>cr_conn := (cr_conn idle_client)
       \<lparr>pending_op := Some \<lparr>op_callback = 5, op_rpc_type = 1, op_has_return = True, op_oneway = False\<rparr>,
        output_buffer := [1, 2]\<rparr>,
     cr_io := Some (AWrite False [1, 2]), cr_issued := [5], cr_done := []\<rparr>"

lemma calling_client_reach: "reach client_init (client_step E bm nc) calling_client"
proof (rule reach_step)
  show "reach client_init (client_step E bm nc) idle_client"
    by (rule reach_init) (auto simp: client_init_def idle_client_def)
  let ?op = "\<lparr>op_callback = 5, op_rpc_type = 1, op_has_return = True, op_oneway = False\<rparr>"
  have call: "async_call nc ?op [1, 2] (cr_conn idle_client) = Ok (cr_conn calling_client, [AWrite False [1, 2]])"
    by (simp add: async_call_def idle_client_def calling_client_def conn_is_open_def
        conn_on_socket_def common_init_def raw_conn_def)
  have "calling_client = idle_client\<lparr>cr_conn := cr_conn calling_client,
      cr_io := (if next_io [AWrite False [1, 2]] = None then cr_io idle_client else next_io [AWrite False [1, 2]]),
      cr_issued := cr_issued idle_client @ [op_callback ?op],
      cr_done := cr_done idle_client @ invoked [AWrite False [1, 2]]\<rparr>"
    by (simp add: calling_client_def idle_client_def)
  from cl_call [OF call, of E bm] this [symmetric]
  show "client_step E bm nc idle_client calling_client"
    by (rule back_subst [where P = "client_step E bm nc idle_client"])
qed

theorem client_callbacks_once_witness:
  "mset (cr_issued calling_client) = mset (map fst (cr_done calling_client)) + {#5#}"
  using client_callbacks_once [OF calling_client_reach [of sample_enums 74 107]]
  by (simp add: calling_client_def)

definition connection_reset :: error_code where
  "connection_reset = \<lparr>ec_value = 104, ec_category = SystemCategory\<rparr>"

theorem client_progress_witness:
  "(\<exists>r. client_on_handle_write ec_success (cr_conn calling_client) = Ok r)
    \<and> (\<exists>c. sock c = None \<and> client_on_handle_write connection_reset (cr_conn calling_client)
        = Ok (c, [AExt (Invoke 5 connection_reset)]))"
proof -
  have nz: "size_codes_nonzero sample_enums" by (simp add: size_codes_nonzero_def sample_enums_def)
  note p = client_progress [OF calling_client_reach [of sample_enums 74 107] nz]
  have io: "cr_io calling_client = Some (AWrite False [1, 2])" by (simp add: calling_client_def)
  have err: "ec_is_error connection_reset" by (simp add: connection_reset_def ec_is_error_def)
  have op: "pending_op (cr_conn calling_client) = Some op \<Longrightarrow> op_callback op = 5" for op
    by (auto simp: calling_client_def)
  from p [of None ec_success 0] io have "\<exists>r. client_on_handle_write ec_success (cr_conn calling_client) = Ok r" by blast
  moreover from p [of None "connection_reset" 0] io err op
  have "\<exists>c. sock c = None \<and> client_on_handle_write connection_reset (cr_conn calling_client)
        = Ok (c, [AExt (Invoke 5 connection_reset)])" by fastforce
  ultimately show ?thesis ..
qed

end
