(* ===== verification/GeneratedStubs.thy ===== *)
theory GeneratedStubs
  imports AsyncClient
begin

text \<open>
  src/thrift\_0.5.0\_patch/t\_cpp\_generator.cc.inl: the processor, the interface and the tables of the
  client the generator writes for a service.  A service may extend another one; its generated
  classes then derive from those of the base service.  What the generated code does is modelled:
  the calls it makes on the two protocols, on the handler and on the callback.
\<close>

section \<open>Services\<close>

record gen_function =
  fn_name :: string
  fn_oneway :: bool
  fn_void :: bool

datatype gen_service = Service (svc_name: string) (svc_functions: "gen_function list") (svc_base: "gen_service option")

text \<open>A call on the handler names the function and whether the result's field is passed.\<close>

datatype stub_op = Proto proto_op | ReadArgs string | CallHandler string bool | SetSuccess
  | WriteResult string | WriteError kTApplicationException string

section \<open>The processor\<close>

definition fn_prefix :: "string \<Rightarrow> string \<Rightarrow> string" where
  "fn_prefix svc f = svc @ ''_'' @ f"

text \<open>The map the constructor fills: an assignment for every function in turn.\<close>

definition process_fn_map :: "gen_function list \<Rightarrow> string \<Rightarrow> gen_function option" where
  "process_fn_map fs = foldl (\<lambda>m f. m(fn_name f \<mapsto> f)) Map.empty fs"

text \<open>\<open>process_X\<close>: the calls up to the one of the handler.\<close>

definition process_method :: "string \<Rightarrow> gen_function \<Rightarrow> stub_op list" where
  "process_method svc f = [ReadArgs (fn_prefix svc (fn_name f) @ ''_args''), Proto ReadMessageEnd, Proto ReadEnd,
     CallHandler (fn_name f) (\<not> fn_void f)]"

datatype dispatch = Calls string gen_function "stub_op list" | Rejects "stub_op list" error_code bool

definition unknown_method :: "thrift_enums \<Rightarrow> string \<Rightarrow> int \<Rightarrow> dispatch" where
  "unknown_method E fname seqid =
     Rejects [Proto SkipStruct, Proto ReadMessageEnd, Proto ReadEnd,
        Proto (WriteMessageBegin fname T_EXCEPTION seqid),
        WriteError kAppMethod (''Invalid method name: '' @ [CHR 0x27] @ fname @ [CHR 0x27]),
        Proto WriteMessageEnd, Proto Flush, Proto WriteEnd]
       (make_app E kAppWrongMethodName) False"

fun process_fn :: "thrift_enums \<Rightarrow> gen_service \<Rightarrow> string \<Rightarrow> int \<Rightarrow> dispatch" where
  "process_fn E (Service n fs base) fname seqid = (case process_fn_map fs fname of
       Some f \<Rightarrow> Calls n f (process_method n f)
     | None \<Rightarrow> (case base of
           Some b \<Rightarrow> process_fn E b fname seqid
         | None \<Rightarrow> unknown_method E fname seqid))"

text \<open>
  \<open>complete_X\<close>, the handler's callback: the calls on the output protocol and the arguments of the
  processor's callback.  \<open>message\<close> is the text of the handler's error code.
\<close>

definition complete_method ::
  "string \<Rightarrow> gen_function \<Rightarrow> int \<Rightarrow> (error_code \<Rightarrow> string) \<Rightarrow> error_code \<Rightarrow> stub_op list \<times> error_code \<times> bool" where
  "complete_method svc f seqid message ec =
     (if fn_oneway f then ([], ec, True)
      else if ec_is_error ec then
        ([Proto (WriteMessageBegin (fn_name f) T_EXCEPTION seqid), WriteError kAppUnknown (message ec),
          Proto WriteMessageEnd, Proto Flush, Proto WriteEnd], ec, False)
      else
        ((if fn_void f then [] else [SetSuccess]) @
         [Proto (WriteMessageBegin (fn_name f) T_REPLY seqid), WriteResult (fn_prefix svc (fn_name f) @ ''_result''),
          Proto WriteMessageEnd, Proto Flush, Proto WriteEnd], ec, False))"

text \<open>The null implementation of the interface: every function completes at once.\<close>

definition null_handler :: "string \<Rightarrow> error_code" where
  "null_handler fname = ec_success"

section \<open>A request\<close>

text \<open>
  What a server's connection gets to see of a message for the processor of \<open>svc\<close>: \<open>encode\<close> is what the
  protocol leaves in the output buffer, \<open>completion\<close> what the handler calls back with before it
  returns, if it does.
\<close>

definition request_result ::
  "thrift_enums \<Rightarrow> (stub_op list \<Rightarrow> u8 list) \<Rightarrow> (error_code \<Rightarrow> string) \<Rightarrow> gen_service \<Rightarrow> error_code option
     \<Rightarrow> string \<Rightarrow> tmessage_type \<Rightarrow> int \<Rightarrow> rpc_result" where
  "request_result E encode message svc completion fname mtype seqid =
     (case async_processor_process E fname mtype seqid of
        (ops, PCallback ec oneway) \<Rightarrow> CalledBack ec oneway (encode (map Proto ops))
      | (_, PDispatch fname seqid) \<Rightarrow> (case process_fn E svc fname seqid of
            Rejects ops ec oneway \<Rightarrow> CalledBack ec oneway (encode ops)
          | Calls owner f _ \<Rightarrow> (case completion of
                None \<Rightarrow> Started
              | Some ec \<Rightarrow> (case complete_method owner f seqid message ec of
                    (ops, ec, oneway) \<Rightarrow> CalledBack ec oneway (encode ops)))))"

section \<open>The client\<close>

text \<open>The values of the enumeration \<open>kasync_...\<close>, in each class from its base's end on.\<close>

fun enum_end :: "gen_service \<Rightarrow> nat" where
  "enum_end (Service n fs base) = (case base of None \<Rightarrow> 0 | Some b \<Rightarrow> enum_end b) + length fs + 1"

fun enum_begin :: "gen_service \<Rightarrow> nat" where
  "enum_begin (Service n fs base) = (case base of None \<Rightarrow> 0 | Some b \<Rightarrow> enum_end b)"

definition enum_values :: "gen_service \<Rightarrow> (gen_function \<times> nat) list" where
  "enum_values svc = zip (svc_functions svc) [enum_begin svc + 1..<enum_end svc]"

text \<open>\<open>fill_result\<close>: the service whose \<open>recv_\<close> is called and for which function, if any.\<close>

fun fill_result :: "gen_service \<Rightarrow> nat \<Rightarrow> (string \<times> string) option" where
  "fill_result (Service n fs base) rpc_type =
     (case find (\<lambda>(f, v). v = rpc_type \<and> \<not> fn_void f) (enum_values (Service n fs base)) of
        Some (f, _) \<Rightarrow> Some (n, fn_name f)
      | None \<Rightarrow> (case base of None \<Rightarrow> None | Some b \<Rightarrow> fill_result b rpc_type))"

text \<open>The operation an asynchronous stub makes for its function.\<close>

definition stub_async_op :: "nat \<Rightarrow> gen_function \<Rightarrow> nat \<Rightarrow> async_op" where
  "stub_async_op cb f v = \<lparr>op_callback = cb, op_rpc_type = v, op_has_return = \<not> fn_void f, op_oneway = fn_oneway f\<rparr>"

text \<open>What the client makes of a reply: \<open>recv\<close> is the base client's \<open>recv_X\<close>, which may throw.\<close>

definition reply_outcome ::
  "gen_service \<Rightarrow> (string \<Rightarrow> string \<Rightarrow> u8 list \<Rightarrow> cpp_exception option) \<Rightarrow> async_op \<Rightarrow> u8 list \<Rightarrow> cpp_exception option" where
  "reply_outcome svc recv op input = (case fill_result svc (op_rpc_type op) of
       None \<Rightarrow> None
     | Some (n, f) \<Rightarrow> recv n f input)"

section \<open>Dispatch\<close>

text \<open>The methods of a service and its bases in one table, the derived ones first.\<close>

fun method_table :: "gen_service \<Rightarrow> (string \<times> string \<times> gen_function) list" where
  "method_table (Service n fs base) = rev (map (\<lambda>f. (fn_name f, n, f)) fs)
     @ (case base of None \<Rightarrow> [] | Some b \<Rightarrow> method_table b)"

definition lookup_method :: "gen_service \<Rightarrow> string \<Rightarrow> (string \<times> gen_function) option" where
  "lookup_method svc fname = map_of (method_table svc) fname"

lemma process_fn_map_of:
  "process_fn_map fs fname = map_of (rev (map (\<lambda>f. (fn_name f, f)) fs)) fname"
proof -
  have "foldl (\<lambda>m f. m(fn_name f \<mapsto> f)) m fs = m ++ map_of (rev (map (\<lambda>f. (fn_name f, f)) fs))" for m
    by (induction fs arbitrary: m) (auto simp: map_add_def fun_eq_iff split: option.splits)
  then show ?thesis by (simp add: process_fn_map_def)
qed

lemma map_of_owner:
  "map_of (rev (map (\<lambda>f. (fn_name f, n, f)) fs)) fname = map_option (Pair n) (map_of (rev (map (\<lambda>f. (fn_name f, f)) fs)) fname)"
proof -
  have "rev (map (\<lambda>f. (fn_name f, n, f)) fs) = map (\<lambda>(k, f). (k, n, f)) (rev (map (\<lambda>f. (fn_name f, f)) fs))"
    by (simp add: rev_map [symmetric])
  then show ?thesis by (simp add: map_of_map)
qed

lemma process_fn_lookup:
  "process_fn E svc fname seqid = (case lookup_method svc fname of
       Some (n, f) \<Rightarrow> Calls n f (process_method n f)
     | None \<Rightarrow> unknown_method E fname seqid)"
  unfolding lookup_method_def
  by (induction E svc fname seqid rule: process_fn.induct)
    (auto simp: process_fn_map_of map_add_def map_of_owner split: option.splits)

text \<open>C33: The chain of process_fn from a derived processor to its bases is one lookup in the table of all
  methods, where a derived service's method hides one of the same name of its base; every name not
  in the table is answered as an unknown method.\<close>

theorem process_fn_is_lookup:
  "process_fn E svc fname seqid = (case lookup_method svc fname of
       Some (n, f) \<Rightarrow> Calls n f (process_method n f)
     | None \<Rightarrow> unknown_method E fname seqid)"
  by (rule process_fn_lookup)

section \<open>Answers\<close>

text \<open>An answer that is an error: a wrong message type, an unknown method, a handler's error code.\<close>

definition fails :: "gen_service \<Rightarrow> error_code option \<Rightarrow> string \<Rightarrow> tmessage_type \<Rightarrow> bool" where
  "fails svc completion fname mtype \<longleftrightarrow> (mtype \<noteq> T_CALL \<and> mtype \<noteq> T_ONEWAY) \<or> lookup_method svc fname = None
     \<or> (\<exists>ec. completion = Some ec \<and> ec_is_error ec)"

text \<open>What is written then: what is left of a request that is not for a method is skipped, and an exception
  goes out under the name and the number of the request; nothing for a one-way method.\<close>

definition exception_reply :: "string \<Rightarrow> int \<Rightarrow> stub_op \<Rightarrow> stub_op list" where
  "exception_reply fname seqid what = [Proto (WriteMessageBegin fname T_EXCEPTION seqid), what,
     Proto WriteMessageEnd, Proto Flush, Proto WriteEnd]"

definition handler_error :: "gen_function \<Rightarrow> string \<Rightarrow> int \<Rightarrow> string \<Rightarrow> stub_op list" where
  "handler_error f fname seqid msg =
     (if fn_oneway f then [] else exception_reply fname seqid (WriteError kAppUnknown msg))"

definition error_answer ::
  "gen_service \<Rightarrow> (error_code \<Rightarrow> string) \<Rightarrow> error_code option \<Rightarrow> string \<Rightarrow> tmessage_type \<Rightarrow> int \<Rightarrow> stub_op list" where
  "error_answer svc message completion fname mtype seqid =
     (let skip = [Proto SkipStruct, Proto ReadMessageEnd, Proto ReadEnd]
      in if mtype \<noteq> T_CALL \<and> mtype \<noteq> T_ONEWAY
         then skip @ exception_reply fname seqid (Proto (WriteAppException kAppInvalidMessageType))
         else case lookup_method svc fname of
           None \<Rightarrow> skip @ exception_reply fname seqid
             (WriteError kAppMethod (''Invalid method name: '' @ [CHR 0x27] @ fname @ [CHR 0x27]))
         | Some (n, f) \<Rightarrow> handler_error f fname seqid (message (the completion)))"

lemma method_table_name: "(k, n, f) \<in> set (method_table svc) \<Longrightarrow> fn_name f = k"
  by (induction svc rule: method_table.induct) (auto split: option.splits)

lemma lookup_name: "lookup_method svc fname = Some (n, f) \<Longrightarrow> fn_name f = fname"
  unfolding lookup_method_def by (drule map_of_SomeD) (rule method_table_name)

lemma handler_error_written:
  assumes "fn_name f = fname" and "ec_is_error ec"
  shows "\<exists>oneway. complete_method n f seqid message ec = (handler_error f fname seqid (message ec), ec, oneway)"
  using assms by (auto simp: complete_method_def handler_error_def exception_reply_def)

lemma failing_request:
  assumes "fails svc completion fname mtype"
    and "app_value E kAppInvalidMessageType \<noteq> 0" and "app_value E kAppWrongMethodName \<noteq> 0"
  shows "\<exists>ec oneway. request_result E encode message svc completion fname mtype seqid
      = CalledBack ec oneway (encode (error_answer svc message completion fname mtype seqid)) \<and> ec_is_error ec"
proof (cases "mtype \<noteq> T_CALL \<and> mtype \<noteq> T_ONEWAY")
  case True
  with assms(2) show ?thesis
    by (auto simp: request_result_def async_processor_process_def error_answer_def exception_reply_def make_app_def
        ec_is_error_def Let_def)
next
  case call: False
  show ?thesis
  proof (cases "lookup_method svc fname")
    case None
    with call assms(3) show ?thesis
      by (auto simp: request_result_def async_processor_process_def process_fn_lookup unknown_method_def error_answer_def
          exception_reply_def make_app_def ec_is_error_def Let_def)
  next
    case (Some x)
    then obtain n f where x: "lookup_method svc fname = Some (n, f)" by (cases x) simp
    with call assms(1) obtain ec where ec: "completion = Some ec" "ec_is_error ec" by (auto simp: fails_def)
    from handler_error_written [OF lookup_name [OF x] ec(2), of n seqid message] call ec x show ?thesis
      by (auto simp: request_result_def async_processor_process_def process_fn_lookup error_answer_def Let_def)
  qed
qed

text \<open>The callback with an error: the connection closes, out of its manager if it is in one, and goes.\<close>

lemma error_callback_closes:
  assumes "ec_is_error ec" and "async_rpc c"
  shows "\<exists>c'. server_callback ec oneway out c
      = Ok (c', if has_manager c then [AExt Erased, AExt Deleted] else [AExt Deleted]) \<and> output_buffer c' = out \<and> sock c' = None"
  using assms
  by (auto simp: server_callback_def server_async_process_def server_on_close_def conn_destructor_def base_on_close_def Let_def)

lemma called_back:
  "server_on_handle_frame bm (CalledBack ec oneway out) c
    = with_actions [AExt (CallProcessor (input_buffer c))] (server_callback ec oneway out c)"
  by (simp add: server_on_handle_frame_def server_callback_def)

text \<open>C34: Every error answer - to a wrong message type, to an unknown method, of a handler that calls back
  with an error, at once or later - is written into the output buffer, as one exception message under
  the name and the number of the request with the type and the text of the error (nothing for a
  one-way method), and then lost: the callback's error code makes the asynchronous server close and
  delete the connection without sending it.\<close>

theorem error_answers_dropped:
  assumes "async_rpc c" and "app_value E kAppInvalidMessageType \<noteq> 0" and "app_value E kAppWrongMethodName \<noteq> 0"
  shows "(fails svc completion fname mtype \<longrightarrow>
      (\<exists>c'. server_on_handle_frame bm (request_result E encode message svc completion fname mtype seqid) c
          = Ok (c', AExt (CallProcessor (input_buffer c)) # (if has_manager c then [AExt Erased, AExt Deleted] else [AExt Deleted]))
        \<and> output_buffer c' = encode (error_answer svc message completion fname mtype seqid) \<and> sock c' = None))
    \<and> (\<forall>n f ec. (mtype = T_CALL \<or> mtype = T_ONEWAY) \<and> lookup_method svc fname = Some (n, f) \<and> ec_is_error ec \<longrightarrow>
      server_on_handle_frame bm (request_result E encode message svc None fname mtype seqid) c
          = Ok (c, [AExt (CallProcessor (input_buffer c))])
      \<and> (\<exists>c'. (case complete_method n f seqid message ec of (ops, ec, oneway) \<Rightarrow> server_callback ec oneway (encode ops) c)
          = Ok (c', if has_manager c then [AExt Erased, AExt Deleted] else [AExt Deleted])
        \<and> output_buffer c' = encode (error_answer svc message (Some ec) fname mtype seqid) \<and> sock c' = None))"
proof (intro conjI allI impI; (elim conjE)?)
  assume "fails svc completion fname mtype"
  from failing_request [OF this assms(2,3), of encode message seqid] obtain ec oneway where
    r: "request_result E encode message svc completion fname mtype seqid
      = CalledBack ec oneway (encode (error_answer svc message completion fname mtype seqid))" "ec_is_error ec" by blast
  from error_callback_closes [OF r(2) assms(1), of oneway "encode (error_answer svc message completion fname mtype seqid)"]
  show "\<exists>c'. server_on_handle_frame bm (request_result E encode message svc completion fname mtype seqid) c
          = Ok (c', AExt (CallProcessor (input_buffer c)) # (if has_manager c then [AExt Erased, AExt Deleted] else [AExt Deleted]))
        \<and> output_buffer c' = encode (error_answer svc message completion fname mtype seqid) \<and> sock c' = None"
    unfolding r(1) called_back by (auto simp: with_actions_def)
next
  fix n f ec
  assume m: "mtype = T_CALL \<or> mtype = T_ONEWAY" and f: "lookup_method svc fname = Some (n, f)" and ec: "ec_is_error ec"
  show "server_on_handle_frame bm (request_result E encode message svc None fname mtype seqid) c
      = Ok (c, [AExt (CallProcessor (input_buffer c))])"
    using m f assms(1) by (auto simp: request_result_def async_processor_process_def process_fn_lookup
        server_on_handle_frame_def with_actions_def)
  from m f have a: "error_answer svc message (Some ec) fname mtype seqid = handler_error f fname seqid (message ec)"
    by (auto simp: error_answer_def Let_def)
  from handler_error_written [OF lookup_name [OF f] ec, of n seqid message]
    error_callback_closes [OF ec assms(1), of _ "encode (handler_error f fname seqid (message ec))"]
  show "\<exists>c'. (case complete_method n f seqid message ec of (ops, ec, oneway) \<Rightarrow> server_callback ec oneway (encode ops) c)
      = Ok (c', if has_manager c then [AExt Erased, AExt Deleted] else [AExt Deleted])
        \<and> output_buffer c' = encode (error_answer svc message (Some ec) fname mtype seqid) \<and> sock c' = None"
    unfolding a by auto
qed

definition base_service :: gen_service where
  "base_service = Service ''FacebookService'' [\<lparr>fn_name = ''getName'', fn_oneway = False, fn_void = False\<rparr>,
     \<lparr>fn_name = ''reinitialize'', fn_oneway = True, fn_void = True\<rparr>] None"

definition derived_service :: gen_service where
  "derived_service = Service ''Search'' [\<lparr>fn_name = ''find'', fn_oneway = False, fn_void = False\<rparr>,
     \<lparr>fn_name = ''flush'', fn_oneway = False, fn_void = True\<rparr>] (Some base_service)"

theorem error_answers_dropped_witness:
  "\<exists>c' as. server_on_handle_frame 74 (request_result sample_enums (\<lambda>ops. [of_nat (length ops)]) (\<lambda>_. []) derived_service None ''nope'' T_CALL 7)
     oneway_conn = Ok (c', as) \<and> next_io as = None \<and> output_buffer c' = [8]"
proof -
  have f: "fails derived_service None ''nope'' T_CALL"
    by (simp add: fails_def lookup_method_def derived_service_def base_service_def)
  have c: "async_rpc oneway_conn" by (simp add: oneway_conn_def)
  have e: "app_value sample_enums kAppInvalidMessageType \<noteq> 0" "app_value sample_enums kAppWrongMethodName \<noteq> 0"
    by (simp_all add: sample_enums_def)
  have "length (error_answer derived_service (\<lambda>_. []) None ''nope'' T_CALL 7) = 8"
    by (simp add: error_answer_def exception_reply_def lookup_method_def derived_service_def base_service_def Let_def)
  with error_answers_dropped [OF c e, of derived_service None "''nope''" T_CALL 74 "\<lambda>ops. [of_nat (length ops)]" "\<lambda>_. []" 7,
      THEN conjunct1, THEN mp, OF f]
  show ?thesis by (auto split: if_splits)
qed

text \<open>What a reply to a call is: under the function's name and the call's number, without an error.\<close>

definition reply_ops :: "string \<Rightarrow> gen_function \<Rightarrow> int \<Rightarrow> stub_op list" where
  "reply_ops svc f seqid = (if fn_void f then [] else [SetSuccess])
     @ [Proto (WriteMessageBegin (fn_name f) T_REPLY seqid), WriteResult (svc @ ''_'' @ fn_name f @ ''_result''),
        Proto WriteMessageEnd, Proto Flush, Proto WriteEnd]"

text \<open>C35: A call of a method the service or one of its bases has, answered without an error, is replied to
  with exactly one message, the method's result under its name and the number of the call, and
  nothing is written before; this holds whether the handler calls back at once or later.\<close>

theorem successful_call_replied:
  assumes "lookup_method svc fname = Some (n, f)" and "\<not> fn_oneway f" and "\<not> ec_is_error ec"
    and "async_rpc c" and "sock c \<noteq> None" and "mtype = T_CALL \<or> mtype = T_ONEWAY"
  shows "(\<exists>c'. server_on_handle_frame bm (request_result E encode message svc (Some ec) fname mtype seqid) c
            = Ok (c', [AExt (CallProcessor (input_buffer c)), AWrite (strand c \<noteq> None) (encode (reply_ops n f seqid))]))
    \<and> server_on_handle_frame bm (request_result E encode message svc None fname mtype seqid) c
            = Ok (c, [AExt (CallProcessor (input_buffer c))])
    \<and> (\<exists>c'. (case complete_method n f seqid message ec of (ops, ec, oneway) \<Rightarrow> server_callback ec oneway (encode ops) c)
            = Ok (c', [AWrite (strand c \<noteq> None) (encode (reply_ops n f seqid))]))"
  using assms
  by (auto simp: request_result_def async_processor_process_def process_fn_lookup complete_method_def reply_ops_def
      fn_prefix_def server_on_handle_frame_def server_callback_def server_async_process_def with_actions_def
      start_write_output_buffer_def)

section \<open>Operation numbers\<close>

text \<open>All functions of a service and its bases with their numbers.\<close>

fun op_table :: "gen_service \<Rightarrow> (string \<times> gen_function \<times> nat) list" where
  "op_table (Service n fs base) = map (\<lambda>(f, v). (n, f, v)) (enum_values (Service n fs base))
     @ (case base of None \<Rightarrow> [] | Some b \<Rightarrow> op_table b)"

lemma enum_numbers: "map snd (enum_values svc) = [enum_begin svc + 1..<enum_end svc]"
  by (cases svc) (simp add: enum_values_def)

lemma op_numbers_below: "(n, f, v) \<in> set (op_table svc) \<Longrightarrow> 0 < v \<and> v < enum_end svc"
proof (induction svc rule: op_table.induct)
  case (1 m fs base)
  show ?case
  proof (cases "(f, v) \<in> set (enum_values (Service m fs base))")
    case True
    then have "v \<in> set (map snd (enum_values (Service m fs base)))" by force
    then show ?thesis unfolding enum_numbers by auto
  next
    case False
    with 1 show ?thesis by (cases base) force+
  qed
qed

lemma op_numbers_distinct: "distinct (map (snd \<circ> snd) (op_table svc))"
proof (induction svc rule: op_table.induct)
  case (1 m fs base)
  let ?s = "Service m fs base"
  have "map (snd \<circ> snd) (map (\<lambda>(f, v). (m, f, v)) xs) = map snd xs" for xs :: "(gen_function \<times> nat) list"
    by (induction xs) auto
  from trans [OF this enum_numbers]
  have own: "map (snd \<circ> snd) (map (\<lambda>(f, v). (m, f, v)) (enum_values ?s)) = [enum_begin ?s + 1..<enum_end ?s]" .
  have all: "map (snd \<circ> snd) (op_table ?s) = [enum_begin ?s + 1..<enum_end ?s]
      @ map (snd \<circ> snd) (case base of None \<Rightarrow> [] | Some b \<Rightarrow> op_table b)"
    by (simp only: op_table.simps map_append own)
  have "v < enum_begin ?s + 1" if "v \<in> set (map (snd \<circ> snd) (case base of None \<Rightarrow> [] | Some b \<Rightarrow> op_table b))" for v
    using that op_numbers_below [of _ _ v "the base"] by (fastforce split: option.splits)
  moreover have "distinct (map (snd \<circ> snd) (case base of None \<Rightarrow> [] | Some b \<Rightarrow> op_table b))"
    using 1 by (cases base) (simp_all add: comp_def)
  ultimately show ?case unfolding all by (fastforce simp del: enum_begin.simps enum_end.simps upt_Suc)
qed

text \<open>The number of a function finds its own entry.\<close>

lemma find_unique:
  "distinct (map snd xs) \<Longrightarrow> (f, v) \<in> set xs \<Longrightarrow>
     find (\<lambda>(g, w). w = v \<and> P g) xs = (if P f then Some (f, v) else None)"
proof (induction xs)
  case (Cons x xs)
  then show ?case by (cases x) (force simp: find_None_iff)
qed simp

lemma find_none: "v \<notin> set (map snd xs) \<Longrightarrow> find (\<lambda>(g, w). w = v \<and> P g) xs = None"
  by (auto simp: find_None_iff) force

lemma fill_result_above: "enum_end svc \<le> v \<Longrightarrow> fill_result svc v = None"
proof (induction svc v rule: fill_result.induct)
  case (1 n fs base v)
  have "v \<notin> set (map snd (enum_values (Service n fs base)))" unfolding enum_numbers using 1(2) by simp
  from find_none [OF this, of "\<lambda>f. \<not> fn_void f"]
  have "find (\<lambda>(f, w). w = v \<and> \<not> fn_void f) (enum_values (Service n fs base)) = None" .
  with 1 show ?case by (cases base) auto
qed

lemma fill_result_entry:
  "(n, f, v) \<in> set (op_table svc) \<Longrightarrow> fill_result svc v = (if fn_void f then None else Some (n, fn_name f))"
proof (induction svc rule: op_table.induct)
  case (1 m fs base)
  let ?s = "Service m fs base"
  have d: "distinct (map snd (enum_values ?s))" unfolding enum_numbers by simp
  show ?case
  proof (cases "v \<in> set (map snd (enum_values ?s))")
    case True
    then have above: "enum_begin ?s < v" unfolding enum_numbers by (simp del: enum_begin.simps enum_end.simps)
    have "\<not> (\<exists>b. base = Some b \<and> (n, f, v) \<in> set (op_table b))"
      using above op_numbers_below [of n f v "the base"] by auto
    with "1.prems" have e: "(f, v) \<in> set (enum_values ?s)" "n = m" by (cases base; auto)+
    have "base = Some b \<Longrightarrow> fill_result b v = None" for b
      using above fill_result_above [of b v] by simp
    with find_unique [OF d e(1), of "\<lambda>f. \<not> fn_void f"] e(2) show ?thesis by (cases base) auto
  next
    case False
    with "1.prems" obtain b where b: "base = Some b" "(n, f, v) \<in> set (op_table b)"
      by (cases base) (force simp del: enum_begin.simps)+
    with "1.IH" find_none [OF False, of "\<lambda>f. \<not> fn_void f"] show ?thesis by simp
  qed
qed

text \<open>C36: No two functions of a service and its bases have the same operation number, so the reply to a
  call of any of them that returns a value is read by that function's recv; the reply to a function
  without one is not read at all: whatever it contains, an exception included, the call is reported
  as a success.\<close>

theorem replies_read_by_number:
  assumes "(n, f, v) \<in> set (op_table svc)" and "pending_op c = Some (stub_async_op cb f v)"
  shows "distinct (map (snd \<circ> snd) (op_table svc))
    \<and> fill_result svc v = (if fn_void f then None else Some (n, fn_name f))
    \<and> (\<exists>c' as. client_on_handle_frame bm (reply_outcome svc recv (stub_async_op cb f v) (input_buffer c)) c
          = Ok (c', as @ [AExt (Invoke cb (if fn_void f then \<lparr>ec_value = 0, ec_category = PosixCategory\<rparr>
              else fill_error_code bm (recv n (fn_name f) (input_buffer c))))]) \<and> pending_op c' = None)"
  using assms op_numbers_distinct [of svc] fill_result_entry [OF assms(1)]
  by (simp add: client_on_handle_frame_def reply_outcome_def stub_async_op_def complete_pending_op_def
      with_actions_def fill_error_code_def)

definition waiting_client :: client_conn where
  "waiting_client = (client_of (conn_on_service 1 2))\<lparr>pending_op := Some (stub_async_op 5
     \<lparr>fn_name = ''flush'', fn_oneway = False, fn_void = True\<rparr> 5)\<rparr>"

theorem replies_read_by_number_witness:
  "fill_result derived_service 5 = None"
  using replies_read_by_number [of "''Search''" "\<lparr>fn_name = ''flush'', fn_oneway = False, fn_void = True\<rparr>" 5
      derived_service waiting_client 5 0 "\<lambda>_ _ _. None"]
  by (simp add: derived_service_def base_service_def enum_values_def waiting_client_def eval_nat_numeral)

theorem successful_call_replied_witness:
  "\<exists>c'. server_on_handle_frame 74 (request_result sample_enums (\<lambda>ops. [1]) (\<lambda>_. []) derived_service (Some ec_success)
     ''getName'' T_CALL 7) oneway_conn = Ok (c', [AExt (CallProcessor (input_buffer oneway_conn)), AWrite (strand oneway_conn \<noteq> None) [1]])"
proof -
  have "lookup_method derived_service ''getName'' = Some (''FacebookService'', \<lparr>fn_name = ''getName'', fn_oneway = False, fn_void = False\<rparr>)"
    by (simp add: lookup_method_def derived_service_def base_service_def)
  moreover have "async_rpc oneway_conn" "sock oneway_conn \<noteq> None"
    by (simp_all add: oneway_conn_def conn_on_service_def common_init_def raw_conn_def)
  ultimately show ?thesis
    using successful_call_replied [of derived_service "''getName''" "''FacebookService''"
        "\<lparr>fn_name = ''getName'', fn_oneway = False, fn_void = False\<rparr>" ec_success oneway_conn T_CALL 74 sample_enums "\<lambda>ops. [1]" "\<lambda>_. []" 7]
    by (auto simp: ec_is_error_def ec_success_def)
qed

end
