(* ===== verification/GeneratorClassesSpec.thy ===== *)
theory GeneratorClassesSpec
  imports GeneratorClasses GeneratedStubs
begin

text \<open>
  What the files of \<open>generate_async\<close> (src/thrift\_0.5.0\_patch/t\_cpp\_generator.cc.inl) are: their braces
  balance, every function a class declares is defined in the source with the same signature, and the
  numbers and cases written as text are those of the tables in GeneratedStubs.
\<close>

section \<open>Braces\<close>

text \<open>The number of blocks open after a text that starts inside \<open>n\<close> of them, \<open>None\<close> when it closes one
  that is not open.\<close>

fun nest :: "nat \<Rightarrow> string \<Rightarrow> nat option" where
  "nest n [] = Some n"
| "nest n (c # cs) = (if c = CHR ''{'' then nest (Suc n) cs
     else if c = CHR ''}'' then (case n of 0 \<Rightarrow> None | Suc k \<Rightarrow> nest k cs) else nest n cs)"

fun nest_lines :: "nat \<Rightarrow> line list \<Rightarrow> nat option" where
  "nest_lines n [] = Some n"
| "nest_lines n (Blank # ls) = nest_lines n ls"
| "nest_lines n (Line k s # ls) = (case nest n s of None \<Rightarrow> None | Some m \<Rightarrow> nest_lines m ls)"

definition plain :: "string \<Rightarrow> bool" where
  "plain s \<longleftrightarrow> CHR ''{'' \<notin> set s \<and> CHR ''}'' \<notin> set s"

lemma plain_simps [simp]: "plain []" "plain (c # s) \<longleftrightarrow> c \<noteq> CHR ''{'' \<and> c \<noteq> CHR ''}'' \<and> plain s"
  "plain (s @ t) \<longleftrightarrow> plain s \<and> plain t"
  by (auto simp: plain_def)

lemma nest_append: "nest n (s @ t) = (case nest n s of None \<Rightarrow> None | Some m \<Rightarrow> nest m t)"
  by (induction n s rule: nest.induct) (auto split: nat.splits)

lemma nest_plain [simp]: "plain s \<Longrightarrow> nest n (s @ t) = nest n t"
  by (induction s) auto

lemma nest_plain_end [simp]: "plain s \<Longrightarrow> nest n s = Some n"
  using nest_plain [of s n "[]"] by simp

lemma nest_lines_append:
  "nest_lines n (ls @ ms) = (case nest_lines n ls of None \<Rightarrow> None | Some m \<Rightarrow> nest_lines m ms)"
  by (induction n ls rule: nest_lines.induct) (auto split: option.splits)

text \<open>Lines that leave the number of open blocks as it is.\<close>

definition closed :: "line list \<Rightarrow> bool" where
  "closed ls \<longleftrightarrow> (\<forall>n. nest_lines n ls = Some n)"

lemma closed_append [intro]: "closed ls \<Longrightarrow> closed ms \<Longrightarrow> closed (ls @ ms)"
  by (simp add: closed_def nest_lines_append)

lemma closed_concat: "(\<And>x. x \<in> set xs \<Longrightarrow> closed (f x)) \<Longrightarrow> closed (concat (map f xs))"
  by (induction xs) (auto simp: closed_def nest_lines_append)

lemma closed_spaced: "(\<And>ls. ls \<in> set lss \<Longrightarrow> closed ls) \<Longrightarrow> closed (blank_between lss)"
  by (induction lss rule: blank_between.induct) (auto simp: closed_def nest_lines_append)

lemma nest_lines_closed [simp]: "closed ls \<Longrightarrow> nest_lines n (ls @ ms) = nest_lines n ms"
  by (simp add: closed_def nest_lines_append)

lemma nest_lines_plain_map: "\<forall>x \<in> set xs. plain (h x) \<Longrightarrow> nest_lines m (map (\<lambda>x. Line k (h x)) xs @ ls) = nest_lines m ls"
  by (induction xs) simp_all

lemma closed_map: "\<forall>x \<in> set xs. plain (h x) \<Longrightarrow> closed (map (\<lambda>x. Line k (h x)) xs)"
  using nest_lines_plain_map [of xs h _ k "[]"] by (simp add: closed_def)

text \<open>Names without braces, in types, functions and services.\<close>

fun plain_type :: "ttype \<Rightarrow> bool" where
  "plain_type (TBase b) \<longleftrightarrow> True"
| "plain_type (TList e cpp) \<longleftrightarrow> plain_type e \<and> (case cpp of None \<Rightarrow> True | Some n \<Rightarrow> plain n)"
| "plain_type (TSet e cpp) \<longleftrightarrow> plain_type e \<and> (case cpp of None \<Rightarrow> True | Some n \<Rightarrow> plain n)"
| "plain_type (TMap k v cpp) \<longleftrightarrow> plain_type k \<and> plain_type v \<and> (case cpp of None \<Rightarrow> True | Some n \<Rightarrow> plain n)"
| "plain_type (TStruct p n) \<longleftrightarrow> plain n \<and> (case p of None \<Rightarrow> True | Some (_, ns) \<Rightarrow> plain ns)"
| "plain_type (TXception p n) \<longleftrightarrow> plain n \<and> (case p of None \<Rightarrow> True | Some (_, ns) \<Rightarrow> plain ns)"
| "plain_type (TEnum p n) \<longleftrightarrow> plain n \<and> (case p of None \<Rightarrow> True | Some (_, ns) \<Rightarrow> plain ns)"
| "plain_type (TTypedef p n t) \<longleftrightarrow> plain n \<and> (case p of None \<Rightarrow> True | Some (_, ns) \<Rightarrow> plain ns)"

definition plain_function :: "t_function \<Rightarrow> bool" where
  "plain_function f \<longleftrightarrow> plain (tf_name f) \<and> plain_type (tf_return f)
     \<and> (\<forall>a \<in> set (tf_args f). plain (fd_name a) \<and> plain_type (fd_type a))"

definition plain_service :: "t_service \<Rightarrow> bool" where
  "plain_service s \<longleftrightarrow> plain (sv_name s) \<and> (\<forall>f \<in> set (sv_functions s). plain_function f)
     \<and> (case sv_extends s of None \<Rightarrow> True | Some b \<Rightarrow> plain (sv_name b) \<and> plain (sv_ns b))"

lemma plain_components: "plain ns \<Longrightarrow> c \<in> set (components ns) \<Longrightarrow> plain c"
  by (induction ns arbitrary: c)
    (auto split: if_splits simp: components_ne dest: list.set_sel(2) [OF components_ne] intro: list.set_sel(1) [OF components_ne])

lemma plain_prefix: "plain ns \<Longrightarrow> plain (namespace_prefix ns)"
proof -
  assume ns: "plain ns"
  have "set (named_components ns) \<subseteq> set (components ns)"
    by (auto simp: named_components_def dest: in_set_butlastD)
  then have "plain c" if "c \<in> set (named_components ns)" for c using that plain_components [OF ns] by blast
  then have "plain (concat (map (\<lambda>c. c @ ''::'') (named_components ns)))"
    by (induction "named_components ns") (auto simp: plain_def)
  then show ?thesis by (simp add: namespace_prefix_def prefix_loop_components)
qed

lemma plain_named: "plain n \<Longrightarrow> (case p of None \<Rightarrow> True | Some (_, ns) \<Rightarrow> plain ns) \<Longrightarrow> plain (named_type g cls p n)"
  by (auto simp: named_type_def Let_def plain_prefix split: option.splits)

lemma plain_as_argument [simp]: "plain (as_argument arg ref n) \<longleftrightarrow> plain n"
  by (simp add: as_argument_def)

lemma plain_base [simp]: "plain (base_type_name b)"
  by (cases b) simp_all

lemma plain_type_name: "plain_type t \<Longrightarrow> plain (type_name g td arg t)"
  by (induction g td arg t rule: type_name.induct) (auto simp: plain_named split: option.splits)

lemma plain_argument_loop:
  "plain result \<Longrightarrow> \<forall>a \<in> set fs. plain (fd_name a) \<and> plain_type (fd_type a) \<Longrightarrow>
     plain (argument_loop g np fs first result)"
  by (induction g np fs first result rule: argument_loop.induct) (auto simp: plain_type_name)

lemma plain_signatures:
  assumes f: "plain_function f" and p: "plain prefix"
  shows "plain (async_if_function_signature g f prefix np)" and "plain (function_signature g f prefix np)"
    and "plain (async_process_function_signature f prefix)"
    and "plain svc \<Longrightarrow> plain (async_complete_function_signature f svc prefix)"
proof -
  have "plain (argument_list g (tf_args f) np)"
    using f by (auto simp: argument_list_def plain_function_def intro!: plain_argument_loop)
  moreover have "plain (type_name g False False (tf_return f))" "plain (tf_name f)"
    using f by (auto simp: plain_function_def plain_type_name)
  ultimately show "plain (async_if_function_signature g f prefix np)" "plain (function_signature g f prefix np)"
    "plain (async_process_function_signature f prefix)"
    "plain svc \<Longrightarrow> plain (async_complete_function_signature f svc prefix)"
    using p by (simp_all add: async_if_function_signature_def function_signature_def
        async_process_function_signature_def async_complete_function_signature_def)
qed

lemma plain_arg_string: "\<forall>a \<in> set fs. plain (fd_name a) \<Longrightarrow> plain (arg_string fs)"
  by (induction fs rule: arg_string.induct) auto

lemma plain_classes [simp]:
  "plain (client_class s) \<longleftrightarrow> plain (sv_name s)" "plain (if_class s) \<longleftrightarrow> plain (sv_name s)"
  "plain (null_class s) \<longleftrightarrow> plain (sv_name s)" "plain (processor_class s) \<longleftrightarrow> plain (sv_name s)"
  "plain (quoted x) \<longleftrightarrow> plain x"
  by (simp_all add: client_class_def if_class_def null_class_def processor_class_def quoted_def)

section \<open>The braces of a class and of its functions\<close>

lemma plain_service_facts:
  assumes "plain_service s"
  shows "plain (sv_name s)" and "f \<in> set (sv_functions s) \<Longrightarrow> plain_function f"
    and "sv_extends s = Some b \<Longrightarrow> plain (sv_name b) \<and> plain (namespace_prefix (sv_ns b))"
  using assms by (auto simp: plain_service_def plain_prefix)

lemma plain_function_name: "plain_function f \<Longrightarrow> plain (tf_name f)"
  by (simp add: plain_function_def)

lemma closed_stubs:
  assumes s: "plain_service s" and f: "plain_function f"
  shows "closed (async_stub_lines g s f)" and "closed (sync_stub_lines g s f)" and "closed (fill_case_lines g f)"
proof -
  note n = plain_service_facts(1) [OF s] plain_function_name [OF f]
  have a: "plain (arg_string (tf_args f))" using f by (intro plain_arg_string) (simp add: plain_function_def)
  have t: "plain (type_name g False False (tf_return f))" using f by (simp add: plain_function_def plain_type_name)
  show "closed (async_stub_lines g s f)"
    using n a plain_signatures(1) [OF f, of "client_class s @ ''::''"]
    by (simp add: closed_def async_stub_lines_def not_connected_line_def frame_variables_def send_lines_def
        async_write_lines_def op_enum_def)
  have fl: "nest_lines m (failed_lines @ ls) = nest_lines m ls" for m ls
    by (simp add: failed_lines_def quoted_def)
  have rl: "nest_lines m (receive_lines @ ls) = nest_lines m ls" for m ls
    by (simp add: receive_lines_def quoted_def fl)
  show "closed (sync_stub_lines g s f)"
    using n a plain_signatures(2) [OF f, of "client_class s @ ''::''"]
    by (simp add: closed_def sync_stub_lines_def not_connected_line_def frame_variables_def send_lines_def fl rl)
  show "closed (fill_case_lines g f)"
    using n t by (simp add: closed_def fill_case_lines_def op_enum_def)
qed

lemma closed_methods:
  assumes s: "plain_service s" and f: "plain_function f"
  shows "closed (process_method_lines s f)" and "closed (complete_method_lines s f)"
    and "closed (client_declarations g f)" and "closed (processor_declarations s f)" and "closed (null_lines g f)"
proof -
  note n = plain_service_facts(1) [OF s] plain_function_name [OF f]
  have args: "nest_lines m (map (\<lambda>a. Line 2 (tf_name f @ ''_args'' @ ''->'' @ fd_name a @ '','')) (tf_args f) @ ls) = nest_lines m ls"
    for m ls
    by (rule nest_lines_plain_map) (use f in \<open>auto simp: plain_function_def\<close>)
  show "closed (process_method_lines s f)"
    using n args plain_signatures(3) [OF f, of "processor_class s @ ''::''"]
    by (simp add: closed_def process_method_lines_def Let_def)
  have ml: "plain kind \<Longrightarrow> plain body \<Longrightarrow> nest_lines m (message_lines f kind body @ ls) = nest_lines m ls" for m kind body ls
    using n by (simp add: message_lines_def)
  show "closed (complete_method_lines s f)"
    using n plain_signatures(4) [OF f, of "processor_class s @ ''::''" "sv_name s"]
    by (simp add: closed_def complete_method_lines_def ml)
  show "closed (client_declarations g f)" "closed (processor_declarations s f)" "closed (null_lines g f)"
    using n plain_signatures [OF f, of "[]"]
    by (simp_all add: closed_def client_declarations_def processor_declarations_def null_lines_def)
qed

lemma closed_client:
  assumes s: "plain_service s"
  shows "closed (client_header g s)" and "closed (client_source g s)"
proof -
  note n = plain_service_facts [OF s]
  have d: "closed (concat (map (client_declarations g) (sv_functions s)))"
    by (rule closed_concat) (use closed_methods [OF s n(2)] in blast)
  have e: "closed (enum_lines s)"
  proof -
    have "closed (map (\<lambda>f. Line 2 (op_enum f @ '','')) (sv_functions s))"
      by (rule closed_map) (use n(2) in \<open>auto simp: op_enum_def plain_function_name\<close>)
    then show ?thesis using n by (cases "sv_extends s") (simp_all add: closed_def enum_lines_def nest_lines_append)
  qed
  show "closed (client_header g s)"
    using n d e by (cases "sv_extends s") (simp_all add: closed_def client_header_def nest_lines_append)
  have st: "closed (concat (map (\<lambda>f. async_stub_lines g s f @ sync_stub_lines g s f) (sv_functions s)))"
    by (rule closed_concat) (use closed_stubs [OF s n(2)] in blast)
  have fc: "closed (concat (map (fill_case_lines g) (sv_functions s)))"
    by (rule closed_concat) (use closed_stubs [OF s n(2)] in blast)
  have fr: "closed (fill_result_lines g s)"
    using n fc by (cases "sv_extends s") (simp_all add: closed_def fill_result_lines_def nest_lines_append)
  have c: "closed (client_constructors s)"
    using n by (cases "sv_extends s") (simp_all add: closed_def client_constructors_def Let_def)
  show "closed (client_source g s)" unfolding client_source_def by (intro closed_append c st fr)
qed

lemma closed_if_and_processor:
  assumes s: "plain_service s"
  shows "closed (if_header g s)" and "closed (null_header g s)" and "closed (processor_header s)"
    and "closed (processor_source s)"
proof -
  note n = plain_service_facts [OF s]
  have f: "closed (map (\<lambda>f. Line 1 (async_if_function_signature g f [] True @ '' = 0;'')) (sv_functions s))"
    by (rule closed_map) (use n(2) plain_signatures(1) [of _ "[]"] in auto)
  show "closed (if_header g s)"
    using n f by (cases "sv_extends s") (simp_all add: closed_def if_header_def nest_lines_append)
  have nl: "closed (blank_between (map (null_lines g) (sv_functions s)))"
    by (rule closed_spaced) (use closed_methods [OF s n(2)] in auto)
  show "closed (null_header g s)"
    using n nl by (cases "sv_extends s") (simp_all add: closed_def null_header_def base_clause_def nest_lines_append)
  have pd: "closed (concat (map (processor_declarations s) (sv_functions s)))"
    by (rule closed_concat) (use closed_methods [OF s n(2)] in blast)
  have me: "closed (map (map_entry_line s) (sv_functions s))"
    unfolding map_entry_line_def by (rule closed_map) (use n in \<open>auto simp: plain_function_name\<close>)
  show "closed (processor_header s)"
    using n pd me by (cases "sv_extends s") (simp_all add: closed_def processor_header_def base_clause_def nest_lines_append)
  have "closed (process_fn_lines s)"
    using n by (cases "sv_extends s") (simp_all add: closed_def process_fn_lines_def quoted_def)
  moreover have "closed (concat (map (\<lambda>f. process_method_lines s f @ complete_method_lines s f) (sv_functions s)))"
    by (rule closed_concat) (use closed_methods [OF s n(2)] in blast)
  ultimately show "closed (processor_source s)" unfolding processor_source_def by blast
qed

section \<open>Namespaces and files\<close>

lemma nest_opens: "CHR ''}'' \<notin> set s \<Longrightarrow> nest n s = Some (n + count_list s (CHR ''{''))"
  by (induction n s rule: nest.induct) auto

lemma nest_closes:
  "CHR ''{'' \<notin> set s \<Longrightarrow> nest n s = (if count_list s (CHR ''}'') \<le> n then Some (n - count_list s (CHR ''}'')) else None)"
  by (induction n s rule: nest.induct) (auto split: nat.splits)

lemma open_loop_set: "CHR ''}'' \<notin> set ns \<Longrightarrow> CHR ''}'' \<notin> set result \<Longrightarrow> CHR ''}'' \<notin> set sep \<Longrightarrow>
    CHR ''}'' \<notin> set (open_loop ns result sep)"
proof (induction ns result sep rule: open_loop.induct)
  case (1 ns result sep)
  show ?case
  proof (cases "cut_dot ns")
    case None
    with 1 show ?thesis by (subst open_loop.simps) simp
  next
    case (Some ab)
    obtain a b where ab: "ab = (a, b)" by (cases ab)
    have "CHR ''}'' \<notin> set a" "CHR ''}'' \<notin> set b" using cut_dot_set [of ns a b] Some ab 1 by auto
    with 1 Some ab show ?thesis by (subst open_loop.simps) simp
  qed
qed

lemma close_loop_set: "CHR ''{'' \<notin> set result \<Longrightarrow> CHR ''{'' \<notin> set (close_loop ns result)"
proof (induction ns result rule: close_loop.induct)
  case (1 ns result)
  then show ?case by (subst close_loop.simps) (auto split: option.splits)
qed

lemma close_count: "ns \<noteq> [] \<Longrightarrow> count_list (namespace_close ns) (CHR ''}'') = length (components ns)"
  using close_loop_braces [of ns "''}''"] components_ne [of ns]
  by (simp add: namespace_close_def)

text \<open>The namespace around a file: it stays balanced exactly when its name does not end in a period.\<close>

lemma nest_namespace:
  assumes ns: "plain ns"
  shows "nest 0 (namespace_open ns) = Some (length (named_components ns))"
    and "nest (length (named_components ns)) (namespace_close ns)
      = (if ns = [] \<or> last ns \<noteq> CHR ''.'' then Some 0 else None)"
proof -
  have "CHR ''}'' \<notin> set (namespace_open ns)" using ns by (simp add: namespace_open_def open_loop_set plain_def)
  moreover have "count_list (namespace_open ns) (CHR ''{'') = length (named_components ns)"
    using namespace_blocks [of ns] ns by (simp add: plain_def)
  ultimately show "nest 0 (namespace_open ns) = Some (length (named_components ns))" by (simp add: nest_opens)
  have c: "CHR ''{'' \<notin> set (namespace_close ns)" by (simp add: namespace_close_def close_loop_set)
  show "nest (length (named_components ns)) (namespace_close ns)
      = (if ns = [] \<or> last ns \<noteq> CHR ''.'' then Some 0 else None)"
  proof (cases "ns = []")
    case True
    then show ?thesis by (simp add: namespace_close_def named_components_def)
  next
    case False
    have "\<not> length (components ns) \<le> length (components ns) - Suc 0"
      using components_ne [of ns] by (cases "components ns") simp_all
    with False close_count [OF False] components_last [of ns] show ?thesis
      by (auto simp: nest_closes [OF c] named_components_def)
  qed
qed

lemma plain_upper: "plain s \<Longrightarrow> plain (map to_upper s)"
proof -
  have "to_upper c \<noteq> CHR ''{'' \<and> to_upper c \<noteq> CHR ''}''" if "c \<noteq> CHR ''{''" "c \<noteq> CHR ''}''" for c
  proof (cases "97 \<le> (of_char c :: nat) \<and> of_char c \<le> (122 :: nat)")
    case True
    then have "of_char c - 32 \<le> (90 :: nat)" by linarith
    moreover from this have "(of_char c - 32) mod 256 = (of_char c - 32 :: nat)" by simp
    ultimately have "(of_char c - 32) mod 256 \<le> (90 :: nat)" by simp
    with True have "of_char (to_upper c) \<le> (90 :: nat)" by (simp add: to_upper_def Let_def)
    then show ?thesis by auto
  next
    case False
    then have "to_upper c = c" by (auto simp: to_upper_def Let_def)
    with that show ?thesis by simp
  qed
  then have "c \<in> set s \<Longrightarrow> plain s \<Longrightarrow> to_upper c \<noteq> CHR ''{'' \<and> to_upper c \<noteq> CHR ''}''" for c
    unfolding plain_def by metis
  then show "plain s \<Longrightarrow> plain (map to_upper s)" unfolding plain_def set_map image_iff by metis
qed

definition plain_files :: "gen_files \<Rightarrow> bool" where
  "plain_files e \<longleftrightarrow> closed (gf_autogen e) \<and> plain (gf_prefix e) \<and> plain (gf_out_base e)"

lemma plain_include: "plain_files e \<Longrightarrow> plain (get_include_prefix e)"
proof -
  assume e: "plain_files e"
  have "set (tl xs) \<subseteq> set xs" for xs :: string by (cases xs) auto
  moreover have "set (dropWhile P xs) \<subseteq> set xs" for P and xs :: string by (auto dest: set_dropWhileD)
  ultimately have "set (tl (dropWhile P (rev s))) \<subseteq> set (rev s)" for P and s :: string by (rule subset_trans)
  then have "plain s \<Longrightarrow> plain (rev (tl (dropWhile P (rev s))))" for P s unfolding plain_def set_rev by blast
  with e show ?thesis by (simp add: get_include_prefix_def before_slash_def plain_files_def)
qed

text \<open>A member function is declared in the header and defined in the source with the same signature,
  the class name apart.\<close>

definition declared_and_defined :: "line list \<Rightarrow> line list \<Rightarrow> string \<Rightarrow> string \<Rightarrow> bool" where
  "declared_and_defined hdr src cls name \<longleftrightarrow> (\<exists>virtual ret args.
     virtual \<in> {[], ''virtual ''} \<and> Line 1 (virtual @ ret @ name @ ''('' @ args @ '');'') \<in> set hdr
     \<and> Line 0 (ret @ cls @ ''::'' @ name @ ''('' @ args @ '') {'') \<in> set src)"

lemma declared_and_definedI:
  "Line 1 (v @ ret @ name @ ''('' @ args @ '');'') \<in> set hdr \<Longrightarrow> v \<in> {[], ''virtual ''} \<Longrightarrow>
     Line 0 (ret @ cls @ ''::'' @ name @ ''('' @ args @ '') {'') \<in> set src \<Longrightarrow> declared_and_defined hdr src cls name"
  unfolding declared_and_defined_def by blast

text \<open>The four signatures, split around the name.\<close>

lemma signatures_split:
  "\<exists>args. \<forall>p. async_if_function_signature g f p True
     = (if p = [] then ''virtual '' else []) @ ''void '' @ p @ ''async_'' @ tf_name f @ ''('' @ args @ '')''"
  "\<exists>ret args. \<forall>p. function_signature g f p True = ret @ p @ tf_name f @ ''('' @ args @ '')''"
  "\<exists>args. \<forall>p. async_process_function_signature f p = ''void '' @ p @ ''process_'' @ tf_name f @ ''('' @ args @ '')''"
  "\<exists>args. \<forall>p. async_complete_function_signature f svc p = ''void '' @ p @ ''complete_'' @ tf_name f @ ''('' @ args @ '')''"
proof -
  show "\<exists>args. \<forall>p. async_if_function_signature g f p True
     = (if p = [] then ''virtual '' else []) @ ''void '' @ p @ ''async_'' @ tf_name f @ ''('' @ args @ '')''"
    by (rule exI [of _ "(if tf_return f \<noteq> TBase TYPE_VOID then type_name g False False (tf_return f) @ ''& _return, '' else [])
      @ (if tf_args f \<noteq> [] then argument_list g (tf_args f) True @ '', '' else [])
      @ ''::apache::thrift::async::AsyncRPCCallback callback''"])
      (simp add: async_if_function_signature_def)
  show "\<exists>ret args. \<forall>p. function_signature g f p True = ret @ p @ tf_name f @ ''('' @ args @ '')''"
  proof (cases "is_complex_type (tf_return f)")
    case True
    then show ?thesis
      by (intro exI [of _ "''void ''"] exI [of _ "type_name g False False (tf_return f) @ ''& _return''
        @ (if tf_args f = [] then [] else '', '' @ argument_list g (tf_args f) True)"])
        (simp add: function_signature_def)
  next
    case False
    then show ?thesis
      by (intro exI [of _ "type_name g False False (tf_return f) @ '' ''"] exI [of _ "argument_list g (tf_args f) True"])
        (simp add: function_signature_def)
  qed
  show "\<exists>args. \<forall>p. async_process_function_signature f p = ''void '' @ p @ ''process_'' @ tf_name f @ ''('' @ args @ '')''"
    by (intro exI [of _ "''int32_t seqid, ::apache::thrift::async::AsyncProcessorCallback callback, ::apache::thrift::protocol::TProtocol * input_protocol, ::apache::thrift::protocol::TProtocol * output_protocol''"])
      (simp add: async_process_function_signature_def)
  show "\<exists>args. \<forall>p. async_complete_function_signature f svc p = ''void '' @ p @ ''complete_'' @ tf_name f @ ''('' @ args @ '')''"
    by (intro exI [of _ "''int32_t seqid, ::apache::thrift::async::AsyncProcessorCallback callback, ::apache::thrift::protocol::TProtocol * input_protocol, ::apache::thrift::protocol::TProtocol * output_protocol, boost::shared_ptr<'' @ svc @ ''_'' @ tf_name f @ ''_args> '' @ tf_name f @ ''_args, ''
       @ (if \<not> tf_oneway f then ''boost::shared_ptr<'' @ svc @ ''_'' @ tf_name f @ ''_result> '' @ tf_name f @ ''_result, '' else [])
       @ ''const boost::system::error_code& ec''"])
      (simp add: async_complete_function_signature_def)
qed

text \<open>What the files contain of a function.\<close>

lemma in_concat_map: "x \<in> set xs \<Longrightarrow> y \<in> set (f x) \<Longrightarrow> y \<in> set (concat (map f xs))"
  by auto

lemma header_lines:
  assumes "f \<in> set (sv_functions s)"
  shows "Line 1 (async_if_function_signature g f [] True @ '';'') \<in> set (client_header g s)"
    and "Line 1 (''virtual '' @ function_signature g f [] True @ '';'') \<in> set (client_header g s)"
    and "Line 1 (async_process_function_signature f [] @ '';'') \<in> set (processor_header s)"
    and "Line 1 (async_complete_function_signature f (sv_name s) [] @ '';'') \<in> set (processor_header s)"
proof -
  have "set (client_declarations g f) \<subseteq> set (client_header g s)" using assms by (auto simp: client_header_def)
  then show "Line 1 (async_if_function_signature g f [] True @ '';'') \<in> set (client_header g s)"
    "Line 1 (''virtual '' @ function_signature g f [] True @ '';'') \<in> set (client_header g s)"
    by (auto simp: client_declarations_def)
  have "set (processor_declarations s f) \<subseteq> set (processor_header s)" using assms by (auto simp: processor_header_def)
  then show "Line 1 (async_process_function_signature f [] @ '';'') \<in> set (processor_header s)"
    "Line 1 (async_complete_function_signature f (sv_name s) [] @ '';'') \<in> set (processor_header s)"
    by (auto simp: processor_declarations_def)
qed

lemma source_lines:
  assumes "f \<in> set (sv_functions s)"
  shows "Line 0 (async_if_function_signature g f (client_class s @ ''::'') True @ '' {'') \<in> set (client_source g s)"
    and "Line 0 (function_signature g f (client_class s @ ''::'') True @ '' {'') \<in> set (client_source g s)"
    and "Line 0 (async_process_function_signature f (processor_class s @ ''::'') @ '' {'') \<in> set (processor_source s)"
    and "Line 0 (async_complete_function_signature f (sv_name s) (processor_class s @ ''::'') @ '' {'') \<in> set (processor_source s)"
proof -
  have "set (async_stub_lines g s f @ sync_stub_lines g s f) \<subseteq> set (client_source g s)"
    using assms by (auto simp: client_source_def)
  then show "Line 0 (async_if_function_signature g f (client_class s @ ''::'') True @ '' {'') \<in> set (client_source g s)"
    "Line 0 (function_signature g f (client_class s @ ''::'') True @ '' {'') \<in> set (client_source g s)"
    by (auto simp: async_stub_lines_def sync_stub_lines_def)
  have "set (process_method_lines s f @ complete_method_lines s f) \<subseteq> set (processor_source s)"
    using assms by (auto simp: processor_source_def)
  then show "Line 0 (async_process_function_signature f (processor_class s @ ''::'') @ '' {'') \<in> set (processor_source s)"
    "Line 0 (async_complete_function_signature f (sv_name s) (processor_class s @ ''::'') @ '' {'') \<in> set (processor_source s)"
    by (auto simp: process_method_lines_def complete_method_lines_def Let_def)
qed

section \<open>The table behind the text\<close>

definition gen_of_function :: "t_function \<Rightarrow> gen_function" where
  "gen_of_function f = \<lparr>fn_name = tf_name f, fn_oneway = tf_oneway f, fn_void = is_void f\<rparr>"

fun gen_of :: "t_service \<Rightarrow> gen_service" where
  "gen_of (Svc n ns fs base) = Service n (map gen_of_function fs) (case base of None \<Rightarrow> None | Some b \<Rightarrow> Some (gen_of b))"

lemma enum_values_gen_of:
  assumes "(h, v) \<in> set (enum_values (gen_of s))"
  shows "\<exists>i < length (sv_functions s). v = Suc (enum_begin (gen_of s) + i) \<and> h = gen_of_function (sv_functions s ! i)"
proof (cases s)
  case (Svc n ns fs base)
  from assms obtain i where i: "i < length fs" "i < enum_end (gen_of s) - Suc (enum_begin (gen_of s))"
    "h = gen_of_function (fs ! i)" "v = [enum_begin (gen_of s) + 1..<enum_end (gen_of s)] ! i"
    by (auto simp: enum_values_def in_set_zip Svc)
  have "v = Suc (enum_begin (gen_of s) + i)" using i(2,4) by (simp add: nth_upt del: upt_Suc gen_of.simps enum_begin.simps)
  with i(1,3) show ?thesis by (auto simp: Svc intro!: exI [of _ i])
qed

lemma case_line_iff:
  assumes d: "distinct (map tf_name (sv_functions s))" and f: "f \<in> set (sv_functions s)"
  shows "Line 1 (''case '' @ op_enum f @ '':'') \<in> set (fill_result_lines g s) \<longleftrightarrow> \<not> is_void f"
proof -
  have "h = f" if "h \<in> set (sv_functions s)" "tf_name h = tf_name f" for h
    using d f that by (auto simp: distinct_map inj_on_def)
  then have "Line 1 (''case '' @ op_enum f @ '':'') \<in> set (concat (map (fill_case_lines g) (sv_functions s))) \<longleftrightarrow> \<not> is_void f"
    using f by (auto simp: fill_case_lines_def op_enum_def split: if_splits)
  then show ?thesis by (auto simp: fill_result_lines_def op_enum_def split: option.splits)
qed

section \<open>Properties\<close>

text \<open>A service with three functions that extends one of another program.\<close>

definition get_counter_fn :: t_function where
  "get_counter_fn = \<lparr>tf_name = ''getCounter'', tf_return = TBase TYPE_I64,
     tf_args = [\<lparr>fd_name = ''key'', fd_type = TBase TYPE_STRING, fd_optional = False\<rparr>], tf_oneway = False\<rparr>"

definition reset_fn :: t_function where
  "reset_fn = \<lparr>tf_name = ''reset'', tf_return = TBase TYPE_VOID, tf_args = [], tf_oneway = True\<rparr>"

definition sample_service :: t_service where
  "sample_service = Svc ''ThriftExt'' ''thrift_ext'' [get_counter_fn, reset_fn]
     (Some (Svc ''FacebookService'' ''facebook.fb303'' [] None))"

definition sample_files :: gen_files where
  "sample_files = \<lparr>gf_out_dir = ''gen/'', gf_autogen = [Line 0 ''/** Autogenerated */''], gf_use_prefix = False,
     gf_prefix = [], gf_out_base = ''gen''\<rparr>"

lemma sample_plain: "plain_service sample_service" "plain_files sample_files" "plain (snd (gen_program sample_env))"
  by (simp_all add: plain_service_def sample_service_def plain_function_def get_counter_fn_def reset_fn_def
      plain_files_def sample_files_def closed_def sample_env_def)

text \<open>C39: In both files generated for a service the braces match, those of the namespace included,
  exactly when the namespace is empty or does not end in a period; names must not contain braces.\<close>

theorem async_files_balanced:
  assumes s: "plain_service s" and e: "plain_files e" and ns: "plain (snd (gen_program g))"
  shows "nest_lines 0 (snd (fst (generate_async g e s)))
      = (if snd (gen_program g) = [] \<or> last (snd (gen_program g)) \<noteq> CHR ''.'' then Some 0 else None)
    \<and> nest_lines 0 (snd (snd (generate_async g e s)))
      = (if snd (gen_program g) = [] \<or> last (snd (gen_program g)) \<noteq> CHR ''.'' then Some 0 else None)"
    (is "?header = ?r \<and> ?source = ?r")
proof -
  let ?ns = "snd (gen_program g)"
  note n = plain_service_facts [OF s] plain_include [OF e]
  note c = closed_client [OF s] closed_if_and_processor [OF s]
  have a: "closed (gf_autogen e)" using e by (simp add: plain_files_def)
  note nn = nest_namespace [OF ns]
  have g: "plain (map to_upper (x @ ''_H''))" if "plain x" for x using plain_upper [of "x @ ''_H''"] that by simp
  have around: "nest_lines 0 (pre @ Line 0 (namespace_open ?ns) # mid @ Line 0 (namespace_close ?ns) # post)
      = (if ?ns = [] \<or> last ?ns \<noteq> CHR ''.'' then Some 0 else None)" if "closed pre" "closed mid" "closed post" for pre mid post
    using that by (simp add: nn closed_def [of post])
  have b: "closed (case sv_extends s of Some b \<Rightarrow> [Line 0 (''#include '' @ quoted (get_include_prefix e @ ''Async'' @ sv_name b @ ''.h''))]
      | None \<Rightarrow> [])"
    using n by (cases "sv_extends s") (simp_all add: closed_def)
  have "?header = ?r"
  proof -
    let ?G = "map to_upper ((''Async'' @ sv_name s) @ ''_H'')"
    let ?pre = "gf_autogen e @ [Line 0 (''#ifndef '' @ ?G), Line 0 (''#define '' @ ?G), Blank,
        Line 0 ''#include <async_client.h>//add include path to CPPFLAGS(-Ixxx)'',
        Line 0 (''#include '' @ quoted (get_include_prefix e @ sv_name s @ ''.h''))]
      @ (case sv_extends s of Some b \<Rightarrow> [Line 0 (''#include '' @ quoted (get_include_prefix e @ ''Async'' @ sv_name b @ ''.h''))]
          | None \<Rightarrow> []) @ [Blank]"
    let ?mid = "[Blank] @ client_header g s @ if_header g s @ null_header g s @ processor_header s"
    let ?post = "[Blank, Line 0 (''#endif //'' @ ?G)]"
    have "closed ?pre" using n g [of "''Async'' @ sv_name s"] by (intro closed_append a b) (simp_all add: closed_def)
    moreover have "closed ?mid" by (intro closed_append c) (simp add: closed_def)
    moreover have "closed ?post" using n g [of "''Async'' @ sv_name s"] by (simp add: closed_def)
    moreover have "snd (fst (generate_async g e s)) = ?pre @ Line 0 (namespace_open ?ns) # ?mid @ Line 0 (namespace_close ?ns) # ?post"
      by (simp add: generate_async_def Let_def)
    ultimately show ?thesis using around by metis
  qed
  moreover have "?source = ?r"
  proof -
    let ?pre = "gf_autogen e @ [Line 0 ''#include <boost/bind.hpp>'',
        Line 0 (''#include '' @ quoted (get_include_prefix e @ (''Async'' @ sv_name s) @ ''.h'')), Blank]"
    let ?mid = "[Blank, Line 0 ''using namespace ::apache::thrift::async;'', Blank] @ client_source g s @ processor_source s"
    have "closed ?pre" using n by (intro closed_append a) (simp add: closed_def)
    moreover have "closed ?mid" by (intro closed_append c) (simp add: closed_def)
    moreover have "closed []" by (simp add: closed_def)
    moreover have "snd (snd (generate_async g e s)) = ?pre @ Line 0 (namespace_open ?ns) # ?mid @ Line 0 (namespace_close ?ns) # []"
      by (simp add: generate_async_def Let_def)
    ultimately show ?thesis using around by metis
  qed
  ultimately show ?thesis ..
qed

theorem async_files_balanced_witness:
  "nest_lines 0 (snd (fst (generate_async sample_env sample_files sample_service))) = Some 0
   \<and> nest_lines 0 (snd (snd (generate_async sample_env sample_files sample_service))) = Some 0"
  using async_files_balanced [OF sample_plain] by (simp add: sample_env_def)

text \<open>C37: Every function of a service is declared in the generated header and defined in the generated
  source with the same signature: its asynchronous and its synchronous stub in the client class, its
  process and complete functions in the processor class.\<close>

theorem async_functions_defined:
  assumes f: "f \<in> set (sv_functions s)"
  shows "let (hdr, src) = generate_async g e s in
      declared_and_defined (snd hdr) (snd src) (client_class s) (''async_'' @ tf_name f)
    \<and> declared_and_defined (snd hdr) (snd src) (client_class s) (tf_name f)
    \<and> declared_and_defined (snd hdr) (snd src) (processor_class s) (''process_'' @ tf_name f)
    \<and> declared_and_defined (snd hdr) (snd src) (processor_class s) (''complete_'' @ tf_name f)"
proof -
  obtain hdr src where hs: "generate_async g e s = (hdr, src)" by (cases "generate_async g e s")
  have h: "set (client_header g s) \<subseteq> set (snd hdr)" "set (processor_header s) \<subseteq> set (snd hdr)"
    and r: "set (client_source g s) \<subseteq> set (snd src)" "set (processor_source s) \<subseteq> set (snd src)"
    using hs by (auto simp: generate_async_def Let_def)
  note hl = subsetD [OF h(1) header_lines(1) [OF f]] subsetD [OF h(1) header_lines(2) [OF f]]
    subsetD [OF h(2) header_lines(3) [OF f]] subsetD [OF h(2) header_lines(4) [OF f]]
  note sl = subsetD [OF r(1) source_lines(1) [OF f]] subsetD [OF r(1) source_lines(2) [OF f]]
    subsetD [OF r(2) source_lines(3) [OF f]] subsetD [OF r(2) source_lines(4) [OF f]]
  obtain a1 where a1: "\<And>p. async_if_function_signature g f p True
      = (if p = [] then ''virtual '' else []) @ ''void '' @ p @ ''async_'' @ tf_name f @ ''('' @ a1 @ '')''"
    using signatures_split(1) [of g f] by blast
  obtain r2 a2 where a2: "\<And>p. function_signature g f p True = r2 @ p @ tf_name f @ ''('' @ a2 @ '')''"
    using signatures_split(2) [of g f] by blast
  obtain a3 where a3: "\<And>p. async_process_function_signature f p = ''void '' @ p @ ''process_'' @ tf_name f @ ''('' @ a3 @ '')''"
    using signatures_split(3) [of f] by blast
  obtain a4 where a4: "\<And>p. async_complete_function_signature f (sv_name s) p
      = ''void '' @ p @ ''complete_'' @ tf_name f @ ''('' @ a4 @ '')''"
    using signatures_split(4) [of f "sv_name s"] by blast
  have "declared_and_defined (snd hdr) (snd src) (client_class s) (''async_'' @ tf_name f)"
    by (rule declared_and_definedI [where v = "''virtual ''" and ret = "''void ''" and args = a1])
      (use hl(1) sl(1) in \<open>simp_all add: a1\<close>)
  moreover have "declared_and_defined (snd hdr) (snd src) (client_class s) (tf_name f)"
    by (rule declared_and_definedI [where v = "''virtual ''" and ret = r2 and args = a2])
      (use hl(2) sl(2) in \<open>simp_all add: a2\<close>)
  moreover have "declared_and_defined (snd hdr) (snd src) (processor_class s) (''process_'' @ tf_name f)"
    by (rule declared_and_definedI [where v = "[]" and ret = "''void ''" and args = a3])
      (use hl(3) sl(3) in \<open>simp_all add: a3\<close>)
  moreover have "declared_and_defined (snd hdr) (snd src) (processor_class s) (''complete_'' @ tf_name f)"
    by (rule declared_and_definedI [where v = "[]" and ret = "''void ''" and args = a4])
      (use hl(4) sl(4) in \<open>simp_all add: a4\<close>)
  ultimately show ?thesis by (simp only: hs Let_def prod.case)
qed

theorem async_functions_defined_witness:
  "declared_and_defined (snd (fst (generate_async sample_env sample_files sample_service)))
     (snd (snd (generate_async sample_env sample_files sample_service))) ''AsyncThriftExtProcessor'' ''process_reset''"
  using async_functions_defined [of reset_fn sample_service sample_env sample_files]
  by (simp add: sample_service_def split_beta Let_def processor_class_def reset_fn_def del: generate_async_def)

section \<open>The values of the enumeration\<close>

text \<open>
  What a C++ compiler makes of the enumeration in the header of a client class: an enumerator with an
  initializer has its value, any other one more than the one before it, and 0 is the first.  In an
  initializer, a literal 0 or a name of the base class's enumeration, qualified.
\<close>

fun line_text :: "line \<Rightarrow> string" where
  "line_text (Line k t) = t"
| "line_text Blank = []"

definition enumerator :: "line \<Rightarrow> string \<times> string option" where
  "enumerator l =
     (let t = line_text l; name = takeWhile (\<lambda>c. c \<noteq> CHR '' '' \<and> c \<noteq> CHR '','') t; rest = drop (length name) t
      in (name, if take 3 rest = '' = '' then Some (butlast (drop 3 rest)) else None))"

fun enumerators :: "(string \<Rightarrow> nat option) \<Rightarrow> nat option \<Rightarrow> line list \<Rightarrow> (string \<times> nat option) list" where
  "enumerators scope next [] = []"
| "enumerators scope next (l # ls) =
     (let (name, init) = enumerator l; v = (case init of None \<Rightarrow> next | Some e \<Rightarrow> scope e)
      in (name, v) # enumerators scope (map_option Suc v) ls)"

definition enum_block :: "line list \<Rightarrow> line list" where
  "enum_block ls = takeWhile (\<lambda>l. l \<noteq> Line 1 ''};'') (drop 1 (dropWhile (\<lambda>l. l \<noteq> Line 1 ''enum {'') ls))"

definition initializer_value :: "(string \<times> nat option) list \<Rightarrow> string \<Rightarrow> nat option" where
  "initializer_value names e = (if e = ''0'' then Some 0 else case map_of names e of None \<Rightarrow> None | Some v \<Rightarrow> v)"

fun class_enum :: "gen_env \<Rightarrow> t_service \<Rightarrow> (string \<times> nat option) list" where
  "class_enum g (Svc n ns fs base) =
     enumerators (initializer_value (case base of None \<Rightarrow> [] | Some b \<Rightarrow>
         map (\<lambda>(k, v). (namespace_prefix (sv_ns b) @ client_class b @ ''::'' @ k, v)) (class_enum g b)))
       (Some 0) (enum_block (client_header g (Svc n ns fs base)))"

text \<open>The names are identifiers, and no function has the name of one of the two other enumerators.\<close>

definition one_word :: "string \<Rightarrow> bool" where
  "one_word s \<longleftrightarrow> CHR '' '' \<notin> set s \<and> CHR '','' \<notin> set s"

fun enum_names_ok :: "t_service \<Rightarrow> bool" where
  "enum_names_ok (Svc n ns fs base) \<longleftrightarrow> one_word n \<and> distinct (map tf_name fs)
     \<and> (\<forall>f \<in> set fs. one_word (tf_name f) \<and> tf_name f \<noteq> client_class (Svc n ns fs base) @ ''_begin''
          \<and> tf_name f \<noteq> client_class (Svc n ns fs base) @ ''_end'')
     \<and> (case base of None \<Rightarrow> True | Some b \<Rightarrow> enum_names_ok b)"

definition enum_table :: "t_service \<Rightarrow> (string \<times> nat option) list" where
  "enum_table s = (''kasync_'' @ client_class s @ ''_begin'', Some (enum_begin (gen_of s)))
     # zip (map op_enum (sv_functions s)) (map Some [enum_begin (gen_of s) + 1..<enum_end (gen_of s)])
     @ [(''kasync_'' @ client_class s @ ''_end'', Some (enum_end (gen_of s)))]"

lemma first_word: "one_word n \<Longrightarrow> c = CHR '' '' \<or> c = CHR '','' \<Longrightarrow>
    takeWhile (\<lambda>c. c \<noteq> CHR '' '' \<and> c \<noteq> CHR '','') (n @ c # r) = n"
  by (induction n) (auto simp: one_word_def)

lemma enumerator_plain: "one_word n \<Longrightarrow> enumerator (Line k (n @ '','')) = (n, None)"
  by (simp add: enumerator_def Let_def first_word)

lemma enumerator_init: "one_word n \<Longrightarrow> enumerator (Line k (n @ '' = '' @ e @ '','')) = (n, Some e)"
  by (simp add: enumerator_def Let_def first_word butlast_append)

lemma enumerators_count:
  "(\<forall>f \<in> set fs. one_word (tf_name f)) \<Longrightarrow>
     enumerators scope (Some k) (map (\<lambda>f. Line 2 (op_enum f @ '','')) fs @ ls)
       = zip (map op_enum fs) (map Some [k..<k + length fs]) @ enumerators scope (Some (k + length fs)) ls"
proof (induction fs arbitrary: k)
  case (Cons f fs)
  have "enumerator (Line 2 (op_enum f @ '','')) = (op_enum f, None)"
    using Cons.prems by (intro enumerator_plain) (simp add: op_enum_def one_word_def)
  moreover have "[k..<Suc (k + length fs)] = k # [Suc k..<Suc (k + length fs)]" by (rule upt_conv_Cons) simp
  ultimately show ?case using Cons.IH [of "Suc k"] Cons.prems by simp
qed simp

lemma last_semicolon: "x @ '';'' \<noteq> ''enum {''"
  using arg_cong [of "x @ '';''" "''enum {''" last] by auto

lemma enum_block_header: "enum_block (client_header g s) = enum_lines s"
proof -
  have decl: "Line 1 ''enum {'' \<notin> set (concat (map (client_declarations g) (sv_functions s)))"
    using last_semicolon last_semicolon [symmetric] by (auto simp: client_declarations_def simp flip: append_assoc)
  have no: "dropWhile (\<lambda>l. l \<noteq> Line 1 ''enum {'') (xs @ Line 1 ''enum {'' # ys) = Line 1 ''enum {'' # ys"
    if "Line 1 ''enum {'' \<notin> set xs" for xs ys using that by (induction xs) auto
  have yes: "takeWhile (\<lambda>l. l \<noteq> Line 1 ''};'') (enum_lines s @ Line 1 ''};'' # ys) = enum_lines s" for ys
    by (rule takeWhile_append2 [THEN trans]) (auto simp: enum_lines_def)
  obtain pre post where h: "client_header g s = pre @ Line 1 ''enum {'' # enum_lines s @ Line 1 ''};'' # post"
    and pre: "Line 1 ''enum {'' \<notin> set pre"
  proof -
    let ?base = "case sv_extends s of
          Some b \<Rightarrow> [Line 1 (''public '' @ namespace_prefix (sv_ns b) @ client_class b)]
        | None \<Rightarrow> [Line 1 ''public ::apache::thrift::async::AsyncThriftClient'']"
    let ?pre = "[Line 0 (''class '' @ client_class s), Line 1 ('': virtual public '' @ sv_name s @ ''If,'')] @ ?base
     @ [Line 0 ''{'', Line 0 ''public:'',
        Line 1 (client_class s @ ''();''),
        Line 1 (''explicit '' @ client_class s @ ''(const boost::shared_ptr<boost::asio::ip::tcp::socket>& socket);''),
        Line 1 (''virtual ~'' @ client_class s @ ''();''), Blank]
     @ concat (map (client_declarations g) (sv_functions s)) @ [Blank] @ [Line 0 ''public:'']"
    have "Line 1 ''enum {'' \<notin> set ?pre" using decl by (auto simp: client_class_def split: option.splits)
    then show thesis by (rule that [rotated]) (simp add: client_header_def)
  qed
  show ?thesis unfolding enum_block_def h no [OF pre] using yes by simp
qed

lemma map_of_qualified: "map_of (map (\<lambda>(k, v). (p @ k, v)) xs) (p @ k) = map_of xs k"
  by (induction xs) auto

lemma map_of_enum_table:
  assumes "\<forall>f \<in> set (sv_functions s). tf_name f \<noteq> client_class s @ ''_end''"
  shows "map_of (enum_table s) (''kasync_'' @ client_class s @ ''_end'') = Some (Some (enum_end (gen_of s)))"
proof -
  have "''kasync_'' @ client_class s @ ''_end'' \<noteq> op_enum f" if "f \<in> set (sv_functions s)" for f
    using assms that by (auto simp: op_enum_def)
  then have none: "map_of (zip (map op_enum (sv_functions s)) xs) k = None" if "k = ''kasync_'' @ client_class s @ ''_end''"
    for k and xs :: "nat option list" using that by (fastforce simp: map_of_eq_None_iff dest!: set_zip_leftD)
  show ?thesis using none [OF refl] by (simp add: enum_table_def map_add_def)
qed

lemma class_enum_table: "enum_names_ok s \<Longrightarrow> class_enum g s = enum_table s"
proof (induction g s rule: class_enum.induct)
  case (1 g n ns fs base)
  let ?s = "Svc n ns fs base"
  have n: "one_word n" and fs: "\<forall>f \<in> set fs. one_word (tf_name f)" using "1.prems" by auto
  let ?first = "''kasync_'' @ client_class ?s @ ''_begin''"
  have words: "one_word ?first" "one_word (''kasync_'' @ client_class ?s @ ''_end'')"
    using n by (simp_all add: one_word_def client_class_def)
  let ?names = "case base of None \<Rightarrow> [] | Some b \<Rightarrow>
         map (\<lambda>(k, v). (namespace_prefix (sv_ns b) @ client_class b @ ''::'' @ k, v)) (class_enum g b)"
  let ?init = "case base of Some b \<Rightarrow> namespace_prefix (sv_ns b) @ client_class b @ ''::kasync_'' @ client_class b @ ''_end''
       | None \<Rightarrow> ''0''"
  have start: "initializer_value ?names ?init = Some (enum_begin (gen_of ?s))"
  proof (cases base)
    case None
    then show ?thesis by (simp add: initializer_value_def)
  next
    case (Some b)
    have ok: "enum_names_ok b" using "1.prems" Some by simp
    from "1.IH" [OF Some this] have e: "class_enum g b = enum_table b" .
    have "\<forall>f \<in> set (sv_functions b). tf_name f \<noteq> client_class b @ ''_end''" using ok by (cases b) simp
    from map_of_enum_table [OF this]
      map_of_qualified [of "namespace_prefix (sv_ns b) @ client_class b @ ''::''" "enum_table b" "''kasync_'' @ client_class b @ ''_end''"]
    have v: "map_of ?names ?init = Some (Some (enum_end (gen_of b)))" by (simp add: Some e)
    have "?init \<noteq> ''0''" by (simp add: Some client_class_def append_eq_Cons_conv)
    with v show ?thesis by (simp add: initializer_value_def Some)
  qed
  have "enum_lines ?s = Line 2 (?first @ '' = '' @ ?init @ '','')
      # map (\<lambda>f. Line 2 (op_enum f @ '','')) fs @ [Line 2 ((''kasync_'' @ client_class ?s @ ''_end'') @ '','')]"
    by (cases base) (simp_all add: enum_lines_def)
  moreover have "enum_end (gen_of ?s) = enum_begin (gen_of ?s) + length fs + 1" by (cases base) simp_all
  ultimately show ?case
    using enumerator_init [OF words(1), of 2 ?init] enumerator_plain [OF words(2), of 2] start
    by (simp add: enum_block_header enumerators_count [OF fs] enum_table_def del: enum_begin.simps enum_end.simps gen_of.simps upt_Suc)
qed

lemma table_number:
  assumes d: "distinct (map tf_name (sv_functions s))"
    and nb: "\<forall>f \<in> set (sv_functions s). tf_name f \<noteq> client_class s @ ''_begin''"
    and f: "f \<in> set (sv_functions s)" and v: "(gen_of_function f, v) \<in> set (enum_values (gen_of s))"
  shows "map_of (enum_table s) (op_enum f) = Some (Some v)"
proof -
  from enum_values_gen_of [OF v] obtain i where i: "i < length (sv_functions s)" "v = Suc (enum_begin (gen_of s) + i)"
    "gen_of_function f = gen_of_function (sv_functions s ! i)" by blast
  have "tf_name f = tf_name (sv_functions s ! i)" using i(3) by (simp add: gen_of_function_def)
  then have name: "op_enum f = map op_enum (sv_functions s) ! i" using i(1) by (simp add: op_enum_def)
  let ?ns = "map op_enum (sv_functions s)" and ?vs = "map Some [enum_begin (gen_of s) + 1..<enum_end (gen_of s)]"
  have len: "length ?vs = length ?ns" by (cases s) (auto simp: not_less_eq_eq split: option.splits)
  have "distinct (map op_enum (sv_functions s))" using d by (simp add: op_enum_def distinct_map inj_on_def)
  from map_of_zip_nth [OF len [symmetric] this, of i] i(1) len
  have "map_of (zip ?ns ?vs) (op_enum f) = Some (?vs ! i)" unfolding name by simp
  moreover have "?vs ! i = Some v" using i(1,2) len by (simp del: upt_Suc)
  moreover have "op_enum f \<noteq> ''kasync_'' @ client_class s @ ''_begin''" using nb f by (auto simp: op_enum_def)
  ultimately show ?thesis by (simp add: enum_table_def map_add_def)
qed

text \<open>C38: The values a C++ compiler gives the enumeration in the generated header of a client class are the
  numbers of the table: from the end of the base's enumeration on, or from 0, one for every function
  in turn, through the whole chain of bases; so every function has its own number there.  The
  generated fill_result has a case for exactly the functions whose reply the table reads.  The names
  must be identifiers, and no function named as one of the two other enumerators.\<close>

theorem generated_numbers_are_table:
  assumes names: "enum_names_ok s" and f: "f \<in> set (sv_functions s)"
    and v: "(gen_of_function f, v) \<in> set (enum_values (gen_of s))"
  shows "class_enum g s = (''kasync_'' @ client_class s @ ''_begin'', Some (enum_begin (gen_of s)))
        # zip (map op_enum (sv_functions s)) (map Some [enum_begin (gen_of s) + 1..<enum_end (gen_of s)])
        @ [(''kasync_'' @ client_class s @ ''_end'', Some (enum_end (gen_of s)))]
    \<and> map_of (class_enum g s) (op_enum f) = Some (Some v) \<and> enum_begin (gen_of s) < v
    \<and> enum_lines s ! (v - enum_begin (gen_of s)) = Line 2 (op_enum f @ '','')
    \<and> (Line 1 (''case '' @ op_enum f @ '':'') \<in> set (fill_result_lines g s)
        \<longleftrightarrow> fill_result (gen_of s) v = Some (sv_name s, tf_name f))"
proof -
  have d: "distinct (map tf_name (sv_functions s))"
    and nb: "\<forall>f \<in> set (sv_functions s). tf_name f \<noteq> client_class s @ ''_begin''" using names by (cases s; simp)+
  from enum_values_gen_of [OF v] obtain i where i: "i < length (sv_functions s)" "v = Suc (enum_begin (gen_of s) + i)"
    "gen_of_function f = gen_of_function (sv_functions s ! i)" by blast
  have "tf_name f = tf_name (sv_functions s ! i)" using i(3) by (simp add: gen_of_function_def)
  moreover have "enum_lines s ! Suc i = Line 2 (op_enum (sv_functions s ! i) @ '','')"
    using i(1) by (simp add: enum_lines_def nth_append)
  ultimately have e: "enum_lines s ! (v - enum_begin (gen_of s)) = Line 2 (op_enum f @ '','')"
    using i(2) by (simp add: op_enum_def)
  have "(sv_name s, gen_of_function f, v) \<in> set (op_table (gen_of s))"
    using v by (cases s) auto
  from fill_result_entry [OF this] have "fill_result (gen_of s) v = (if is_void f then None else Some (sv_name s, tf_name f))"
    by (simp add: gen_of_function_def)
  with e i(2) case_line_iff [OF d f, of g] class_enum_table [OF names, of g] table_number [OF d nb f v]
  show ?thesis by (simp add: enum_table_def)
qed

definition fb303_service :: t_service where
  "fb303_service = Svc ''FacebookService'' ''facebook.fb303'' [get_counter_fn] None"

theorem generated_numbers_are_table_witness:
  "map_of (class_enum sample_env (Svc ''ThriftExt'' ''thrift_ext'' [reset_fn] (Some fb303_service))) ''kasync_reset'' = Some (Some 3)
   \<and> map_of (class_enum sample_env fb303_service) ''kasync_AsyncFacebookServiceClient_end'' = Some (Some 2)"
proof -
  let ?s = "Svc ''ThriftExt'' ''thrift_ext'' [reset_fn] (Some fb303_service)"
  have names: "enum_names_ok fb303_service" "enum_names_ok ?s"
    by (simp_all add: fb303_service_def one_word_def reset_fn_def get_counter_fn_def client_class_def)
  have v: "(gen_of_function get_counter_fn, 1) \<in> set (enum_values (gen_of fb303_service))"
    "(gen_of_function reset_fn, 3) \<in> set (enum_values (gen_of ?s))"
    by (simp_all add: fb303_service_def enum_values_def eval_nat_numeral)
  have f: "get_counter_fn \<in> set (sv_functions fb303_service)" "reset_fn \<in> set (sv_functions ?s)" by (simp_all add: fb303_service_def)
  from generated_numbers_are_table [OF names(2) f(2) v(2), of sample_env] generated_numbers_are_table [OF names(1) f(1) v(1), of sample_env]
  show ?thesis by (simp add: op_enum_def reset_fn_def fb303_service_def get_counter_fn_def client_class_def eval_nat_numeral)
qed

text \<open>An argument called like a variable of the stub: the parameter is declared again in the outermost
  block of the function.\<close>

lemma argument_named_ec:
  "let f = reset_fn\<lparr>tf_args := [\<lparr>fd_name = ''ec'', fd_type = TBase TYPE_I32, fd_optional = False\<rparr>]\<rparr>
   in sync_stub_lines sample_env sample_service f ! 0 = Line 0 ''void AsyncThriftExtClient::reset(const int32_t ec) {''
      \<and> Line 1 ''boost::system::error_code ec;'' \<in> set (sync_stub_lines sample_env sample_service f)"
  by (simp add: sync_stub_lines_def frame_variables_def function_signature_def argument_list_def as_argument_def
      is_complex_type_def client_class_def sample_service_def reset_fn_def)

end
