(* ===== verification/ProcessStat.thy ===== *)
theory ProcessStat
  imports Prelude "HOL-Library.Sublist"
begin

text \<open>
  src/fb303/process\_stat.c (the Linux part): the processor count, the CPU usage between two calls
  and the memory usage read from /proc/pid/smaps.  Bytes are 8-bit words; a pointer into a buffer
  is the list of the bytes from it to the buffer's end, and reading past the end is undefined.
\<close>

section \<open>Processors and CPU usage\<close>

text \<open>An \<open>int64_t\<close> result: signed overflow is undefined.\<close>

definition i64 :: "int \<Rightarrow> int outcome" where
  "i64 x = (if - (2 ^ 63) \<le> x \<and> x < 2 ^ 63 then Ok x else Undef)"

text \<open>C division: towards zero; by zero it is undefined.\<close>

definition cdiv :: "int \<Rightarrow> int \<Rightarrow> int outcome" where
  "cdiv a b = (if b = 0 then Undef else i64 (sgn a * sgn b * (\<bar>a\<bar> div \<bar>b\<bar>)))"

definition get_processor_number :: "int \<Rightarrow> int \<Rightarrow> int" where
  "get_processor_number sysconf res =
     (if res = - 1 then let n = sint (word_of_int sysconf :: 32 word) in if n = - 1 then 1 else n else res)"

definition timeval_to_microseconds :: "int \<times> int \<Rightarrow> int outcome" where
  "timeval_to_microseconds tv = bind_outcome (i64 (fst tv * 1000000)) (\<lambda>s. i64 (s + snd tv))"

text \<open>The \<open>static\<close> variables.\<close>

record cpu_state =
  last_time :: int
  last_system_time :: int
  processor_count :: int

definition cpu_state_init :: cpu_state where
  "cpu_state_init = \<lparr>last_time = 0, last_system_time = 0, processor_count = - 1\<rparr>"

text \<open>The answers of \<open>sysconf\<close>, \<open>gettimeofday\<close> and \<open>getrusage\<close> (system and user time).\<close>

definition get_cpu_usage ::
  "int \<Rightarrow> (int \<times> int) option \<Rightarrow> ((int \<times> int) \<times> (int \<times> int)) option \<Rightarrow> cpu_state \<Rightarrow> (int \<times> cpu_state) outcome" where
  "get_cpu_usage sysconf now usage s =
     (let s = (if processor_count s = - 1 then s\<lparr>processor_count := get_processor_number sysconf (- 1)\<rparr> else s)
      in case now of None \<Rightarrow> Ok (- 1, s) | Some now \<Rightarrow>
         (case usage of None \<Rightarrow> Ok (- 1, s) | Some (st, ut) \<Rightarrow>
            bind_outcome (timeval_to_microseconds st) (\<lambda>st.
            bind_outcome (timeval_to_microseconds ut) (\<lambda>ut.
            bind_outcome (i64 (st + ut)) (\<lambda>total.
            bind_outcome (cdiv total (processor_count s)) (\<lambda>system_time.
            bind_outcome (timeval_to_microseconds now) (\<lambda>sys_time.
              if last_system_time s = 0 \<or> last_time s = 0 then
                Ok (0, s\<lparr>last_system_time := system_time, last_time := sys_time\<rparr>)
              else
                bind_outcome (i64 (system_time - last_system_time s)) (\<lambda>system_time_delta.
                bind_outcome (i64 (sys_time - last_time s)) (\<lambda>time_delta.
                  if time_delta = 0 then Ok (0, s)
                  else
                    bind_outcome (i64 (system_time_delta * 100)) (\<lambda>a.
                    bind_outcome (cdiv time_delta 2) (\<lambda>b.
                    bind_outcome (i64 (a + b)) (\<lambda>c.
                    bind_outcome (cdiv c time_delta) (\<lambda>cpu.
                      Ok (sint (word_of_int cpu :: 32 word),
                          s\<lparr>last_system_time := system_time, last_time := sys_time\<rparr>))))))))))))))"

section \<open>Scanning\<close>

abbreviation bytes :: "string \<Rightarrow> u8 list" where
  "bytes s \<equiv> map of_char s"

text \<open>The digit of \<open>fast_strtou64_16\<close>, in \<open>unsigned char\<close>.\<close>

definition hex_digit :: "u8 \<Rightarrow> u8" where
  "hex_digit c = (let d = or c 0x20 - 0x30 in if 9 < d then d - (0x31 - 10) else d)"

fun fast_strtou64_16 :: "u8 list \<Rightarrow> u64 \<Rightarrow> (u64 \<times> u8 list) outcome" where
  "fast_strtou64_16 [] n = Undef"
| "fast_strtou64_16 (c # cs) n =
     (if c = 0x20 then Ok (n, cs) else fast_strtou64_16 cs (n * 16 + ucast (hex_digit c)))"

text \<open>\<open>isspace\<close> of the macro: the subtraction is one of signed \<open>int\<close>s.\<close>

definition is_space :: "u8 \<Rightarrow> bool" where
  "is_space c \<longleftrightarrow> c = 0x20 \<or> sint c - 9 \<le> 13 - 9"

fun skip_whitespace :: "u8 list \<Rightarrow> u8 list outcome" where
  "skip_whitespace [] = Undef"
| "skip_whitespace (c # cs) = (if is_space c then skip_whitespace cs else Ok (c # cs))"

fun skip_field :: "u8 list \<Rightarrow> u8 list outcome" where
  "skip_field [] = Undef"
| "skip_field (c # cs) = (if c = 0x20 then Ok cs else skip_field cs)"

fun skip_fields :: "nat \<Rightarrow> u8 list \<Rightarrow> u8 list outcome" where
  "skip_fields 0 s = Ok s"
| "skip_fields (Suc n) s = bind_outcome (skip_field s) (skip_fields n)"

text \<open>\<open>strncmp\<close> with the length of the pattern: whether the bytes are the pattern's.\<close>

fun starts_with :: "u8 list \<Rightarrow> u8 list \<Rightarrow> bool outcome" where
  "starts_with [] s = Ok True"
| "starts_with (p # ps) [] = Undef"
| "starts_with (p # ps) (c # cs) = (if p = c then starts_with ps cs else Ok False)"

definition equals_string :: "u8 list \<Rightarrow> u8 list \<Rightarrow> bool outcome" where
  "equals_string p s = starts_with (p @ [0]) s"

text \<open>\<open>strchr(buf, '-')\<close> with the store of a space: the buffer up to there and after.\<close>

fun split_dash :: "u8 list \<Rightarrow> (u8 list \<times> u8 list) option outcome" where
  "split_dash [] = Undef"
| "split_dash (c # cs) =
     (if c = 0x2d then Ok (Some ([], cs))
      else if c = 0 then Ok None
      else map_ok (map_option (\<lambda>(a, b). (c # a, b))) (split_dash cs))"

section \<open>Memory usage\<close>

text \<open>\<open>fgets\<close> stores the line and a zero; the rest of the buffer keeps what it held.\<close>

definition fgets_into :: "u8 list \<Rightarrow> u8 list \<Rightarrow> u8 list" where
  "fgets_into line buf = line @ [0] @ drop (length line + 1) buf"

fun scan_skips :: "u8 list list \<Rightarrow> u8 list \<Rightarrow> bool outcome" where
  "scan_skips [] buf = Ok False"
| "scan_skips (p # ps) buf = bind_outcome (starts_with p buf) (\<lambda>b. if b then Ok True else scan_skips ps buf)"

definition scan_words :: "u8 list list" where
  "scan_words = map bytes [''Shared_Clean:'', ''Shared_Dirty:'', ''Private_Clean:'', ''Private_Dirty:'']"

record mem_sums =
  mapped_rw :: u64
  mapped_ro :: u64

text \<open>The body of the loop on the buffer: the buffer after it and the sums.\<close>

definition smaps_line :: "u8 list \<Rightarrow> mem_sums \<Rightarrow> (u8 list \<times> mem_sums) outcome" where
  "smaps_line buf m =
     bind_outcome (scan_skips scan_words buf) (\<lambda>skip.
       if skip then Ok (buf, m)
       else bind_outcome (split_dash buf) (\<lambda>d. case d of
           None \<Rightarrow> Ok (buf, m)
         | Some (a, b) \<Rightarrow>
             let buf = a @ [0x20] @ b
             in bind_outcome (fast_strtou64_16 buf 0) (\<lambda>(start, tp).
                bind_outcome (fast_strtou64_16 tp 0) (\<lambda>(stop, tp).
                bind_outcome (if 1 < length tp then Ok (tp ! 1) else Undef) (\<lambda>w.
                bind_outcome (bind_outcome (skip_fields 4 tp) skip_whitespace) (\<lambda>tp.
                bind_outcome (starts_with (bytes ''/dev/'') tp) (\<lambda>dev.
                bind_outcome (if dev then equals_string (bytes (''/dev/zero'' @ [CHR 0x0A])) tp else Ok True) (\<lambda>counted.
                  let sz = stop - start
                  in Ok (buf, if \<not> counted then m
                     else if w = 0x77 then m\<lparr>mapped_rw := mapped_rw m + sz\<rparr>
                     else if w = 0x2d then m\<lparr>mapped_ro := mapped_ro m + sz\<rparr>
                     else m)))))))))"

text \<open>What \<open>fgets\<close> reads: up to and with a newline, at most \<open>n\<close> bytes.\<close>

fun fgets_chunk :: "nat \<Rightarrow> u8 list \<Rightarrow> u8 list \<times> u8 list" where
  "fgets_chunk (Suc n) (c # cs) = (if c = 0x0A then ([c], cs)
     else let (l, r) = fgets_chunk n cs in (c # l, r))"
| "fgets_chunk n cs = ([], cs)"

lemma fgets_chunk_shorter: "length (snd (fgets_chunk n cs)) \<le> length cs"
  by (induction n cs rule: fgets_chunk.induct) (auto split: prod.split simp: Let_def)

lemma fgets_chunk_drops: "fgets_chunk (Suc n) (c # cs) = (l, rest) \<Longrightarrow> length rest \<le> length cs"
  using fgets_chunk_shorter [of n cs] by (auto split: if_splits prod.splits simp: Let_def)

definition line_buf_size :: nat where
  "line_buf_size = 1024"

function smaps_lines :: "u8 list \<Rightarrow> u8 list \<Rightarrow> mem_sums \<Rightarrow> (u8 list \<times> mem_sums) outcome" where
  "smaps_lines [] buf m = Ok (buf, m)"
| "smaps_lines (c # cs) buf m =
     (let (l, rest) = fgets_chunk (line_buf_size - 1) (c # cs)
      in bind_outcome (smaps_line (fgets_into l buf) m) (\<lambda>(buf, m). smaps_lines rest buf m))"
  by pat_completeness auto

termination
proof (relation "measure (\<lambda>(f, _, _). length f)", goal_cases)
  case (2 c cs buf m x l rest)
  have n: "line_buf_size - 1 = Suc 1022" by (simp add: line_buf_size_def)
  from 2(1,2) have "fgets_chunk (Suc 1022) (c # cs) = (l, rest)" unfolding n by (rule trans [OF sym sym])
  from fgets_chunk_drops [OF this] show ?case by simp
qed simp

text \<open>
  \<open>file\<close>: the contents of the smaps file, \<open>None\<close> when it cannot be opened; \<open>buf\<close>: the initial contents of
  the line buffer.  The result with \<open>*mem\<close> and \<open>*vmem\<close>.
\<close>

definition get_pmemory_usage ::
  "u8 list option \<Rightarrow> u8 list \<Rightarrow> (int \<times> (u64 \<times> u64) option) outcome" where
  "get_pmemory_usage file buf = (case file of
       None \<Rightarrow> Ok (- 1, None)
     | Some f \<Rightarrow> map_ok (\<lambda>(_, m). (0, Some (mapped_rw m + mapped_ro m, 0)))
         (smaps_lines f buf \<lparr>mapped_rw = 0, mapped_ro = 0\<rparr>))"

section \<open>CPU usage properties\<close>

text \<open>Inside the range of \<open>int64_t\<close> a value passes.\<close>

lemma i64_Ok_iff [outcome_simps]: "i64 x = Ok y \<longleftrightarrow> y = x \<and> - (2 ^ 63) \<le> x \<and> x < 2 ^ 63"
  by (auto simp: i64_def)

lemma cdiv_pos: "0 \<le> a \<Longrightarrow> 0 < b \<Longrightarrow> a < 2 ^ 63 \<Longrightarrow> cdiv a b = Ok (a div b)"
proof -
  assume a: "0 \<le> a" "0 < b" "a < 2 ^ 63"
  then have "a div b \<le> a" by (simp add: div_by_0 zdiv_mono2 [of a 1 b, simplified])
  moreover have "0 \<le> a div b" using a by (simp add: pos_imp_zdiv_nonneg_iff)
  moreover have "sgn a * (a div b) = a div b" using a by (cases "a = 0") auto
  ultimately show ?thesis using a unfolding cdiv_def i64_def by (cases "a = 0") (simp_all del: sgn_if)
qed

lemma rounded_percent:
  fixes sd td :: int
  assumes "0 \<le> sd" and "sd \<le> td" and "0 < td" and "c = (sd * 100 + td div 2) div td"
  shows "0 \<le> c \<and> c \<le> 100 \<and> \<bar>2 * (100 * sd - c * td)\<bar> \<le> td"
proof -
  let ?x = "sd * 100 + td div 2"
  have h: "2 * (td div 2) \<le> td" "td \<le> 2 * (td div 2) + 1" by auto
  have c: "c * td \<le> ?x" "?x < (c + 1) * td"
    using assms(3) unfolding assms(4) by (auto simp: distrib_right minus_mod_eq_div_mult [symmetric])
  have "0 \<le> c" using assms by (simp add: pos_imp_zdiv_nonneg_iff)
  moreover have "c \<le> 100"
  proof -
    have "?x < 101 * td" using assms(1-3) h by linarith
    with c(1) have "c * td < 101 * td" by linarith
    then have "c < 101" using assms(3) by (simp add: mult_less_cancel_right)
    then show ?thesis by simp
  qed
  ultimately show ?thesis using c h by (auto simp: algebra_simps abs_le_iff)
qed

definition micros :: "int \<times> int \<Rightarrow> int" where
  "micros tv = fst tv * 1000000 + snd tv"

text \<open>A \<open>timeval\<close> of the next two thousand years.\<close>

definition timeval_ok :: "int \<times> int \<Rightarrow> bool" where
  "timeval_ok tv \<longleftrightarrow> 0 \<le> fst tv \<and> fst tv < 2 ^ 36 \<and> 0 \<le> snd tv \<and> snd tv < 1000000"

lemma timeval_ok_micros:
  "timeval_ok tv \<Longrightarrow> timeval_to_microseconds tv = Ok (micros tv) \<and> 0 \<le> micros tv \<and> micros tv < 2 ^ 56"
  by (cases tv) (auto simp: timeval_ok_def timeval_to_microseconds_def micros_def i64_def)

lemma i64_fits: "0 \<le> x \<Longrightarrow> x < 2 ^ 63 \<Longrightarrow> i64 x = Ok x"
  by (simp add: i64_def)

lemma percent_fits: "0 \<le> c \<Longrightarrow> c \<le> 100 \<Longrightarrow> sint (word_of_int c :: 32 word) = c"
  by (simp add: sint_sbintrunc' signed_take_bit_int_eq_self)

text \<open>C29: Between two calls \<open>get_cpu_usage\<close> gives the percentage of the elapsed time the process ran on a
  processor, rounded to the nearest integer and between 0 and 100, and remembers the new times,
  provided that the clock advanced by at least the processor time used.
\<close>

theorem cpu_usage_percent:
  assumes "timeval_ok now" and "timeval_ok st" and "timeval_ok ut"
    and "0 < processor_count s" and "0 < last_system_time s" and "0 < last_time s"
    and "sys = (micros st + micros ut) div processor_count s"
    and "0 \<le> sys - last_system_time s" and "sys - last_system_time s \<le> micros now - last_time s"
    and "0 < micros now - last_time s"
  shows "\<exists>c. get_cpu_usage n (Some now) (Some (st, ut)) s
              = Ok (c, s\<lparr>last_system_time := sys, last_time := micros now\<rparr>)
          \<and> 0 \<le> c \<and> c \<le> 100
          \<and> \<bar>2 * (100 * (sys - last_system_time s) - c * (micros now - last_time s))\<bar> \<le> micros now - last_time s"
proof -
  define sd where "sd = sys - last_system_time s"
  define td where "td = micros now - last_time s"
  define c where "c = (sd * 100 + td div 2) div td"
  note n = timeval_ok_micros [OF assms(1)] and t = timeval_ok_micros [OF assms(2)] timeval_ok_micros [OF assms(3)]
  have d: "0 \<le> sd" "sd \<le> td" "0 < td" "td < 2 ^ 56" using assms(8-10) n assms(6) unfolding sd_def td_def by auto
  note r = rounded_percent [OF d(1-3) c_def]
  have sys: "cdiv (micros st + micros ut) (processor_count s) = Ok sys"
    unfolding assms(7) by (rule cdiv_pos) (use t assms(4) in auto)
  have h: "cdiv td 2 = Ok (td div 2)" "cdiv (sd * 100 + td div 2) td = Ok c" unfolding c_def
    by (rule cdiv_pos; use d in auto)+
  have i: "i64 (micros st + micros ut) = Ok (micros st + micros ut)" "i64 sd = Ok sd" "i64 td = Ok td"
    "i64 (sd * 100) = Ok (sd * 100)" "i64 (sd * 100 + td div 2) = Ok (sd * 100 + td div 2)"
    using t d by (auto intro!: i64_fits)
  have "get_cpu_usage n (Some now) (Some (st, ut)) s = Ok (c, s\<lparr>last_system_time := sys, last_time := micros now\<rparr>)"
    using assms(4-6) n t i h sys d r
    by (simp add: get_cpu_usage_def sd_def [symmetric] td_def [symmetric] percent_fits)
  with r show ?thesis unfolding sd_def td_def by blast
qed

definition cpu_example :: cpu_state where
  "cpu_example = \<lparr>last_time = 1000000, last_system_time = 1, processor_count = 2\<rparr>"

theorem cpu_usage_percent_witness:
  "\<exists>c. get_cpu_usage 2 (Some (2, 0)) (Some ((0, 500002), (0, 500000))) cpu_example
       = Ok (c, cpu_example\<lparr>last_system_time := 500001, last_time := 2000000\<rparr>) \<and> 0 \<le> c \<and> c \<le> 100"
  using cpu_usage_percent [of "(2, 0)" "(0, 500002)" "(0, 500000)" cpu_example 500001 2]
  by (auto simp: timeval_ok_def micros_def cpu_example_def)

text \<open>A clock set back makes the result negative, or larger than 100.\<close>

lemma cpu_usage_clock_set_back:
  "get_cpu_usage 2 (Some (0, 900000)) (Some ((0, 500002), (0, 500000))) cpu_example
     = Ok (- 499, cpu_example\<lparr>last_system_time := 500001, last_time := 900000\<rparr>)"
  by (simp add: get_cpu_usage_def cpu_example_def timeval_to_microseconds_def i64_def cdiv_def)

section \<open>Numbers\<close>

text \<open>A hexadecimal digit as it is printed, in upper or lower case.\<close>

definition hex_byte :: "bool \<times> nat \<Rightarrow> u8" where
  "hex_byte d = (if snd d < 10 then 0x30 + of_nat (snd d)
     else (if fst d then 0x41 else 0x61) + of_nat (snd d - 10))"

definition hex_value :: "(bool \<times> nat) list \<Rightarrow> nat" where
  "hex_value = foldl (\<lambda>n d. n * 16 + snd d) 0"

lemma less_16_cases: "(d::nat) < 16 \<Longrightarrow> d \<in> {0,1,2,3,4,5,6,7,8,9,10,11,12,13,14,15}"
  by (auto simp: numeral_eq_Suc less_Suc_eq)

lemma hex_digit_byte: "snd d < 16 \<Longrightarrow> hex_byte d \<noteq> 0x20 \<and> ucast (hex_digit (hex_byte d)) = (of_nat (snd d) :: u64)"
proof -
  assume "snd d < 16"
  from less_16_cases [OF this] show ?thesis
    by (cases "fst d") (elim insertE emptyE; simp add: hex_byte_def hex_digit_def)+
qed


lemma fast_strtou64_16_digits:
  "list_all (\<lambda>d. snd d < 16) ds \<Longrightarrow>
     fast_strtou64_16 (map hex_byte ds @ 0x20 # rest) n
       = Ok (foldl (\<lambda>n d. n * 16 + of_nat (snd d)) n ds, rest)"
  by (induction ds arbitrary: n) (auto simp: hex_digit_byte)

lemma of_nat_hex_value:
  "foldl (\<lambda>n d. n * 16 + of_nat (snd d)) (of_nat n) ds = (of_nat (foldl (\<lambda>n d. n * 16 + snd d) n ds) :: u64)"
proof (induction ds arbitrary: n)
  case (Cons d ds)
  have "of_nat n * 16 + of_nat (snd d) = (of_nat (n * 16 + snd d) :: u64)" by simp
  then show ?case using Cons [of "n * 16 + snd d"] by simp
qed simp

lemma fast_strtou64_16_value:
  "list_all (\<lambda>d. snd d < 16) ds \<Longrightarrow>
     fast_strtou64_16 (map hex_byte ds @ 0x20 # rest) 0 = Ok (of_nat (hex_value ds), rest)"
  using fast_strtou64_16_digits [of ds rest 0] of_nat_hex_value [of 0 ds] by (simp add: hex_value_def)

text \<open>What \<open>printf\<close> writes for \<open>%lx\<close> (and \<open>%lX\<close>).\<close>

fun hex_digits :: "bool \<Rightarrow> nat \<Rightarrow> (bool \<times> nat) list" where
  "hex_digits up n = (if n < 16 then [(up, n)] else hex_digits up (n div 16) @ [(up, n mod 16)])"

declare hex_digits.simps [simp del]

definition hex_print :: "bool \<Rightarrow> nat \<Rightarrow> u8 list" where
  "hex_print up n = map hex_byte (hex_digits up n)"

lemma hex_value_digits: "hex_value (hex_digits up n) = n"
proof (induction up n rule: hex_digits.induct)
  case (1 up n)
  show ?case
  proof (cases "n < 16")
    case False
    then have "hex_value (hex_digits up n) = hex_value (hex_digits up (n div 16)) * 16 + n mod 16"
      by (subst hex_digits.simps) (simp add: hex_value_def)
    then show ?thesis using 1 [OF False] by simp
  qed (simp add: hex_digits.simps hex_value_def)
qed

lemma hex_digits_small: "list_all (\<lambda>d. snd d < 16) (hex_digits up n)"
  by (induction up n rule: hex_digits.induct) (subst hex_digits.simps, auto)

lemma hex_value_zeros: "hex_value (replicate k (up, 0) @ ds) = hex_value ds"
proof -
  have "foldl (\<lambda>n d. n * 16 + snd d) 0 (replicate k (up, 0)) = (0 :: nat)" by (induction k) auto
  then show ?thesis by (simp add: hex_value_def)
qed

text \<open>C30: Parsing undoes printing: a number below \<open>2^64\<close> printed in hexadecimal, in either case and padded
  with any number of zeros, is read back by \<open>fast_strtou64_16\<close>, which stops after the space.
\<close>

theorem fast_strtou64_16_print:
  assumes "n < 2 ^ 64"
  shows "\<exists>v. fast_strtou64_16 (replicate k 0x30 @ hex_print up n @ 0x20 # rest) 0 = Ok (v, rest) \<and> unat v = n"
proof -
  have z: "replicate k 0x30 = map hex_byte (replicate k (up, 0))" by (simp add: hex_byte_def)
  have "list_all (\<lambda>d. snd d < 16) (replicate k (up, 0) @ hex_digits up n)"
    using hex_digits_small [of up n] by (auto simp: list_all_iff)
  from fast_strtou64_16_value [OF this, of rest]
  have "fast_strtou64_16 (replicate k 0x30 @ hex_print up n @ 0x20 # rest) 0 = Ok (of_nat n, rest)"
    unfolding hex_value_zeros hex_value_digits by (simp add: z hex_print_def)
  moreover have "unat (of_nat n :: u64) = n" using assms by (simp add: unsigned_of_nat take_bit_nat_eq_self)
  ultimately show ?thesis by blast
qed

theorem fast_strtou64_16_print_witness:
  "\<exists>v. fast_strtou64_16 (replicate 2 0x30 @ hex_print True 43981 @ 0x20 # []) 0 = Ok (v, []) \<and> unat v = 43981"
  by (rule fast_strtou64_16_print) simp

section \<open>Mappings\<close>

lemma scan_words_hex:
  "c \<noteq> 0x53 \<Longrightarrow> c \<noteq> 0x50 \<Longrightarrow> scan_skips scan_words (c # cs) = Ok False"
  by (simp add: scan_words_def of_char_def)

lemma split_dash_first:
  "0x2d \<notin> set xs \<Longrightarrow> 0 \<notin> set xs \<Longrightarrow> split_dash (xs @ 0x2d # ys) = Ok (Some (xs, ys))"
  by (induction xs) auto

lemma skip_field_first: "0x20 \<notin> set xs \<Longrightarrow> skip_field (xs @ 0x20 # ys) = Ok ys"
  by (induction xs) auto

lemma hex_byte_plain:
  "snd d < 16 \<Longrightarrow> hex_byte d \<notin> {0, 0x20, 0x2d, 0x50, 0x53}"
proof -
  assume "snd d < 16"
  from less_16_cases [OF this] show ?thesis
    by (cases "fst d") (elim insertE emptyE; simp add: hex_byte_def)+
qed

lemma starts_with_prefix: "c \<notin> set p \<Longrightarrow> starts_with p (xs @ c # ys) = Ok (prefix p xs)"
proof (induction p arbitrary: xs)
  case (Cons p ps)
  then show ?case by (cases xs) auto
qed simp

lemma starts_with_whole:
  "c \<notin> set p \<Longrightarrow> c \<notin> set xs \<Longrightarrow> starts_with (p @ [c, e]) (xs @ c # e # ys) = Ok (p = xs)"
proof (induction p arbitrary: xs)
  case Nil
  then show ?case by (cases xs) auto
next
  case (Cons p ps)
  then show ?case by (cases xs) auto
qed

lemma skip_whitespace_spaces:
  "list_all is_space sp \<Longrightarrow> skip_whitespace (sp @ xs) = skip_whitespace xs"
  by (induction sp) auto

text \<open>A line \<open>start-end perms offset device inode\<close>, what follows the space after the inode, and its size.\<close>

record mapping =
  m_start :: "(bool \<times> nat) list"
  m_end :: "(bool \<times> nat) list"
  m_perms :: "u8 list"
  m_offset :: "u8 list"
  m_dev :: "u8 list"
  m_inode :: "u8 list"

definition mapping_ok :: "mapping \<Rightarrow> bool" where
  "mapping_ok p \<longleftrightarrow> m_start p \<noteq> [] \<and> list_all (\<lambda>d. snd d < 16) (m_start p) \<and> list_all (\<lambda>d. snd d < 16) (m_end p)
     \<and> length (m_perms p) = 4 \<and> list_all (\<lambda>f. 0x20 \<notin> set f) [m_perms p, m_offset p, m_dev p, m_inode p]"

definition mapping_fields :: "mapping \<Rightarrow> u8 list \<Rightarrow> u8 list" where
  "mapping_fields p tail = m_perms p @ 0x20 # m_offset p @ 0x20 # m_dev p @ 0x20 # m_inode p @ 0x20 # tail"

definition mapping_line :: "mapping \<Rightarrow> u8 list \<Rightarrow> u8 list" where
  "mapping_line p tail = map hex_byte (m_start p) @ 0x2d # map hex_byte (m_end p) @ 0x20 # mapping_fields p tail"

definition mapping_size :: "mapping \<Rightarrow> u64" where
  "mapping_size p = of_nat (hex_value (m_end p)) - of_nat (hex_value (m_start p))"

definition count_mapping :: "mapping \<Rightarrow> mem_sums \<Rightarrow> mem_sums" where
  "count_mapping p m =
     (if m_perms p ! 1 = 0x77 then m\<lparr>mapped_rw := mapped_rw m + mapping_size p\<rparr>
      else if m_perms p ! 1 = 0x2d then m\<lparr>mapped_ro := mapped_ro m + mapping_size p\<rparr>
      else m)"

lemma mapping_fields_skip:
  "mapping_ok p \<Longrightarrow> skip_fields 4 (mapping_fields p tail) = Ok tail"
  by (simp add: mapping_ok_def mapping_fields_def skip_field_first eval_nat_numeral)

lemma mapping_fields_perm:
  "mapping_ok p \<Longrightarrow> mapping_fields p tail ! 1 = m_perms p ! 1 \<and> 1 < length (mapping_fields p tail)"
  by (simp add: mapping_ok_def mapping_fields_def nth_append)

lemma mapping_line_dash:
  "mapping_ok p \<Longrightarrow> split_dash (mapping_line p tail)
     = Ok (Some (map hex_byte (m_start p), map hex_byte (m_end p) @ 0x20 # mapping_fields p tail))"
  unfolding mapping_line_def by (rule split_dash_first) (use hex_byte_plain in \<open>fastforce simp: mapping_ok_def list_all_iff\<close>)+

lemma mapping_line_no_scan: "mapping_ok p \<Longrightarrow> scan_skips scan_words (mapping_line p tail) = Ok False"
  using hex_byte_plain [of "hd (m_start p)"]
  by (cases "m_start p") (auto simp: mapping_ok_def mapping_line_def intro!: scan_words_hex)

text \<open>The line up to the name.\<close>

lemma smaps_line_mapping:
  assumes "mapping_ok p" and "skip_whitespace tail = Ok tp" and "starts_with (bytes ''/dev/'') tp = Ok dev"
    and "dev \<Longrightarrow> equals_string (bytes (''/dev/zero'' @ [CHR 0x0A])) tp = Ok zero"
  shows "\<exists>buf. smaps_line (mapping_line p tail) m = Ok (buf, if dev \<and> \<not> zero then m else count_mapping p m)"
proof -
  have s: "list_all (\<lambda>d. snd d < 16) (m_start p)" "list_all (\<lambda>d. snd d < 16) (m_end p)"
    using assms(1) by (simp_all add: mapping_ok_def)
  note r = fast_strtou64_16_value [OF s(1)] fast_strtou64_16_value [OF s(2)]
  show ?thesis
    using assms(2-4) mapping_fields_perm [OF assms(1), of tail]
    by (cases dev)
      (auto simp: smaps_line_def mapping_line_no_scan [OF assms(1)] mapping_line_dash [OF assms(1)] r
        mapping_fields_skip [OF assms(1)] Let_def count_mapping_def mapping_size_def)
qed

text \<open>A mapping with a name is counted with its size, as writable or read-only by the second letter
  of its permissions, unless the name begins with /dev/ and is not /dev/zero, whatever the buffer
  holds behind the line.
\<close>

theorem named_mapping_counted:
  assumes "mapping_ok p" and "list_all is_space sp" and "name \<noteq> []" and "\<not> is_space (hd name)" and "0x0A \<notin> set name"
  shows "\<exists>buf. smaps_line (fgets_into (mapping_line p (sp @ name @ [0x0A])) old) m
    = Ok (buf, if prefix (bytes ''/dev/'') name \<and> name \<noteq> bytes ''/dev/zero'' then m else count_mapping p m)"
proof -
  define rest where "rest = drop (length (mapping_line p (sp @ name @ [0x0A])) + 1) old"
  define tail where "tail = sp @ name @ 0x0A # 0 # rest"
  have line: "fgets_into (mapping_line p (sp @ name @ [0x0A])) old = mapping_line p tail"
    by (simp add: fgets_into_def rest_def tail_def mapping_line_def mapping_fields_def)
  have skip: "skip_whitespace tail = Ok (name @ 0x0A # 0 # rest)"
    unfolding tail_def skip_whitespace_spaces [OF assms(2)] using assms(3,4) by (cases name) auto
  have dev: "starts_with (bytes ''/dev/'') (name @ 0x0A # 0 # rest) = Ok (prefix (bytes ''/dev/'') name)"
    by (rule starts_with_prefix) (simp add: of_char_def)
  have "equals_string (bytes (''/dev/zero'' @ [CHR 0x0A])) (name @ 0x0A # 0 # rest)
      = starts_with (bytes ''/dev/zero'' @ [0x0A, 0]) (name @ 0x0A # 0 # rest)"
    by (simp add: equals_string_def of_char_def)
  also have "\<dots> = Ok (bytes ''/dev/zero'' = name)"
    by (rule starts_with_whole [OF _ assms(5)]) (simp add: of_char_def)
  finally have zero: "equals_string (bytes (''/dev/zero'' @ [CHR 0x0A])) (name @ 0x0A # 0 # rest) = Ok (bytes ''/dev/zero'' = name)" .
  from smaps_line_mapping [OF assms(1) skip dev zero, of m] show ?thesis
    unfolding line by (simp add: eq_commute [of name])
qed

definition no_sums :: mem_sums where
  "no_sums = \<lparr>mapped_rw = 0, mapped_ro = 0\<rparr>"

definition example_mapping :: mapping where
  "example_mapping = \<lparr>m_start = [(False, 1), (False, 0)], m_end = [(False, 15), (False, 0)], m_perms = bytes ''rw-p'',
     m_offset = bytes ''00000000'', m_dev = bytes ''00:00'', m_inode = bytes ''0''\<rparr>"

lemma example_mapping_ok: "mapping_ok example_mapping" "list_all is_space (replicate n 0x20)"
  by (simp_all add: mapping_ok_def example_mapping_def of_char_def is_space_def list_all_iff)

theorem named_mapping_counted_witness:
  "\<exists>buf. smaps_line (fgets_into (mapping_line example_mapping (replicate 3 0x20 @ bytes ''/dev/zero'' @ [0x0A])) []) no_sums
    = Ok (buf, count_mapping example_mapping no_sums)"
  using named_mapping_counted [OF example_mapping_ok(1) example_mapping_ok(2), of "bytes ''/dev/zero''" 3 "[]" no_sums]
  by (simp add: of_char_def is_space_def)

text \<open>The white space skipper does not stop at the zero that ends the line, against its comment: for a
  mapping without a name it runs into what an earlier, longer line left in the buffer, and when that
  is the name of a device the mapping is not counted.
\<close>

theorem stale_name_hides_mapping:
  assumes "mapping_ok p" and "list_all is_space sp" and "list_all is_space junk"
    and "drop (length (mapping_line p (sp @ [0x0A])) + 1) old = junk @ bytes ''/dev/'' @ c # rest"
    and "c \<noteq> 0x7A"
  shows "\<exists>buf. smaps_line (fgets_into (mapping_line p (sp @ [0x0A])) old) m = Ok (buf, m)"
proof -
  define name where "name = bytes ''/dev/'' @ c # rest"
  define tail where "tail = (sp @ [0x0A, 0] @ junk) @ name"
  have line: "fgets_into (mapping_line p (sp @ [0x0A])) old = mapping_line p tail"
    unfolding fgets_into_def assms(4) by (simp add: name_def tail_def mapping_line_def mapping_fields_def)
  have "list_all is_space (sp @ [0x0A, 0] @ junk)" using assms(2,3) by (simp add: is_space_def)
  from skip_whitespace_spaces [OF this, of name] have skip: "skip_whitespace tail = Ok name"
    unfolding tail_def by (simp add: name_def of_char_def is_space_def)
  have dev: "starts_with (bytes ''/dev/'') name = Ok True" by (simp add: name_def of_char_def)
  have zero: "equals_string (bytes (''/dev/zero'' @ [CHR 0x0A])) name = Ok False"
    using assms(5) by (simp add: equals_string_def name_def of_char_def)
  from smaps_line_mapping [OF assms(1) skip dev zero, of m] show ?thesis unfolding line by simp
qed

theorem stale_name_hides_mapping_witness:
  "\<exists>buf. smaps_line (fgets_into (mapping_line example_mapping [0x0A])
     (mapping_line example_mapping (replicate 3 0x20 @ bytes ''/dev/null'' @ [0x0A, 0]))) no_sums = Ok (buf, no_sums)"
  using stale_name_hides_mapping [OF example_mapping_ok(1), where sp = "[]" and junk = "[0x20]" and old =
      "mapping_line example_mapping (replicate 3 0x20 @ bytes ''/dev/null'' @ [0x0A, 0])" and c = "0x6E" and rest = "bytes ''ull'' @ [0x0A, 0]" and m = no_sums]
  by (simp add: mapping_line_def mapping_fields_def example_mapping_def hex_byte_def of_char_def is_space_def numeral_3_eq_3)

end
