(* ===== verification/ServiceStatus.thy ===== *)
theory ServiceStatus
  imports ProcessStat
begin

text \<open>
  src/fb303/service\_base\_processor.h and service\_base\_handler.h/.cpp: the statistics of the calls of
  the current second, which a timer hands to the handler, and the handler's status.  The maps are
  HOL maps, their counters have the signed widths of the Thrift structure; signed overflow is
  undefined.  \<open>get_cpu_usage\<close> and \<open>get_memory_usage\<close> are those of \<open>ProcessStat\<close>.
\<close>

section \<open>The status\<close>

text \<open>An optional field is \<open>None\<close> while its \<open>__isset\<close> is false.\<close>

record status_rt =
  rt_cpu :: "int option"
  rt_memory :: "int option"
  rt_isset_qps :: bool
  rt_isset_ok_qps :: bool
  rt_isset_cost :: bool
  rpc_qps :: "string \<Rightarrow> int option"
  rpc_ok_qps :: "string \<Rightarrow> int option"
  rpc_cost :: "string \<Rightarrow> (int \<Rightarrow> int option) option"

definition fresh_rt :: status_rt where
  "fresh_rt = \<lparr>rt_cpu = None, rt_memory = None, rt_isset_qps = False, rt_isset_ok_qps = False,
     rt_isset_cost = False, rpc_qps = Map.empty, rpc_ok_qps = Map.empty, rpc_cost = Map.empty\<rparr>"

text \<open>\<open>m[k]++\<close> of a map of signed counters of width \<open>w\<close>; a new entry is 0.\<close>

definition count_up :: "nat \<Rightarrow> 'k \<Rightarrow> ('k \<Rightarrow> int option) \<Rightarrow> ('k \<Rightarrow> int option) outcome" where
  "count_up w k m = (let n = (case m k of None \<Rightarrow> 0 | Some n \<Rightarrow> n)
     in if n + 1 < 2 ^ (w - 1) then Ok (m(k \<mapsto> n + 1)) else Undef)"

section \<open>ServiceBaseHandler\<close>

datatype fb_status = DEAD | STARTING | ALIVE | STOPPING | STOPPED | WARNING

record 's base_handler =
  h_group :: string
  h_host :: string
  h_service :: string
  h_rt :: status_rt
  h_status :: fb_status
  h_server :: "'s option"

text \<open>\<open>host_name\<close>: the answer of \<open>boost::asio::ip::host_name\<close>.\<close>

definition handler_new :: "string \<Rightarrow> string \<Rightarrow> string \<Rightarrow> string \<Rightarrow> 's base_handler" where
  "handler_new host_name grp host service =
     \<lparr>h_group = (if grp \<noteq> [] then grp else ''default''), h_host = (if host \<noteq> [] then host else host_name),
      h_service = service, h_rt = fresh_rt, h_status = ALIVE, h_server = None\<rparr>"

definition handler_destroy :: "'s base_handler \<Rightarrow> 's base_handler" where
  "handler_destroy h = h\<lparr>h_status := DEAD\<rparr>"

definition set_server :: "'s option \<Rightarrow> 's base_handler \<Rightarrow> 's base_handler" where
  "set_server s h = h\<lparr>h_server := s\<rparr>"

definition handler_set_status :: "fb_status \<Rightarrow> 's base_handler \<Rightarrow> 's base_handler" where
  "handler_set_status st h = h\<lparr>h_status := st\<rparr>"

definition handler_getStatus :: "'s base_handler \<Rightarrow> fb_status" where
  "handler_getStatus h = h_status h"

text \<open>\<open>ServiceStatus\<close>: group, host and service.\<close>

definition handler_get_status :: "'s base_handler \<Rightarrow> string \<times> string \<times> string" where
  "handler_get_status h = (h_group h, h_host h, h_service h)"

text \<open>The server \<open>stop\<close> is called on, and the handler after.\<close>

definition handler_shutdown :: "'s base_handler \<Rightarrow> 's option \<times> 's base_handler" where
  "handler_shutdown h = (h_server h, (h\<lparr>h_status := STOPPED\<rparr>)\<lparr>h_server := None\<rparr>)"

definition get_status_rt :: "'s base_handler \<Rightarrow> status_rt" where
  "get_status_rt h = h_rt h"

text \<open>The swap: what the caller's pointer holds after it, and the handler.\<close>

definition set_status_rt :: "status_rt \<Rightarrow> 's base_handler \<Rightarrow> status_rt \<times> 's base_handler" where
  "set_status_rt rt h = (h_rt h, h\<lparr>h_rt := rt\<rparr>)"

section \<open>ServiceBaseProcessor\<close>

record 's base_processor =
  sp_handler :: "'s base_handler"
  sp_rt :: status_rt
  sp_thread :: bool
  sp_timer :: bool
  sp_cpu :: cpu_state

text \<open>
  What the machine answers to the calls of one \<open>set_update\<close>: \<open>sysconf\<close>, \<open>gettimeofday\<close>, \<open>getrusage\<close>, the
  smaps file and the contents of the uninitialised line buffer.
\<close>

record machine =
  mc_sysconf :: int
  mc_now :: "(int \<times> int) option"
  mc_usage :: "((int \<times> int) \<times> (int \<times> int)) option"
  mc_smaps :: "u8 list option"
  mc_stack :: "u8 list"

text \<open>
  The memory goes from \<open>uint64_t\<close> to \<open>int64_t\<close>; when \<open>get_memory_usage\<close> fails the variable it should have
  set is read uninitialised.
\<close>

definition set_update :: "machine \<Rightarrow> 's base_processor \<Rightarrow> 's base_processor outcome" where
  "set_update mc p =
     bind_outcome (get_cpu_usage (mc_sysconf mc) (mc_now mc) (mc_usage mc) (sp_cpu p)) (\<lambda>(cpu, cs).
     bind_outcome (get_pmemory_usage (mc_smaps mc) (mc_stack mc)) (\<lambda>(_, mem). case mem of
         None \<Rightarrow> Undef
       | Some (memory, _) \<Rightarrow>
           let rt = (sp_rt p)\<lparr>rt_cpu := Some cpu, rt_memory := Some (sint memory), rt_isset_qps := True,
                 rt_isset_ok_qps := True, rt_isset_cost := True\<rparr>;
               (_, h) = set_status_rt rt (sp_handler p)
           in Ok (p\<lparr>sp_cpu := cs, sp_handler := h, sp_rt := fresh_rt, sp_timer := True\<rparr>)))"

definition start_io_service :: "machine \<Rightarrow> 's base_processor \<Rightarrow> 's base_processor outcome" where
  "start_io_service mc p =
     (if sp_thread p then Ok p else map_ok (\<lambda>p. p\<lparr>sp_thread := True\<rparr>) (set_update mc p))"

definition stop_io_service :: "'s base_processor \<Rightarrow> 's base_processor" where
  "stop_io_service p = (if sp_thread p then p\<lparr>sp_thread := False\<rparr> else p)"

definition processor_new :: "machine \<Rightarrow> cpu_state \<Rightarrow> 's base_handler \<Rightarrow> 's base_processor outcome" where
  "processor_new mc cs h =
     start_io_service mc \<lparr>sp_handler = h, sp_rt = fresh_rt, sp_thread = False, sp_timer = False, sp_cpu = cs\<rparr>"

text \<open>The timer's base_handler: it runs in the thread, while that one exists.\<close>

definition update_timer_fires :: "machine \<Rightarrow> 's base_processor \<Rightarrow> 's base_processor outcome" where
  "update_timer_fires mc p =
     (if sp_timer p \<and> sp_thread p then set_update mc (p\<lparr>sp_timer := False\<rparr>) else Ok p)"

text \<open>The milliseconds between two \<open>timespec\<close>s, as an \<open>int\<close>, and their bucket.\<close>

definition elapsed_ms :: "int \<times> int \<Rightarrow> int \<times> int \<Rightarrow> int outcome" where
  "elapsed_ms from until =
     bind_outcome (i64 (fst until - fst from)) (\<lambda>s.
     bind_outcome (i64 (s * 1000)) (\<lambda>a.
     bind_outcome (i64 (snd until - snd from)) (\<lambda>n.
     bind_outcome (cdiv n 1000000) (\<lambda>b.
     map_ok (\<lambda>ms. sint (word_of_int ms :: 32 word)) (i64 (a + b))))))"

definition i32 :: "int \<Rightarrow> int outcome" where
  "i32 x = (if - (2 ^ 31) \<le> x \<and> x < 2 ^ 31 then Ok x else Undef)"

definition cost_bucket :: "int \<Rightarrow> int outcome" where
  "cost_bucket ms = bind_outcome (cdiv ms 10) (\<lambda>t. i32 (t * 10 + 10))"

text \<open>The counting after the call of the wrapped processor, which answered \<open>ok\<close>.\<close>

definition count_call :: "string \<Rightarrow> bool \<Rightarrow> int \<Rightarrow> status_rt \<Rightarrow> status_rt outcome" where
  "count_call fname ok ms rt =
     bind_outcome (count_up 32 fname (rpc_qps rt)) (\<lambda>qps.
     bind_outcome (if ok then count_up 32 fname (rpc_ok_qps rt) else Ok (rpc_ok_qps rt)) (\<lambda>okq.
     bind_outcome (count_up 64 ms (case rpc_cost rt fname of None \<Rightarrow> Map.empty | Some m \<Rightarrow> m)) (\<lambda>costs.
       Ok (rt\<lparr>rpc_qps := qps, rpc_ok_qps := okq, rpc_cost := (rpc_cost rt)(fname \<mapsto> costs)\<rparr>))))"

text \<open>\<open>call\<close>: what the wrapped \<open>process_fn\<close> answers in the world \<open>w\<close>; \<open>clock\<close> is \<open>clock_gettime\<close>.\<close>

definition service_process_fn ::
  "('w \<Rightarrow> (int \<times> int) \<times> 'w) \<Rightarrow> ('w \<Rightarrow> bool \<times> 'w) \<Rightarrow> string \<Rightarrow> 'w \<Rightarrow> 's base_processor \<Rightarrow> (bool \<times> 'w \<times> 's base_processor) outcome" where
  "service_process_fn clock call fname w p =
     (let (from, w) = clock w; (ok, w) = call w; (until, w) = clock w
      in bind_outcome (elapsed_ms from until) (\<lambda>ms.
         bind_outcome (cost_bucket ms) (\<lambda>b.
         map_ok (\<lambda>rt. (ok, w, p\<lparr>sp_rt := rt\<rparr>)) (count_call fname ok b (sp_rt p)))))"

section \<open>Costs\<close>

definition nanos :: "int \<times> int \<Rightarrow> int" where
  "nanos t = fst t * 1000000000 + snd t"

text \<open>A \<open>timespec\<close> of a machine that has not been up for two thousand years.\<close>

definition timespec_ok :: "int \<times> int \<Rightarrow> bool" where
  "timespec_ok t \<longleftrightarrow> 0 \<le> fst t \<and> fst t < 2 ^ 36 \<and> 0 \<le> snd t \<and> snd t < 1000000000"

lemma cdiv_neg: "a < 0 \<Longrightarrow> 0 < b \<Longrightarrow> - (2 ^ 63) < a \<Longrightarrow> cdiv a b = Ok (- (- a div b))"
proof -
  assume a: "a < 0" "0 < b" "- (2 ^ 63) < a"
  then have "- a div b \<le> - a" using zdiv_mono2 [of "- a" 1 b] by simp
  moreover have "0 \<le> - a div b" using a by (simp add: pos_imp_zdiv_nonneg_iff)
  ultimately show ?thesis using a unfolding cdiv_def i64_def by simp
qed

lemma int_fits: "0 \<le> x \<Longrightarrow> x < 2 ^ 31 \<Longrightarrow> sint (word_of_int x :: 32 word) = x"
  by (simp add: sint_sbintrunc' signed_take_bit_int_eq_self)

text \<open>The nanoseconds are cut towards zero, which is up when they went down.\<close>

lemma elapsed_ms_result:
  assumes "timespec_ok from" and "timespec_ok until" and "0 \<le> nanos until - nanos from"
    and "nanos until - nanos from < 2 ^ 31 * 1000000 - 1000000"
  shows "\<exists>ms. elapsed_ms from until = Ok ms \<and> 0 \<le> ms \<and> ms < 2 ^ 31
    \<and> ms * 1000000 < nanos until - nanos from + 1000000 \<and> nanos until - nanos from < (ms + 1) * 1000000"
proof -
  define s n where "s = fst until - fst from" and "n = snd until - snd from"
  have b: "- (2 ^ 36) < s" "s < 2 ^ 36" "- 1000000000 < n" "n < 1000000000"
    using assms(1,2) by (auto simp: timespec_ok_def s_def n_def)
  have e: "nanos until - nanos from = s * 1000000000 + n" by (simp add: nanos_def s_def n_def)
  define t where "t = (if n < 0 then - (- n div 1000000) else n div 1000000)"
  have c: "cdiv n 1000000 = Ok t"
    using b(3,4) by (simp add: t_def cdiv_neg cdiv_pos)
  have t: "t * 1000000 < n + 1000000" "n < (t + 1) * 1000000"
    by (auto simp: t_def algebra_simps)
  have "- 1000000 < (s * 1000 + t) * 1000000" "(s * 1000 + t) * 1000000 < 2 ^ 31 * 1000000"
    using assms(3,4) t unfolding e by (simp_all add: distrib_right)
  then have ms: "0 \<le> s * 1000 + t" "s * 1000 + t < 2 ^ 31" by simp_all
  have "elapsed_ms from until = Ok (sint (word_of_int (s * 1000 + t) :: 32 word))"
    using b c ms by (simp add: elapsed_ms_def i64_def s_def [symmetric] n_def [symmetric])
  moreover have "sint (word_of_int (s * 1000 + t) :: 32 word) = s * 1000 + t"
    by (rule int_fits [OF ms])
  ultimately have "elapsed_ms from until = Ok (s * 1000 + t)" by simp
  with ms t show ?thesis unfolding e by auto
qed

text \<open>The cost counted for a call is a multiple of ten milliseconds above the time the call took, by
  less than eleven milliseconds; a whole multiple of ten milliseconds is counted as the next one.\<close>

theorem cost_bucket_bounds:
  assumes "timespec_ok from" and "timespec_ok until" and "0 \<le> nanos until - nanos from"
    and "nanos until - nanos from < 2000000000000000"
  shows "\<exists>b. bind_outcome (elapsed_ms from until) cost_bucket = Ok b \<and> b mod 10 = 0
    \<and> nanos until - nanos from < b * 1000000 \<and> (b - 11) * 1000000 < nanos until - nanos from
    \<and> (\<forall>k. nanos until - nanos from = k * 10000000 \<longrightarrow> b = 10 * (k + 1))"
proof -
  from elapsed_ms_result [OF assms(1-3)] assms(4) obtain ms where ms: "elapsed_ms from until = Ok ms" "0 \<le> ms"
    "ms < 2 ^ 31" "ms * 1000000 < nanos until - nanos from + 1000000" "nanos until - nanos from < (ms + 1) * 1000000"
    by auto
  define b where "b = ms div 10 * 10 + 10"
  have "cdiv ms 10 = Ok (ms div 10)" by (rule cdiv_pos) (use ms in auto)
  moreover have m: "b mod 10 = 0" "ms < b" "b \<le> ms + 10" by (auto simp: b_def)
  moreover have "ms \<le> 2000000000" using ms(4) assms(4) by linarith
  moreover have "0 \<le> ms div 10 * 10" using ms(2) by (simp add: pos_imp_zdiv_nonneg_iff)
  ultimately have c: "cost_bucket ms = Ok b" by (simp add: cost_bucket_def i32_def b_def)
  have "(ms + 1) * 1000000 \<le> b * 1000000" "(b - 11) * 1000000 \<le> (ms - 1) * 1000000" using m(2,3) by simp_all
  then have "nanos until - nanos from < b * 1000000" "(b - 11) * 1000000 < nanos until - nanos from"
    using ms(4,5) by (simp_all add: algebra_simps)
  moreover have "b = 10 * (k + 1)" if k: "nanos until - nanos from = k * 10000000" for k
  proof -
    have "ms * 1000000 < (10 * k + 1) * 1000000" "(10 * k) * 1000000 < (ms + 1) * 1000000"
      using ms(4,5) unfolding k by (simp_all add: distrib_right)
    then have "ms < 10 * k + 1" "10 * k < ms + 1" by simp_all
    then have "ms = 10 * k" by linarith
    then show ?thesis by (simp add: b_def)
  qed
  ultimately show ?thesis using ms(1) c m(1) by simp
qed

theorem cost_bucket_bounds_witness:
  "\<exists>b. bind_outcome (elapsed_ms (3, 999000000) (4, 9000000)) cost_bucket = Ok b \<and> b mod 10 = 0 \<and> b < 21"
proof -
  have "timespec_ok (3, 999000000)" "timespec_ok (4, 9000000)" by (simp_all add: timespec_ok_def)
  from cost_bucket_bounds [OF this] show ?thesis by (auto simp: nanos_def)
qed

section \<open>Counting\<close>

fun count_calls :: "(string \<times> bool \<times> int) list \<Rightarrow> status_rt \<Rightarrow> status_rt outcome" where
  "count_calls [] rt = Ok rt"
| "count_calls ((f, ok, b) # cs) rt = bind_outcome (count_call f ok b rt) (count_calls cs)"

text \<open>An entry of a counter map, and how many calls there are.\<close>

definition entry_of :: "nat \<Rightarrow> int option" where
  "entry_of n = (if n = 0 then None else Some (int n))"

definition calls :: "((string \<times> bool \<times> int) \<Rightarrow> bool) \<Rightarrow> (string \<times> bool \<times> int) list \<Rightarrow> nat" where
  "calls P cs = length (filter P cs)"

definition cost_entry :: "status_rt \<Rightarrow> string \<Rightarrow> int \<Rightarrow> int option" where
  "cost_entry rt f b = (case rpc_cost rt f of None \<Rightarrow> None | Some m \<Rightarrow> m b)"

text \<open>The status counts the calls of \<open>cs\<close>.\<close>

definition counts :: "(string \<times> bool \<times> int) list \<Rightarrow> status_rt \<Rightarrow> bool" where
  "counts cs rt \<longleftrightarrow> (\<forall>f. rpc_qps rt f = entry_of (calls (\<lambda>c. fst c = f) cs)
      \<and> rpc_ok_qps rt f = entry_of (calls (\<lambda>c. fst c = f \<and> fst (snd c)) cs)
      \<and> (\<forall>b. cost_entry rt f b = entry_of (calls (\<lambda>c. fst c = f \<and> snd (snd c) = b) cs)))"

lemma calls_append: "calls P (cs @ [c]) = calls P cs + (if P c then 1 else 0)"
  by (simp add: calls_def)

lemma calls_bound: "calls P cs \<le> length cs"
  by (simp add: calls_def)

lemma count_up_entry:
  "m k = entry_of n \<Longrightarrow> n + 1 < 2 ^ (w - 1) \<Longrightarrow> count_up w k m = Ok (m(k := entry_of (n + 1)))"
proof -
  assume m: "m k = entry_of n" and n: "n + 1 < 2 ^ (w - 1)"
  have "int (n + 1) < int (2 ^ (w - 1))" using n by (simp only: of_nat_less_iff)
  then have "int n + 1 < 2 ^ (w - 1)" by simp
  then show ?thesis using m by (auto simp: count_up_def entry_of_def)
qed

lemma count_call_counts:
  assumes "counts cs rt" and "length cs + 1 < 2 ^ 31"
  shows "\<exists>rt'. count_call f ok b rt = Ok rt' \<and> counts (cs @ [(f, ok, b)]) rt'"
proof -
  define costs where "costs = (case rpc_cost rt f of None \<Rightarrow> Map.empty | Some m \<Rightarrow> m)"
  have l: "calls P cs + 1 < 2 ^ (32 - 1)" "calls P cs + 1 < 2 ^ (64 - 1)" for P
    using assms(2) calls_bound [of P cs] by auto
  have q: "rpc_qps rt f = entry_of (calls (\<lambda>c. fst c = f) cs)"
    "rpc_ok_qps rt f = entry_of (calls (\<lambda>c. fst c = f \<and> fst (snd c)) cs)"
    "cost_entry rt f b = entry_of (calls (\<lambda>c. fst c = f \<and> snd (snd c) = b) cs)"
    using assms(1) by (auto simp: counts_def)
  have "costs b = cost_entry rt f b" by (simp add: costs_def cost_entry_def split: option.splits)
  note q = q(1,2) trans [OF this q(3)]
  note u = count_up_entry [where w = 32 and m = "rpc_qps rt", OF q(1) l(1)]
    count_up_entry [where w = 32 and m = "rpc_ok_qps rt", OF q(2) l(1)] count_up_entry [where w = 64 and m = costs, OF q(3) l(2)]
  define rt' where "rt' = rt\<lparr>rpc_qps := (rpc_qps rt)(f := entry_of (calls (\<lambda>c. fst c = f) cs + 1)),
    rpc_ok_qps := (if ok then (rpc_ok_qps rt)(f := entry_of (calls (\<lambda>c. fst c = f \<and> fst (snd c)) cs + 1)) else rpc_ok_qps rt),
    rpc_cost := (rpc_cost rt)(f \<mapsto> costs(b := entry_of (calls (\<lambda>c. fst c = f \<and> snd (snd c) = b) cs + 1)))\<rparr>"
  have "count_call f ok b rt = Ok rt'"
    using u by (simp add: count_call_def costs_def [symmetric] rt'_def)
  moreover have "counts (cs @ [(f, ok, b)]) rt'"
  proof -
    have c: "cost_entry rt' g x = (if g = f \<and> x = b then entry_of (calls (\<lambda>c. fst c = f \<and> snd (snd c) = b) cs + 1)
        else cost_entry rt g x)" for g x
      by (auto simp: cost_entry_def rt'_def costs_def split: option.splits)
    show ?thesis using assms(1) unfolding counts_def calls_append c by (auto simp: rt'_def)
  qed
  ultimately show ?thesis by blast
qed

lemma count_calls_counts:
  "counts ds rt \<Longrightarrow> length ds + length cs < 2 ^ 31 \<Longrightarrow> \<exists>rt'. count_calls cs rt = Ok rt' \<and> counts (ds @ cs) rt'"
proof (induction cs arbitrary: ds rt)
  case (Cons c cs)
  obtain f ok b where c: "c = (f, ok, b)" by (cases c)
  from count_call_counts [OF Cons.prems(1), of f ok b] Cons.prems(2) obtain rt1 where
    "count_call f ok b rt = Ok rt1" "counts (ds @ [c]) rt1" by (auto simp: c)
  with Cons.IH [of "ds @ [c]" rt1] Cons.prems(2) show ?case by (simp add: c)
qed simp

lemma counts_fresh: "counts [] fresh_rt"
  by (simp add: counts_def fresh_rt_def entry_of_def calls_def cost_entry_def)

lemma set_update_result:
  assumes "set_update mc p = Ok p'"
  shows "rpc_qps (h_rt (sp_handler p')) = rpc_qps (sp_rt p) \<and> rpc_ok_qps (h_rt (sp_handler p')) = rpc_ok_qps (sp_rt p)
    \<and> rpc_cost (h_rt (sp_handler p')) = rpc_cost (sp_rt p) \<and> rt_isset_qps (h_rt (sp_handler p')) \<and> sp_rt p' = fresh_rt"
  using assms by (auto simp: set_update_def outcome_simps set_status_rt_def Let_def split: option.splits prod.splits)

text \<open>C40: The status of a second counts each method's calls, those that succeeded and those of each cost;
  the update hands exactly these numbers to the handler and starts the next second from nothing.\<close>

theorem status_counts_calls:
  assumes "sp_rt p = fresh_rt" and "length cs < 2 ^ 31"
  shows "\<exists>rt. count_calls cs (sp_rt p) = Ok rt \<and> counts cs rt
    \<and> (\<forall>mc p'. set_update mc (p\<lparr>sp_rt := rt\<rparr>) = Ok p' \<longrightarrow> counts cs (get_status_rt (sp_handler p'))
         \<and> rt_isset_qps (get_status_rt (sp_handler p')) \<and> counts [] (sp_rt p'))"
proof -
  from count_calls_counts [OF counts_fresh, of cs] assms(2) obtain rt where
    rt: "count_calls cs fresh_rt = Ok rt" "counts cs rt" by auto
  have "counts cs (h_rt (sp_handler p')) \<and> rt_isset_qps (h_rt (sp_handler p')) \<and> counts [] (sp_rt p')"
    if u: "set_update mc (p\<lparr>sp_rt := rt\<rparr>) = Ok p'" for mc p'
  proof -
    note r = set_update_result [OF u, simplified]
    have "counts cs (h_rt (sp_handler p'))" using rt(2) r by (simp add: counts_def cost_entry_def)
    with r counts_fresh show ?thesis by simp
  qed
  with rt show ?thesis by (simp add: assms(1) get_status_rt_def)
qed


definition idle_handler :: "unit base_handler" where
  "idle_handler = handler_new ''node1'' [] [] ''search''"

definition idle_processor :: "unit base_processor" where
  "idle_processor = \<lparr>sp_handler = idle_handler, sp_rt = fresh_rt, sp_thread = True, sp_timer = True, sp_cpu = cpu_state_init\<rparr>"

theorem status_counts_calls_witness:
  "\<exists>rt. count_calls [(''get'', True, 10), (''put'', False, 20), (''get'', True, 10)] (sp_rt idle_processor) = Ok rt
     \<and> rpc_qps rt ''get'' = Some 2 \<and> rpc_ok_qps rt ''put'' = None"
proof -
  have "sp_rt idle_processor = fresh_rt" by (simp add: idle_processor_def)
  from status_counts_calls [OF this, of "[(''get'', True, 10), (''put'', False, 20), (''get'', True, 10)]"]
  obtain rt where "count_calls [(''get'', True, 10), (''put'', False, 20), (''get'', True, 10)] (sp_rt idle_processor) = Ok rt"
    "counts [(''get'', True, 10), (''put'', False, 20), (''get'', True, 10)] rt" by auto
  then show ?thesis by (auto simp: counts_def calls_def entry_of_def)
qed

text \<open>A second shutdown stops nothing.\<close>

lemma handler_shutdown_twice:
  "fst (handler_shutdown (snd (handler_shutdown h))) = None \<and> h_status (snd (handler_shutdown h)) = STOPPED"
  by (simp add: handler_shutdown_def)

text \<open>When the memory usage cannot be read the uninitialised variable is used.\<close>

lemma set_update_unreadable: "mc_smaps mc = None \<Longrightarrow> \<forall>p'. set_update mc p \<noteq> Ok p'"
  by (auto simp: set_update_def outcome_simps get_pmemory_usage_def)

end
