(* ===== verification/AsyncFacebookBase.thy ===== *)
theory AsyncFacebookBase
  imports AsyncServer ServiceStatus
begin

text \<open>
  src/fb303/async\_facebook\_base.h/.cpp: the asynchronous fb303 handler.  An operation stores its
  result through the reference \<open>_return\<close> and runs the caller's callback, which may use the handler
  again; some callbacks run while the mutex of the counters or of the options is held, and locking a
  \<open>boost::mutex\<close> the thread already owns is undefined.
\<close>

section \<open>State\<close>

record 's fb_base =
  fb_name :: string
  fb_version :: string
  fb_state :: fb_status
  fb_details :: string
  fb_alive_since :: int
  fb_server :: "'s option"
  fb_counters :: "string \<Rightarrow> int option"
  fb_options :: "string \<Rightarrow> string option"
  fb_counters_locked :: bool
  fb_options_locked :: bool

text \<open>A callback: what it does with the handler, and what comes of it.\<close>

type_synonym ('v, 's, 'r) fb_callback = "'v \<Rightarrow> error_code \<Rightarrow> 's fb_base \<Rightarrow> ('r \<times> 's fb_base) outcome"

definition fb_new :: "string \<Rightarrow> string \<Rightarrow> int \<Rightarrow> 's fb_base" where
  "fb_new name version now = \<lparr>fb_name = name, fb_version = version, fb_state = STOPPED, fb_details = [],
     fb_alive_since = now, fb_server = None, fb_counters = Map.empty, fb_options = Map.empty,
     fb_counters_locked = False, fb_options_locked = False\<rparr>"

definition fb_new_default :: "int \<Rightarrow> 's fb_base" where
  "fb_new_default now = fb_new ''fb303'' ''0.1.0'' now"

section \<open>Operations\<close>

definition fb_set_status :: "fb_status \<Rightarrow> 's fb_base \<Rightarrow> 's fb_base" where
  "fb_set_status st s = s\<lparr>fb_state := st\<rparr>"

definition fb_set_status_details :: "string \<Rightarrow> 's fb_base \<Rightarrow> 's fb_base" where
  "fb_set_status_details d s = s\<lparr>fb_details := d\<rparr>"

definition fb_set_server :: "'s option \<Rightarrow> 's fb_base \<Rightarrow> 's fb_base" where
  "fb_set_server srv s = s\<lparr>fb_server := srv\<rparr>"

definition with_counters :: "('s fb_base \<Rightarrow> ('r \<times> 's fb_base) outcome) \<Rightarrow> 's fb_base \<Rightarrow> ('r \<times> 's fb_base) outcome" where
  "with_counters body s = (if fb_counters_locked s then Undef
     else map_ok (\<lambda>(r, s). (r, s\<lparr>fb_counters_locked := False\<rparr>)) (body (s\<lparr>fb_counters_locked := True\<rparr>)))"

definition with_options :: "('s fb_base \<Rightarrow> ('r \<times> 's fb_base) outcome) \<Rightarrow> 's fb_base \<Rightarrow> ('r \<times> 's fb_base) outcome" where
  "with_options body s = (if fb_options_locked s then Undef
     else map_ok (\<lambda>(r, s). (r, s\<lparr>fb_options_locked := False\<rparr>)) (body (s\<lparr>fb_options_locked := True\<rparr>)))"

definition async_getName :: "(string, 's, 'r) fb_callback \<Rightarrow> 's fb_base \<Rightarrow> ('r \<times> 's fb_base) outcome" where
  "async_getName k s = k (fb_name s) ec_success s"

definition async_getVersion :: "(string, 's, 'r) fb_callback \<Rightarrow> 's fb_base \<Rightarrow> ('r \<times> 's fb_base) outcome" where
  "async_getVersion k s = k (fb_version s) ec_success s"

definition async_getStatus :: "(fb_status, 's, 'r) fb_callback \<Rightarrow> 's fb_base \<Rightarrow> ('r \<times> 's fb_base) outcome" where
  "async_getStatus k s = k (fb_state s) ec_success s"

definition async_getStatusDetails :: "(string, 's, 'r) fb_callback \<Rightarrow> 's fb_base \<Rightarrow> ('r \<times> 's fb_base) outcome" where
  "async_getStatusDetails k s = k (fb_details s) ec_success s"

definition async_getCounters ::
  "((string \<Rightarrow> int option), 's, 'r) fb_callback \<Rightarrow> 's fb_base \<Rightarrow> ('r \<times> 's fb_base) outcome" where
  "async_getCounters k = with_counters (\<lambda>s. k (fb_counters s) ec_success s)"

text \<open>\<open>operator[]\<close> makes the entry when there is none.\<close>

definition async_getCounter ::
  "string \<Rightarrow> (int, 's, 'r) fb_callback \<Rightarrow> 's fb_base \<Rightarrow> ('r \<times> 's fb_base) outcome" where
  "async_getCounter key k = with_counters (\<lambda>s.
     let v = (case fb_counters s key of None \<Rightarrow> 0 | Some v \<Rightarrow> v)
     in k v ec_success (s\<lparr>fb_counters := (fb_counters s)(key \<mapsto> v)\<rparr>))"

definition async_setOption ::
  "string \<Rightarrow> string \<Rightarrow> (unit, 's, 'r) fb_callback \<Rightarrow> 's fb_base \<Rightarrow> ('r \<times> 's fb_base) outcome" where
  "async_setOption key v k = with_options (\<lambda>s. k () ec_success (s\<lparr>fb_options := (fb_options s)(key \<mapsto> v)\<rparr>))"

definition async_getOption ::
  "string \<Rightarrow> (string, 's, 'r) fb_callback \<Rightarrow> 's fb_base \<Rightarrow> ('r \<times> 's fb_base) outcome" where
  "async_getOption key k = with_options (\<lambda>s.
     let v = (case fb_options s key of None \<Rightarrow> [] | Some v \<Rightarrow> v)
     in k v ec_success (s\<lparr>fb_options := (fb_options s)(key \<mapsto> v)\<rparr>))"

definition async_getOptions ::
  "((string \<Rightarrow> string option), 's, 'r) fb_callback \<Rightarrow> 's fb_base \<Rightarrow> ('r \<times> 's fb_base) outcome" where
  "async_getOptions k = with_options (\<lambda>s. k (fb_options s) ec_success s)"

text \<open>\<open>async_getCpuProfile\<close> leaves \<open>_return\<close> as it was.\<close>

definition async_getCpuProfile :: "string \<Rightarrow> (string, 's, 'r) fb_callback \<Rightarrow> 's fb_base \<Rightarrow> ('r \<times> 's fb_base) outcome" where
  "async_getCpuProfile old k s = k old ec_success s"

definition async_aliveSince :: "(int, 's, 'r) fb_callback \<Rightarrow> 's fb_base \<Rightarrow> ('r \<times> 's fb_base) outcome" where
  "async_aliveSince k s = k (fb_alive_since s) ec_success s"

definition async_reinitialize :: "(unit, 's, 'r) fb_callback \<Rightarrow> 's fb_base \<Rightarrow> ('r \<times> 's fb_base) outcome" where
  "async_reinitialize k s = k () ec_success s"

text \<open>The server that \<open>stop\<close> is called on is passed to the callback.\<close>

definition async_shutdown :: "('s option, 's, 'r) fb_callback \<Rightarrow> 's fb_base \<Rightarrow> ('r \<times> 's fb_base) outcome" where
  "async_shutdown k s = k (fb_server s) ec_success (s\<lparr>fb_server := None\<rparr>)"

section \<open>Properties\<close>

text \<open>A callback that only answers.\<close>

definition answer :: "('v, 's, 'v) fb_callback" where
  "answer v ec s = Ok (v, s)"

text \<open>An option set is the option got, until it is set again, and getting an option or a counter that
  was never set makes an empty one.\<close>

lemma options_keep:
  assumes "\<not> fb_options_locked s" and "\<not> fb_counters_locked s"
  shows "\<exists>s'. async_setOption key v answer s = Ok ((), s') \<and> (\<forall>k. async_getOption k answer s'
            = Ok (if k = key then v else case fb_options s k of None \<Rightarrow> [] | Some v \<Rightarrow> v,
                s'\<lparr>fb_options := (fb_options s')(k \<mapsto> if k = key then v else case fb_options s k of None \<Rightarrow> [] | Some v \<Rightarrow> v)\<rparr>))
      \<and> (\<forall>k. fb_counters s k = None \<longrightarrow> async_getCounter k answer s' = Ok (0, s'\<lparr>fb_counters := (fb_counters s)(k \<mapsto> 0)\<rparr>))"
  using assms
  by (auto simp: async_setOption_def async_getOption_def async_getCounter_def with_options_def with_counters_def
      answer_def Let_def split: option.splits)

lemma options_keep_sample:
  "\<exists>s'. async_setOption ''level'' ''2'' answer (fb_new_default 5 :: unit fb_base) = Ok ((), s')
     \<and> (\<exists>s''. async_getOption ''level'' answer s' = Ok (''2'', s''))"
  using options_keep [of "fb_new_default 5 :: unit fb_base" "''level''" "''2''"]
  by (auto simp: fb_new_default_def fb_new_def)

text \<open>A callback of a counter operation that uses the counters again, or one of an option operation that
  uses the options, locks a mutex its thread holds; between the two kinds there is no such conflict.\<close>

theorem callbacks_hold_the_lock:
  assumes "\<not> fb_options_locked s" and "\<not> fb_counters_locked s"
  shows "async_getCounter a (\<lambda>v ec. async_getCounters k) s = Undef
    \<and> async_getCounters (\<lambda>v ec. async_getCounter a k') s = Undef
    \<and> async_setOption a b (\<lambda>v ec. async_getOption a k'') s = Undef
    \<and> async_getOptions (\<lambda>v ec. async_setOption a b l) s = Undef
    \<and> (\<exists>v s'. async_getCounter a (\<lambda>v ec. async_getOption a answer) s = Ok (v, s')
        \<and> \<not> fb_options_locked s' \<and> \<not> fb_counters_locked s')"
  using assms
  by (auto simp: async_setOption_def async_getOption_def async_getCounter_def async_getCounters_def async_getOptions_def
      with_options_def with_counters_def answer_def Let_def split: option.splits)

theorem callbacks_hold_the_lock_witness:
  "async_getCounter ''calls'' (\<lambda>v ec. async_getCounters answer) (fb_new_default 5 :: unit fb_base) = Undef"
proof -
  have "\<not> fb_options_locked (fb_new_default 5 :: unit fb_base)" "\<not> fb_counters_locked (fb_new_default 5 :: unit fb_base)"
    by (simp_all add: fb_new_default_def fb_new_def)
  from callbacks_hold_the_lock [OF this, of "''calls''" answer answer "''x''" answer answer] show ?thesis by blast
qed

end
