(* ===== verification/ProcessStatPorts.thy ===== *)
theory ProcessStatPorts
  imports ProcessStat
begin

text \<open>
  The other ports of src/fb303/process\_stat.c, for Cygwin and for Windows, and
  src/fb303/eintr\_wrapper.h, the system calls that are repeated when a signal interrupts them.
\<close>

section \<open>Interrupted system calls\<close>

text \<open>A call gives its result and \<open>errno\<close>; the loop may never end, which is \<open>None\<close>.\<close>

type_synonym 'w syscall = "'w \<Rightarrow> int \<times> int \<times> 'w"

definition interrupted :: "int \<Rightarrow> int \<times> int \<times> 'w \<Rightarrow> bool" where
  "interrupted eintr r \<longleftrightarrow> fst r = - 1 \<and> fst (snd r) = eintr"

partial_function (option) no_eintr :: "int \<Rightarrow> 'w syscall \<Rightarrow> 'w \<Rightarrow> (int \<times> 'w) option" where
  "no_eintr eintr call w = (let r = call w
     in if interrupted eintr r then no_eintr eintr call (snd (snd r)) else Some (fst r, snd (snd r)))"

text \<open>The value of \<open>EINTR\<close> and the calls: on a path, on a descriptor, on a buffer.\<close>

record 'w posix =
  px_eintr :: int
  px_rdonly :: int
  px_path_max :: nat
  px_open2 :: "string \<Rightarrow> int \<Rightarrow> 'w syscall"
  px_open3 :: "string \<Rightarrow> int \<Rightarrow> nat \<Rightarrow> 'w syscall"
  px_close :: "int \<Rightarrow> 'w syscall"
  px_read :: "int \<Rightarrow> nat \<Rightarrow> 'w syscall"
  px_write :: "int \<Rightarrow> u8 list \<Rightarrow> 'w syscall"
  px_buffer :: "'w \<Rightarrow> u8 list"

definition close_no_eintr :: "'w posix \<Rightarrow> int \<Rightarrow> 'w \<Rightarrow> (int \<times> 'w) option" where
  "close_no_eintr px fd = no_eintr (px_eintr px) (px_close px fd)"

definition read_no_eintr :: "'w posix \<Rightarrow> int \<Rightarrow> nat \<Rightarrow> 'w \<Rightarrow> (int \<times> 'w) option" where
  "read_no_eintr px fd n = no_eintr (px_eintr px) (px_read px fd n)"

definition write_no_eintr :: "'w posix \<Rightarrow> int \<Rightarrow> u8 list \<Rightarrow> 'w \<Rightarrow> (int \<times> 'w) option" where
  "write_no_eintr px fd bs = no_eintr (px_eintr px) (px_write px fd bs)"

definition open2_no_eintr :: "'w posix \<Rightarrow> string \<Rightarrow> int \<Rightarrow> 'w \<Rightarrow> (int \<times> 'w) option" where
  "open2_no_eintr px path flags = no_eintr (px_eintr px) (px_open2 px path flags)"

definition open3_no_eintr :: "'w posix \<Rightarrow> string \<Rightarrow> int \<Rightarrow> nat \<Rightarrow> 'w \<Rightarrow> (int \<times> 'w) option" where
  "open3_no_eintr px path flags mode = no_eintr (px_eintr px) (px_open3 px path flags mode)"

text \<open>The world after \<open>n\<close> attempts.\<close>

primrec attempts :: "'w syscall \<Rightarrow> nat \<Rightarrow> 'w \<Rightarrow> 'w" where
  "attempts call 0 w = w"
| "attempts call (Suc n) w = attempts call n (snd (snd (call w)))"

text \<open>The loop ends exactly when some attempt is not interrupted, with the result of the first such one.\<close>

lemma no_eintr_runs:
  "(\<And>i. i < n \<Longrightarrow> interrupted eintr (call (attempts call i w))) \<Longrightarrow> \<not> interrupted eintr (call (attempts call n w)) \<Longrightarrow>
     no_eintr eintr call w = Some (fst (call (attempts call n w)), snd (snd (call (attempts call n w))))"
proof (induction n arbitrary: w)
  case 0
  then show ?case by (subst no_eintr.simps) (simp add: Let_def)
next
  case (Suc n)
  have i: "interrupted eintr (call w)" using Suc.prems(1) [of 0] by simp
  have "no_eintr eintr call (snd (snd (call w))) = Some (fst (call (attempts call n (snd (snd (call w))))),
      snd (snd (call (attempts call n (snd (snd (call w)))))))"
  proof (rule Suc.IH)
    fix i assume "i < n"
    then have "Suc i < Suc n" by simp
    from Suc.prems(1) [OF this] show "interrupted eintr (call (attempts call i (snd (snd (call w)))))" by simp
  next
    show "\<not> interrupted eintr (call (attempts call n (snd (snd (call w)))))" using Suc.prems(2) by simp
  qed
  with i show ?case by (subst no_eintr.simps) (simp add: Let_def)
qed

lemma no_eintr_never:
  assumes "\<And>n. interrupted eintr (call (attempts call n w))"
  shows "no_eintr eintr call w = None"
proof (cases "no_eintr eintr call w")
  case (Some r)
  have "(\<forall>n. interrupted eintr (call (attempts call n w))) \<longrightarrow> False"
  proof (rule no_eintr.raw_induct [of "\<lambda>eintr call w _. (\<forall>n. interrupted eintr (call (attempts call n w))) \<longrightarrow> False",
        OF _ Some], goal_cases)
    case (1 again eintr call w r)
    show ?case
    proof
      assume all: "\<forall>n. interrupted eintr (call (attempts call n w))"
      from spec [OF all, of 0] 1(2) have again: "again eintr call (snd (snd (call w))) = Some r" by (simp add: Let_def)
      have "interrupted eintr (call (attempts call n (snd (snd (call w)))))" for n
        using spec [OF all, of "Suc n"] by simp
      with 1(1) [OF again] show False by blast
    qed
  qed
  with assms show ?thesis by blast
qed

lemma no_eintr_result:
  "no_eintr eintr call w = Some r \<longleftrightarrow> (\<exists>n. (\<forall>i < n. interrupted eintr (call (attempts call i w)))
     \<and> \<not> interrupted eintr (call (attempts call n w))
     \<and> r = (fst (call (attempts call n w)), snd (snd (call (attempts call n w)))))"
proof (cases "\<forall>n. interrupted eintr (call (attempts call n w))")
  case True
  then show ?thesis using no_eintr_never [of eintr call w] by simp
next
  case False
  define n where "n = (LEAST n. \<not> interrupted eintr (call (attempts call n w)))"
  from False have n: "\<not> interrupted eintr (call (attempts call n w))" unfolding n_def by (metis (mono_tags) LeastI)
  have before: "interrupted eintr (call (attempts call i w))" if "i < n" for i
    using not_less_Least [OF that [unfolded n_def]] by blast
  have "m = n" if "\<forall>i < m. interrupted eintr (call (attempts call i w))"
    "\<not> interrupted eintr (call (attempts call m w))" for m
    using n before that by (metis nat_neq_iff)
  with no_eintr_runs [of n eintr call w, OF before n] n before show ?thesis by auto
qed

section \<open>Memory usage on Cygwin\<close>

text \<open>\<open>isspace\<close> of the C library.\<close>

definition c_space :: "u8 \<Rightarrow> bool" where
  "c_space c \<longleftrightarrow> c = 0x20 \<or> 9 \<le> c \<and> c \<le> 13"

definition c_digit :: "u8 \<Rightarrow> bool" where
  "c_digit c \<longleftrightarrow> 0x30 \<le> c \<and> c \<le> 0x39"

text \<open>
  One unsigned directive of \<open>sscanf\<close>: white space, a sign, digits.  A value that does not fit is
  undefined, and so is reading past the buffer, which has no terminating zero when the file fills it.
\<close>

fun scan_space :: "u8 list \<Rightarrow> u8 list outcome" where
  "scan_space [] = Undef"
| "scan_space (c # cs) = (if c_space c then scan_space cs else Ok (c # cs))"

fun scan_digits :: "u8 list \<Rightarrow> nat \<Rightarrow> (nat \<times> u8 list) outcome" where
  "scan_digits [] n = Undef"
| "scan_digits (c # cs) n = (if c_digit c then scan_digits cs (10 * n + (unat c - 0x30)) else Ok (n, c # cs))"

definition scan_number :: "u8 list \<Rightarrow> (u64 \<times> u8 list) option outcome" where
  "scan_number cs = bind_outcome (scan_space cs) (\<lambda>cs.
     let minus = (hd cs = 0x2d);
         cs = (if hd cs = 0x2d \<or> hd cs = 0x2b then tl cs else cs)
     in case cs of [] \<Rightarrow> Undef
      | c # _ \<Rightarrow> if \<not> c_digit c then Ok None
          else bind_outcome (scan_digits cs 0) (\<lambda>(n, rest).
            if n < 2 ^ 64 then Ok (Some (if minus then - of_nat n else of_nat n, rest)) else Undef))"

fun scan_numbers :: "nat \<Rightarrow> u8 list \<Rightarrow> u64 list outcome" where
  "scan_numbers 0 cs = Ok []"
| "scan_numbers (Suc k) cs = bind_outcome (scan_number cs) (\<lambda>r. case r of
       None \<Rightarrow> Ok []
     | Some (v, rest) \<Rightarrow> map_ok (Cons v) (scan_numbers k rest))"

definition statm_path :: "nat \<Rightarrow> string" where
  "statm_path pid = ''/proc/'' @ string_of_nat pid @ ''/statm''"

text \<open>\<open>buf\<close>: the initial contents of the buffer.  No result when a call is interrupted for ever.\<close>

definition cygwin_pmemory_usage ::
  "'w posix \<Rightarrow> nat \<Rightarrow> u8 list \<Rightarrow> 'w \<Rightarrow> ((int \<times> (u64 \<times> u64) option) \<times> 'w) outcome option" where
  "cygwin_pmemory_usage px pid buf w =
     (let path = statm_path pid; buf = fgets_into (bytes path) buf
      in case open2_no_eintr px path (px_rdonly px) w of None \<Rightarrow> None | Some (fd, w) \<Rightarrow>
         if fd = - 1 then Some (Ok ((- 1, None), w))
         else case read_no_eintr px fd (px_path_max px) w of None \<Rightarrow> None | Some (len, w) \<Rightarrow>
           let close = (\<lambda>r. map_option (\<lambda>(_, w). Ok (r, w)) (close_no_eintr px fd w))
           in if len \<le> 0 then close (- 1, None)
              else let buf = px_buffer px w @ drop (length (px_buffer px w)) buf
                in case scan_numbers 7 buf of
                     Ok mv \<Rightarrow> if length mv \<noteq> 7 then close (- 1, None) else close (0, Some (mv ! 1, mv ! 3))
                   | Abort \<Rightarrow> Some Abort
                   | Undef \<Rightarrow> Some Undef)"

section \<open>The Windows port\<close>

text \<open>A \<open>FILETIME\<close>: low and high part.\<close>

definition file_time_to_utc :: "u32 \<times> u32 \<Rightarrow> u64" where
  "file_time_to_utc t = or (push_bit 32 (ucast (snd t))) (ucast (fst t))"

definition windows_processor_number :: "u32 \<Rightarrow> int" where
  "windows_processor_number processors = sint processors"

text \<open>
  The answers of \<open>GetSystemInfo\<close>, \<open>GetSystemTimeAsFileTime\<close> and \<open>GetProcessTimes\<close> (kernel and user
  time).  The sum of the times and its division are unsigned.
\<close>

definition windows_cpu_usage ::
  "u32 \<Rightarrow> u32 \<times> u32 \<Rightarrow> ((u32 \<times> u32) \<times> (u32 \<times> u32)) option \<Rightarrow> cpu_state \<Rightarrow> (int \<times> cpu_state) outcome" where
  "windows_cpu_usage processors now tms s =
     (let s = (if processor_count s = - 1 then s\<lparr>processor_count := windows_processor_number processors\<rparr> else s)
      in case tms of None \<Rightarrow> Ok (- 1, s) | Some (kt, ut) \<Rightarrow>
           let n = (word_of_int (processor_count s) :: u64)
           in if n = 0 then Undef
           else let system_time = sint ((file_time_to_utc kt + file_time_to_utc ut) div n);
               sys_time = sint (file_time_to_utc now)
           in if last_system_time s = 0 \<or> last_time s = 0 then
                Ok (0, s\<lparr>last_system_time := system_time, last_time := sys_time\<rparr>)
              else
                bind_outcome (i64 (system_time - last_system_time s)) (\<lambda>system_time_delta.
                bind_outcome (i64 (sys_time - last_time s)) (\<lambda>time_delta.
                bind_outcome (assert_ok (time_delta \<noteq> 0) ()) (\<lambda>_.
                bind_outcome (i64 (system_time_delta * 100)) (\<lambda>a.
                bind_outcome (cdiv time_delta 2) (\<lambda>b.
                bind_outcome (i64 (a + b)) (\<lambda>c.
                bind_outcome (cdiv c time_delta) (\<lambda>cpu.
                  Ok (sint (word_of_int cpu :: 32 word),
                      s\<lparr>last_system_time := system_time, last_time := sys_time\<rparr>)))))))))"

text \<open>\<open>GetProcessMemoryInfo\<close>: the working set and the page file usage.\<close>

definition windows_memory_usage :: "(u64 \<times> u64) option \<Rightarrow> int \<times> (u64 \<times> u64) option" where
  "windows_memory_usage pmc = (case pmc of None \<Rightarrow> (- 1, None) | Some (ws, pf) \<Rightarrow> (0, Some (ws, pf)))"

text \<open>The test program: gigabytes, megabytes and kilobytes as \<open>int\<close>s, and \<open>%.3d\<close>.\<close>

definition three_digits :: "int \<Rightarrow> string" where
  "three_digits i = (let d = string_of_nat (nat \<bar>i\<bar>)
     in (if i < 0 then ''-'' else []) @ replicate (3 - length d) CHR ''0'' @ d)"

definition dump_memory_usage :: "u64 \<Rightarrow> string" where
  "dump_memory_usage mem =
     (let kb = sint (ucast (mem div 1024) :: u32);
          mb = sint (ucast ((mem div 1024 div 1024) mod 1024) :: u32);
          gb = sint (ucast (mem div 1024 div 1024 div 1024) :: u32)
      in if gb \<noteq> 0 then string_of_int gb @ ''.'' @ three_digits mb @ '' GB'' @ [CHR 0x0A]
         else if mb \<noteq> 0 then string_of_int mb @ ''.'' @ three_digits kb @ '' MB'' @ [CHR 0x0A]
         else string_of_int kb @ '' KB'' @ [CHR 0x0A])"

section \<open>Lemmas on the ports\<close>

lemma digit_byte: "d < 10 \<Longrightarrow> c_digit (of_char (digit_char d)) \<and> unat (of_char (digit_char d) :: u8) = 48 + d"
proof -
  assume "d < 10"
  then have "d \<in> {0,1,2,3,4,5,6,7,8,9}" by auto
  then show ?thesis by (elim insertE emptyE; simp add: digit_char_def c_digit_def of_char_def char_of_def bit_0)
qed

lemma digit_byte_plain: "c_digit c \<Longrightarrow> \<not> c_space c \<and> c \<noteq> 0x2d \<and> c \<noteq> 0x2b"
  by (auto simp: c_digit_def c_space_def word_le_nat_alt)

lemma string_of_nat_digits: "list_all c_digit (bytes (string_of_nat n)) \<and> string_of_nat n \<noteq> []"
proof (induction n rule: string_of_nat.induct)
  case (1 n)
  then show ?case by (cases "n < 10") (simp_all add: string_of_nat.simps [of n] digit_byte)
qed

lemma scan_digits_run:
  "list_all c_digit ds \<Longrightarrow> \<not> c_digit c \<Longrightarrow>
     scan_digits (ds @ c # rest) n = Ok (foldl (\<lambda>n d. 10 * n + (unat d - 0x30)) n ds, c # rest)"
  by (induction ds arbitrary: n) auto

lemma string_of_nat_foldl:
  "foldl (\<lambda>n d. 10 * n + (unat d - 0x30)) 0 (bytes (string_of_nat n)) = n"
proof (induction n rule: string_of_nat.induct)
  case (1 n)
  then show ?case by (cases "n < 10") (simp_all add: string_of_nat.simps [of n] digit_byte)
qed

lemma scan_space_skips: "list_all c_space ws \<Longrightarrow> \<not> c_space c \<Longrightarrow> scan_space (ws @ c # cs) = Ok (c # cs)"
  by (induction ws) auto

text \<open>A printed number is read back, whatever white space comes before it.\<close>

lemma scan_number_print:
  assumes "n < 2 ^ 64" and "list_all c_space ws" and "\<not> c_digit c"
  shows "scan_number (ws @ bytes (string_of_nat n) @ c # rest) = Ok (Some (of_nat n, c # rest))"
proof -
  note ds = string_of_nat_digits [of n]
  then obtain d ds' where d: "bytes (string_of_nat n) = d # ds'" by (cases "bytes (string_of_nat n)") auto
  with ds have "c_digit d" by simp
  note plain = digit_byte_plain [OF this]
  have "scan_space (ws @ d # ds' @ c # rest) = Ok (d # ds' @ c # rest)"
    by (rule scan_space_skips) (use assms(2) plain in auto)
  moreover have "scan_digits (d # ds' @ c # rest) 0 = Ok (n, c # rest)"
    using scan_digits_run [of "bytes (string_of_nat n)" c rest 0] ds assms(3) string_of_nat_foldl [of n]
    by (simp add: d)
  ultimately show ?thesis using plain \<open>c_digit d\<close> assms(1)
    unfolding scan_number_def d by (simp del: scan_digits.simps scan_space.simps add: Let_def)
qed

fun spaced :: "nat list \<Rightarrow> u8 list \<Rightarrow> u8 list" where
  "spaced [] rest = rest"
| "spaced (n # ns) rest = 0x20 # bytes (string_of_nat n) @ spaced ns rest"

lemma scan_numbers_spaced:
  "list_all (\<lambda>n. n < 2 ^ 64) ns \<Longrightarrow> \<not> c_digit c \<Longrightarrow>
     scan_numbers (length ns) (spaced ns (c # rest)) = Ok (map of_nat ns)"
proof (induction ns)
  case (Cons n ns)
  obtain x xs where x: "spaced ns (c # rest) = x # xs" "\<not> c_digit x"
    using Cons.prems(2) by (cases ns) (auto simp: c_digit_def word_le_nat_alt)
  have "scan_number (0x20 # bytes (string_of_nat n) @ x # xs) = Ok (Some (of_nat n, x # xs))"
    using scan_number_print [of n "[0x20]" x xs] Cons.prems(1) x(2) by (simp add: c_space_def)
  with Cons x(1) show ?case by simp
qed simp

lemma file_time_value: "unat (file_time_to_utc (lo, hi)) = unat hi * 2 ^ 32 + unat lo"
proof -
  have lo: "unat lo < 2 ^ 32" and hi: "unat hi < 2 ^ 32" using unsigned_less [of lo] unsigned_less [of hi] by simp_all
  then have "unat lo < 2 ^ 64" "unat hi < 2 ^ 64" "unat hi * 2 ^ 32 < 2 ^ 64" by simp_all
  then have "unat (file_time_to_utc (lo, hi)) = or (push_bit 32 (unat hi)) (unat lo)"
    by (simp add: file_time_to_utc_def unsigned_or_eq unsigned_push_bit_eq unsigned_ucast_eq take_bit_nat_eq_self
        flip: push_bit_eq_mult) (simp add: push_bit_eq_mult take_bit_nat_eq_self)
  also have "\<dots> = push_bit 32 (unat hi) + unat lo"
  proof (rule disjunctive_add_eq_or [symmetric], rule bit_eqI)
    fix n show "bit (and (push_bit 32 (unat hi)) (unat lo)) n = bit (0 :: nat) n"
      using lo by (cases "n < 32") (auto simp: bit_and_iff bit_push_bit_iff bit_unsigned_iff dest: bit_imp_le_length)
  qed
  finally show ?thesis by (simp add: push_bit_eq_mult)
qed

text \<open>On Cygwin the second and the fourth number of the file are given, and the file is closed.\<close>

lemma cygwin_pmemory_usage_reads:
  assumes "open2_no_eintr px (statm_path pid) (px_rdonly px) w = Some (fd, w1)" and "fd \<noteq> - 1"
    and "read_no_eintr px fd (px_path_max px) w1 = Some (len, w2)" and "0 < len"
    and "px_buffer px w2 = bytes (string_of_nat n0) @ spaced ns (c # rest)" and "\<not> c_digit c"
    and "length ns = 6" and "list_all (\<lambda>n. n < 2 ^ 64) (n0 # ns)"
    and "close_no_eintr px fd w2 = Some (r, w3)"
  shows "cygwin_pmemory_usage px pid buf w = Some (Ok ((0, Some (of_nat (ns ! 0), of_nat (ns ! 2))), w3))"
proof -
  define tail where "tail = drop (length (px_buffer px w2)) (fgets_into (bytes (statm_path pid)) buf)"
  obtain x xs where x: "spaced ns (c # rest @ tail) = x # xs" "\<not> c_digit x"
    using assms(6,7) by (cases ns) (auto simp: c_digit_def word_le_nat_alt)
  have sp: "spaced ns (c # rest) @ t = spaced ns (c # rest @ t)" for t by (induction ns) auto
  have "scan_number (bytes (string_of_nat n0) @ x # xs) = Ok (Some (of_nat n0, x # xs))"
    using scan_number_print [of n0 "[]" x xs] assms(8) x(2) by simp
  moreover have "scan_numbers (length ns) (x # xs) = Ok (map of_nat ns)"
    using scan_numbers_spaced [of ns c "rest @ tail"] assms(6,8) x(1) by simp
  ultimately have "scan_numbers (Suc (length ns)) (px_buffer px w2 @ tail) = Ok (of_nat n0 # map of_nat ns)"
    unfolding assms(5) append_assoc sp x(1) by simp
  then have "scan_numbers 7 (px_buffer px w2 @ tail) = Ok (of_nat n0 # map of_nat ns)"
    using assms(7) by simp
  then show ?thesis using assms(1-4,7,9)
    by (simp add: cygwin_pmemory_usage_def Let_def tail_def [symmetric])
qed

text \<open>C31: The Linux and the Windows port compute the same function of the processor times and the clock:
  when the file times have the values of the time values in microseconds, the calls give the same
  percentage and the same remembered times, as long as the clock moved.
\<close>

theorem cpu_usage_ports_agree:
  assumes "timeval_ok tn" and "timeval_ok ts" and "timeval_ok tu"
    and "uint (file_time_to_utc fn) = micros tn" and "uint (file_time_to_utc fk) = micros ts"
    and "uint (file_time_to_utc fu) = micros tu"
    and "0 < processor_count s" and "processor_count s < 2 ^ 31" and "micros tn \<noteq> last_time s"
  shows "windows_cpu_usage p fn (Some (fk, fu)) s = get_cpu_usage n (Some tn) (Some (ts, tu)) s"
proof -
  let ?n = "processor_count s" and ?t = "micros ts + micros tu"
  note m = timeval_ok_micros [OF assms(1)] timeval_ok_micros [OF assms(2)] timeval_ok_micros [OF assms(3)]
  have q: "0 \<le> ?t div ?n" "?t div ?n < 2 ^ 63"
  proof -
    show "0 \<le> ?t div ?n" using m assms(7) by (simp add: pos_imp_zdiv_nonneg_iff)
    have "?t div ?n \<le> ?t" using m assms(7) using zdiv_mono2 [of ?t 1 ?n] by simp
    with m show "?t div ?n < 2 ^ 63" by simp
  qed
  have n: "uint (word_of_int ?n :: u64) = ?n" using assms(7,8) by (simp add: unsigned_of_int take_bit_int_eq_self)
  have "uint (file_time_to_utc fk + file_time_to_utc fu) = ?t"
    using m assms(5,6) by (simp add: uint_word_ariths)
  then have "uint ((file_time_to_utc fk + file_time_to_utc fu) div word_of_int ?n) = ?t div ?n"
    using n by (simp add: uint_div_distrib)
  then have sys: "sint ((file_time_to_utc fk + file_time_to_utc fu) div word_of_int ?n) = ?t div ?n"
    using q by (simp add: sint_uint signed_take_bit_int_eq_self)
  have now: "sint (file_time_to_utc fn) = micros tn"
    using m assms(4) by (simp add: sint_uint signed_take_bit_int_eq_self)
  have c: "cdiv ?t ?n = Ok (?t div ?n)" by (rule cdiv_pos) (use m assms(7) in auto)
  have nz: "(word_of_int ?n :: u64) \<noteq> 0" using n assms(7) by (metis less_irrefl unsigned_0)
  show ?thesis
  proof (cases "last_system_time s = 0 \<or> last_time s = 0")
    case True
    then show ?thesis using assms(7) nz c m
      by (simp add: windows_cpu_usage_def get_cpu_usage_def Let_def sys now i64_fits)
  next
    case False
    moreover have "bind_outcome (i64 (micros tn - last_time s)) (\<lambda>td. bind_outcome (assert_ok (td \<noteq> 0) ()) (\<lambda>_. f td))
        = bind_outcome (i64 (micros tn - last_time s)) (\<lambda>td. if td = 0 then Ok (0 :: int, s) else f td)" for f
      using assms(9) by (simp add: i64_def)
    ultimately show ?thesis using assms(7) nz c m
      by (simp add: windows_cpu_usage_def get_cpu_usage_def Let_def sys now i64_fits)
  qed
qed

text \<open>A file time of a value below \<open>2 ^ 32\<close>.\<close>

theorem cpu_usage_ports_agree_witness:
  "windows_cpu_usage 2 (2000000, 0) (Some ((500002, 0), (500000, 0))) cpu_example
     = get_cpu_usage 2 (Some (2, 0)) (Some ((0, 500002), (0, 500000))) cpu_example"
  using cpu_usage_ports_agree [of "(2, 0)" "(0, 500002)" "(0, 500000)" "(2000000, 0)" "(500002, 0)" "(500000, 0)"
      cpu_example 2 2]
  by (simp add: timeval_ok_def micros_def cpu_example_def file_time_to_utc_def)

text \<open>When the clock did not move the Windows port fails its assertion; the Linux port gives 0.\<close>

lemma cpu_usage_ports_differ:
  "windows_cpu_usage 2 (1000000, 0) (Some ((500002, 0), (500000, 0))) cpu_example = Abort"
  "get_cpu_usage 2 (Some (1, 0)) (Some ((0, 500002), (0, 500000))) cpu_example = Ok (0, cpu_example)"
  by (simp_all add: windows_cpu_usage_def get_cpu_usage_def cpu_example_def timeval_to_microseconds_def i64_def
      cdiv_def file_time_to_utc_def sint_uint signed_take_bit_int_eq_self)

text \<open>The kilobytes behind the megabytes are all of them: a megabyte and a half is printed as 1.1536 MB.\<close>

lemma dump_memory_usage_kilobytes:
  "dump_memory_usage (1536 * 1024) = ''1.1536 MB'' @ [CHR 0x0A]"
  by (simp add: dump_memory_usage_def three_digits_def string_of_int_def string_of_nat.simps digit_char_def char_of_def
      bit_0)

end
