(* ===== verification/ClientServer.thy ===== *)
theory ClientServer
  imports AsyncClient "HOL-Library.Sublist"
begin

text \<open>
  An asynchronous client (src/async/async\_client.cpp) and a connection of the server with a
  synchronous processor (src/async/async\_server.cpp) joined by two byte streams.  The network may
  cut the streams anywhere, the handlers of the two sides run in any order, any operation may fail,
  and the client's user calls and closes when it likes.  The channel refines an abstract remote
  procedure call: a call gets the answer to its own request, or an error.
\<close>

section \<open>The channel\<close>

text \<open>
  \<open>lk_cout\<close> and \<open>lk_sout\<close>: what is left of the write under way; \<open>lk_up\<close> and \<open>lk_down\<close>: bytes in transit;
  \<open>lk_got\<close>: all bytes the client has read.  \<open>lk_calls\<close>: the calls whose request was written,
  \<open>lk_served\<close>: the requests the server answered, with the answers, \<open>lk_results\<close>: the callbacks invoked,
  with the input of \<open>fill_result\<close> when it was called.
\<close>

record link =
  lk_client :: client_run
  lk_server :: sync_run
  lk_cout :: "u8 list"
  lk_up :: "u8 list"
  lk_sout :: "u8 list"
  lk_down :: "u8 list"
  lk_got :: "u8 list"
  lk_calls :: "(async_op \<times> u8 list) list"
  lk_served :: "(u8 list \<times> u8 list) list"
  lk_results :: "(nat \<times> u8 list option \<times> error_code) list"

fun results :: "client_effect action list \<Rightarrow> (nat \<times> u8 list option \<times> error_code) list" where
  "results (AExt (FillResult t x) # AExt (Invoke cb ec) # as) = (cb, Some x, ec) # results as"
| "results (AExt (Invoke cb ec) # as) = (cb, None, ec) # results as"
| "results (a # as) = results as"
| "results [] = []"

definition written :: "'x action list \<Rightarrow> u8 list" where
  "written as = (case next_io as of Some (AWrite st out) \<Rightarrow> out | _ \<Rightarrow> [])"

text \<open>
  What the processor may do with a request: \<open>P\<close> relates requests to the answers it may give; a one-way
  request, \<open>ow\<close>, is answered with no bytes, any other with a frame.
\<close>

definition answer_ok :: "(u8 list \<Rightarrow> bool) \<Rightarrow> (u8 list \<Rightarrow> u8 list \<Rightarrow> bool) \<Rightarrow> u8 list \<Rightarrow> u8 list \<Rightarrow> bool" where
  "answer_ok ow P f out \<longleftrightarrow> P f out \<and> (if ow f then out = [] else view_frame out = Frame out [])"

definition answers :: "(u8 list \<Rightarrow> bool) \<Rightarrow> (u8 list \<Rightarrow> u8 list \<Rightarrow> bool) \<Rightarrow> rpc_result \<Rightarrow> u8 list \<Rightarrow> bool" where
  "answers ow P r f = (case r of Threw e \<Rightarrow> True | Replied out \<Rightarrow> answer_ok ow P f out | _ \<Rightarrow> False)"

definition serve_pairs :: "rpc_result \<Rightarrow> server_effect action list \<Rightarrow> (u8 list \<times> u8 list) list" where
  "serve_pairs r as = (case r of Replied out \<Rightarrow> map (\<lambda>f. (f, out)) (processed as) | _ \<Rightarrow> [])"

definition client_after ::
  "client_conn \<times> client_effect action list \<Rightarrow> link \<Rightarrow> link" where
  "client_after r s = s\<lparr>lk_client := after_client r (lk_client s), lk_results := lk_results s @ results (snd r)\<rparr>"

definition server_after ::
  "u8 list \<Rightarrow> rpc_result \<Rightarrow> server_conn \<times> server_effect action list \<Rightarrow> link \<Rightarrow> link" where
  "server_after bs r ca s =
     s\<lparr>lk_server := \<lparr>sr_conn = fst ca, sr_pending = next_io (snd ca), sr_recvd = sr_recvd (lk_server s) @ bs,
         sr_frames = sr_frames (lk_server s) @ processed (snd ca)\<rparr>,
       lk_served := lk_served s @ serve_pairs r (snd ca), lk_sout := written (snd ca)\<rparr>"

definition link_init :: "link \<Rightarrow> bool" where
  "link_init s \<longleftrightarrow> (\<exists>ios sk srv. sync_init srv \<and> s =
     \<lparr>lk_client = \<lparr>cr_conn = client_of (conn_on_socket ios sk True), cr_io = None, cr_issued = [], cr_done = []\<rparr>,
      lk_server = srv, lk_cout = [], lk_up = [], lk_sout = [], lk_down = [], lk_got = [],
      lk_calls = [], lk_served = [], lk_results = []\<rparr>)"

inductive link_step ::
  "thrift_enums \<Rightarrow> int \<Rightarrow> int \<Rightarrow> (u8 list \<Rightarrow> bool) \<Rightarrow> (u8 list \<Rightarrow> u8 list \<Rightarrow> bool) \<Rightarrow> link \<Rightarrow> link \<Rightarrow> bool"
  for E bm nc ow P where
  link_call: "async_call nc op out (cr_conn (lk_client s)) = Ok (c, as) \<Longrightarrow> view_frame out = Frame out [] \<Longrightarrow>
     op_oneway op = ow out \<Longrightarrow>
     link_step E bm nc ow P s (s\<lparr>lk_client := (lk_client s)\<lparr>cr_conn := c,
         cr_io := (if next_io as = None then cr_io (lk_client s) else next_io as),
         cr_issued := cr_issued (lk_client s) @ [op_callback op], cr_done := cr_done (lk_client s) @ invoked as\<rparr>,
       lk_cout := (if next_io as = None then lk_cout s else written as),
       lk_calls := (if next_io as = None then lk_calls s else lk_calls s @ [(op, out)]),
       lk_results := lk_results s @ results as\<rparr>)"
| link_up: "lk_cout s = bs @ rest \<Longrightarrow> bs \<noteq> [] \<Longrightarrow>
     link_step E bm nc ow P s (s\<lparr>lk_cout := rest, lk_up := lk_up s @ bs\<rparr>)"
| link_wrote: "cr_io (lk_client s) = Some (AWrite st out) \<Longrightarrow> lk_cout s = [] \<Longrightarrow>
     client_on_handle_write ec_success (cr_conn (lk_client s)) = Ok r \<Longrightarrow>
     link_step E bm nc ow P s (client_after r s)"
| link_write_error: "cr_io (lk_client s) = Some (AWrite st out) \<Longrightarrow> ec_is_error ec \<Longrightarrow>
     client_on_handle_write ec (cr_conn (lk_client s)) = Ok r \<Longrightarrow>
     link_step E bm nc ow P s ((client_after r s)\<lparr>lk_cout := []\<rparr>)"
| link_read: "cr_io (lk_client s) = Some (ARead st off len) \<Longrightarrow> lk_down s = bs @ rest \<Longrightarrow> bs \<noteq> [] \<Longrightarrow>
     length bs \<le> len \<Longrightarrow> client_complete_read E bm f off bs (cr_conn (lk_client s)) = Ok r \<Longrightarrow>
     link_step E bm nc ow P s ((client_after r s)\<lparr>lk_down := rest, lk_got := lk_got s @ bs\<rparr>)"
| link_read_error: "cr_io (lk_client s) = Some (ARead st off len) \<Longrightarrow> ec_is_error ec \<Longrightarrow>
     client_on_handle_read E bm f ec n (cr_conn (lk_client s)) = Ok r \<Longrightarrow>
     link_step E bm nc ow P s (client_after r s)"
| link_close: "link_step E bm nc ow P s
     (s\<lparr>lk_client := (lk_client s)\<lparr>cr_conn := conn_close (cr_conn (lk_client s))\<rparr>\<rparr>)"
| link_down: "lk_sout s = bs @ rest \<Longrightarrow> bs \<noteq> [] \<Longrightarrow>
     link_step E bm nc ow P s (s\<lparr>lk_sout := rest, lk_down := lk_down s @ bs\<rparr>)"
| link_serve: "sr_pending (lk_server s) = Some (ARead st off len) \<Longrightarrow> lk_up s = bs @ rest \<Longrightarrow> bs \<noteq> [] \<Longrightarrow>
     length bs \<le> len \<Longrightarrow> complete_read E (server_vt bm r) off bs (sr_conn (lk_server s)) = Ok ca \<Longrightarrow>
     sync_answer r \<Longrightarrow> list_all (answers ow P r) (processed (snd ca)) \<Longrightarrow>
     link_step E bm nc ow P s ((server_after bs r ca s)\<lparr>lk_up := rest\<rparr>)"
| link_replied: "sr_pending (lk_server s) = Some (AWrite st out) \<Longrightarrow> lk_sout s = [] \<Longrightarrow>
     base_on_handle_write E (server_vt bm r) ec_success (length out) (sr_conn (lk_server s)) = Ok ca \<Longrightarrow>
     sync_answer r \<Longrightarrow> list_all (answers ow P r) (processed (snd ca)) \<Longrightarrow>
     link_step E bm nc ow P s (server_after [] r ca s)"
| link_server_error: "sr_pending (lk_server s) = Some io \<Longrightarrow> ec_is_error ec \<Longrightarrow>
     base_on_handle_read E (server_vt bm r) ec n (sr_conn (lk_server s)) = Ok ca \<or>
     base_on_handle_write E (server_vt bm r) ec n (sr_conn (lk_server s)) = Ok ca \<Longrightarrow>
     link_step E bm nc ow P s (server_after [] r ca s)"

section \<open>The abstract remote procedure call\<close>

record rpc =
  rpc_pending :: "(nat \<times> u8 list \<times> bool) option"
  rpc_results :: "(nat \<times> u8 list option \<times> error_code) list"

definition rpc_init :: "rpc \<Rightarrow> bool" where
  "rpc_init a \<longleftrightarrow> a = \<lparr>rpc_pending = None, rpc_results = []\<rparr>"

inductive rpc_step :: "(u8 list \<Rightarrow> bool) \<Rightarrow> (u8 list \<Rightarrow> u8 list \<Rightarrow> bool) \<Rightarrow> rpc \<Rightarrow> rpc \<Rightarrow> bool" for ow P where
  rpc_issue: "rpc_pending a = None \<Longrightarrow>
     rpc_step ow P a (a\<lparr>rpc_pending := Some (cb, req, ow req)\<rparr>)"
| rpc_refuse: "ec_is_error ec \<Longrightarrow> rpc_step ow P a (a\<lparr>rpc_results := rpc_results a @ [(cb, None, ec)]\<rparr>)"
| rpc_answer: "rpc_pending a = Some (cb, req, False) \<Longrightarrow> P req rep \<Longrightarrow>
     rpc_step ow P a (a\<lparr>rpc_pending := None, rpc_results := rpc_results a @ [(cb, Some rep, ec)]\<rparr>)"
| rpc_sent: "rpc_pending a = Some (cb, req, True) \<Longrightarrow>
     rpc_step ow P a (a\<lparr>rpc_pending := None, rpc_results := rpc_results a @ [(cb, None, ec_success)]\<rparr>)"
| rpc_fail: "rpc_pending a = Some (cb, req, w) \<Longrightarrow> ec_is_error ec \<Longrightarrow>
     rpc_step ow P a (a\<lparr>rpc_pending := None, rpc_results := rpc_results a @ [(cb, None, ec)]\<rparr>)"

definition link_rpc :: "link \<Rightarrow> rpc" where
  "link_rpc s = \<lparr>rpc_pending = map_option (\<lambda>op. (op_callback op, snd (last (lk_calls s)), op_oneway op))
       (pending_op (cr_conn (lk_client s))),
     rpc_results = lk_results s\<rparr>"

section \<open>Streams of whole frames\<close>

lemma parse_all_whole: "whole_frames fs \<Longrightarrow> parse_all (concat fs @ bs) = (fs @ fst (parse_all bs), snd (parse_all bs))"
  unfolding whole_frames_def by (rule parse_all_frames)

lemma parse_all_Nil [simp]: "parse_all [] = ([], [])"
  by (rule parse_all_NeedMore) (simp add: view_frame_def kFrameSize_def)

lemma whole_frames_prefix:
  assumes "whole_frames fs" and "whole_frames gs" and "prefix (concat fs) (concat gs)"
  shows "prefix fs gs"
proof -
  from assms(3) obtain z where z: "concat gs = concat fs @ z" by (auto simp: prefix_def)
  have "fst (parse_all (concat gs)) = gs" using parse_all_whole [OF assms(2), of "[]"] by simp
  moreover have "fst (parse_all (concat gs)) = fs @ fst (parse_all z)"
    unfolding z by (simp add: parse_all_whole [OF assms(1)])
  ultimately show ?thesis by (auto simp: prefix_def)
qed

text \<open>A frame at the front of a prefix of a stream of frames is the first frame of the stream.\<close>

lemma frame_in_stream:
  assumes "whole_frames gs" and "prefix bs (concat gs)" and "view_frame bs = Frame f r"
  shows "gs \<noteq> [] \<and> f = hd gs \<and> prefix r (concat (tl gs))"
proof -
  from assms(2) obtain z where z: "concat gs = bs @ z" by (auto simp: prefix_def)
  from view_frame_append [OF assms(3), of z] have v: "view_frame (concat gs) = Frame f (r @ z)" by (simp add: z)
  then obtain g hs where g: "gs = g # hs" by (cases gs) (auto simp: view_frame_def kFrameSize_def)
  with assms(1) have "view_frame g = Frame g []" by (simp add: whole_frames_def)
  from view_frame_append [OF this, of "concat hs"] v g show ?thesis by (auto simp: prefix_def)
qed

lemma view_frame_not_empty: "view_frame out = Frame f r \<Longrightarrow> out \<noteq> []"
  by (auto simp: view_frame_def kFrameSize_def)

section \<open>What the handlers do\<close>

lemma written_simps [simp]:
  "written [] = []" "written (AExt x # as) = written as" "written (ARead st off len # as) = []"
  "written (AWrite st out # as) = out"
  by (simp_all add: written_def)

lemma written_destructor [simp]: "written (conn_destructor c) = []"
  by (simp add: conn_destructor_def)

lemma serve_pairs_Nil: "processed as = [] \<Longrightarrow> serve_pairs r as = []"
  by (simp add: serve_pairs_def split: rpc_result.split)

lemma reading_not_written: "reading c (next_io as) \<Longrightarrow> written as = []"
  by (auto simp: reading_def written_def)

lemma serve_buffer:
  assumes wf: "conn_wf c" and hd: "header_read c" and na: "\<not> async_rpc c" and ans: "sync_answer r"
    and run: "handle_buffer E (server_vt bm r) c = Ok (c', as)"
  shows "(processed as = [] \<and> (next_io as = None \<and> (\<exists>k. view_frame (contents c) = Illegal k)
        \<or> reading c' (next_io as) \<and> contents c' = contents c))
    \<or> (\<exists>f r'. view_frame (contents c) = Frame f r' \<and> processed as = [f]
        \<and> (serve_pairs r as = [] \<and> next_io as = None \<and> (\<exists>e. r = Threw e)
           \<or> (\<exists>out st. r = Replied out \<and> serve_pairs r as = [(f, out)] \<and> next_io as = Some (AWrite st out)
                \<and> writing c' (next_io as) f r')))"
proof (cases "view_frame (contents c)")
  case (Frame f r')
  have w: "writing c' (next_io as) f r' \<or> next_io as = None"
    using sync_handle_buffer [OF wf hd na ans run] Frame reading_def by (auto simp: reading_def)
  have "processed as = [f] \<and> (serve_pairs r as = [] \<and> next_io as = None \<and> (\<exists>e. r = Threw e)
           \<or> (\<exists>out st. r = Replied out \<and> serve_pairs r as = [(f, out)] \<and> next_io as = Some (AWrite st out)))"
    using run Frame ans na
    by (cases r) (auto simp: handle_buffer_eq [OF wf hd] server_vt_def server_on_handle_frame_def outcome_simps
        server_on_close_simps sync_answer_def start_write_output_buffer_def serve_pairs_def split: if_splits)
  with w Frame show ?thesis by auto
next
  case NeedMore
  then have "next_io as \<noteq> None" using run by (auto simp: handle_buffer_eq [OF wf hd])
  with NeedMore show ?thesis using sync_handle_buffer [OF wf hd na ans run] by auto
next
  case (Illegal k)
  then show ?thesis using sync_handle_buffer [OF wf hd na ans run] by auto
qed

lemma restart_reading:
  assumes wf: "conn_wf c" and na: "\<not> async_rpc c"
    and run: "start_recv True c = Ok (c', as :: server_effect action list)"
  shows "reading c' (next_io as)"
proof -
  obtain c1 where c1: "start_recv True c = Ok (c1, [ARead (strand c \<noteq> None) 0 (length (recv_buffer c1)) :: server_effect action])"
      "conn_wf c1" "contents c1 = []" "header_read c1" "bytes_recv c1 = 0" "strand c1 = strand c"
      "recv_buffer c1 \<noteq> []"
    using restart_facts [OF wf] by metis
  have "c' = c1" and "as = [ARead (strand c \<noteq> None) 0 (length (recv_buffer c1))]"
    using run unfolding c1(1) by auto
  with c1 na start_recv_async [OF run] show ?thesis by (simp add: reading_def view_frame_def kFrameSize_def)
qed

lemma client_reads:
  assumes w: "client_waits c (Some (ARead st off len))" and op: "pending_op c = Some op"
    and bs: "length bs \<le> len" and run: "client_complete_read E bm f off bs c = Ok (c', as)"
  shows "(view_frame (contents c @ bs) = NeedMore \<and> results as = [] \<and> pending_op c' = Some op \<and> sock c' = sock c
       \<and> contents c' = contents c @ bs \<and> (\<exists>st off len. next_io as = Some (ARead st off len)))
    \<or> (\<exists>ec. ec_is_error ec \<and> results as = [(op_callback op, None, ec)] \<and> pending_op c' = None \<and> sock c' = None
       \<and> next_io as = None \<and> (\<exists>k. view_frame (contents c @ bs) = Illegal k))
    \<or> (\<exists>g r' ec. view_frame (contents c @ bs) = Frame g r' \<and> results as = [(op_callback op, Some g, ec)]
       \<and> pending_op c' = None \<and> sock c' = sock c \<and> next_io as = None)"
proof -
  note eq = client_read_eq [OF w op bs]
  from w have wf: "conn_wf c" and hd: "header_read c"
    and room: "unat (bytes_recv c) + length bs \<le> length (recv_buffer c)"
    using bs by (auto simp: client_waits_def)
  have c: "contents (received bs c) = contents c @ bs" by (rule received_facts(2) [OF wf hd room])
  have s: "sock (received bs c) = sock c" by (simp add: received_def)
  have p: "pending_op (grown (received bs c)) = Some op" using eq(4) by (simp add: grown_def)
  from run have run': "handle_buffer E (client_vt bm f) (received bs c) = Ok (c', as)" by (simp add: eq(1))
  show ?thesis
  proof (cases "view_frame (contents c @ bs)")
    case NeedMore
    with grown_waits(1) [OF eq(2,3)] run' p s show ?thesis
      by (auto simp: handle_buffer_eq [OF eq(2,3)] c)
  next
    case (Illegal k)
    with run' eq(4) show ?thesis
      by (auto simp: handle_buffer_eq [OF eq(2,3)] c client_vt_def outcome_simps)
  next
    case (Frame g r')
    with run' eq(4) s show ?thesis
      by (auto simp: handle_buffer_eq [OF eq(2,3)] c client_vt_def outcome_simps)
  qed
qed

lemma client_wrote:
  assumes "pending_op c = Some op" and "client_on_handle_write ec_success c = Ok (c', as)"
  shows "(op_oneway op \<and> results as = [(op_callback op, None, ec_success)] \<and> pending_op c' = None \<and> sock c' = sock c
       \<and> next_io as = None)
    \<or> (\<not> op_oneway op \<and> results as = [] \<and> pending_op c' = Some op \<and> sock c' = sock c \<and> contents c' = []
       \<and> (\<exists>st off len. next_io as = Some (ARead st off len)))"
proof -
  have ok: "\<not> ec_is_error ec_success" by (simp add: ec_is_error_def ec_success_def)
  show ?thesis
  proof (cases "op_oneway op")
    case True
    with assms ok show ?thesis by (simp add: client_on_handle_write_def outcome_simps)
  next
    case False
    with assms ok have run: "start_recv True c = Ok (c', as)" by (simp add: client_on_handle_write_def)
    then have "sock c \<noteq> None" by (auto simp: start_recv_def Let_def split: if_splits)
    with run have "sock c' = sock c" "contents c' = []" "results as = []" "\<exists>st off len. next_io as = Some (ARead st off len)"
      by (auto simp: start_recv_def Let_def contents_def)
    with False start_recv_pending [OF run] assms(1) show ?thesis by simp
  qed
qed

lemma client_fails:
  assumes "pending_op c = Some op" and "ec_is_error ec"
    and "client_on_handle_write ec c = Ok (c', as) \<or> client_on_handle_read E bm f ec n c = Ok (c', as)"
  shows "results as = [(op_callback op, None, ec)] \<and> pending_op c' = None \<and> sock c' = None \<and> next_io as = None"
proof -
  from assms have "client_on_close ec c = Ok (c', as)"
    by (simp add: client_on_handle_write_def client_on_handle_read_def)
  then have "complete_pending_op ec (base_on_close ec c) = Ok (c', as)" by (simp add: client_on_close_Ok)
  with assms(1) show ?thesis by (auto simp: complete_pending_op_def)
qed

section \<open>The invariant\<close>

definition fills :: "(nat \<times> u8 list option \<times> error_code) list \<Rightarrow> (nat \<times> u8 list) list" where
  "fills rs = List.map_filter (\<lambda>(cb, x, ec). map_option (Pair cb) x) rs"

definition two_way :: "link \<Rightarrow> (async_op \<times> u8 list) list" where
  "two_way s = filter (\<lambda>c. \<not> op_oneway (fst c)) (lk_calls s)"

definition answered :: "(u8 list \<Rightarrow> bool) \<Rightarrow> link \<Rightarrow> (u8 list \<times> u8 list) list" where
  "answered ow s = filter (\<lambda>x. \<not> ow (fst x)) (lk_served s)"

definition link_logs :: "(u8 list \<Rightarrow> bool) \<Rightarrow> (u8 list \<Rightarrow> u8 list \<Rightarrow> bool) \<Rightarrow> link \<Rightarrow> bool" where
  "link_logs ow P s \<longleftrightarrow> client_inv (lk_client s) \<and> sync_inv (lk_server s)
     \<and> (\<forall>c \<in> set (lk_calls s). view_frame (snd c) = Frame (snd c) [] \<and> op_oneway (fst c) = ow (snd c))
     \<and> (\<forall>x \<in> set (lk_served s). answer_ok ow P (fst x) (snd x))"

text \<open>The bytes of the client are the requests, those of the server are the answers.\<close>

definition up_ok :: "link \<Rightarrow> bool" where
  "up_ok s \<longleftrightarrow>
     (let sent = sr_recvd (lk_server s) @ lk_up s @ lk_cout s; reqs = concat (map snd (lk_calls s))
      in prefix sent reqs \<and> (sock (cr_conn (lk_client s)) \<noteq> None \<longrightarrow> sent = reqs))
     \<and> ((\<exists>st out. cr_io (lk_client s) = Some (AWrite st out)) \<or> lk_cout s = [])"

definition down_ok :: "link \<Rightarrow> bool" where
  "down_ok s \<longleftrightarrow>
     (let sent = lk_got s @ lk_down s @ lk_sout s; reps = concat (map snd (lk_served s))
      in prefix sent reps \<and> (sr_pending (lk_server s) \<noteq> None \<longrightarrow> sent = reps))
     \<and> ((\<exists>st out. sr_pending (lk_server s) = Some (AWrite st out)) \<or> lk_sout s = [])
     \<and> prefix (map fst (lk_served s)) (sr_frames (lk_server s))
     \<and> (sr_pending (lk_server s) \<noteq> None \<longrightarrow> map fst (lk_served s) = sr_frames (lk_server s))"

text \<open>The callbacks that got an answer are those of the first two-way calls, with their answers.\<close>

definition match_ok :: "(u8 list \<Rightarrow> bool) \<Rightarrow> link \<Rightarrow> bool" where
  "match_ok ow s \<longleftrightarrow>
     (let fs = fills (lk_results s); n = length fs
      in n \<le> length (answered ow s) \<and> n \<le> length (two_way s) \<and> length (two_way s) \<le> Suc n
        \<and> map fst fs = map (op_callback \<circ> fst) (take n (two_way s))
        \<and> map snd fs = map snd (take n (answered ow s)))"

definition client_ok :: "link \<Rightarrow> bool" where
  "client_ok s \<longleftrightarrow>
     (let c = cr_conn (lk_client s); n = length (fills (lk_results s))
      in (case pending_op c of
            None \<Rightarrow> sock c \<noteq> None \<longrightarrow> length (two_way s) = n
          | Some op \<Rightarrow> sock c \<noteq> None \<and> lk_calls s \<noteq> [] \<and> fst (last (lk_calls s)) = op
              \<and> length (two_way s) = (if op_oneway op then n else Suc n)
              \<and> (op_oneway op \<longrightarrow> (\<exists>st out. cr_io (lk_client s) = Some (AWrite st out))))
       \<and> (sock c \<noteq> None \<longrightarrow> lk_got s = concat (map snd (fills (lk_results s)))
            @ (case cr_io (lk_client s) of Some (ARead _ _ _) \<Rightarrow> contents c | _ \<Rightarrow> [])))"

definition link_inv :: "(u8 list \<Rightarrow> bool) \<Rightarrow> (u8 list \<Rightarrow> u8 list \<Rightarrow> bool) \<Rightarrow> link \<Rightarrow> bool" where
  "link_inv ow P s \<longleftrightarrow> link_logs ow P s \<and> up_ok s \<and> down_ok s \<and> match_ok ow s \<and> client_ok s"

lemma fills_simps [simp]:
  "fills [] = []" "fills (rs @ rs') = fills rs @ fills rs'"
  "fills ((cb, None, ec) # rs) = fills rs" "fills ((cb, Some x, ec) # rs) = (cb, x) # fills rs"
  by (simp_all add: fills_def List.map_filter_def)

text \<open>The processed requests are the first requests, so the answers belong to the first two-way calls.\<close>

lemma frames_are_requests:
  assumes "link_logs ow P s" and "up_ok s"
  shows "prefix (sr_frames (lk_server s)) (map snd (lk_calls s))"
proof (rule whole_frames_prefix)
  show "whole_frames (sr_frames (lk_server s))" using assms(1) by (simp add: link_logs_def sync_inv_def)
  show "whole_frames (map snd (lk_calls s))" using assms(1) by (auto simp: link_logs_def whole_frames_def)
  have "\<exists>rest. sr_recvd (lk_server s) = concat (sr_frames (lk_server s)) @ rest"
    using assms(1) by (auto simp: link_logs_def sync_inv_def)
  then have "prefix (concat (sr_frames (lk_server s))) (sr_recvd (lk_server s))" by (auto simp: prefix_def)
  also have "prefix (sr_recvd (lk_server s)) (concat (map snd (lk_calls s)))"
    using assms(2) by (auto simp: up_ok_def Let_def prefix_def)
  finally show "prefix (concat (sr_frames (lk_server s))) (concat (map snd (lk_calls s)))" .
qed

lemma answered_are_two_way:
  assumes logs: "link_logs ow P s" and up: "up_ok s" and down: "down_ok s"
  shows "prefix (map fst (answered ow s)) (map snd (two_way s))"
proof -
  have "prefix (map fst (lk_served s)) (sr_frames (lk_server s))" using down by (simp add: down_ok_def)
  then have "prefix (map fst (lk_served s)) (map snd (lk_calls s))"
    using frames_are_requests [OF logs up] by (rule prefix_order.trans)
  then have "prefix (filter (\<lambda>f. \<not> ow f) (map fst (lk_served s))) (filter (\<lambda>f. \<not> ow f) (map snd (lk_calls s)))"
    by (rule filter_mono_prefix)
  moreover have "filter (\<lambda>f. \<not> ow f) (map snd (lk_calls s)) = map snd (two_way s)"
  proof -
    have "filter (\<lambda>c. \<not> ow (snd c)) (lk_calls s) = two_way s"
      unfolding two_way_def using logs by (intro filter_cong) (auto simp: link_logs_def)
    then show ?thesis by (simp add: filter_map comp_def)
  qed
  ultimately show ?thesis by (simp add: answered_def filter_map comp_def)
qed

lemma answers_concat:
  assumes "link_logs ow P s"
  shows "concat (map snd (lk_served s)) = concat (map snd (answered ow s))"
proof -
  have "concat (map snd xs) = concat (map snd (filter (\<lambda>x. \<not> ow (fst x)) xs))"
    if "\<forall>x \<in> set xs. answer_ok ow P (fst x) (snd x)" for xs
    using that by (induction xs) (auto simp: answer_ok_def)
  from this [of "lk_served s"] assms show ?thesis unfolding link_logs_def answered_def by blast
qed

section \<open>Preservation\<close>

lemma link_invD:
  assumes "link_inv ow P s"
  shows "link_logs ow P s" "up_ok s" "down_ok s" "match_ok ow s" "client_ok s" "client_inv (lk_client s)"
    "sync_inv (lk_server s)"
  using assms by (simp_all add: link_inv_def link_logs_def)

lemmas link_parts = two_way_def answered_def

lemma client_ok_cong:
  assumes "lk_client t = lk_client s" "lk_calls t = lk_calls s" "lk_got t = lk_got s" "lk_results t = lk_results s"
  shows "client_ok t \<longleftrightarrow> client_ok s"
  unfolding client_ok_def two_way_def assms by (rule refl)

lemma link_inv_issue:
  assumes inv: "link_inv ow P s" and p: "pending_op (cr_conn (lk_client s)) = None"
    and io: "cr_io (lk_client s) = None" and sk: "sock (cr_conn (lk_client s)) = Some k"
    and out: "view_frame out = Frame out []" "op_oneway op = ow out"
    and t: "client_inv (lk_client t)" "lk_server t = lk_server s" "lk_calls t = lk_calls s @ [(op, out)]"
      "lk_cout t = out" "lk_up t = lk_up s" "lk_sout t = lk_sout s" "lk_down t = lk_down s" "lk_got t = lk_got s"
      "lk_served t = lk_served s" "lk_results t = lk_results s" "cr_io (lk_client t) = Some (AWrite st out)"
      "pending_op (cr_conn (lk_client t)) = Some op" "sock (cr_conn (lk_client t)) = Some k"
  shows "link_inv ow P t"
proof -
  note i = link_invD [OF inv]
  have two: "two_way t = two_way s @ (if op_oneway op then [] else [(op, out)])" and ans: "answered ow t = answered ow s"
    by (simp_all add: link_parts t)
  have n: "length (two_way s) = length (fills (lk_results s))" using i(5) p sk by (simp add: client_ok_def)
  have "link_logs ow P t" using i(1) t(1) out unfolding link_logs_def t by auto
  moreover have "sr_recvd (lk_server s) @ lk_up s = concat (map snd (lk_calls s))"
    using i(2) io sk by (auto simp: up_ok_def Let_def)
  then have "up_ok t" using t(11) by (simp add: up_ok_def t(2-10) Let_def flip: append_assoc)
  moreover have "down_ok t" using i(3) unfolding down_ok_def t .
  moreover have "match_ok ow t" using i(4) n by (simp add: match_ok_def two ans t(10) Let_def)
  moreover have "client_ok t" using i(5) n io sk t(11-13) by (simp add: client_ok_def two t(2-10) Let_def)
  ultimately show ?thesis by (simp add: link_inv_def)
qed

text \<open>A step in which only the client's own record and its results without an answer change.\<close>

lemma link_inv_same:
  assumes inv: "link_inv ow P s"
    and t: "client_inv (lk_client t)" "lk_server t = lk_server s" "lk_calls t = lk_calls s"
      "lk_cout t = lk_cout s" "lk_up t = lk_up s" "lk_sout t = lk_sout s" "lk_down t = lk_down s" "lk_got t = lk_got s"
      "lk_served t = lk_served s" "fills (lk_results t) = fills (lk_results s)"
      "cr_io (lk_client t) = cr_io (lk_client s)"
      "pending_op (cr_conn (lk_client t)) = pending_op (cr_conn (lk_client s))"
      "sock (cr_conn (lk_client t)) = sock (cr_conn (lk_client s))"
      "contents (cr_conn (lk_client t)) = contents (cr_conn (lk_client s))"
  shows "link_inv ow P t"
proof -
  note i = link_invD [OF inv]
  have two: "two_way t = two_way s" and ans: "answered ow t = answered ow s" by (simp_all add: link_parts t)
  have "link_logs ow P t" using i(1) t(1) unfolding link_logs_def t by blast
  moreover have "up_ok t" using i(2) unfolding up_ok_def t .
  moreover have "down_ok t" using i(3) unfolding down_ok_def t .
  moreover have "match_ok ow t" using i(4) unfolding match_ok_def two ans t .
  moreover have "client_ok t" using i(5) unfolding client_ok_def Let_def two t .
  ultimately show ?thesis by (simp add: link_inv_def)
qed

lemma link_inv_call:
  assumes inv: "link_inv ow P s" and run: "async_call nc op out (cr_conn (lk_client s)) = Ok (c, as)"
    and out: "view_frame out = Frame out []" "op_oneway op = ow out"
  shows "link_inv ow P (s\<lparr>lk_client := (lk_client s)\<lparr>cr_conn := c,
         cr_io := (if next_io as = None then cr_io (lk_client s) else next_io as),
         cr_issued := cr_issued (lk_client s) @ [op_callback op], cr_done := cr_done (lk_client s) @ invoked as\<rparr>,
       lk_cout := (if next_io as = None then lk_cout s else written as),
       lk_calls := (if next_io as = None then lk_calls s else lk_calls s @ [(op, out)]),
       lk_results := lk_results s @ results as\<rparr>)" (is "link_inv ow P ?t")
proof -
  note i = link_invD [OF inv]
  note ci = client_call_inv [OF i(6) run]
  show ?thesis
  proof (cases "conn_is_open (cr_conn (lk_client s))")
    case True
    with run have p: "pending_op (cr_conn (lk_client s)) = None"
      and c: "c = (cr_conn (lk_client s))\<lparr>pending_op := Some op, output_buffer := out\<rparr>"
      and as: "as = [AWrite (strand (cr_conn (lk_client s)) \<noteq> None) out]"
      by (auto simp: async_call_def split: if_splits)
    have io: "cr_io (lk_client s) = None" using i(6) p by (simp add: client_inv_def)
    obtain k where sk: "sock (cr_conn (lk_client s)) = Some k" using True by (auto simp: conn_is_open_def)
    show ?thesis
      by (rule link_inv_issue [OF inv p io sk out]) (use ci c as sk in simp_all)
  next
    case False
    with run have "c = cr_conn (lk_client s)" "as = [AExt (Invoke (op_callback op) (not_connected_ec nc))]"
      by (simp_all add: async_call_def)
    with ci show ?thesis by (intro link_inv_same [OF inv]) simp_all
  qed
qed

lemma link_inv_transfer:
  assumes inv: "link_inv ow P s" and up: "up_ok t" and down: "down_ok t"
    and t: "lk_client t = lk_client s" "lk_server t = lk_server s" "lk_calls t = lk_calls s" "lk_got t = lk_got s"
      "lk_served t = lk_served s" "lk_results t = lk_results s"
  shows "link_inv ow P t"
proof -
  note i = link_invD [OF inv]
  have two: "two_way t = two_way s" and ans: "answered ow t = answered ow s" by (simp_all add: link_parts t)
  have "link_logs ow P t" using i(1) unfolding link_logs_def t .
  moreover have "match_ok ow t" using i(4) unfolding match_ok_def two ans t .
  moreover have "client_ok t" using i(5) unfolding client_ok_def two t .
  ultimately show ?thesis using up down by (simp add: link_inv_def)
qed

lemma link_inv_up:
  assumes inv: "link_inv ow P s" and c: "lk_cout s = bs @ rest" "bs \<noteq> []"
  shows "link_inv ow P (s\<lparr>lk_cout := rest, lk_up := lk_up s @ bs\<rparr>)"
  by (rule link_inv_transfer [OF inv])
    (use link_invD(2,3) [OF inv] c in \<open>auto simp: up_ok_def down_ok_def Let_def\<close>)

lemma link_inv_down:
  assumes inv: "link_inv ow P s" and c: "lk_sout s = bs @ rest" "bs \<noteq> []"
  shows "link_inv ow P (s\<lparr>lk_sout := rest, lk_down := lk_down s @ bs\<rparr>)"
  by (rule link_inv_transfer [OF inv])
    (use link_invD(2,3) [OF inv] c in \<open>auto simp: up_ok_def down_ok_def Let_def\<close>)

lemma link_inv_close:
  "link_inv ow P s \<Longrightarrow> link_inv ow P (s\<lparr>lk_client := (lk_client s)\<lparr>cr_conn := conn_close (cr_conn (lk_client s))\<rparr>\<rparr>)"
  by (rule link_inv_same, assumption)
    (simp_all add: client_step_inv [OF _ cl_close] link_invD(6), simp add: conn_close_def contents_def)

text \<open>The client's pending call fails, or the write of its request is done.\<close>

lemma link_inv_fails:
  assumes inv: "link_inv ow P s" and ci: "client_inv (after_client (c', as) (lk_client s))"
    and r: "results as = [(op_callback op, None, ec)]" "pending_op c' = None" "sock c' = None" "next_io as = None"
    and gd: "g @ d = lk_got s @ lk_down s"
  shows "link_inv ow P ((client_after (c', as) s)\<lparr>lk_cout := [], lk_down := d, lk_got := g\<rparr>)" (is "link_inv ow P ?t")
proof -
  note i = link_invD [OF inv]
  have gd': "g @ d @ x = lk_got s @ lk_down s @ x" for x using gd by (metis append_assoc)
  have "prefix (sr_recvd (lk_server s) @ lk_up s) (concat (map snd (lk_calls s)))"
    using i(2) append_prefixD [of "sr_recvd (lk_server s) @ lk_up s" "lk_cout s"] by (simp add: up_ok_def Let_def)
  then have "up_ok ?t" using r by (simp add: up_ok_def client_after_def after_client_def Let_def)
  moreover have "link_logs ow P ?t" using i(1) ci by (simp add: link_logs_def client_after_def)
  moreover have "down_ok ?t" using i(3) by (simp add: down_ok_def client_after_def Let_def gd')
  moreover have "match_ok ow ?t" using i(4) r by (simp add: match_ok_def client_after_def link_parts Let_def)
  moreover have "client_ok ?t" using r by (simp add: client_ok_def client_after_def after_client_def Let_def)
  ultimately show ?thesis by (simp add: link_inv_def)
qed

lemma link_inv_sent:
  assumes inv: "link_inv ow P s" and op: "pending_op (cr_conn (lk_client s)) = Some op"
    and ci: "client_inv (after_client (c', as) (lk_client s))"
    and io: "cr_io (lk_client s) = Some (AWrite st out)" and co: "lk_cout s = []"
    and sk: "sock c' = sock (cr_conn (lk_client s))"
    and r: "op_oneway op \<and> results as = [(op_callback op, None, ec)] \<and> pending_op c' = None \<and> next_io as = None
      \<or> \<not> op_oneway op \<and> results as = [] \<and> pending_op c' = Some op \<and> contents c' = []
        \<and> next_io as = Some (ARead st' off len)"
  shows "link_inv ow P (client_after (c', as) s)" (is "link_inv ow P ?t")
proof -
  note i = link_invD [OF inv]
  have f: "fills (lk_results ?t) = fills (lk_results s)" using r by (auto simp: client_after_def)
  have "up_ok ?t" using i(2) co sk by (simp add: up_ok_def client_after_def after_client_def Let_def)
  moreover have "link_logs ow P ?t" using i(1) ci by (simp add: link_logs_def client_after_def)
  moreover have "down_ok ?t" using i(3) by (simp add: down_ok_def client_after_def Let_def)
  moreover have "match_ok ow ?t" using i(4) unfolding match_ok_def f by (simp add: client_after_def link_parts Let_def)
  moreover have "client_ok ?t"
    using r
  proof (elim disjE conjE)
    show "client_ok ?t" if "op_oneway op" "pending_op c' = None" "next_io as = None"
      using that i(5) op io sk unfolding client_ok_def f
      by (simp add: client_after_def after_client_def Let_def link_parts)
    show "client_ok ?t" if "\<not> op_oneway op" "pending_op c' = Some op" "contents c' = []"
      "next_io as = Some (ARead st' off len)"
      using that i(5) op io sk unfolding client_ok_def f
      by (simp add: client_after_def after_client_def Let_def link_parts)
  qed
  ultimately show ?thesis by (simp add: link_inv_def)
qed

text \<open>What the client has buffered and the bytes to come are the answers not yet taken.\<close>

lemma client_stream:
  assumes inv: "link_inv ow P s" and op: "pending_op (cr_conn (lk_client s)) = Some op"
    and io: "cr_io (lk_client s) = Some (ARead st off len)"
    and n: "n = length (fills (lk_results s))" and R: "R = map snd (answered ow s)"
  shows "whole_frames (drop n R)" and "length (two_way s) = Suc n" and "length (answered ow s) \<le> Suc n"
    and "prefix (contents (cr_conn (lk_client s)) @ lk_down s @ lk_sout s) (concat (drop n R))"
    and "sr_pending (lk_server s) \<noteq> None \<Longrightarrow>
      contents (cr_conn (lk_client s)) @ lk_down s @ lk_sout s = concat (drop n R)"
proof -
  note i = link_invD [OF inv]
  have sk: "sock (cr_conn (lk_client s)) \<noteq> None" and two: "length (two_way s) = Suc n"
    using i(5) op io n by (auto simp: client_ok_def Let_def split: if_splits)
  have p: "prefix (map fst (answered ow s)) (map snd (two_way s))" by (rule answered_are_two_way [OF i(1-3)])
  show "length (two_way s) = Suc n" by (rule two)
  show "length (answered ow s) \<le> Suc n" using prefix_length_le [OF p] two by simp
  have "view_frame (snd x) = Frame (snd x) []" if "x \<in> set (answered ow s)" for x
    using i(1) that bspec [of "set (lk_served s)" "\<lambda>x. answer_ok ow P (fst x) (snd x)" x]
    by (simp add: link_logs_def answered_def answer_ok_def)
  then show "whole_frames (drop n R)"
    by (auto simp: R whole_frames_def dest!: in_set_dropD)
  have fs: "map snd (fills (lk_results s)) = take n R" using i(4) n by (simp add: R match_ok_def Let_def take_map)
  have got: "lk_got s = concat (take n R) @ contents (cr_conn (lk_client s))"
    using i(5) io sk fs by (auto simp: client_ok_def Let_def)
  have cut: "concat R = concat (take n R) @ concat (drop n R)"
    by (metis append_take_drop_id concat_append)
  have "prefix (lk_got s @ lk_down s @ lk_sout s) (concat R)
      \<and> (sr_pending (lk_server s) \<noteq> None \<longrightarrow> lk_got s @ lk_down s @ lk_sout s = concat R)"
    using i(3) by (simp add: R down_ok_def Let_def answers_concat [OF i(1)])
  then show "prefix (contents (cr_conn (lk_client s)) @ lk_down s @ lk_sout s) (concat (drop n R))"
    and "sr_pending (lk_server s) \<noteq> None \<Longrightarrow>
      contents (cr_conn (lk_client s)) @ lk_down s @ lk_sout s = concat (drop n R)"
    by (simp_all add: got cut)
qed

text \<open>The frame the client completes is the answer to its pending call, and nothing follows it.\<close>

lemma frame_is_answer:
  assumes inv: "link_inv ow P s" and op: "pending_op (cr_conn (lk_client s)) = Some op"
    and io: "cr_io (lk_client s) = Some (ARead st off len)" and d: "lk_down s = bs @ rest"
    and v: "view_frame (contents (cr_conn (lk_client s)) @ bs) = Frame g r" and n: "n = length (fills (lk_results s))"
  shows "length (answered ow s) = Suc n" "length (two_way s) = Suc n" "two_way s ! n = last (lk_calls s)"
    "g = snd (answered ow s ! n)" "fst (answered ow s ! n) = snd (last (lk_calls s))" "r = []"
proof -
  note i = link_invD [OF inv]
  have ow: "\<not> op_oneway op" and calls: "lk_calls s \<noteq> []" "fst (last (lk_calls s)) = op"
    using i(5) op io by (auto simp: client_ok_def Let_def)
  let ?R = "map snd (answered ow s)"
  note cs = client_stream [OF inv op io n refl]
  note whole = cs(1) and two = cs(2) and le = cs(3)
  have p: "prefix (map fst (answered ow s)) (map snd (two_way s))" by (rule answered_are_two_way [OF i(1-3)])
  have pre: "prefix (contents (cr_conn (lk_client s)) @ bs) (concat (drop n ?R))"
    using cs(4) append_prefixD [of "contents (cr_conn (lk_client s)) @ bs"] by (simp add: d)
  note f = frame_in_stream [OF whole pre v]
  then show len: "length (answered ow s) = Suc n" using le by (cases "length (answered ow s) = Suc n") auto
  then have dr: "drop n ?R = [?R ! n]" by (simp add: Cons_nth_drop_Suc [symmetric])
  with f len show "g = snd (answered ow s ! n)" and "r = []" by auto
  show "length (two_way s) = Suc n" by (rule two)
  have "two_way s = filter (\<lambda>c. \<not> op_oneway (fst c)) (butlast (lk_calls s) @ [last (lk_calls s)])"
    by (simp add: two_way_def calls)
  then have "two_way s = filter (\<lambda>c. \<not> op_oneway (fst c)) (butlast (lk_calls s)) @ [last (lk_calls s)]"
    using ow calls(2) by simp
  then show last: "two_way s ! n = last (lk_calls s)" using two by (metis length_append_singleton nat.inject nth_append_length)
  from p obtain z where z: "map snd (two_way s) = map fst (answered ow s) @ z" by (auto simp: prefix_def)
  have "z = []" using arg_cong [OF z, of length] len two by simp
  with z have "map fst (answered ow s) = map snd (two_way s)" by simp
  then have "map fst (answered ow s) ! n = map snd (two_way s) ! n" by simp
  then show "fst (answered ow s ! n) = snd (last (lk_calls s))" using len two last by simp
qed

lemma link_inv_read:
  assumes inv: "link_inv ow P s" and io: "cr_io (lk_client s) = Some (ARead st off len)" and d: "lk_down s = bs @ rest"
    and bs: "bs \<noteq> []" "length bs \<le> len" and run: "client_complete_read E bm f off bs (cr_conn (lk_client s)) = Ok (c', as)"
  shows "link_inv ow P ((client_after (c', as) s)\<lparr>lk_down := rest, lk_got := lk_got s @ bs\<rparr>)" (is "link_inv ow P ?t")
proof -
  note i = link_invD [OF inv]
  obtain op where op: "pending_op (cr_conn (lk_client s)) = Some op"
    and w: "client_waits (cr_conn (lk_client s)) (Some (ARead st off len))"
    using i(6) io by (elim invE_pending) auto
  have ci: "client_inv (after_client (c', as) (lk_client s))"
    by (rule client_step_inv [OF i(6) cl_read [OF io bs run]])
  have co: "lk_cout s = []" using i(2) io by (simp add: up_ok_def Let_def)
  have ow: "\<not> op_oneway op" and sk: "sock (cr_conn (lk_client s)) \<noteq> None"
    and got: "lk_got s = concat (map snd (fills (lk_results s))) @ contents (cr_conn (lk_client s))"
    using i(5) op io by (auto simp: client_ok_def Let_def)
  have logs: "link_logs ow P ?t" using i(1) ci by (simp add: link_logs_def client_after_def)
  have down: "down_ok ?t" using i(3) d by (simp add: down_ok_def client_after_def Let_def)
  have up: "sock c' = sock (cr_conn (lk_client s)) \<Longrightarrow> up_ok ?t"
    using i(2) co by (simp add: up_ok_def client_after_def after_client_def Let_def)
  have ans: "answered ow ?t = answered ow s" and two: "two_way ?t = two_way s"
    by (simp_all add: client_after_def link_parts)
  from client_reads [OF w op bs(2) run] show ?thesis
  proof (elim disjE exE conjE)
    fix st' off' len'
    assume r: "results as = []" "pending_op c' = Some op" "sock c' = sock (cr_conn (lk_client s))"
      "contents c' = contents (cr_conn (lk_client s)) @ bs" "next_io as = Some (ARead st' off' len')"
    have "match_ok ow ?t" using i(4) r unfolding match_ok_def ans two by (simp add: client_after_def)
    moreover have "client_ok ?t" using i(5) op r got sk ow
      unfolding client_ok_def Let_def two by (simp add: client_after_def after_client_def)
    ultimately show ?thesis using logs down up [OF r(3)] by (simp add: link_inv_def)
  next
    fix ec
    assume "results as = [(op_callback op, None, ec)]" "pending_op c' = None" "sock c' = None" "next_io as = None"
    from link_inv_fails [OF inv ci this, of "lk_got s @ bs" rest] d
    have "link_inv ow P ((client_after (c', as) s)\<lparr>lk_cout := [], lk_down := rest, lk_got := lk_got s @ bs\<rparr>)" by simp
    moreover have "(client_after (c', as) s)\<lparr>lk_cout := [], lk_down := rest, lk_got := lk_got s @ bs\<rparr> = ?t"
      by (rule link.equality) (simp_all add: client_after_def co)
    ultimately show ?thesis by simp
  next
    fix g r' ec
    assume v: "view_frame (contents (cr_conn (lk_client s)) @ bs) = Frame g r'"
      and r: "results as = [(op_callback op, Some g, ec)]" "pending_op c' = None"
        "sock c' = sock (cr_conn (lk_client s))" "next_io as = None"
    note a = frame_is_answer [OF inv op io d v refl]
    have g: "contents (cr_conn (lk_client s)) @ bs = g" using view_frame_parts [OF v] a(6) by simp
    have fl: "fills (lk_results ?t) = fills (lk_results s) @ [(op_callback op, g)]" using r(1) by (simp add: client_after_def)
    have cb: "fst (last (lk_calls s)) = op" using i(5) op by (simp add: client_ok_def Let_def)
    have whole: "xs = take n xs @ [xs ! n]" if "length xs = Suc n" for xs :: "'z list" and n
      using that take_Suc_conv_app_nth [of n xs] by simp
    have "match_ok ow ?t" using i(4) a cb arg_cong [OF whole [OF a(1)], of "map snd"]
        arg_cong [OF whole [OF a(2)], of "map (op_callback \<circ> fst)"]
      unfolding match_ok_def Let_def ans two fl by simp
    moreover have "client_ok ?t" using r a got g
      unfolding client_ok_def Let_def two fl by (simp add: client_after_def after_client_def)
    ultimately show ?thesis using logs down up [OF r(3)] by (simp add: link_inv_def)
  qed
qed

text \<open>The server's side: its handler ran with the bytes \<open>bs\<close> taken from the network.\<close>

lemma link_inv_server:
  assumes inv: "link_inv ow P s" and up: "lk_up s = bs @ rest" and so: "lk_sout s = []"
    and pend: "sr_pending (lk_server s) \<noteq> None"
    and ok: "sync_inv (lk_server (server_after bs r (c', as) s))"
    and ans: "list_all (answers ow P r) (processed as)"
    and res: "processed as = [] \<and> (next_io as = None \<or> reading c' (next_io as))
      \<or> (\<exists>f. processed as = [f] \<and> (serve_pairs r as = [] \<and> next_io as = None
          \<or> (\<exists>out st. r = Replied out \<and> serve_pairs r as = [(f, out)] \<and> next_io as = Some (AWrite st out))))"
  shows "link_inv ow P ((server_after bs r (c', as) s)\<lparr>lk_up := rest\<rparr>)" (is "link_inv ow P ?t")
proof -
  note i = link_invD [OF inv]
  have new: "answer_ok ow P (fst x) (snd x)" if "x \<in> set (serve_pairs r as)" for x
    using that ans by (cases r) (auto simp: serve_pairs_def answers_def list_all_iff)
  have w: "written as = concat (map snd (serve_pairs r as))"
    using res by (auto simp: written_def serve_pairs_Nil reading_def split: option.split action.split)
  have pairs: "prefix (map fst (serve_pairs r as)) (processed as)
      \<and> (next_io as \<noteq> None \<longrightarrow> map fst (serve_pairs r as) = processed as)"
    using res by (auto simp: serve_pairs_Nil)
  have wr: "(\<exists>st out. next_io as = Some (AWrite st out)) \<or> written as = []"
    by (cases "next_io as") (auto simp: written_def split: action.split)
  have served: "map fst (lk_served s) = sr_frames (lk_server s)"
    and sent: "lk_got s @ lk_down s = concat (map snd (lk_served s))"
    using i(3) pend so by (auto simp: down_ok_def Let_def)
  have "link_logs ow P ?t" using i(1) ok new by (auto simp: link_logs_def server_after_def)
  moreover have "up_ok ?t" using i(2) up by (simp add: up_ok_def server_after_def Let_def)
  moreover have "down_ok ?t" using served sent w pairs wr
    by (simp add: down_ok_def server_after_def Let_def flip: append_assoc)
  moreover have "match_ok ow ?t" using i(4)
    by (simp add: match_ok_def server_after_def link_parts Let_def)
  moreover have "client_ok ?t" using i(5) by (rule client_ok_cong [THEN iffD2, rotated -1]) (simp_all add: server_after_def)
  ultimately show ?thesis by (simp add: link_inv_def)
qed

lemma link_inv_serve:
  assumes inv: "link_inv ow P s" and p: "sr_pending (lk_server s) = Some (ARead st off len)"
    and up: "lk_up s = bs @ rest" and bs: "bs \<noteq> []" "length bs \<le> len"
    and run: "complete_read E (server_vt bm r) off bs (sr_conn (lk_server s)) = Ok (c', as)"
    and ans: "sync_answer r" "list_all (answers ow P r) (processed as)"
  shows "link_inv ow P ((server_after bs r (c', as) s)\<lparr>lk_up := rest\<rparr>)"
proof -
  note i = link_invD [OF inv]
  from i(7) p have rd: "reading (sr_conn (lk_server s)) (Some (ARead st off len))"
    by (auto simp: sync_inv_def writing_def)
  then have wf: "conn_wf (sr_conn (lk_server s))" and hd: "header_read (sr_conn (lk_server s))"
    and na: "\<not> async_rpc (sr_conn (lk_server s))" and off: "off = unat (bytes_recv (sr_conn (lk_server s)))"
    and room: "unat (bytes_recv (sr_conn (lk_server s))) + length bs \<le> length (recv_buffer (sr_conn (lk_server s)))"
    using bs by (auto simp: reading_def conn_wf_def)
  note rc = received_facts [OF wf hd room]
  have na': "\<not> async_rpc (received bs (sr_conn (lk_server s)))" using na by (simp add: received_def)
  have run': "handle_buffer E (server_vt bm r) (received bs (sr_conn (lk_server s))) = Ok (c', as)"
    using run unfolding off complete_read_eq [OF wf hd room] .
  have "sync_inv (lk_server (server_after bs r (c', as) s))"
    using sync_step_inv [OF sync_read [OF p bs ans(1) run] i(7)] by (simp add: server_after_def)
  moreover have "lk_sout s = []" using i(3) p by (simp add: down_ok_def Let_def)
  ultimately show ?thesis
    using serve_buffer [OF rc(1,3) na' ans(1) run'] p ans(2) by (intro link_inv_server [OF inv up]) auto
qed

lemma link_inv_replied:
  assumes inv: "link_inv ow P s" and p: "sr_pending (lk_server s) = Some (AWrite st out)" and so: "lk_sout s = []"
    and run: "base_on_handle_write E (server_vt bm r) ec_success (length out) (sr_conn (lk_server s)) = Ok (c', as)"
    and ans: "sync_answer r" "list_all (answers ow P r) (processed as)"
  shows "link_inv ow P (server_after [] r (c', as) s)"
proof -
  note i = link_invD [OF inv]
  from i(7) p obtain f r0 where "writing (sr_conn (lk_server s)) (Some (AWrite st out)) f r0"
    by (auto simp: sync_inv_def reading_def)
  then have h: "holds_frame f r0 (sr_conn (lk_server s))" and na: "\<not> async_rpc (sr_conn (lk_server s))"
    by (auto simp: writing_def)
  have ok: "sync_inv (lk_server (server_after [] r (c', as) s))"
    using sync_step_inv [OF sync_write [OF p ans(1) run] i(7)] by (simp add: server_after_def)
  have "processed as = [] \<and> (next_io as = None \<or> reading c' (next_io as))
      \<or> (\<exists>f. processed as = [f] \<and> (serve_pairs r as = [] \<and> next_io as = None
          \<or> (\<exists>out st. r = Replied out \<and> serve_pairs r as = [(f, out)] \<and> next_io as = Some (AWrite st out))))"
  proof (cases "r0 = []")
    case True
    have wf: "conn_wf (sr_conn (lk_server s))" using h by (simp add: holds_frame_def)
    have run': "start_recv True (sr_conn (lk_server s)) = Ok (c', as)"
      using run by (simp add: on_handle_write_eq [OF h] True)
    have "\<exists>st' off' len'. as = [ARead st' off' len']" using run' by (auto simp: start_recv_def Let_def split: if_splits)
    then have "processed as = []" by auto
    moreover have "reading c' (next_io as)"
      using restart_reading [OF wf na run'] .
    ultimately show ?thesis by blast
  next
    case False
    with run have run': "handle_buffer E (server_vt bm r) (consumed (sr_conn (lk_server s))) = Ok (c', as)"
      by (auto simp: on_handle_write_eq [OF h] split: if_splits)
    note cs = consumed_facts [OF h]
    have na': "\<not> async_rpc (consumed (sr_conn (lk_server s)))" using na by (simp add: consumed_def Let_def)
    show ?thesis using serve_buffer [OF cs(1,3) na' ans(1) run'] by auto
  qed
  then have "link_inv ow P ((server_after [] r (c', as) s)\<lparr>lk_up := lk_up s\<rparr>)"
    using p ans(2) by (intro link_inv_server [OF inv _ so _ ok]) auto
  then show ?thesis by (simp add: server_after_def)
qed

lemma link_inv_server_error:
  assumes inv: "link_inv ow P s" and p: "sr_pending (lk_server s) = Some io" and err: "ec_is_error ec"
    and run: "base_on_handle_read E (server_vt bm r) ec n (sr_conn (lk_server s)) = Ok (c', as) \<or>
     base_on_handle_write E (server_vt bm r) ec n (sr_conn (lk_server s)) = Ok (c', as)"
  shows "link_inv ow P (server_after [] r (c', as) s)" (is "link_inv ow P ?t")
proof -
  note i = link_invD [OF inv]
  have as: "next_io as = None" "processed as = []" using run server_error_closes [OF err] by blast+
  have w: "written as = []" using as by (simp add: written_def)
  have "sync_inv (lk_server ?t)"
    using sync_inv_closed [OF i(7), of c'] p as by (cases "lk_server s") (simp add: server_after_def)
  then have "link_logs ow P ?t" using i(1) by (simp add: link_logs_def server_after_def serve_pairs_Nil as)
  moreover have "up_ok ?t" using i(2) by (simp add: up_ok_def server_after_def Let_def)
  moreover have "prefix (lk_got s @ lk_down s) (concat (map snd (lk_served s)))"
    using i(3) append_prefixD [of "lk_got s @ lk_down s" "lk_sout s"] by (simp add: down_ok_def Let_def)
  then have "down_ok ?t" using i(3) as w by (simp add: down_ok_def server_after_def Let_def serve_pairs_Nil)
  moreover have "match_ok ow ?t" using i(4)
    by (simp add: match_ok_def server_after_def link_parts Let_def serve_pairs_Nil as)
  moreover have "client_ok ?t" using i(5) by (rule client_ok_cong [THEN iffD2, rotated -1]) (simp_all add: server_after_def)
  ultimately show ?thesis by (simp add: link_inv_def)
qed

lemma link_inv_client_write:
  assumes inv: "link_inv ow P s" and io: "cr_io (lk_client s) = Some (AWrite st out)"
    and run: "client_on_handle_write ec (cr_conn (lk_client s)) = Ok (c', as)"
  shows "ec_is_error ec \<Longrightarrow> link_inv ow P ((client_after (c', as) s)\<lparr>lk_cout := []\<rparr>)"
    and "ec = ec_success \<Longrightarrow> lk_cout s = [] \<Longrightarrow> link_inv ow P (client_after (c', as) s)"
proof -
  note i = link_invD [OF inv]
  obtain op where op: "pending_op (cr_conn (lk_client s)) = Some op" using i(6) io by (auto elim: invE_pending)
  have ci: "client_inv (after_client (c', as) (lk_client s))" by (rule client_step_inv [OF i(6) cl_write [OF io run]])
  show "link_inv ow P ((client_after (c', as) s)\<lparr>lk_cout := []\<rparr>)" if "ec_is_error ec"
  proof -
    have "link_inv ow P ((client_after (c', as) s)\<lparr>lk_cout := [], lk_down := lk_down s, lk_got := lk_got s\<rparr>)"
      using client_fails [OF op that disjI1 [OF run]] by (intro link_inv_fails [OF inv ci]) auto
    moreover have "(client_after (c', as) s)\<lparr>lk_cout := [], lk_down := lk_down s, lk_got := lk_got s\<rparr>
        = (client_after (c', as) s)\<lparr>lk_cout := []\<rparr>" by (rule link.equality) (simp_all add: client_after_def)
    ultimately show ?thesis by simp
  qed
  show "link_inv ow P (client_after (c', as) s)" if "ec = ec_success" "lk_cout s = []"
    using client_wrote [OF op run [unfolded that(1)]] link_inv_sent [OF inv op ci io that(2)] by blast
qed

lemma link_inv_read_error:
  assumes inv: "link_inv ow P s" and io: "cr_io (lk_client s) = Some (ARead st off len)" and err: "ec_is_error ec"
    and run: "client_on_handle_read E bm f ec n (cr_conn (lk_client s)) = Ok (c', as)"
  shows "link_inv ow P (client_after (c', as) s)"
proof -
  note i = link_invD [OF inv]
  obtain op where op: "pending_op (cr_conn (lk_client s)) = Some op" using i(6) io by (auto elim: invE_pending)
  have ci: "client_inv (after_client (c', as) (lk_client s))"
    by (rule client_step_inv [OF i(6) cl_read_error [OF io err run]])
  have co: "lk_cout s = []" using i(2) io by (simp add: up_ok_def Let_def)
  have "link_inv ow P ((client_after (c', as) s)\<lparr>lk_cout := [], lk_down := lk_down s, lk_got := lk_got s\<rparr>)"
    using client_fails [OF op err disjI2 [OF run]] by (intro link_inv_fails [OF inv ci]) auto
  moreover have "(client_after (c', as) s)\<lparr>lk_cout := [], lk_down := lk_down s, lk_got := lk_got s\<rparr>
      = client_after (c', as) s" by (rule link.equality) (simp_all add: client_after_def co)
  ultimately show ?thesis by simp
qed

lemma link_step_inv: "link_step E bm nc ow P s t \<Longrightarrow> link_inv ow P s \<Longrightarrow> link_inv ow P t"
proof (induction rule: link_step.induct)
  case (link_call op out s c as)
  then show ?case by (intro link_inv_call)
next
  case (link_wrote s st out r)
  then show ?case by (cases r) (auto intro: link_inv_client_write)
next
  case (link_write_error s st out ec r)
  then show ?case by (cases r) (auto intro: link_inv_client_write)
next
  case (link_read s st off len bs rest f r)
  then show ?case by (cases r) (auto intro: link_inv_read)
next
  case (link_read_error s st off len ec f n r)
  then show ?case by (cases r) (auto intro: link_inv_read_error)
next
  case (link_serve s st off len bs rest r ca)
  then show ?case by (cases ca) (auto intro: link_inv_serve)
next
  case (link_replied s st out r ca)
  then show ?case by (cases ca) (auto intro: link_inv_replied)
next
  case (link_server_error s io ec r n ca)
  then show ?case by (cases ca) (auto intro: link_inv_server_error)
qed (auto intro: link_inv_up link_inv_down link_inv_close)

lemma link_init_inv: "link_init s \<Longrightarrow> link_inv ow P s"
proof -
  assume "link_init s"
  then obtain ios sk srv where srv: "sync_init srv" and s: "s =
     \<lparr>lk_client = \<lparr>cr_conn = client_of (conn_on_socket ios sk True), cr_io = None, cr_issued = [], cr_done = []\<rparr>,
      lk_server = srv, lk_cout = [], lk_up = [], lk_sout = [], lk_down = [], lk_got = [],
      lk_calls = [], lk_served = [], lk_results = []\<rparr>" by (auto simp: link_init_def)
  have "client_inv (lk_client s)" by (rule client_init_inv) (auto simp: s client_init_def)
  moreover have "sync_inv srv" by (rule sync_init_inv [OF srv])
  moreover have "sr_recvd srv = []" "sr_frames srv = []" using srv by (auto simp: sync_init_def)
  ultimately show ?thesis
    by (simp add: link_inv_def link_logs_def up_ok_def down_ok_def match_ok_def client_ok_def link_parts s Let_def)
qed

interpretation link_sys: step_system link_init "link_step E bm nc ow P" "link_inv ow P" for E bm nc ow P
  by unfold_locales (auto intro: link_init_inv link_step_inv)

section \<open>The channel refines the abstract call\<close>

lemma rpc_update:
  "link_rpc (client_after (c, as) s) = \<lparr>rpc_pending = map_option (\<lambda>op. (op_callback op, snd (last (lk_calls s)), op_oneway op))
       (pending_op c), rpc_results = lk_results s @ results as\<rparr>"
  by (simp add: link_rpc_def client_after_def after_client_def)

lemma rpc_same:
  assumes "lk_client t = lk_client s" "lk_calls t = lk_calls s" "lk_results t = lk_results s"
  shows "link_rpc t = link_rpc s"
  unfolding link_rpc_def assms by (rule refl)

lemma link_refines_call:
  assumes ci: "client_inv (lk_client s)" and run: "async_call nc op out (cr_conn (lk_client s)) = Ok (c, as)"
    and ow: "op_oneway op = ow out" and nc: "nc \<noteq> 0"
    and t: "lk_calls t = (if next_io as = None then lk_calls s else lk_calls s @ [(op, out)])"
      "cr_conn (lk_client t) = c" "lk_results t = lk_results s @ results as"
  shows "rpc_step ow P (link_rpc s) (link_rpc t)"
proof (cases "conn_is_open (cr_conn (lk_client s))")
  case True
  with run have p: "pending_op (cr_conn (lk_client s)) = None"
    and c: "pending_op c = Some op" and as: "as = [AWrite (strand (cr_conn (lk_client s)) \<noteq> None) out]"
    by (auto simp: async_call_def split: if_splits)
  have "rpc_step ow P (link_rpc s) ((link_rpc s)\<lparr>rpc_pending := Some (op_callback op, out, ow out)\<rparr>)"
    by (rule rpc_issue) (simp add: link_rpc_def p)
  then show ?thesis using p c ow by (simp add: link_rpc_def t as)
next
  case False
  with run have r: "c = cr_conn (lk_client s)" "as = [AExt (Invoke (op_callback op) (not_connected_ec nc))]"
    by (simp_all add: async_call_def)
  have "rpc_step ow P (link_rpc s)
      ((link_rpc s)\<lparr>rpc_results := rpc_results (link_rpc s) @ [(op_callback op, None, not_connected_ec nc)]\<rparr>)"
    by (rule rpc_refuse) (simp add: ec_is_error_def not_connected_ec_def nc)
  then show ?thesis by (simp add: link_rpc_def t r)
qed

text \<open>A handler of the client that completes its pending call.\<close>

lemma link_refines_done:
  assumes inv: "link_inv ow P s" and op: "pending_op (cr_conn (lk_client s)) = Some op"
    and r: "pending_op c' = None" "results as = [(op_callback op, x, ec)]"
    and x: "(\<exists>g. x = Some g \<and> \<not> op_oneway op \<and> P (snd (last (lk_calls s))) g) \<or> x = None \<and> ec_is_error ec
      \<or> x = None \<and> op_oneway op \<and> ec = ec_success"
  shows "rpc_step ow P (link_rpc s) (link_rpc (client_after (c', as) s))"
proof -
  have p: "rpc_pending (link_rpc s) = Some (op_callback op, snd (last (lk_calls s)), op_oneway op)"
    by (simp add: link_rpc_def op)
  have t: "link_rpc (client_after (c', as) s)
      = (link_rpc s)\<lparr>rpc_pending := None, rpc_results := rpc_results (link_rpc s) @ [(op_callback op, x, ec)]\<rparr>"
    unfolding rpc_update r by (simp add: link_rpc_def)
  from x show ?thesis
    unfolding t
  proof (elim disjE exE conjE)
    fix g assume "x = Some g" "\<not> op_oneway op" "P (snd (last (lk_calls s))) g"
    with p show "rpc_step ow P (link_rpc s) ((link_rpc s)\<lparr>rpc_pending := None,
        rpc_results := rpc_results (link_rpc s) @ [(op_callback op, x, ec)]\<rparr>)" by (simp add: rpc_answer)
  qed (use p in \<open>auto intro: rpc_fail rpc_sent\<close>)
qed

lemma link_refines_read:
  assumes inv: "link_inv ow P s" and io: "cr_io (lk_client s) = Some (ARead st off len)" and d: "lk_down s = bs @ rest"
    and bs: "length bs \<le> len" and run: "client_complete_read E bm f off bs (cr_conn (lk_client s)) = Ok (c', as)"
  shows "rpc_step ow P (link_rpc s) (link_rpc (client_after (c', as) s)) \<or> link_rpc (client_after (c', as) s) = link_rpc s"
proof -
  note i = link_invD [OF inv]
  obtain op where op: "pending_op (cr_conn (lk_client s)) = Some op"
    and w: "client_waits (cr_conn (lk_client s)) (Some (ARead st off len))"
    using i(6) io by (elim invE_pending) auto
  have ow: "\<not> op_oneway op" using i(5) op io by (auto simp: client_ok_def Let_def)
  note dn = link_refines_done [OF inv op]
  from client_reads [OF w op bs run] show ?thesis
  proof (elim disjE exE conjE)
    assume "results as = []" "pending_op c' = Some op"
    then show ?thesis unfolding rpc_update by (simp add: link_rpc_def op)
  next
    fix ec assume "ec_is_error ec" "results as = [(op_callback op, None, ec)]" "pending_op c' = None"
    then show ?thesis using dn by blast
  next
    fix g r' ec
    assume v: "view_frame (contents (cr_conn (lk_client s)) @ bs) = Frame g r'"
      and r: "results as = [(op_callback op, Some g, ec)]" "pending_op c' = None"
    note a = frame_is_answer [OF inv op io d v refl]
    let ?x = "answered ow s ! length (fills (lk_results s))"
    have "?x \<in> set (answered ow s)" using a(1) by simp
    then have "answer_ok ow P (fst ?x) (snd ?x)" using i(1) by (simp add: link_logs_def answered_def)
    then have "P (snd (last (lk_calls s))) g" using a by (simp add: answer_ok_def)
    with dn [OF r(2,1)] ow show ?thesis by blast
  qed
qed

lemma link_refines_client:
  assumes inv: "link_inv ow P s" and io: "cr_io (lk_client s) = Some io"
    and run: "client_on_handle_write ec (cr_conn (lk_client s)) = Ok (c', as) \<and> (ec_is_error ec \<or> ec = ec_success)
      \<or> client_on_handle_read E bm f ec n (cr_conn (lk_client s)) = Ok (c', as) \<and> ec_is_error ec"
  shows "rpc_step ow P (link_rpc s) (link_rpc (client_after (c', as) s)) \<or> link_rpc (client_after (c', as) s) = link_rpc s"
proof -
  note i = link_invD [OF inv]
  obtain op where op: "pending_op (cr_conn (lk_client s)) = Some op" using i(6) io by (auto elim: invE_pending)
  note dn = link_refines_done [OF inv op]
  show ?thesis
  proof (cases "ec_is_error ec")
    case True
    with client_fails [OF op True] run have "results as = [(op_callback op, None, ec)]" "pending_op c' = None" by blast+
    with dn True show ?thesis by blast
  next
    case False
    with run have run': "client_on_handle_write ec_success (cr_conn (lk_client s)) = Ok (c', as)" "ec = ec_success" by auto
    from client_wrote [OF op run'(1)] show ?thesis
    proof (elim disjE conjE)
      assume "op_oneway op" "results as = [(op_callback op, None, ec_success)]" "pending_op c' = None"
      with dn show ?thesis by blast
    next
      assume "results as = []" "pending_op c' = Some op"
      then show ?thesis unfolding rpc_update by (simp add: link_rpc_def op)
    qed
  qed
qed

lemma link_refines_write:
  assumes "link_inv ow P s" and "cr_io (lk_client s) = Some io"
    and "client_on_handle_write ec (cr_conn (lk_client s)) = Ok r" and "ec_is_error ec \<or> ec = ec_success"
  shows "rpc_step ow P (link_rpc s) (link_rpc (client_after r s)) \<or> link_rpc (client_after r s) = link_rpc s"
  using link_refines_client [OF assms(1,2), of ec "fst r" "snd r"] assms(3,4) by simp

lemma link_refines_error:
  assumes "link_inv ow P s" and "cr_io (lk_client s) = Some io"
    and "client_on_handle_read E bm f ec n (cr_conn (lk_client s)) = Ok r" and "ec_is_error ec"
  shows "rpc_step ow P (link_rpc s) (link_rpc (client_after r s)) \<or> link_rpc (client_after r s) = link_rpc s"
  using link_refines_client [OF assms(1,2), of ec "fst r" "snd r" E bm f n] assms(3,4) by simp

lemma link_step_refines:
  assumes step: "link_step E bm nc ow P s t" and inv: "link_inv ow P s" and nc: "nc \<noteq> 0"
  shows "rpc_step ow P (link_rpc s) (link_rpc t) \<or> link_rpc t = link_rpc s"
  using step
proof cases
  case (link_call op out c as)
  then show ?thesis
    by (intro disjI1 link_refines_call [where ow = ow and op = op and out = out, OF link_invD(6) [OF inv] link_call(2) link_call(4) nc])
      simp_all
next
  case (link_wrote st out r)
  show ?thesis using link_refines_write [OF inv link_wrote(2,4)] by (simp add: link_wrote(1))
next
  case (link_write_error st out ec r)
  have "link_rpc t = link_rpc (client_after r s)" by (rule rpc_same) (simp_all add: link_write_error(1))
  then show ?thesis using link_refines_write [OF inv link_write_error(2,4)] link_write_error(3) by simp
next
  case (link_read st off len bs rest f r)
  have "link_rpc t = link_rpc (client_after r s)" by (rule rpc_same) (simp_all add: link_read(1))
  with link_refines_read [OF inv link_read(2,3,5), of E bm f "fst r" "snd r"] link_read(6) show ?thesis by simp
next
  case (link_read_error st off len ec f n r)
  show ?thesis using link_refines_error [OF inv link_read_error(2,4,3)] by (simp add: link_read_error(1))
next
  case (link_close)
  then show ?thesis by (simp add: link_rpc_def)
qed (auto intro!: disjI2 rpc_same simp: server_after_def)

end
