(* ===== verification/ClientServerSpec.thy ===== *)
theory ClientServerSpec
  imports ClientServer
begin

text \<open>
  Properties of the channel of ClientServer: the answers arrive in order, nothing undefined happens
  and an answer remains possible while the calls are two-way, and a one-way call followed by a
  larger one breaks the server.
\<close>

section \<open>Two-way calls only\<close>

abbreviation two_way_step ::
  "thrift_enums \<Rightarrow> int \<Rightarrow> int \<Rightarrow> (u8 list \<Rightarrow> u8 list \<Rightarrow> bool) \<Rightarrow> link \<Rightarrow> link \<Rightarrow> bool" where
  "two_way_step E bm nc P \<equiv> link_step E bm nc (\<lambda>_. False) P"

text \<open>Behind the frame the server is answering its buffer is empty.\<close>

definition quiet :: "link \<Rightarrow> bool" where
  "quiet s \<longleftrightarrow> (\<forall>st out. sr_pending (lk_server s) = Some (AWrite st out) \<longrightarrow>
     sr_recvd (lk_server s) = concat (sr_frames (lk_server s)))"

lemma two_way_all:
  assumes "link_inv (\<lambda>_. False) P s"
  shows "two_way s = lk_calls s" and "answered (\<lambda>_. False) s = lk_served s"
    and "length (lk_calls s) \<le> Suc (length (sr_frames (lk_server s)))"
proof -
  note i = link_invD [OF assms]
  show t: "two_way s = lk_calls s" unfolding two_way_def using i(1) by (intro filter_True) (auto simp: link_logs_def)
  show a: "answered (\<lambda>_. False) s = lk_served s" by (simp add: answered_def)
  have "prefix (map fst (lk_served s)) (sr_frames (lk_server s))" using i(3) by (simp add: down_ok_def)
  then have "length (lk_served s) \<le> length (sr_frames (lk_server s))" using prefix_length_le by fastforce
  with i(4) show "length (lk_calls s) \<le> Suc (length (sr_frames (lk_server s)))"
    by (simp add: match_ok_def t a Let_def)
qed

text \<open>The bytes of the server are those of at most one request beyond the processed ones.\<close>

lemma server_stream:
  assumes inv: "link_inv (\<lambda>_. False) P s" and p: "sr_pending (lk_server s) = Some (ARead st off len)"
  obtains z where "map snd (lk_calls s) = sr_frames (lk_server s) @ z" and "whole_frames z" and "length z \<le> 1"
    and "prefix (contents (sr_conn (lk_server s)) @ lk_up s @ lk_cout s) (concat z)"
    and "sock (cr_conn (lk_client s)) \<noteq> None \<Longrightarrow>
      contents (sr_conn (lk_server s)) @ lk_up s @ lk_cout s = concat z"
    and "reading (sr_conn (lk_server s)) (Some (ARead st off len))"
proof -
  note i = link_invD [OF inv]
  have rd: "reading (sr_conn (lk_server s)) (Some (ARead st off len))"
    and recvd: "sr_recvd (lk_server s) = concat (sr_frames (lk_server s)) @ contents (sr_conn (lk_server s))"
    using i(7) p by (auto simp: sync_inv_def writing_def)
  from frames_are_requests [OF i(1,2)] obtain z where z: "map snd (lk_calls s) = sr_frames (lk_server s) @ z"
    by (auto simp: prefix_def)
  show thesis
  proof (rule that [OF z])
    show "whole_frames z"
    proof -
      have "set z \<subseteq> set (map snd (lk_calls s))" unfolding z by simp
      then show ?thesis using i(1) by (auto simp: whole_frames_def link_logs_def)
    qed
    show "length z \<le> 1" using two_way_all(3) [OF inv] arg_cong [OF z, of length] by simp
    have "concat (map snd (lk_calls s)) = concat (sr_frames (lk_server s)) @ concat z" unfolding z by simp
    then have "prefix (contents (sr_conn (lk_server s)) @ lk_up s @ lk_cout s) (concat z)
        \<and> (sock (cr_conn (lk_client s)) \<noteq> None \<longrightarrow> contents (sr_conn (lk_server s)) @ lk_up s @ lk_cout s = concat z)"
      using i(2) by (simp add: up_ok_def recvd Let_def)
    then show "prefix (contents (sr_conn (lk_server s)) @ lk_up s @ lk_cout s) (concat z)"
      and "sock (cr_conn (lk_client s)) \<noteq> None \<Longrightarrow>
        contents (sr_conn (lk_server s)) @ lk_up s @ lk_cout s = concat z" by simp_all
  qed (rule rd)
qed

lemma request_alone:
  assumes inv: "link_inv (\<lambda>_. False) P s" and p: "sr_pending (lk_server s) = Some (ARead st off len)"
    and up: "lk_up s = bs @ rest" and v: "view_frame (contents (sr_conn (lk_server s)) @ bs) = Frame f r"
  shows "r = []" and "map snd (lk_calls s) = sr_frames (lk_server s) @ [f]"
proof -
  obtain z where z: "map snd (lk_calls s) = sr_frames (lk_server s) @ z" "whole_frames z" "length z \<le> 1"
    "prefix (contents (sr_conn (lk_server s)) @ lk_up s @ lk_cout s) (concat z)"
    using server_stream [OF inv p] by metis
  have pre: "prefix (contents (sr_conn (lk_server s)) @ bs) (concat z)"
    using z(4) append_prefixD [of "contents (sr_conn (lk_server s)) @ bs"] by (simp add: up)
  from frame_in_stream [OF z(2) pre v] z(3) have "z = [f] \<and> prefix r []" by (cases z) auto
  then show "r = []" and "map snd (lk_calls s) = sr_frames (lk_server s) @ [f]" by (simp_all add: z(1))
qed

lemma serve_quiet:
  assumes inv: "link_inv (\<lambda>_. False) P s" and p: "sr_pending (lk_server s) = Some (ARead st off len)"
    and up: "lk_up s = bs @ rest" and bs: "length bs \<le> len" and ans: "sync_answer r"
    and run: "complete_read E (server_vt bm r) off bs (sr_conn (lk_server s)) = Ok (c', as)"
  shows "(processed as = [] \<and> (next_io as = None \<and> (\<exists>k. view_frame (contents (sr_conn (lk_server s)) @ bs) = Illegal k)
        \<or> reading c' (next_io as)))
    \<or> (\<exists>f. processed as = [f] \<and> map snd (lk_calls s) = sr_frames (lk_server s) @ [f]
        \<and> sr_recvd (lk_server s) @ bs = concat (sr_frames (lk_server s)) @ f
        \<and> view_frame (contents (sr_conn (lk_server s)) @ bs) = Frame f []
        \<and> ((\<exists>e. r = Threw e) \<and> next_io as = None
           \<or> (\<exists>out st. r = Replied out \<and> serve_pairs r as = [(f, out)] \<and> next_io as = Some (AWrite st out))))"
proof -
  note i = link_invD [OF inv]
  have rd: "reading (sr_conn (lk_server s)) (Some (ARead st off len))"
    and recvd: "sr_recvd (lk_server s) = concat (sr_frames (lk_server s)) @ contents (sr_conn (lk_server s))"
    using i(7) p by (auto simp: sync_inv_def writing_def)
  then have wf: "conn_wf (sr_conn (lk_server s))" and hd: "header_read (sr_conn (lk_server s))"
    and na: "\<not> async_rpc (sr_conn (lk_server s))" and off: "off = unat (bytes_recv (sr_conn (lk_server s)))"
    and room: "unat (bytes_recv (sr_conn (lk_server s))) + length bs \<le> length (recv_buffer (sr_conn (lk_server s)))"
    using bs by (auto simp: reading_def conn_wf_def)
  note rc = received_facts [OF wf hd room]
  have na': "\<not> async_rpc (received bs (sr_conn (lk_server s)))" using na by (simp add: received_def)
  have run': "handle_buffer E (server_vt bm r) (received bs (sr_conn (lk_server s))) = Ok (c', as)"
    using run unfolding off complete_read_eq [OF wf hd room] .
  from serve_buffer [OF rc(1,3) na' ans run', unfolded rc(2)] show ?thesis
  proof (elim disjE exE conjE)
    fix f r'
    assume v: "view_frame (contents (sr_conn (lk_server s)) @ bs) = Frame f r'" and pr: "processed as = [f]"
    note a = request_alone [OF inv p up v]
    have f: "contents (sr_conn (lk_server s)) @ bs = f" using view_frame_parts [OF v] a(1) by simp
    then have "sr_recvd (lk_server s) @ bs = concat (sr_frames (lk_server s)) @ f" by (simp add: recvd)
    with v a pr show ?thesis if "next_io as = None" "r = Threw e" for e using that by simp
    show ?thesis if "r = Replied out" "serve_pairs r as = [(f, out)]" "next_io as = Some (AWrite st' out)" for out st'
      using that v a pr \<open>sr_recvd (lk_server s) @ bs = concat (sr_frames (lk_server s)) @ f\<close> by simp
  qed blast+
qed

lemma replied_quiet:
  assumes inv: "link_inv ow P s" and q: "quiet s" and p: "sr_pending (lk_server s) = Some (AWrite st out)"
  obtains f where "holds_frame f [] (sr_conn (lk_server s))" and "\<not> async_rpc (sr_conn (lk_server s))"
proof -
  from link_invD(7) [OF inv] p obtain f r where "writing (sr_conn (lk_server s)) (Some (AWrite st out)) f r"
    and "sr_recvd (lk_server s) = concat (sr_frames (lk_server s)) @ r"
    by (auto simp: sync_inv_def reading_def)
  with q p that show thesis by (auto simp: quiet_def writing_def)
qed

lemma replied_reads:
  assumes inv: "link_inv ow P s" and q: "quiet s" and p: "sr_pending (lk_server s) = Some (AWrite st out)"
  shows "\<exists>c' st' len. base_on_handle_write E (server_vt bm r) ec_success n (sr_conn (lk_server s))
      = Ok (c', [ARead st' 0 len])"
proof -
  obtain f where h: "holds_frame f [] (sr_conn (lk_server s))" using replied_quiet [OF inv q p] by blast
  then have "conn_wf (sr_conn (lk_server s))" by (simp add: holds_frame_def)
  from restart_facts [OF this] show ?thesis by (metis on_handle_write_eq [OF h])
qed

lemma quiet_step: "two_way_step E bm nc P s t \<Longrightarrow> link_inv (\<lambda>_. False) P s \<Longrightarrow> quiet s \<Longrightarrow> quiet t"
proof (induction rule: link_step.induct)
  case (link_serve s st off len bs rest r ca)
  obtain c' as where ca: "ca = (c', as)" by (cases ca)
  from serve_quiet [OF link_serve.prems(1) link_serve.hyps(1,2,4,6) link_serve.hyps(5) [unfolded ca]]
  show ?case by (auto simp: quiet_def server_after_def ca reading_def)
next
  case (link_replied s st out r ca)
  from replied_reads [OF link_replied.prems link_replied.hyps(1), of E bm r "length out"] link_replied.hyps(3)
  show ?case by (auto simp: quiet_def server_after_def)
next
  case (link_server_error s io ec r n ca)
  then show ?case using server_error_closes [OF link_server_error.hyps(2), of E bm r n "sr_conn (lk_server s)" "fst ca" "snd ca"]
    by (auto simp: quiet_def server_after_def)
qed (auto simp: quiet_def client_after_def)

lemma quiet_init: "link_init s \<Longrightarrow> quiet s"
  by (auto simp: link_init_def quiet_def sync_init_def start_recv_def Let_def split: if_splits)

interpretation two_way_sys: step_system link_init "two_way_step E bm nc P" "\<lambda>s. link_inv (\<lambda>_. False) P s \<and> quiet s" for E bm nc P
  by unfold_locales (auto intro: link_init_inv link_step_inv quiet_init quiet_step)

section \<open>No undefined behaviour\<close>

lemma client_total:
  assumes inv: "link_inv ow P s" and nz: "size_codes_nonzero E"
  shows "cr_io (lk_client s) = Some (ARead st off len) \<Longrightarrow> length bs \<le> len \<Longrightarrow>
      \<exists>c' as. client_complete_read E bm f off bs (cr_conn (lk_client s)) = Ok (c', as)"
    and "cr_io (lk_client s) = Some (AWrite st out) \<Longrightarrow>
      \<exists>c' as. client_on_handle_write ec (cr_conn (lk_client s)) = Ok (c', as)"
proof -
  note i = link_invD [OF inv]
  show "\<exists>c' as. client_complete_read E bm f off bs (cr_conn (lk_client s)) = Ok (c', as)"
    if io: "cr_io (lk_client s) = Some (ARead st off len)" and bs: "length bs \<le> len"
  proof -
    obtain op where op: "pending_op (cr_conn (lk_client s)) = Some op"
      and w: "client_waits (cr_conn (lk_client s)) (Some (ARead st off len))"
      using i(6) io by (elim invE_pending) auto
    note eq = client_read_eq [OF w op bs]
    show ?thesis using client_handle_buffer_total [OF eq(2,3,4) nz] by (simp add: eq(1))
  qed
  show "\<exists>c' as. client_on_handle_write ec (cr_conn (lk_client s)) = Ok (c', as)"
    if "cr_io (lk_client s) = Some (AWrite st out)"
    using client_write_cases [OF i(6) that, of ec] by blast
qed

lemma serve_total:
  assumes inv: "link_inv ow P s" and p: "sr_pending (lk_server s) = Some (ARead st off len)"
    and bs: "length bs \<le> len" and ans: "sync_answer r"
  shows "\<exists>c' as. complete_read E (server_vt bm r) off bs (sr_conn (lk_server s)) = Ok (c', as)"
proof -
  have rd: "reading (sr_conn (lk_server s)) (Some (ARead st off len))"
    using link_invD(7) [OF inv] p by (auto simp: sync_inv_def writing_def)
  then have wf: "conn_wf (sr_conn (lk_server s))" and hd: "header_read (sr_conn (lk_server s))"
    and na: "\<not> async_rpc (sr_conn (lk_server s))" and off: "off = unat (bytes_recv (sr_conn (lk_server s)))"
    and room: "unat (bytes_recv (sr_conn (lk_server s))) + length bs \<le> length (recv_buffer (sr_conn (lk_server s)))"
    using bs by (auto simp: reading_def conn_wf_def)
  note rc = received_facts [OF wf hd room]
  have na': "\<not> async_rpc (received bs (sr_conn (lk_server s)))" using na by (simp add: received_def)
  show ?thesis unfolding off complete_read_eq [OF wf hd room] by (rule sync_handle_buffer_total [OF rc(1,3) na' ans])
qed

text \<open>An error of an operation of the server.\<close>

lemma server_error:
  assumes "ec_is_error ec"
  shows "\<exists>c'. sock c' = None \<and> base_on_handle_read E (server_vt bm r) ec n c = Ok (c', conn_destructor c)
    \<and> base_on_handle_write E (server_vt bm r) ec n c = Ok (c', conn_destructor c)"
  using assms by (auto simp: base_on_handle_read_def base_on_handle_write_def server_vt_def server_on_close_def
      base_on_close_def conn_destructor_def Let_def)

text \<open>C4: As long as the calls are two-way no handler of either side fails an assertion or reaches
  undefined behaviour: in every reachable state each completion of the operation under way, with
  success or with an error, is handled.  On the server in particular the end of a write, where the
  overlapping memcpy never runs.  An error of the client's operation drops its socket and invokes the
  callback of the pending call with that code; an error of the server's drops the socket, takes the
  connection out of its manager and deletes it, and neither starts another operation.\<close>

theorem two_way_never_undefined:
  assumes "reach link_init (two_way_step E bm nc P) s" and nz: "size_codes_nonzero E" and ans: "sync_answer r"
  shows "(\<forall>st off len bs. cr_io (lk_client s) = Some (ARead st off len) \<and> length bs \<le> len \<longrightarrow>
        (\<exists>c as. client_complete_read E bm f off bs (cr_conn (lk_client s)) = Ok (c, as)))
    \<and> (\<forall>st out ec. cr_io (lk_client s) = Some (AWrite st out) \<longrightarrow>
        (\<exists>c as. client_on_handle_write ec (cr_conn (lk_client s)) = Ok (c, as)))
    \<and> (\<forall>io ec n. cr_io (lk_client s) = Some io \<and> ec_is_error ec \<longrightarrow>
        (\<exists>op c. pending_op (cr_conn (lk_client s)) = Some op \<and> pending_op c = None \<and> sock c = None
          \<and> client_on_handle_read E bm f ec n (cr_conn (lk_client s)) = Ok (c, [AExt (Invoke (op_callback op) ec)])
          \<and> client_on_handle_write ec (cr_conn (lk_client s)) = Ok (c, [AExt (Invoke (op_callback op) ec)])))
    \<and> (\<forall>st off len bs. sr_pending (lk_server s) = Some (ARead st off len) \<and> length bs \<le> len \<longrightarrow>
        (\<exists>c as. complete_read E (server_vt bm r) off bs (sr_conn (lk_server s)) = Ok (c, as)))
    \<and> (\<forall>st out n. sr_pending (lk_server s) = Some (AWrite st out) \<longrightarrow>
        (\<exists>c as. base_on_handle_write E (server_vt bm r) ec_success n (sr_conn (lk_server s)) = Ok (c, as)))
    \<and> (\<forall>io ec n. sr_pending (lk_server s) = Some io \<and> ec_is_error ec \<longrightarrow>
        (\<exists>c as. as = (if has_manager (sr_conn (lk_server s)) then [AExt Erased, AExt Deleted] else [AExt Deleted])
          \<and> sock c = None \<and> base_on_handle_read E (server_vt bm r) ec n (sr_conn (lk_server s)) = Ok (c, as)
          \<and> base_on_handle_write E (server_vt bm r) ec n (sr_conn (lk_server s)) = Ok (c, as)))"
proof (intro conjI allI impI; (elim conjE)?)
  have inv: "link_inv (\<lambda>_. False) P s" and q: "quiet s" using two_way_sys.reachable_inv [OF assms(1)] by auto
  fix st off len n ec and bs out :: "u8 list" and io :: "client_effect action" and sio :: "server_effect action"
  show "\<exists>c as. client_complete_read E bm f off bs (cr_conn (lk_client s)) = Ok (c, as)"
    if "cr_io (lk_client s) = Some (ARead st off len)" "length bs \<le> len"
    using client_total(1) [OF inv nz that] .
  show "\<exists>c as. client_on_handle_write ec (cr_conn (lk_client s)) = Ok (c, as)"
    if "cr_io (lk_client s) = Some (AWrite st out)"
    using client_total(2) [OF inv nz that] .
  show "\<exists>op c. pending_op (cr_conn (lk_client s)) = Some op \<and> pending_op c = None \<and> sock c = None
      \<and> client_on_handle_read E bm f ec n (cr_conn (lk_client s)) = Ok (c, [AExt (Invoke (op_callback op) ec)])
      \<and> client_on_handle_write ec (cr_conn (lk_client s)) = Ok (c, [AExt (Invoke (op_callback op) ec)])"
    if "cr_io (lk_client s) = Some io" "ec_is_error ec"
  proof -
    have "cr_io (lk_client s) \<noteq> None" using that(1) by simp
    from invE_pending [OF link_invD(6) [OF inv] this] obtain op where "pending_op (cr_conn (lk_client s)) = Some op" by blast
    with client_error [OF this that(2)] show ?thesis by blast
  qed
  show "\<exists>c as. complete_read E (server_vt bm r) off bs (sr_conn (lk_server s)) = Ok (c, as)"
    if "sr_pending (lk_server s) = Some (ARead st off len)" "length bs \<le> len"
    using serve_total [OF inv that ans] .
  show "\<exists>c as. base_on_handle_write E (server_vt bm r) ec_success n (sr_conn (lk_server s)) = Ok (c, as)"
    if "sr_pending (lk_server s) = Some (AWrite st out)"
    using replied_reads [OF inv q that] by blast
  show "\<exists>c as. as = (if has_manager (sr_conn (lk_server s)) then [AExt Erased, AExt Deleted] else [AExt Deleted])
      \<and> sock c = None \<and> base_on_handle_read E (server_vt bm r) ec n (sr_conn (lk_server s)) = Ok (c, as)
      \<and> base_on_handle_write E (server_vt bm r) ec n (sr_conn (lk_server s)) = Ok (c, as)"
    if "sr_pending (lk_server s) = Some sio" "ec_is_error ec"
    using server_error [OF that(2), of E bm r n "sr_conn (lk_server s)"] by (auto simp: conn_destructor_def)
qed

section \<open>An answer stays possible\<close>

lemma view_frame_Illegal_append: "view_frame bs = Illegal k \<Longrightarrow> view_frame (bs @ xs) = Illegal k"
proof -
  assume v: "view_frame bs = Illegal k"
  then have "kFrameSize \<le> length bs" by (auto simp: view_frame_def split: if_splits)
  then have "be_nat (bs @ xs) = be_nat bs" by (simp add: be_nat_def kFrameSize_def)
  with v show ?thesis by (auto simp: view_frame_def split: if_splits)
qed

lemma stream_not_illegal:
  assumes "whole_frames gs" and "prefix bs (concat gs)"
  shows "view_frame bs \<noteq> Illegal k"
proof
  assume v: "view_frame bs = Illegal k"
  from assms(2) obtain z where z: "concat gs = bs @ z" by (auto simp: prefix_def)
  from view_frame_Illegal_append [OF v, of z] have w: "view_frame (concat gs) = Illegal k" by (simp add: z)
  then obtain g hs where g: "gs = g # hs" by (cases gs) (auto simp: view_frame_def kFrameSize_def)
  with assms(1) have "view_frame g = Frame g []" by (simp add: whole_frames_def)
  from view_frame_append [OF this, of "concat hs"] w g show False by simp
qed

lemma stream_waits_empty:
  assumes "whole_frames gs" and "view_frame (concat gs) = NeedMore"
  shows "gs = []"
proof (rule ccontr)
  assume "gs \<noteq> []"
  then obtain g hs where g: "gs = g # hs" by (cases gs) auto
  with assms(1) have "view_frame g = Frame g []" by (simp add: whole_frames_def)
  from view_frame_append [OF this, of "concat hs"] assms(2) g show False by simp
qed

text \<open>A step toward the answer: the answer itself, or the same call with less left to do.\<close>

definition to_do :: "(link \<times> link) set" where
  "to_do = measures [\<lambda>s. length (lk_calls s) - length (lk_served s), \<lambda>s. length (lk_cout s),
     \<lambda>s. if \<exists>st out. cr_io (lk_client s) = Some (AWrite st out) then 1 else 0, \<lambda>s. length (lk_up s),
     \<lambda>s. length (lk_sout s), \<lambda>s. if \<exists>st out. sr_pending (lk_server s) = Some (AWrite st out) then 1 else 0,
     \<lambda>s. length (lk_down s)]"

definition nearer :: "(u8 list \<Rightarrow> u8 list \<Rightarrow> bool) \<Rightarrow> link \<Rightarrow> link \<Rightarrow> bool" where
  "nearer P s t \<longleftrightarrow>
     (pending_op (cr_conn (lk_client t)) = pending_op (cr_conn (lk_client s)) \<and> sr_pending (lk_server t) \<noteq> None
        \<and> lk_results t = lk_results s \<and> lk_calls t = lk_calls s \<and> (t, s) \<in> to_do)
     \<or> (\<exists>op rep ec. pending_op (cr_conn (lk_client s)) = Some op
          \<and> lk_results t = lk_results s @ [(op_callback op, Some rep, ec)] \<and> P (snd (last (lk_calls s))) rep)"

lemma wf_to_do: "wf to_do"
  by (simp add: to_do_def)

lemma nearer_transfer:
  assumes "sr_pending (lk_server s) \<noteq> None"
  shows "lk_cout s \<noteq> [] \<Longrightarrow> nearer P s (s\<lparr>lk_cout := [], lk_up := lk_up s @ lk_cout s\<rparr>)"
    and "lk_sout s \<noteq> [] \<Longrightarrow> nearer P s (s\<lparr>lk_sout := [], lk_down := lk_down s @ lk_sout s\<rparr>)"
  using assms by (simp_all add: nearer_def to_do_def)

lemma prefix_taken: "prefix (xs @ ys @ zs) ws \<Longrightarrow> prefix (xs @ take n ys) ws"
  by (metis append.assoc append_take_drop_id append_prefixD)

lemma advance_wrote:
  assumes inv: "link_inv (\<lambda>_. False) P s" and nz: "size_codes_nonzero E" and alive: "sr_pending (lk_server s) \<noteq> None"
    and io: "cr_io (lk_client s) = Some (AWrite st out)" and co: "lk_cout s = []"
  shows "\<exists>t. two_way_step E bm nc P s t \<and> nearer P s t"
proof -
  note i = link_invD [OF inv]
  obtain op where op: "pending_op (cr_conn (lk_client s)) = Some op" using i(6) io by (auto elim: invE_pending)
  obtain c' as where run: "client_on_handle_write ec_success (cr_conn (lk_client s)) = Ok (c', as)"
    using client_total(2) [OF inv nz io] by blast
  have "\<not> op_oneway op" using i(1,5) op by (force simp: client_ok_def link_logs_def Let_def)
  with client_wrote [OF op run] have r: "results as = []" "pending_op c' = Some op"
    "\<exists>st off len. next_io as = Some (ARead st off len)" by blast+
  have "nearer P s (client_after (c', as) s)"
    unfolding nearer_def using r op alive io co by (auto simp: to_do_def client_after_def after_client_def)
  with link_wrote [OF io co run] show ?thesis by blast
qed

lemma advance_read:
  assumes inv: "link_inv (\<lambda>_. False) P s" and nz: "size_codes_nonzero E" and alive: "sr_pending (lk_server s) \<noteq> None"
    and io: "cr_io (lk_client s) = Some (ARead st off len)" and d: "lk_down s \<noteq> []"
  shows "\<exists>t. two_way_step E bm nc P s t \<and> nearer P s t"
proof -
  note i = link_invD [OF inv]
  obtain op where op: "pending_op (cr_conn (lk_client s)) = Some op"
    and w: "client_waits (cr_conn (lk_client s)) (Some (ARead st off len))"
    using i(6) io by (elim invE_pending) auto
  let ?bs = "take len (lk_down s)" and ?rest = "drop len (lk_down s)"
  have len: "0 < len" using w by (auto simp: client_waits_def)
  have cut: "lk_down s = ?bs @ ?rest" "?bs \<noteq> []" "length ?bs \<le> len" using len d by auto
  obtain c' as where run: "client_complete_read E bm None off ?bs (cr_conn (lk_client s)) = Ok (c', as)"
    using client_total(1) [OF inv nz io cut(3)] by blast
  let ?t = "(client_after (c', as) s)\<lparr>lk_down := ?rest, lk_got := lk_got s @ ?bs\<rparr>"
  have step: "two_way_step E bm nc P s ?t" by (rule link_read [OF io cut run])
  note cs = client_stream [OF inv op io refl refl]
  have pre: "prefix (contents (cr_conn (lk_client s)) @ ?bs)
      (concat (drop (length (fills (lk_results s))) (map snd (answered (\<lambda>_. False) s))))"
    by (rule prefix_taken [OF cs(4)])
  from client_reads [OF w op cut(3) run] have "nearer P s ?t"
  proof (elim disjE exE conjE)
    fix st' off' len'
    assume "results as = []" "pending_op c' = Some op" "next_io as = Some (ARead st' off' len')"
    then show ?thesis unfolding nearer_def
      using op alive io len d by (auto simp: to_do_def client_after_def after_client_def)
  next
    fix k assume "view_frame (contents (cr_conn (lk_client s)) @ ?bs) = Illegal k"
    with stream_not_illegal [OF cs(1) pre] show ?thesis by blast
  next
    fix g r' ec
    assume v: "view_frame (contents (cr_conn (lk_client s)) @ ?bs) = Frame g r'"
      and r: "results as = [(op_callback op, Some g, ec)]"
    note a = frame_is_answer [OF inv op io cut(1) v refl]
    let ?x = "answered (\<lambda>_. False) s ! length (fills (lk_results s))"
    have "?x \<in> set (answered (\<lambda>_. False) s)" using a(1) by simp
    then have "answer_ok (\<lambda>_. False) P (fst ?x) (snd ?x)" using i(1) by (simp add: link_logs_def answered_def)
    then have "P (snd (last (lk_calls s))) g" using a by (simp add: answer_ok_def)
    with r op show ?thesis unfolding nearer_def by (simp add: client_after_def)
  qed
  with step show ?thesis by blast
qed

lemma advance_replied:
  assumes inv: "link_inv (\<lambda>_. False) P s" and q: "quiet s"
    and io: "sr_pending (lk_server s) = Some (AWrite st out)" and so: "lk_sout s = []"
  shows "\<exists>t. two_way_step E bm nc P s t \<and> nearer P s t"
proof -
  obtain c' st' len where run: "base_on_handle_write E (server_vt bm (Replied [])) ec_success (length out)
      (sr_conn (lk_server s)) = Ok (c', [ARead st' 0 len])"
    using replied_reads [OF inv q io] by blast
  let ?t = "server_after [] (Replied []) (c', [ARead st' 0 len]) s"
  have "two_way_step E bm nc P s ?t"
    by (rule link_replied [OF io so run]) (simp_all add: sync_answer_def)
  moreover have "nearer P s ?t"
    unfolding nearer_def using io so by (simp add: to_do_def server_after_def serve_pairs_def)
  ultimately show ?thesis by blast
qed

lemma advance_serve:
  assumes inv: "link_inv (\<lambda>_. False) P s" and io: "sr_pending (lk_server s) = Some (ARead st off len)"
    and up: "lk_up s \<noteq> []" and so: "lk_sout s = []"
    and tot: "\<And>f. view_frame f = Frame f [] \<Longrightarrow> \<exists>out. answer_ok (\<lambda>_. False) P f out"
  shows "\<exists>t. two_way_step E bm nc P s t \<and> nearer P s t"
proof -
  note i = link_invD [OF inv]
  obtain z where z: "whole_frames z" "prefix (contents (sr_conn (lk_server s)) @ lk_up s @ lk_cout s) (concat z)"
    "reading (sr_conn (lk_server s)) (Some (ARead st off len))"
    using server_stream [OF inv io] by metis
  let ?bs = "take len (lk_up s)" and ?rest = "drop len (lk_up s)"
  have len: "0 < len" using z(3) by (auto simp: reading_def)
  have cut: "lk_up s = ?bs @ ?rest" "?bs \<noteq> []" "length ?bs \<le> len" using len up by auto
  have pre: "prefix (contents (sr_conn (lk_server s)) @ ?bs) (concat z)"
    by (rule prefix_taken [OF z(2)])
  have legal: "view_frame (contents (sr_conn (lk_server s)) @ ?bs) \<noteq> Illegal k" for k
    by (rule stream_not_illegal [OF z(1) pre])
  obtain r where r: "sync_answer r" "\<exists>out. r = Replied out"
    "\<And>f x. view_frame (contents (sr_conn (lk_server s)) @ ?bs) = Frame f x \<Longrightarrow> answers (\<lambda>_. False) P r f"
  proof (cases "view_frame (contents (sr_conn (lk_server s)) @ ?bs)")
    case (Frame f x)
    with tot [OF view_frame_of_frame [OF Frame]] show thesis
      by (auto intro: that [of "Replied _"] simp: sync_answer_def answers_def)
  qed (rule that [of "Replied []"]; simp add: sync_answer_def)+
  obtain c' as where run: "complete_read E (server_vt bm r) off ?bs (sr_conn (lk_server s)) = Ok (c', as)"
    using serve_total [OF inv io cut(3) r(1)] by blast
  let ?t = "(server_after ?bs r (c', as) s)\<lparr>lk_up := ?rest\<rparr>"
  note sq = serve_quiet [OF inv io cut(1) cut(3) r(1) run]
  have "list_all (answers (\<lambda>_. False) P r) (processed as)" using sq r(3) by auto
  then have step: "two_way_step E bm nc P s ?t"
    using link_serve [OF io cut run r(1)] by simp
  have fr: "map fst (lk_served s) = sr_frames (lk_server s)" using i(3) io by (simp add: down_ok_def)
  from sq have "nearer P s ?t"
  proof (elim disjE exE conjE)
    assume n: "processed as = []" "reading c' (next_io as)"
    then have "written as = []" by (auto dest: reading_not_written)
    with n show ?thesis unfolding nearer_def using len up so io
      by (auto simp: to_do_def server_after_def serve_pairs_Nil reading_def)
  next
    fix f out st'
    assume "map snd (lk_calls s) = sr_frames (lk_server s) @ [f]" "serve_pairs r as = [(f, out)]"
      "next_io as = Some (AWrite st' out)"
    moreover from this have "length (lk_calls s) = Suc (length (lk_served s))"
      using arg_cong [OF fr, of length] by (metis length_append_singleton length_map)
    ultimately show ?thesis unfolding nearer_def by (simp add: to_do_def server_after_def)
  qed (use legal r(2) in auto)
  with step show ?thesis by blast
qed

lemma not_stuck:
  assumes inv: "link_inv (\<lambda>_. False) P s" and op: "pending_op (cr_conn (lk_client s)) = Some op"
    and io: "cr_io (lk_client s) = Some (ARead st off len)"
    and sio: "sr_pending (lk_server s) = Some (ARead st' off' len')"
    and none: "lk_up s = []" "lk_sout s = []" "lk_down s = []"
  shows False
proof -
  note i = link_invD [OF inv]
  have co: "lk_cout s = []" using i(2) io by (simp add: up_ok_def)
  have sk: "sock (cr_conn (lk_client s)) \<noteq> None" using i(5) op by (simp add: client_ok_def Let_def)
  obtain z where z: "map snd (lk_calls s) = sr_frames (lk_server s) @ z" "whole_frames z"
    "contents (sr_conn (lk_server s)) @ lk_up s @ lk_cout s = concat z"
    "reading (sr_conn (lk_server s)) (Some (ARead st' off' len'))"
    using server_stream [OF inv sio] sk by metis
  have "view_frame (concat z) = NeedMore" using z(3,4) none co by (simp add: reading_def)
  from stream_waits_empty [OF z(2) this] have "map snd (lk_calls s) = sr_frames (lk_server s)" by (simp add: z(1))
  moreover have "map fst (lk_served s) = sr_frames (lk_server s)" using i(3) sio by (simp add: down_ok_def)
  ultimately have len: "length (lk_served s) = length (lk_calls s)" by (metis length_map)
  note cs = client_stream [OF inv op io refl refl]
  have "contents (cr_conn (lk_client s))
      = concat (drop (length (fills (lk_results s))) (map snd (answered (\<lambda>_. False) s)))"
    using cs(5) sio none by simp
  moreover have "view_frame (contents (cr_conn (lk_client s))) = NeedMore"
    using i(6) op io by (simp add: client_inv_def client_waits_def)
  ultimately have "drop (length (fills (lk_results s))) (map snd (answered (\<lambda>_. False) s)) = []"
    using stream_waits_empty [OF cs(1)] by simp
  then show False using cs(2) len by (simp add: two_way_all [OF inv])
qed

lemma link_advances:
  assumes inv: "link_inv (\<lambda>_. False) P s" and q: "quiet s" and nz: "size_codes_nonzero E"
    and op: "pending_op (cr_conn (lk_client s)) = Some op" and alive: "sr_pending (lk_server s) \<noteq> None"
    and tot: "\<And>f. view_frame f = Frame f [] \<Longrightarrow> \<exists>out. answer_ok (\<lambda>_. False) P f out"
  shows "\<exists>t. two_way_step E bm nc P s t \<and> nearer P s t"
proof -
  note i = link_invD [OF inv]
  consider (cout) "lk_cout s \<noteq> []" | (wrote) st out where "cr_io (lk_client s) = Some (AWrite st out)" "lk_cout s = []"
    | (read) st off len where "cr_io (lk_client s) = Some (ARead st off len)"
    using i(6) op by (auto simp: client_inv_def client_waits_def)
  then show ?thesis
  proof cases
    case cout
    have "two_way_step E bm nc P s (s\<lparr>lk_cout := [], lk_up := lk_up s @ lk_cout s\<rparr>)"
      using link_up [of s "lk_cout s" "[]"] cout by simp
    with nearer_transfer(1) [OF alive cout] show ?thesis by blast
  next
    case wrote
    then show ?thesis by (rule advance_wrote [OF inv nz alive])
  next
    case read
    have "(\<exists>st out. sr_pending (lk_server s) = Some (AWrite st out))
        \<or> (\<exists>st off len. sr_pending (lk_server s) = Some (ARead st off len))"
      using i(7) alive by (auto simp: sync_inv_def reading_def writing_def)
    then consider (down) "lk_down s \<noteq> []" | (sout) "lk_sout s \<noteq> []"
      | (replied) st out where "sr_pending (lk_server s) = Some (AWrite st out)" "lk_sout s = []"
      | (serve) st off len where "sr_pending (lk_server s) = Some (ARead st off len)" "lk_up s \<noteq> []" "lk_sout s = []"
      | (stuck) st off len where "sr_pending (lk_server s) = Some (ARead st off len)" "lk_up s = []" "lk_sout s = []"
          "lk_down s = []" by blast
    then show ?thesis
    proof cases
      case down
      with read show ?thesis by (intro advance_read [OF inv nz alive])
    next
      case sout
      have "two_way_step E bm nc P s (s\<lparr>lk_sout := [], lk_down := lk_down s @ lk_sout s\<rparr>)"
        using link_down [of s "lk_sout s" "[]"] sout by simp
      with nearer_transfer(2) [OF alive sout] show ?thesis by blast
    next
      case replied
      then show ?thesis by (rule advance_replied [OF inv q])
    next
      case serve
      then show ?thesis by (rule advance_serve [OF inv]) (rule tot)
    next
      case stuck
      then show ?thesis using not_stuck [OF inv op read] by blast
    qed
  qed
qed

lemma call_answered:
  assumes "reach link_init (two_way_step E bm nc P) s" and nz: "size_codes_nonzero E"
    and "pending_op (cr_conn (lk_client s)) = Some op" and "sr_pending (lk_server s) \<noteq> None"
    and tot: "\<And>f. view_frame f = Frame f [] \<Longrightarrow> \<exists>out. P f out \<and> view_frame out = Frame out []"
  shows "\<exists>t rep ec. (two_way_step E bm nc P)\<^sup>*\<^sup>* s t \<and> P (snd (last (lk_calls s))) rep
    \<and> lk_results t = lk_results s @ [(op_callback op, Some rep, ec)]"
  using wf_to_do assms(1,3,4)
proof (induction s rule: wf_induct_rule)
  case (less s)
  have inv: "link_inv (\<lambda>_. False) P s" and q: "quiet s" using two_way_sys.reachable_inv [OF less.prems(1)] by auto
  have tot': "\<exists>out. answer_ok (\<lambda>_. False) P f out" if "view_frame f = Frame f []" for f
    using tot [OF that] by (simp add: answer_ok_def)
  obtain t where step: "two_way_step E bm nc P s t" and near: "nearer P s t"
    using link_advances [OF inv q nz less.prems(2,3) tot'] by blast
  from near show ?case
    unfolding nearer_def
  proof (elim disjE exE conjE)
    assume t: "pending_op (cr_conn (lk_client t)) = pending_op (cr_conn (lk_client s))" "sr_pending (lk_server t) \<noteq> None"
      "lk_results t = lk_results s" "lk_calls t = lk_calls s" "(t, s) \<in> to_do"
    have "reach link_init (two_way_step E bm nc P) t" using less.prems(1) step by (rule reach_step)
    from less.IH [OF t(5) this _ t(2)] t less.prems(2) obtain u rep ec where u: "(two_way_step E bm nc P)\<^sup>*\<^sup>* t u"
      "P (snd (last (lk_calls s))) rep" "lk_results u = lk_results s @ [(op_callback op, Some rep, ec)]" by auto
    from converse_rtranclp_into_rtranclp [of "two_way_step E bm nc P", OF step u(1)] u(2,3) show ?case by blast
  next
    fix op' rep ec
    assume "pending_op (cr_conn (lk_client s)) = Some op'" "P (snd (last (lk_calls s))) rep"
      "lk_results t = lk_results s @ [(op_callback op', Some rep, ec)]"
    with step less.prems(2) show ?case by (metis option.inject r_into_rtranclp)
  qed
qed

text \<open>C3: While both sides are alive no two-way call is ever stuck: from every reachable state with a
  call pending, if the processor has an answer to every request, steps without a failure lead to
  its callback with an answer the processor may give to its request.
\<close>

theorem pending_call_can_be_answered:
  assumes "reach link_init (two_way_step E bm nc P) s" and nz: "size_codes_nonzero E"
    and "pending_op (cr_conn (lk_client s)) = Some op" and "sr_pending (lk_server s) \<noteq> None"
    and tot: "\<And>f. view_frame f = Frame f [] \<Longrightarrow> \<exists>out. P f out \<and> view_frame out = Frame out []"
  shows "\<exists>t rep ec. (two_way_step E bm nc P)\<^sup>*\<^sup>* s t \<and> P (snd (last (lk_calls s))) rep
    \<and> lk_results t = lk_results s @ [(op_callback op, Some rep, ec)]"
  using call_answered [OF assms] .

section \<open>The refinement\<close>

text \<open>C2: The channel refines the abstract remote procedure call: whatever the network and the
  processor do, in every reachable state the calls and their results are those of a run of the
  abstract system, in which at most one call is pending and its callback gets an answer the
  processor gave to its own request, or an error code, or, for a one-way call, success without an
  answer.
\<close>

theorem link_refines_rpc:
  assumes "reach link_init (link_step E bm nc ow P) s" and nc: "nc \<noteq> 0"
  shows "reach rpc_init (rpc_step ow P) (link_rpc s)"
  using assms(1)
proof (induction rule: reach.induct)
  case (reach_init s)
  then have "rpc_init (link_rpc s)" by (auto simp: link_init_def rpc_init_def link_rpc_def)
  then show ?case by (rule reach.reach_init)
next
  case (reach_step s t)
  from link_step_refines [OF reach_step.hyps(2) link_sys.reachable_inv [OF reach_step.hyps(1)] nc]
  show ?case
  proof
    assume "rpc_step ow P (link_rpc s) (link_rpc t)"
    with reach_step.IH show ?thesis by (rule reach.reach_step)
  qed (use reach_step.IH in simp)
qed

section \<open>Answers in order\<close>

text \<open>C5: In every reachable state the callbacks that got an answer are those of the first two-way
  calls, in the order of the calls, each with the answer the server gave to that call's request.
\<close>

theorem answers_in_order:
  assumes "reach link_init (link_step E bm nc ow P) s"
  shows "\<exists>n. n \<le> length (two_way s) \<and> length (two_way s) \<le> Suc n
    \<and> map fst (fills (lk_results s)) = map (op_callback \<circ> fst) (take n (two_way s))
    \<and> map snd (fills (lk_results s)) = map snd (take n (answered ow s))
    \<and> map fst (take n (answered ow s)) = map snd (take n (two_way s))"
proof -
  have inv: "link_inv ow P s" by (rule link_sys.reachable_inv [OF assms])
  note i = link_invD [OF inv]
  let ?n = "length (fills (lk_results s))"
  from answered_are_two_way [OF i(1-3)] obtain z where z: "map snd (two_way s) = map fst (answered ow s) @ z"
    by (auto simp: prefix_def)
  have m: "?n \<le> length (answered ow s)" "?n \<le> length (two_way s)" "length (two_way s) \<le> Suc ?n"
    "map fst (fills (lk_results s)) = map (op_callback \<circ> fst) (take ?n (two_way s))"
    "map snd (fills (lk_results s)) = map snd (take ?n (answered ow s))"
    using i(4) by (simp_all add: match_ok_def Let_def)
  have "take ?n (map snd (two_way s)) = take ?n (map fst (answered ow s))" unfolding z using m(1) by simp
  with m(2-5) show ?thesis by (intro exI [of _ ?n]) (simp add: take_map)
qed

section \<open>Runs\<close>

lemma call_step:
  assumes op: "conn_is_open (cr_conn (lk_client s))" "pending_op (cr_conn (lk_client s)) = None"
    and out: "view_frame out = Frame out []" "op_oneway op = ow out"
  obtains t st where "link_step E bm nc ow P s t" "lk_server t = lk_server s" "lk_up t = lk_up s" "lk_cout t = out"
    "cr_io (lk_client t) = Some (AWrite st out)" "pending_op (cr_conn (lk_client t)) = Some op"
    "conn_is_open (cr_conn (lk_client t))" "lk_calls t = lk_calls s @ [(op, out)]" "lk_results t = lk_results s"
    "lk_sout t = lk_sout s"
proof -
  let ?c = "(cr_conn (lk_client s))\<lparr>pending_op := Some op, output_buffer := out\<rparr>"
  have run: "async_call nc op out (cr_conn (lk_client s)) = Ok (?c, [AWrite (strand (cr_conn (lk_client s)) \<noteq> None) out])"
    using op by (simp add: async_call_def)
  show thesis
    by (rule that [OF link_call [where ow = ow and op = op and out = out, OF run out]]) (use op in \<open>simp_all add: conn_is_open_def\<close>)
qed

lemma oneway_step:
  assumes op: "conn_is_open (cr_conn (lk_client s))" "pending_op (cr_conn (lk_client s)) = None"
    and out: "view_frame out = Frame out []" "op_oneway op" "ow out"
  obtains t where "(link_step E bm nc ow P)\<^sup>*\<^sup>* s t" "lk_server t = lk_server s" "lk_up t = lk_up s @ out" "lk_cout t = []"
    "conn_is_open (cr_conn (lk_client t))" "pending_op (cr_conn (lk_client t)) = None"
    "lk_calls t = lk_calls s @ [(op, out)]" "lk_sout t = lk_sout s"
proof -
  have owop: "op_oneway op = ow out" using out by simp
  obtain t st where t: "link_step E bm nc ow P s t" "lk_server t = lk_server s" "lk_up t = lk_up s" "lk_cout t = out"
    "cr_io (lk_client t) = Some (AWrite st out)" "pending_op (cr_conn (lk_client t)) = Some op"
    "conn_is_open (cr_conn (lk_client t))" "lk_calls t = lk_calls s @ [(op, out)]" "lk_results t = lk_results s"
    "lk_sout t = lk_sout s"
    using call_step [where ow = ow and op = op, OF op out(1) owop] by metis
  let ?u = "t\<lparr>lk_cout := [], lk_up := lk_up t @ out\<rparr>"
  have u: "link_step E bm nc ow P t ?u"
    using link_up [of t out "[]"] view_frame_not_empty [OF out(1)] t(4) by simp
  let ?c = "(cr_conn (lk_client t))\<lparr>pending_op := None\<rparr>"
  have run: "client_on_handle_write ec_success (cr_conn (lk_client ?u)) = Ok (?c, [AExt (Invoke (op_callback op) ec_success)])"
    using t(6) out(2) by (simp add: client_on_handle_write_def complete_pending_op_def ec_is_error_def ec_success_def)
  have v: "link_step E bm nc ow P ?u (client_after (?c, [AExt (Invoke (op_callback op) ec_success)]) ?u)"
    by (rule link_wrote [OF _ _ run, of st out]) (simp_all add: t(5))
  show thesis
  proof (rule that)
    show "(link_step E bm nc ow P)\<^sup>*\<^sup>* s (client_after (?c, [AExt (Invoke (op_callback op) ec_success)]) ?u)"
      using t(1) u v by (meson converse_rtranclp_into_rtranclp rtranclp.rtrancl_refl)
  qed (use t(7) in \<open>simp_all add: client_after_def after_client_def conn_is_open_def t(2,3,8,10)\<close>)
qed

lemma reach_steps: "reach init step s \<Longrightarrow> step\<^sup>*\<^sup>* s t \<Longrightarrow> reach init step t"
  by (rotate_tac, induction rule: rtranclp.induct) (auto intro: reach_step)

text \<open>The channel at its start: the server waits for bytes, the client is idle.\<close>

lemma start_run:
  obtains s where "reach link_init step s" "lk_up s = []" "lk_cout s = []" "lk_calls s = []" "lk_results s = []" "lk_sout s = []"
    "conn_is_open (cr_conn (lk_client s))" "pending_op (cr_conn (lk_client s)) = None"
    "sr_pending (lk_server s) = Some (ARead False 0 4096)" "conn_wf (sr_conn (lk_server s))"
    "header_read (sr_conn (lk_server s))" "contents (sr_conn (lk_server s)) = []"
    "bytes_recv (sr_conn (lk_server s)) = 0" "\<not> async_rpc (sr_conn (lk_server s))"
    "strand (sr_conn (lk_server s)) = None" "length (recv_buffer (sr_conn (lk_server s))) = 4096"
proof -
  obtain c where c: "start_recv True (server_conn_of (conn_on_service 0 7) False)
      = Ok (c, [ARead False 0 4096 :: server_effect action])"
    and wf: "conn_wf c" "header_read c" "contents c = []" "bytes_recv c = 0" "\<not> async_rpc c" "strand c = None"
      "length (recv_buffer c) = 4096"
    by (rule sync_first_read)
  let ?srv = "\<lparr>sr_conn = c, sr_pending = Some (ARead False 0 4096), sr_recvd = [], sr_frames = []\<rparr>"
  have "sync_init ?srv" using c by (force simp: sync_init_def)
  then have init: "link_init
     \<lparr>lk_client = \<lparr>cr_conn = client_of (conn_on_socket 0 8 True), cr_io = None, cr_issued = [], cr_done = []\<rparr>,
      lk_server = ?srv, lk_cout = [], lk_up = [], lk_sout = [], lk_down = [], lk_got = [],
      lk_calls = [], lk_served = [], lk_results = []\<rparr>" by (auto simp: link_init_def)
  show thesis
    by (rule that [OF reach_init [of link_init, OF init]])
      (use wf in \<open>simp_all add: conn_is_open_def conn_on_socket_def common_init_def raw_conn_def\<close>)
qed

section \<open>One-way calls break the server\<close>

text \<open>C6: A one-way call followed by a call with a larger request: both requests may arrive in one read,
  and the server then reaches the overlapping memcpy when the (empty) write for the one-way call
  has ended, whatever the requests are.
\<close>

theorem oneway_then_call_undefined:
  assumes a: "view_frame a = Frame a []" "ow a" "P a []" and b: "view_frame b = Frame b []" "\<not> ow b"
    and len: "length a < length b" "length a + length b \<le> 4096"
    and opa: "op_oneway opa" and opb: "\<not> op_oneway opb"
  shows "\<exists>s. reach link_init (link_step E bm nc ow P) s \<and> lk_calls s = [(opa, a), (opb, b)]
    \<and> sr_pending (lk_server s) = Some (AWrite False []) \<and> lk_sout s = []
    \<and> (\<forall>r n. base_on_handle_write E (server_vt bm r) ec_success n (sr_conn (lk_server s)) = Undef)"
proof -
  obtain s where s: "reach link_init (link_step E bm nc ow P) s" "lk_up s = []" "lk_cout s = []" "lk_calls s = []"
    "lk_results s = []" "lk_sout s = []"
    "conn_is_open (cr_conn (lk_client s))" "pending_op (cr_conn (lk_client s)) = None"
    "sr_pending (lk_server s) = Some (ARead False 0 4096)" "conn_wf (sr_conn (lk_server s))"
    "header_read (sr_conn (lk_server s))" "contents (sr_conn (lk_server s)) = []"
    "bytes_recv (sr_conn (lk_server s)) = 0" "\<not> async_rpc (sr_conn (lk_server s))"
    "strand (sr_conn (lk_server s)) = None" "length (recv_buffer (sr_conn (lk_server s))) = 4096"
    by (rule start_run)
  obtain t where t: "(link_step E bm nc ow P)\<^sup>*\<^sup>* s t" "lk_server t = lk_server s" "lk_up t = lk_up s @ a" "lk_cout t = []"
    "conn_is_open (cr_conn (lk_client t))" "pending_op (cr_conn (lk_client t)) = None"
    "lk_calls t = lk_calls s @ [(opa, a)]" "lk_sout t = lk_sout s"
    by (rule oneway_step [where ow = ow, OF s(7,8) a(1) opa a(2)])
  have ob: "op_oneway opb = ow b" using b opb by simp
  obtain u st where u: "link_step E bm nc ow P t u" "lk_server u = lk_server t" "lk_up u = lk_up t" "lk_cout u = b"
    "lk_calls u = lk_calls t @ [(opb, b)]" "lk_sout u = lk_sout t"
    using call_step [where ow = ow and op = opb, OF t(5,6) b(1) ob] by metis
  let ?v = "u\<lparr>lk_cout := [], lk_up := a @ b\<rparr>"
  have v: "link_step E bm nc ow P u ?v"
    using link_up [of u b "[]" E bm nc ow P] view_frame_not_empty [OF b(1)] u(3,4) t(3) s(2) by simp
  let ?c = "sr_conn (lk_server s)"
  have room: "unat (bytes_recv ?c) + length (a @ b) \<le> length (recv_buffer ?c)" using s(13,16) len by simp
  note rc = received_facts [OF s(10,11) room]
  have view: "view_frame (a @ b) = Frame a b" using view_frame_append [OF a(1), of b] by simp
  have keep: "strand (received (a @ b) ?c) = None" "\<not> async_rpc (received (a @ b) ?c)" by (simp_all add: received_def s)
  have na: "sock (received (a @ b) ?c) \<noteq> None" using rc(1) by (simp add: conn_wf_def)
  obtain c' where run: "handle_buffer E (server_vt bm (Replied [])) (received (a @ b) ?c)
      = Ok (c', [AExt (CallProcessor a), AWrite False []])"
    using na by (simp add: handle_buffer_eq [OF rc(1,3)] rc(2) s(12) view server_vt_def server_on_handle_frame_def
        start_write_output_buffer_def with_actions_def keep)
  let ?as = "[AExt (CallProcessor a), AWrite False []]"
  have run': "complete_read E (server_vt bm (Replied [])) 0 (a @ b) ?c = Ok (c', ?as)"
    using complete_read_eq [OF s(10,11) room, of E "server_vt bm (Replied [])"] run by (simp add: s(13))
  let ?w = "(server_after (a @ b) (Replied []) (c', ?as) ?v)\<lparr>lk_up := []\<rparr>"
  have w: "link_step E bm nc ow P ?v ?w"
    using len a view_frame_not_empty [OF a(1)] run'
    by (intro link_serve [where off = 0 and len = 4096 and st = False])
      (simp_all add: u(2) t(2) s(9) sync_answer_def answers_def answer_ok_def)
  have "reach link_init (link_step E bm nc ow P) ?w"
    using reach_step [OF reach_step [OF reach_step [OF reach_steps [OF s(1) t(1)] u(1)] v] w] .
  moreover have "lk_calls ?w = [(opa, a), (opb, b)]" "sr_pending (lk_server ?w) = Some (AWrite False [])" "lk_sout ?w = []"
    by (simp_all add: server_after_def u(5) t(7) s(4))
  moreover have "base_on_handle_write E (server_vt bm r) ec_success n (sr_conn (lk_server ?w)) = Undef" for r n
  proof -
    from serve_buffer [OF rc(1,3) keep(2) _ run] rc(2) s(12) view have "writing c' (Some (AWrite False [])) a b"
      by (auto simp: sync_answer_def)
    then have h: "holds_frame a b c'" by (simp add: writing_def)
    have "b \<noteq> []" using len by auto
    then show ?thesis using len by (simp add: server_after_def on_handle_write_eq [OF h])
  qed
  ultimately show ?thesis by blast
qed

section \<open>Examples\<close>

definition oneway_op :: async_op where
  "oneway_op = \<lparr>op_callback = 5, op_rpc_type = 1, op_has_return = False, op_oneway = True\<rparr>"

definition two_way_op :: async_op where
  "two_way_op = \<lparr>op_callback = 6, op_rpc_type = 2, op_has_return = True, op_oneway = False\<rparr>"

definition small_frame :: "u8 list" where "small_frame = [0, 0, 0, 1, 65]"
definition large_frame :: "u8 list" where "large_frame = [0, 0, 0, 2, 66, 67]"

text \<open>A processor that answers every request with the small frame.\<close>

definition echo :: "u8 list \<Rightarrow> u8 list \<Rightarrow> bool" where
  "echo f out \<longleftrightarrow> out = small_frame"

lemma example_frames: "view_frame small_frame = Frame small_frame []" "view_frame large_frame = Frame large_frame []"
  by (simp_all add: small_frame_def large_frame_def view_frame_def be_nat_def size_consts)

lemma example_call:
  obtains s where "reach link_init (two_way_step sample_enums 74 107 echo) s"
    "pending_op (cr_conn (lk_client s)) = Some two_way_op" "lk_calls s = [(two_way_op, large_frame)]" "lk_results s = []"
    "sr_pending (lk_server s) = Some (ARead False 0 4096)"
proof -
  obtain s where s: "reach link_init (two_way_step sample_enums 74 107 echo) s" "lk_calls s = []" "lk_results s = []"
    "conn_is_open (cr_conn (lk_client s))" "pending_op (cr_conn (lk_client s)) = None"
    "sr_pending (lk_server s) = Some (ARead False 0 4096)"
    by (rule start_run)
  have "op_oneway two_way_op = (\<lambda>_. False) large_frame" by (simp add: two_way_op_def)
  from call_step [where ow = "\<lambda>_. False" and op = two_way_op, OF s(4,5) example_frames(2) this]
  obtain t where t: "two_way_step sample_enums 74 107 echo s t" "lk_server t = lk_server s"
    "pending_op (cr_conn (lk_client t)) = Some two_way_op" "lk_calls t = lk_calls s @ [(two_way_op, large_frame)]"
    "lk_results t = lk_results s" by metis
  show thesis by (rule that [OF reach_step [OF s(1) t(1)]]) (simp_all add: t s)
qed

lemma sample_size_codes: "size_codes_nonzero sample_enums"
  by (simp add: size_codes_nonzero_def sample_enums_def)

lemma echo_answers: "\<exists>out. echo f out \<and> view_frame out = Frame out []"
  by (simp add: echo_def example_frames)

theorem two_way_never_undefined_witness:
  "\<exists>s. reach link_init (two_way_step sample_enums 74 107 echo) s \<and> lk_calls s = [(two_way_op, large_frame)]
    \<and> (\<exists>c as. complete_read sample_enums (server_vt 74 (Replied small_frame)) 0 large_frame (sr_conn (lk_server s)) = Ok (c, as))
    \<and> (\<exists>c as. base_on_handle_read sample_enums (server_vt 74 (Replied small_frame)) connection_reset 0 (sr_conn (lk_server s))
        = Ok (c, as) \<and> sock c = None)"
proof -
  obtain s where s: "reach link_init (two_way_step sample_enums 74 107 echo) s"
    "lk_calls s = [(two_way_op, large_frame)]" "sr_pending (lk_server s) = Some (ARead False 0 4096)"
    by (rule example_call)
  have ans: "sync_answer (Replied small_frame)" by (simp add: sync_answer_def)
  have len: "length large_frame \<le> 4096" by (simp add: large_frame_def)
  have err: "ec_is_error connection_reset" by (simp add: connection_reset_def ec_is_error_def)
  note both = two_way_never_undefined [OF s(1) sample_size_codes ans]
  from both len s(3)
  have "\<exists>c as. complete_read sample_enums (server_vt 74 (Replied small_frame)) 0 large_frame (sr_conn (lk_server s)) = Ok (c, as)"
    by blast
  moreover from both [THEN conjunct2, THEN conjunct2, THEN conjunct2, THEN conjunct2, THEN conjunct2, rule_format, OF conjI, OF s(3) err]
  have "\<exists>c as. base_on_handle_read sample_enums (server_vt 74 (Replied small_frame)) connection_reset 0 (sr_conn (lk_server s))
        = Ok (c, as) \<and> sock c = None" by blast
  ultimately show ?thesis using s(1,2) by blast
qed

theorem pending_call_can_be_answered_witness:
  "\<exists>s t ec. reach link_init (two_way_step sample_enums 74 107 echo) s \<and> lk_calls s = [(two_way_op, large_frame)]
    \<and> (two_way_step sample_enums 74 107 echo)\<^sup>*\<^sup>* s t \<and> lk_results t = [(6, Some small_frame, ec)]"
proof -
  obtain s where s: "reach link_init (two_way_step sample_enums 74 107 echo) s"
    "pending_op (cr_conn (lk_client s)) = Some two_way_op" "lk_calls s = [(two_way_op, large_frame)]" "lk_results s = []"
    "sr_pending (lk_server s) = Some (ARead False 0 4096)"
    by (rule example_call)
  have "sr_pending (lk_server s) \<noteq> None" by (simp add: s(5))
  from pending_call_can_be_answered [OF s(1) sample_size_codes s(2) this echo_answers] obtain t rep ec where
    t: "(two_way_step sample_enums 74 107 echo)\<^sup>*\<^sup>* s t" "echo (snd (last (lk_calls s))) rep"
      "lk_results t = lk_results s @ [(op_callback two_way_op, Some rep, ec)]" by blast
  have "lk_results t = [(6, Some small_frame, ec)]" using t(2,3) s(4) by (simp add: echo_def two_way_op_def)
  with s(1,3) t(1) show ?thesis by blast
qed

lemma answered_run:
  "\<exists>t ec. reach link_init (two_way_step sample_enums 74 107 echo) t \<and> lk_results t = [(6, Some small_frame, ec)]"
proof -
  obtain s where s: "reach link_init (two_way_step sample_enums 74 107 echo) s"
    "pending_op (cr_conn (lk_client s)) = Some two_way_op" "lk_results s = []"
    "sr_pending (lk_server s) = Some (ARead False 0 4096)"
    by (rule example_call)
  have "sr_pending (lk_server s) \<noteq> None" by (simp add: s(4))
  from call_answered [OF s(1) sample_size_codes s(2) this echo_answers] obtain t rep ec where
    t: "(two_way_step sample_enums 74 107 echo)\<^sup>*\<^sup>* s t" "echo (snd (last (lk_calls s))) rep"
      "lk_results t = lk_results s @ [(op_callback two_way_op, Some rep, ec)]" by blast
  have "lk_results t = [(6, Some small_frame, ec)]" using t(2,3) s(3) by (simp add: echo_def two_way_op_def)
  with reach_steps [OF s(1) t(1)] show ?thesis by blast
qed

theorem answers_in_order_witness:
  "\<exists>s. fills (lk_results s) = [(6, small_frame)] \<and> [6] = map (op_callback \<circ> fst) (take 1 (two_way s))
    \<and> [small_frame] = map snd (take 1 (answered (\<lambda>_. False) s))"
proof -
  obtain s ec where s: "reach link_init (two_way_step sample_enums 74 107 echo) s" "lk_results s = [(6, Some small_frame, ec)]"
    using answered_run by blast
  have fl: "fills (lk_results s) = [(6, small_frame)]" by (simp add: s(2))
  from answers_in_order [OF s(1)] show ?thesis
  proof (elim exE conjE)
    fix n
    assume n: "n \<le> length (two_way s)" "map fst (fills (lk_results s)) = map (op_callback \<circ> fst) (take n (two_way s))"
      "map snd (fills (lk_results s)) = map snd (take n (answered (\<lambda>_. False) s))"
    have "length (map fst (fills (lk_results s))) = length (map (op_callback \<circ> fst) (take n (two_way s)))"
      by (rule arg_cong [OF n(2)])
    then have "n = 1" using n(1) by (simp add: fl)
    with n(2,3) fl show ?thesis by (intro exI [of _ s]) simp
  qed
qed

theorem oneway_then_call_undefined_witness:
  "\<exists>s. reach link_init (link_step sample_enums 74 107 (\<lambda>f. f = small_frame) (\<lambda>f out. True)) s
    \<and> lk_calls s = [(oneway_op, small_frame), (two_way_op, large_frame)]
    \<and> base_on_handle_write sample_enums (server_vt 74 (Replied [])) ec_success 0 (sr_conn (lk_server s)) = Undef"
proof -
  have f: "length small_frame < length large_frame" "length small_frame + length large_frame \<le> 4096"
    "large_frame \<noteq> small_frame" by (simp_all add: small_frame_def large_frame_def)
  have ops: "op_oneway oneway_op" "\<not> op_oneway two_way_op" by (simp_all add: oneway_op_def two_way_op_def)
  from oneway_then_call_undefined [where a = small_frame and b = large_frame and ow = "\<lambda>f. f = small_frame"
      and P = "\<lambda>f out. True" and E = sample_enums and bm = 74 and nc = 107,
      OF example_frames(1) refl TrueI example_frames(2) f(3,1,2) ops]
  show ?thesis by blast
qed

theorem link_refines_rpc_witness:
  "reach rpc_init (rpc_step (\<lambda>_. False) echo) \<lparr>rpc_pending = Some (6, large_frame, False), rpc_results = []\<rparr>"
proof -
  obtain s where s: "reach link_init (two_way_step sample_enums 74 107 echo) s"
    "pending_op (cr_conn (lk_client s)) = Some two_way_op" "lk_calls s = [(two_way_op, large_frame)]" "lk_results s = []"
    by (rule example_call)
  from link_refines_rpc [OF s(1)] show ?thesis by (simp add: link_rpc_def s two_way_op_def)
qed

end
