(* ===== verification/ConnPoolThreads.thy ===== *)
theory ConnPoolThreads
  imports ConnPoolSpec
begin

text \<open>
  The methods of \<open>ThriftConnectionPool\<close> (src/sync/thrift\_pool.h) as threads run them: every critical
  section, and every use of a connection between two of them, is a step of its own, so that users
  of the pool and its probe thread interleave.  A thread's program counter holds the local
  variables that are live there.
\<close>

section \<open>Program counters\<close>

text \<open>What a connection is looked for: \<open>get\<close>, a status check, the refilling of \<open>reclaim_connections\<close>
  with the number still to be created and that of closed ones to be freed.\<close>

datatype job = JGet | JProbe probe_handler | JRefill nat nat

text \<open>What follows \<open>put_connection\<close>.\<close>

datatype afterwards = AGet | APut | AProbe probe_handler bool | ARefill nat nat

datatype pc = Idle "nat option"
  | Look job | Create job | Connect nat job | Make job | Having nat bool job
  | Referenced nat bool | Erased nat | Return nat afterwards | Store nat bool afterwards
  | Trying nat probe_handler nat | Record probe_handler bool | Rearm probe_handler
  | Reclaim | Refill nat nat | FreeLoop nat nat | CountClosed nat | CloseLoop nat | Delete nat pc

definition after_store :: "afterwards \<Rightarrow> pc" where
  "after_store k = (case k of AGet \<Rightarrow> Idle None | APut \<Rightarrow> Idle None | AProbe h ok \<Rightarrow> Record h ok
     | ARefill n cs \<Rightarrow> Refill n cs)"

definition status_tries :: "probe_handler \<Rightarrow> conn_pool \<Rightarrow> nat" where
  "status_tries h p = (if h = HQuick then 1 else if cp_status p = kTCClosed then 1 else 3)"

text \<open>The sizes read at the start of \<open>reclaim_connections\<close> and what follows from them.\<close>

definition reclaim_plan :: "conn_pool \<Rightarrow> pc \<times> conn_pool" where
  "reclaim_plan p =
     (let as = length (allocated_conns p); fs = length (free_conns p); cs = length (closed_conns p);
          ts = as + fs + cs; mx = to_size (cp_max p); mn = to_size (cp_min_free p)
      in if ts < mx then (Rearm HReclaim, p)
         else
           let cs_freed = min (ts - mx) cs; rest = ts - mx - cs_freed
           in if fs \<le> mn then
                let n = mn - fs
                in (Refill n cs_freed, if n \<noteq> 0 then p\<lparr>created_free := created_free p + 1\<rparr> else p)
              else
                let n = min rest (fs - mn)
                in (FreeLoop n cs_freed, if n \<noteq> 0 then p\<lparr>reclaimed_free := reclaimed_free p + 1\<rparr> else p))"

fun thread_step ::
  "'w transport_os \<Rightarrow> pc \<Rightarrow> conn_pool \<Rightarrow> 'w cstore \<Rightarrow> (pc \<times> conn_pool \<times> 'w cstore) outcome" where
  "thread_step os (Idle r) p m = Ok (Idle r, p, m)"
| "thread_step os (Look j) p m = (case free_conns p of
       a # _ \<Rightarrow> Ok (Having a True j, p\<lparr>free_conns := ptr_erase a (free_conns p)\<rparr>, m)
     | [] \<Rightarrow> Ok (Create j, p, m))"
| "thread_step os (Create j) p m = (case closed_conns p of
       a # _ \<Rightarrow> Ok (Connect a j, p\<lparr>closed_conns := ptr_erase a (closed_conns p)\<rparr>, m)
     | [] \<Rightarrow> Ok (Make j, p, m))"
| "thread_step os (Connect a j) p m = map_ok (\<lambda>(_, m). (Having a False j, p, m)) (tc_connect os a m)"
| "thread_step os (Make j) p m = map_ok (\<lambda>(a, m). (Having a False j, p, m)) (tc_new os (cp_config p) m)"
| "thread_step os (Having a ff JGet) p m =
     map_ok (\<lambda>(got, m). (if got then Referenced a ff else Return a AGet, p, m)) (tc_get os a m)"
| "thread_step os (Having a ff (JProbe h)) p m = Ok (Trying a h (status_tries h p), p, m)"
| "thread_step os (Having a ff (JRefill n cs)) p m = Ok (Return a (ARefill n cs), p, m)"
| "thread_step os (Referenced a ff) p m =
     (let p = p\<lparr>allocated_conns := ptr_insert a (allocated_conns p)\<rparr>
      in Ok (Idle (Some a), if ff then p\<lparr>got_from_free := got_from_free p + 1\<rparr>
                            else p\<lparr>got_from_created := got_from_created p + 1\<rparr>, m))"
| "thread_step os (Erased a) p m = map_ok (\<lambda>m. (Return a APut, p, m)) (tc_put a m)"
| "thread_step os (Return a k) p m = map_ok (\<lambda>opn. (Store a opn k, p, m)) (tc_is_open os a m)"
| "thread_step os (Store a opn k) p m = Ok (after_store k,
     if opn then p\<lparr>free_conns := ptr_insert a (free_conns p)\<rparr>
     else p\<lparr>closed_conns := ptr_insert a (closed_conns p)\<rparr>, m)"
| "thread_step os (Trying a h 0) p m = Ok (Return a (AProbe h False), p, m)"
| "thread_step os (Trying a h (Suc n)) p m =
     map_ok (\<lambda>(ok, m). (if ok then Return a (AProbe h True) else Trying a h n, p, m)) (check_alive os 1 a m)"
| "thread_step os (Record h ok) p m = Ok (if h = HQuick then Idle None else Rearm h, record_status ok p, m)"
| "thread_step os (Rearm h) p m = Ok (Idle None,
     case h of HUpdate \<Rightarrow> set_update_status p | HQuick \<Rightarrow> set_quick_update_status p
       | HReclaim \<Rightarrow> set_reclaim_connections p, m)"
| "thread_step os Reclaim p m = Ok (fst (reclaim_plan p), snd (reclaim_plan p), m)"
| "thread_step os (Refill 0 cs) p m = Ok (CountClosed cs, p, m)"
| "thread_step os (Refill (Suc n) cs) p m = Ok (Create (JRefill n cs), p, m)"
| "thread_step os (FreeLoop 0 cs) p m = Ok (CountClosed cs, p, m)"
| "thread_step os (FreeLoop (Suc n) cs) p m = (case free_conns p of
       [] \<Rightarrow> Ok (CountClosed cs, p, m)
     | a # _ \<Rightarrow> Ok (Delete a (FreeLoop n cs), p\<lparr>free_conns := ptr_erase a (free_conns p)\<rparr>, m))"
| "thread_step os (CountClosed cs) p m = Ok (CloseLoop cs,
     if cs \<noteq> 0 then p\<lparr>reclaimed_closed := reclaimed_closed p + 1\<rparr> else p, m)"
| "thread_step os (CloseLoop 0) p m = Ok (Rearm HReclaim, p, m)"
| "thread_step os (CloseLoop (Suc n)) p m = (case closed_conns p of
       [] \<Rightarrow> Ok (Rearm HReclaim, p, m)
     | a # _ \<Rightarrow> Ok (Delete a (CloseLoop n), p\<lparr>closed_conns := ptr_erase a (closed_conns p)\<rparr>, m))"
| "thread_step os (Delete a k) p m = map_ok (\<lambda>m. (k, p, m)) (tc_destroy os a m)"

text \<open>The first region of \<open>put\<close>, and \<open>close\<close> up to the setting of the timer.\<close>

definition put_begin :: "nat \<Rightarrow> conn_pool \<Rightarrow> pc \<times> conn_pool" where
  "put_begin a p = (Erased a, p\<lparr>allocated_conns := ptr_erase a (allocated_conns p)\<rparr>)"

definition close_begin :: "'w transport_os \<Rightarrow> nat \<Rightarrow> 'w cstore \<Rightarrow> (pc \<times> 'w cstore) outcome" where
  "close_begin os a m = map_ok (Pair (Rearm HQuick)) (tc_close os a m)"

definition handler_begin :: "probe_handler \<Rightarrow> pc" where
  "handler_begin h = (if h = HReclaim then Reclaim else Look (JProbe h))"

section \<open>A thread that runs alone\<close>

fun thread_run ::
  "'w transport_os \<Rightarrow> nat \<Rightarrow> pc \<Rightarrow> conn_pool \<Rightarrow> 'w cstore \<Rightarrow> (pc \<times> conn_pool \<times> 'w cstore) outcome" where
  "thread_run os 0 c p m = Ok (c, p, m)"
| "thread_run os (Suc n) c p m = bind_outcome (thread_step os c p m) (\<lambda>(c, p, m). thread_run os n c p m)"

text \<open>Enough steps give the result.\<close>

definition ends ::
  "'w transport_os \<Rightarrow> pc \<Rightarrow> conn_pool \<Rightarrow> 'w cstore \<Rightarrow> (pc \<times> conn_pool \<times> 'w cstore) outcome \<Rightarrow> bool" where
  "ends os c p m r \<longleftrightarrow> (\<exists>n. \<forall>k. thread_run os (n + k) c p m = r)"

lemma map_ok_bind: "map_ok f (bind_outcome x g) = bind_outcome x (\<lambda>y. map_ok f (g y))"
  by (cases x) simp_all

lemma map_ok_comp: "map_ok f (map_ok g x) = map_ok (\<lambda>y. f (g y)) x"
  by (cases x) simp_all

lemma ends_idle: "ends os (Idle r) p m (Ok (Idle r, p, m))"
proof -
  have "thread_run os k (Idle r) p m = Ok (Idle r, p, m)" for k by (induction k) simp_all
  then show ?thesis unfolding ends_def by simp
qed

lemma ends_step:
  assumes "\<And>c' p' m'. thread_step os c p m = Ok (c', p', m') \<Longrightarrow> ends os c' p' m' (f (c', p', m'))"
  shows "ends os c p m (bind_outcome (thread_step os c p m) f)"
proof (cases "thread_step os c p m")
  case (Ok x)
  obtain c' p' m' where x: "x = (c', p', m')" by (cases x)
  from assms [of c' p' m'] Ok x obtain n where "\<forall>k. thread_run os (n + k) c' p' m' = f x" by (auto simp: ends_def)
  then have "thread_run os (Suc n + k) c p m = f x" for k using Ok x by simp
  with Ok show ?thesis unfolding ends_def by (intro exI [of _ "Suc n"]) simp
next
  case Abort
  then have "thread_run os (Suc 0 + k) c p m = Abort" for k by simp
  with Abort show ?thesis unfolding ends_def by (intro exI [of _ "Suc 0"]) simp
next
  case Undef
  then have "thread_run os (Suc 0 + k) c p m = Undef" for k by simp
  with Undef show ?thesis unfolding ends_def by (intro exI [of _ "Suc 0"]) simp
qed

lemma ends_next:
  assumes "thread_step os c p m = Ok (c', p', m')" and "ends os c' p' m' r"
  shows "ends os c p m r"
  using ends_step [of os c p m "\<lambda>_. r"] assms by simp

lemma ends_fails: "thread_step os c p m = Abort \<Longrightarrow> ends os c p m Abort" "thread_step os c p m = Undef \<Longrightarrow> ends os c p m Undef"
  using ends_step [of os c p m "\<lambda>_. Abort"] ends_step [of os c p m "\<lambda>_. Undef"] by simp_all

lemma ends_map:
  assumes "thread_step os c p m = map_ok g x"
    and "\<And>y. x = Ok y \<Longrightarrow> ends os (fst (g y)) (fst (snd (g y))) (snd (snd (g y))) (f y)"
  shows "ends os c p m (bind_outcome x f)"
proof (cases x)
  case (Ok y)
  with assms(1) have "thread_step os c p m = Ok (fst (g y), fst (snd (g y)), snd (snd (g y)))" by simp
  from ends_next [OF this assms(2) [OF Ok]] Ok show ?thesis by simp
qed (use assms(1) ends_fails in simp_all)

lemma return_ends:
  assumes "\<And>q. put_connection os a p m = Ok q \<Longrightarrow> ends os (after_store k) q m (f q)"
  shows "ends os (Return a k) p m (bind_outcome (put_connection os a p m) f)"
proof -
  have "bind_outcome (put_connection os a p m) f = bind_outcome (tc_is_open os a m) (\<lambda>opn.
      f (if opn then p\<lparr>free_conns := ptr_insert a (free_conns p)\<rparr> else p\<lparr>closed_conns := ptr_insert a (closed_conns p)\<rparr>))"
    by (cases "tc_is_open os a m") (simp_all add: put_connection_def)
  moreover have "ends os (Return a k) p m (bind_outcome (tc_is_open os a m) (\<lambda>opn.
      f (if opn then p\<lparr>free_conns := ptr_insert a (free_conns p)\<rparr> else p\<lparr>closed_conns := ptr_insert a (closed_conns p)\<rparr>)))"
  proof (rule ends_map)
    show "thread_step os (Return a k) p m = map_ok (\<lambda>opn. (Store a opn k, p, m)) (tc_is_open os a m)" by simp
    fix opn assume o: "tc_is_open os a m = Ok opn"
    let ?q = "if opn then p\<lparr>free_conns := ptr_insert a (free_conns p)\<rparr> else p\<lparr>closed_conns := ptr_insert a (closed_conns p)\<rparr>"
    have "ends os (Store a opn k) p m (f ?q)"
      by (rule ends_next [OF _ assms]) (simp_all add: put_connection_def o)
    then show "ends os (fst (Store a opn k, p, m)) (fst (snd (Store a opn k, p, m))) (snd (snd (Store a opn k, p, m))) (f ?q)"
      by simp
  qed
  ultimately show ?thesis by simp
qed

lemma create_ends:
  assumes "\<And>a p' m'. create_connection os p m = Ok (a, p', m') \<Longrightarrow> ends os (Having a False j) p' m' (f (a, p', m'))"
  shows "ends os (Create j) p m (bind_outcome (create_connection os p m) f)"
proof (cases "closed_conns p")
  case Nil
  have eq: "bind_outcome (create_connection os p m) f = bind_outcome (tc_new os (cp_config p) m) (\<lambda>(a, m). f (a, p, m))"
    by (cases "tc_new os (cp_config p) m") (auto simp: create_connection_def Nil)
  have "ends os (Make j) p m (bind_outcome (tc_new os (cp_config p) m) (\<lambda>(a, m). f (a, p, m)))"
    by (rule ends_map [where g = "\<lambda>(a, m). (Having a False j, p, m)"])
      (auto intro!: assms simp: create_connection_def Nil)
  then show ?thesis unfolding eq by (intro ends_next [of os "Create j" p m "Make j" p m]) (simp_all add: Nil)
next
  case (Cons a as)
  let ?p = "p\<lparr>closed_conns := ptr_erase a (closed_conns p)\<rparr>"
  have eq: "bind_outcome (create_connection os p m) f = bind_outcome (tc_connect os a m) (\<lambda>(ok, m). f (a, ?p, m))"
    by (cases "tc_connect os a m") (auto simp: create_connection_def Cons)
  have "ends os (Connect a j) ?p m (bind_outcome (tc_connect os a m) (\<lambda>(ok, m). f (a, ?p, m)))"
    by (rule ends_map [where g = "\<lambda>(ok, m). (Having a False j, ?p, m)"])
      (auto intro!: assms simp: create_connection_def Cons)
  then show ?thesis unfolding eq by (intro ends_next [of os "Create j" p m "Connect a j" ?p m]) (simp_all add: Cons)
qed

lemma look_ends:
  assumes "\<And>a ff p' m'. take_connection os p m = Ok (a, ff, p', m') \<Longrightarrow> ends os (Having a ff j) p' m' (f (a, ff, p', m'))"
  shows "ends os (Look j) p m (bind_outcome (take_connection os p m) f)"
proof (cases "free_conns p")
  case Nil
  have eq: "bind_outcome (take_connection os p m) f = bind_outcome (create_connection os p m) (\<lambda>(a, p, m). f (a, False, p, m))"
    by (cases "create_connection os p m") (auto simp: take_connection_def Nil)
  have "ends os (Create j) p m (bind_outcome (create_connection os p m) (\<lambda>(a, p, m). f (a, False, p, m)))"
    by (rule create_ends) (auto intro!: assms simp: take_connection_def Nil)
  then show ?thesis unfolding eq by (intro ends_next [of os "Look j" p m "Create j" p m]) (simp_all add: Nil)
next
  case (Cons a as)
  have "take_connection os p m = Ok (a, True, p\<lparr>free_conns := ptr_erase a (free_conns p)\<rparr>, m)"
    by (simp add: take_connection_def Cons)
  with assms [OF this] show ?thesis
    by (intro ends_next [of os "Look j" p m "Having a True j" "p\<lparr>free_conns := ptr_erase a (free_conns p)\<rparr>" m])
      (simp_all add: Cons)
qed

definition idle_with :: "(conn_pool \<times> 'w cstore) outcome \<Rightarrow> (pc \<times> conn_pool \<times> 'w cstore) outcome" where
  "idle_with r = map_ok (\<lambda>(p, m). (Idle None, p, m)) r"

lemma idle_with_simps [simp]:
  "idle_with (Ok (p, m)) = Ok (Idle None, p, m)" "idle_with Abort = Abort" "idle_with Undef = Undef"
  by (simp_all add: idle_with_def)

lemma idle_with_bind: "idle_with (bind_outcome x f) = bind_outcome x (\<lambda>y. idle_with (f y))"
  by (cases x) simp_all

lemma idle_with_map: "idle_with (map_ok f x) = bind_outcome x (\<lambda>y. Ok (Idle None, fst (f y), snd (f y)))"
  by (cases x) (simp_all add: idle_with_def split_beta)

lemma bind_outcome_assoc: "bind_outcome (bind_outcome x f) g = bind_outcome x (\<lambda>y. bind_outcome (f y) g)"
  by (cases x) simp_all

lemma trying_ends:
  assumes "\<And>ok m'. check_alive os n a m = Ok (ok, m') \<Longrightarrow> ends os (Return a (AProbe h ok)) p m' (f (ok, m'))"
  shows "ends os (Trying a h n) p m (bind_outcome (check_alive os n a m) f)"
  using assms
proof (induction n arbitrary: m)
  case 0
  from 0 [of False m] show ?case
    by (intro ends_next [of os "Trying a h 0" p m "Return a (AProbe h False)" p m]) simp_all
next
  case (Suc n)
  have step: "check_alive os (Suc n) a m = bind_outcome (check_alive os 1 a m)
      (\<lambda>(ok, m). if ok then Ok (True, m) else check_alive os n a m)"
    by (cases "tc_is_open os a m") (auto split: prod.split option.split bool.split simp: bind_outcome_assoc)
  have "ends os (Trying a h (Suc n)) p m (bind_outcome (check_alive os 1 a m)
      (\<lambda>(ok, m). if ok then f (True, m) else bind_outcome (check_alive os n a m) f))"
  proof (rule ends_map [where g = "\<lambda>(ok, m). (if ok then Return a (AProbe h True) else Trying a h n, p, m)"])
    fix y assume y: "check_alive os 1 a m = Ok y"
    obtain ok m' where [simp]: "y = (ok, m')" by (cases y)
    show "ends os (fst (case y of (ok, m) \<Rightarrow> (if ok then Return a (AProbe h True) else Trying a h n, p, m)))
       (fst (snd (case y of (ok, m) \<Rightarrow> (if ok then Return a (AProbe h True) else Trying a h n, p, m))))
       (snd (snd (case y of (ok, m) \<Rightarrow> (if ok then Return a (AProbe h True) else Trying a h n, p, m))))
       (case y of (ok, m) \<Rightarrow> if ok then f (True, m) else bind_outcome (check_alive os n a m) f)"
    proof (cases ok)
      case True
      then have "check_alive os (Suc n) a m = Ok (True, m')" using y by (simp add: step del: check_alive.simps)
      from Suc.prems [OF this] True show ?thesis by simp
    next
      case False
      have "ends os (Trying a h n) p m' (bind_outcome (check_alive os n a m') f)"
      proof (rule Suc.IH)
        fix b m2 assume "check_alive os n a m' = Ok (b, m2)"
        then have "check_alive os (Suc n) a m = Ok (b, m2)" using y False by (simp add: step del: check_alive.simps)
        then show "ends os (Return a (AProbe h b)) p m2 (f (b, m2))" by (rule Suc.prems)
      qed
      with False show ?thesis by simp
    qed
  qed simp
  moreover have "bind_outcome (check_alive os (Suc n) a m) f = bind_outcome (check_alive os 1 a m)
      (\<lambda>(ok, m). if ok then f (True, m) else bind_outcome (check_alive os n a m) f)"
    unfolding step by (cases "check_alive os 1 a m") (auto split: prod.split)
  ultimately show ?case by simp
qed

lemma put_then_idle:
  assumes "after_store k = Idle None"
  shows "ends os (Return a k) p m (idle_with (map_ok (\<lambda>p. (p, m)) (put_connection os a p m)))"
  unfolding idle_with_map by (rule return_ends) (simp add: assms ends_idle)

text \<open>\<open>get\<close>, \<open>put\<close> and the status checks run as the operations of the sequential model.\<close>

definition get_result ::
  "(nat option \<times> conn_pool \<times> 'w cstore) outcome \<Rightarrow> (pc \<times> conn_pool \<times> 'w cstore) outcome" where
  "get_result r = map_ok (\<lambda>(r, p, m). (Idle r, p, m)) r"

lemma get_alone: "ends os (Look JGet) p m (get_result (cp_get os p m))"
proof -
  have eq: "get_result (cp_get os p m) = bind_outcome (take_connection os p m) (\<lambda>(a, ff, p, m).
      bind_outcome (tc_get os a m) (\<lambda>(got, m).
        if got then thread_step os (Referenced a ff) p m
        else idle_with (map_ok (\<lambda>p. (p, m)) (put_connection os a p m))))"
  proof -
    have alt: "get_result (bind_outcome (tc_get os a m) (\<lambda>(got, m).
        if got then let p = p\<lparr>allocated_conns := ptr_insert a (allocated_conns p)\<rparr>
          in Ok (Some a, if ff then p\<lparr>got_from_free := got_from_free p + 1\<rparr>
                        else p\<lparr>got_from_created := got_from_created p + 1\<rparr>, m)
        else map_ok (\<lambda>p. (None, p, m)) (put_connection os a p m)))
      = bind_outcome (tc_get os a m) (\<lambda>(got, m).
        if got then thread_step os (Referenced a ff) p m
        else idle_with (map_ok (\<lambda>p. (p, m)) (put_connection os a p m)))" for a ff p m
      by (cases "tc_get os a m") (auto split: prod.split simp: get_result_def idle_with_def map_ok_comp Let_def)
    show ?thesis
      unfolding cp_get_def
      by (cases "take_connection os p m") (auto simp: alt, simp_all add: get_result_def)
  qed
  show ?thesis
    unfolding eq
  proof (rule look_ends)
    fix a ff p' m'
    have "ends os (Having a ff JGet) p' m' (bind_outcome (tc_get os a m') (\<lambda>(got, m).
        if got then thread_step os (Referenced a ff) p' m
        else idle_with (map_ok (\<lambda>p. (p, m)) (put_connection os a p' m))))"
    proof (rule ends_map [where g = "\<lambda>(got, m). (if got then Referenced a ff else Return a AGet, p', m)"])
      fix y assume "tc_get os a m' = Ok y"
      obtain got m2 where y: "y = (got, m2)" by (cases y)
      have "ends os (Return a AGet) p' m2 (idle_with (map_ok (\<lambda>p. (p, m2)) (put_connection os a p' m2)))"
        by (rule put_then_idle) (simp add: after_store_def)
      moreover have "ends os (Referenced a ff) p' m2 (thread_step os (Referenced a ff) p' m2)"
        by (cases ff) (simp_all add: Let_def ends_next [OF _ ends_idle])
      ultimately show "ends os (fst (case y of (got, m) \<Rightarrow> (if got then Referenced a ff else Return a AGet, p', m)))
          (fst (snd (case y of (got, m) \<Rightarrow> (if got then Referenced a ff else Return a AGet, p', m))))
          (snd (snd (case y of (got, m) \<Rightarrow> (if got then Referenced a ff else Return a AGet, p', m))))
          (case y of (got, m) \<Rightarrow> if got then thread_step os (Referenced a ff) p' m
            else idle_with (map_ok (\<lambda>p. (p, m)) (put_connection os a p' m)))"
        by (simp add: y)
    qed simp
    then show "ends os (Having a ff JGet) p' m' (case (a, ff, p', m') of (a, ff, p, m) \<Rightarrow>
        bind_outcome (tc_get os a m) (\<lambda>(got, m). if got then thread_step os (Referenced a ff) p m
          else idle_with (map_ok (\<lambda>p. (p, m)) (put_connection os a p m))))" by simp
  qed
qed

lemma put_alone:
  "ends os (fst (put_begin a p)) (snd (put_begin a p)) m (idle_with (cp_put os (Some a) p m))"
proof -
  let ?p = "p\<lparr>allocated_conns := ptr_erase a (allocated_conns p)\<rparr>"
  have "ends os (Erased a) ?p m (bind_outcome (tc_put a m) (\<lambda>m. idle_with (map_ok (\<lambda>p. (p, m)) (put_connection os a ?p m))))"
    by (rule ends_map [where g = "\<lambda>m. (Return a APut, ?p, m)"]) (simp_all add: put_then_idle after_store_def)
  then show ?thesis by (simp add: put_begin_def cp_put_def idle_with_bind Let_def)
qed

lemma check_alone:
  assumes fin: "\<And>ok p m. ends os (Record h ok) p m (Ok (Idle None, fin ok p, m))"
  shows "ends os (Look (JProbe h)) p m (idle_with (bind_outcome (take_connection os p m) (\<lambda>(a, _, p, m).
      bind_outcome (check_alive os (status_tries h p) a m) (\<lambda>(ok, m). map_ok (\<lambda>p. (fin ok p, m)) (put_connection os a p m)))))"
  unfolding idle_with_bind
proof (rule look_ends)
  fix a ff p' m'
  have "ends os (Trying a h (status_tries h p')) p' m' (bind_outcome (check_alive os (status_tries h p') a m')
      (\<lambda>(ok, m). idle_with (map_ok (\<lambda>p. (fin ok p, m)) (put_connection os a p' m))))"
  proof (rule trying_ends)
    fix ok m2
    have "ends os (Return a (AProbe h ok)) p' m2 (idle_with (map_ok (\<lambda>p. (fin ok p, m2)) (put_connection os a p' m2)))"
      unfolding idle_with_map by (rule return_ends) (simp add: after_store_def fin)
    then show "ends os (Return a (AProbe h ok)) p' m2 (case (ok, m2) of (ok, m) \<Rightarrow>
        idle_with (map_ok (\<lambda>p. (fin ok p, m)) (put_connection os a p' m)))" by simp
  qed
  then have "ends os (Having a ff (JProbe h)) p' m' (bind_outcome (check_alive os (status_tries h p') a m')
      (\<lambda>(ok, m). idle_with (map_ok (\<lambda>p. (fin ok p, m)) (put_connection os a p' m))))"
    by (rule ends_next [rotated]) simp
  then show "ends os (Having a ff (JProbe h)) p' m' (idle_with (case (a, ff, p', m') of (a, _, p, m) \<Rightarrow>
      bind_outcome (check_alive os (status_tries h p) a m) (\<lambda>(ok, m). map_ok (\<lambda>p. (fin ok p, m)) (put_connection os a p m))))"
    by (simp add: idle_with_bind split_beta')
qed

lemma update_alone: "ends os (Look (JProbe HUpdate)) p m (idle_with (update_status os p m))"
  unfolding update_status_def Let_def
  using check_alone [where h = HUpdate and fin = "\<lambda>ok p. set_update_status (record_status ok p)" and os = os and p = p and m = m]
  by (simp add: status_tries_def ends_next [OF _ ends_next [OF _ ends_idle]] del: check_alive.simps)

lemma quick_alone: "ends os (Look (JProbe HQuick)) p m (idle_with (quick_update_status os p m))"
  unfolding quick_update_status_def
  using check_alone [where h = HQuick and fin = record_status and os = os and p = p and m = m]
  by (simp add: status_tries_def ends_next [OF _ ends_idle] del: check_alive.simps)

text \<open>The loops of \<open>reclaim_connections\<close>, from the last to the first.\<close>

definition closing :: "'w transport_os \<Rightarrow> nat \<Rightarrow> conn_pool \<times> 'w cstore \<Rightarrow> (conn_pool \<times> 'w cstore) outcome" where
  "closing os cs s = map_ok (\<lambda>(p, m). (set_reclaim_connections p, m)) (destroy_closed os cs
     (if cs \<noteq> 0 then (fst s)\<lparr>reclaimed_closed := reclaimed_closed (fst s) + 1\<rparr> else fst s) (snd s))"

lemma rearm_ends: "ends os (Rearm HReclaim) p m (Ok (Idle None, set_reclaim_connections p, m))"
  by (rule ends_next [OF _ ends_idle]) simp

lemma delete_ends:
  assumes "\<And>m'. tc_destroy os a m = Ok m' \<Longrightarrow> ends os k p m' (f m')"
  shows "ends os (Delete a k) p m (bind_outcome (tc_destroy os a m) f)"
  by (rule ends_map [where g = "\<lambda>m. (k, p, m)"]) (simp_all add: assms)

lemma close_loop_ends:
  "ends os (CloseLoop n) p m (idle_with (map_ok (\<lambda>(p, m). (set_reclaim_connections p, m)) (destroy_closed os n p m)))"
proof (induction n arbitrary: p m)
  case 0
  show ?case by (rule ends_next [of os _ p m "Rearm HReclaim" p m]) (simp_all add: rearm_ends)
next
  case (Suc n)
  show ?case
  proof (cases "closed_conns p")
    case Nil
    then show ?thesis by (intro ends_next [of os "CloseLoop (Suc n)" p m "Rearm HReclaim" p m]) (simp_all add: rearm_ends)
  next
    case (Cons a as)
    let ?p = "p\<lparr>closed_conns := ptr_erase a (closed_conns p)\<rparr>"
    have "ends os (Delete a (CloseLoop n)) ?p m (bind_outcome (tc_destroy os a m) (\<lambda>m.
        idle_with (map_ok (\<lambda>(p, m). (set_reclaim_connections p, m)) (destroy_closed os n ?p m))))"
      by (rule delete_ends) (rule Suc.IH)
    then show ?thesis
      by (intro ends_next [of os "CloseLoop (Suc n)" p m "Delete a (CloseLoop n)" ?p m])
        (simp_all add: Cons map_ok_bind idle_with_bind)
  qed
qed

lemma count_closed_ends: "ends os (CountClosed cs) p m (idle_with (closing os cs (p, m)))"
  unfolding closing_def by (rule ends_next [OF _ close_loop_ends]) simp

lemma free_loop_ends:
  "ends os (FreeLoop n cs) p m (idle_with (bind_outcome (destroy_free os n p m) (closing os cs)))"
proof (induction n arbitrary: p m)
  case 0
  show ?case by (rule ends_next [of os _ p m "CountClosed cs" p m]) (simp_all add: count_closed_ends)
next
  case (Suc n)
  show ?case
  proof (cases "free_conns p")
    case Nil
    then show ?thesis by (intro ends_next [of os "FreeLoop (Suc n) cs" p m "CountClosed cs" p m]) (simp_all add: count_closed_ends)
  next
    case (Cons a as)
    let ?p = "p\<lparr>free_conns := ptr_erase a (free_conns p)\<rparr>"
    have "ends os (Delete a (FreeLoop n cs)) ?p m (bind_outcome (tc_destroy os a m) (\<lambda>m.
        idle_with (bind_outcome (destroy_free os n ?p m) (closing os cs))))"
      by (rule delete_ends) (rule Suc.IH)
    then show ?thesis
      by (intro ends_next [of os "FreeLoop (Suc n) cs" p m "Delete a (FreeLoop n cs)" ?p m])
        (simp_all add: Cons bind_outcome_assoc idle_with_bind)
  qed
qed

lemma refill_ends:
  "ends os (Refill n cs) p m (idle_with (bind_outcome (create_and_put os n p m) (closing os cs)))"
proof (induction n arbitrary: p m)
  case 0
  show ?case by (rule ends_next [of os _ p m "CountClosed cs" p m]) (simp_all add: count_closed_ends)
next
  case (Suc n)
  have "ends os (Having a False (JRefill n cs)) p m (bind_outcome (put_connection os a p m) (\<lambda>p.
      idle_with (bind_outcome (create_and_put os n p m) (closing os cs))))" for a p m
    by (rule ends_next [OF _ return_ends [where k = "ARefill n cs"]]) (simp_all add: after_store_def Suc.IH)
  then have "ends os (Create (JRefill n cs)) p m (bind_outcome (create_connection os p m) (\<lambda>(a, p, m).
      bind_outcome (put_connection os a p m) (\<lambda>p. idle_with (bind_outcome (create_and_put os n p m) (closing os cs)))))"
    by (intro create_ends) simp
  then show ?case
    by (intro ends_next [of os "Refill (Suc n) cs" p m "Create (JRefill n cs)" p m])
      (simp_all add: bind_outcome_assoc idle_with_bind split_beta')
qed

lemma reclaim_alone: "ends os Reclaim p m (idle_with (reclaim_connections os p m))"
proof -
  let ?ts = "length (allocated_conns p) + length (free_conns p) + length (closed_conns p)"
  let ?mx = "to_size (cp_max p)" and ?mn = "to_size (cp_min_free p)"
  let ?cf = "min (?ts - ?mx) (length (closed_conns p))"
  let ?n = "?mn - length (free_conns p)" and ?k = "min (?ts - ?mx - ?cf) (length (free_conns p) - ?mn)"
  let ?p = "if ?n \<noteq> 0 then p\<lparr>created_free := created_free p + 1\<rparr> else p"
  let ?q = "if ?k \<noteq> 0 then p\<lparr>reclaimed_free := reclaimed_free p + 1\<rparr> else p"
  have closing: "(\<lambda>(p, m). map_ok (\<lambda>(p, m). (set_reclaim_connections p, m)) (destroy_closed os cs
      (if cs \<noteq> 0 then p\<lparr>reclaimed_closed := reclaimed_closed p + 1\<rparr> else p) m)) = closing os cs" for cs
    by (simp add: fun_eq_iff closing_def)
  have step: "thread_step os Reclaim p m = Ok (fst (reclaim_plan p), snd (reclaim_plan p), m)" by simp
  consider "?ts < ?mx" | "\<not> ?ts < ?mx" "length (free_conns p) \<le> ?mn" | "\<not> ?ts < ?mx" "\<not> length (free_conns p) \<le> ?mn"
    by blast
  then show ?thesis
  proof cases
    case 1
    then have "reclaim_plan p = (Rearm HReclaim, p)" by (simp add: reclaim_plan_def Let_def)
    moreover have "reclaim_connections os p m = Ok (set_reclaim_connections p, m)"
      using 1 by (simp add: reclaim_connections_def Let_def)
    ultimately show ?thesis using rearm_ends [of os p m] by (intro ends_next [OF step]) simp
  next
    case 2
    then have "reclaim_plan p = (Refill ?n ?cf, ?p)" by (simp add: reclaim_plan_def Let_def)
    moreover have "reclaim_connections os p m = bind_outcome (create_and_put os ?n ?p m) (closing os ?cf)"
      using 2 unfolding reclaim_connections_def Let_def by (simp add: map_ok_bind split_beta' flip: closing)
    ultimately show ?thesis by (intro ends_next [OF step]) (simp only: fst_conv snd_conv refill_ends)
  next
    case 3
    then have "reclaim_plan p = (FreeLoop ?k ?cf, ?q)" by (simp add: reclaim_plan_def Let_def)
    moreover have "reclaim_connections os p m = bind_outcome (destroy_free os ?k ?q m) (closing os ?cf)"
      using 3 unfolding reclaim_connections_def Let_def by (simp add: map_ok_bind split_beta' flip: closing)
    ultimately show ?thesis by (intro ends_next [OF step]) (simp only: fst_conv snd_conv free_loop_ends)
  qed
qed

text \<open>C24: A thread of the connection pool that is not interrupted computes the operation: after
  enough of its steps \<open>get\<close>, \<open>put\<close>, \<open>close\<close> and the three handlers of the timers have the result,
  or the failure, that the sequential definitions give.\<close>

theorem pool_threads_compose:
  "(\<exists>n. \<forall>k. thread_run os (n + k) (Look JGet) p m = get_result (cp_get os p m))
   \<and> (\<exists>n. \<forall>k. thread_run os (n + k) (fst (put_begin a p)) (snd (put_begin a p)) m = idle_with (cp_put os (Some a) p m))
   \<and> (\<exists>n. \<forall>k. bind_outcome (close_begin os a m) (\<lambda>(c, m). thread_run os (n + k) c p m)
        = idle_with (cp_close os (Some a) p m))
   \<and> (\<forall>h. \<exists>n. \<forall>k. thread_run os (n + k) (handler_begin h) p m = idle_with (run_probe os h p m))"
proof (intro conjI allI)
  show "\<exists>n. \<forall>k. thread_run os (n + k) (Look JGet) p m = get_result (cp_get os p m)"
    using get_alone by (simp add: ends_def)
  show "\<exists>n. \<forall>k. thread_run os (n + k) (fst (put_begin a p)) (snd (put_begin a p)) m = idle_with (cp_put os (Some a) p m)"
    using put_alone by (simp add: ends_def)
  have idle: "thread_run os k (Idle None) p m = Ok (Idle None, p, m)" for k p and m :: "'a cstore"
    by (induction k) simp_all
  show "\<exists>n. \<forall>k. bind_outcome (close_begin os a m) (\<lambda>(c, m). thread_run os (n + k) c p m)
      = idle_with (cp_close os (Some a) p m)"
    by (intro exI [of _ "Suc 0"] allI) (cases "tc_close os a m"; simp add: close_begin_def cp_close_def idle)
  fix h
  have "ends os (handler_begin h) p m (idle_with (run_probe os h p m))"
    by (cases h) (simp_all add: handler_begin_def run_probe_def reclaim_alone update_alone quick_alone)
  then show "\<exists>n. \<forall>k. thread_run os (n + k) (handler_begin h) p m = idle_with (run_probe os h p m)"
    by (simp add: ends_def)
qed

end
