(* ===== verification/ConnPoolThreadsSpec.thy ===== *)
theory ConnPoolThreadsSpec
  imports ConnPoolThreads
begin

text \<open>
  \<open>ThriftConnectionPool\<close> (src/sync/thrift\_pool.h) with its threads: any number of users call \<open>get\<close>,
  \<open>put\<close> and \<open>close\<close> while the probe thread runs the handlers of the timers, and their steps
  interleave.  In every interleaving each connection is in one place, a set or the hands of one
  thread, and no assertion fails.
\<close>

section \<open>The threads of a pool\<close>

record 'w pool_run =
  pr_pool :: conn_pool
  pr_store :: "'w cstore"
  pr_pcs :: "nat \<Rightarrow> pc"

definition set_run :: "nat \<Rightarrow> pc \<times> conn_pool \<times> 'w cstore \<Rightarrow> 'w pool_run \<Rightarrow> 'w pool_run" where
  "set_run t r s = (case r of (c, p, m) \<Rightarrow> \<lparr>pr_pool = p, pr_store = m, pr_pcs = (pr_pcs s)(t := c)\<rparr>)"

definition resting :: "pc \<Rightarrow> bool" where
  "resting c \<longleftrightarrow> (case c of Idle _ \<Rightarrow> True | _ \<Rightarrow> False)"

definition run_init :: "'w transport_os \<Rightarrow> tc_config \<Rightarrow> int \<Rightarrow> int \<Rightarrow> 'w pool_run \<Rightarrow> bool" where
  "run_init os cfg mn mx s \<longleftrightarrow> cp_init os cfg mn mx (pr_pool s, pr_store s) \<and> pr_pcs s = (\<lambda>_. Idle None)"

text \<open>One of the two timers expires.\<close>

inductive probe_due :: "conn_pool \<Rightarrow> conn_pool \<Rightarrow> bool" where
  update_expires: "cp_timers p = tm \<Longrightarrow> update_waits tm = h # hs \<Longrightarrow>
    probe_due p (set_timers (tm\<lparr>update_waits := hs, ready := ready tm @ [h]\<rparr>) p)"
| reclaim_expires: "cp_timers p = tm \<Longrightarrow> reclaim_waits tm = h # hs \<Longrightarrow>
    probe_due p (set_timers (tm\<lparr>reclaim_waits := hs, ready := ready tm @ [h]\<rparr>) p)"

text \<open>Thread 0 is the probe thread, the others are users.  A user puts back or closes a connection
  that is allocated, and calls one method at a time.\<close>

inductive run_step :: "'w transport_os \<Rightarrow> 'w pool_run \<Rightarrow> 'w pool_run \<Rightarrow> bool" for os where
  call_get: "t \<noteq> 0 \<Longrightarrow> resting (pr_pcs s t) \<Longrightarrow>
    run_step os s (set_run t (Look JGet, pr_pool s, pr_store s) s)"
| call_put: "t \<noteq> 0 \<Longrightarrow> resting (pr_pcs s t) \<Longrightarrow> a \<in> set (allocated_conns (pr_pool s)) \<Longrightarrow>
    put_begin a (pr_pool s) = (c, p) \<Longrightarrow> run_step os s (set_run t (c, p, pr_store s) s)"
| call_close: "t \<noteq> 0 \<Longrightarrow> resting (pr_pcs s t) \<Longrightarrow> a \<in> set (allocated_conns (pr_pool s)) \<Longrightarrow>
    close_begin os a (pr_store s) = Ok (c, m) \<Longrightarrow> run_step os s (set_run t (c, pr_pool s, m) s)"
| timer_due: "probe_due (pr_pool s) p \<Longrightarrow> run_step os s (s\<lparr>pr_pool := p\<rparr>)"
| handler_starts: "resting (pr_pcs s 0) \<Longrightarrow> cp_timers (pr_pool s) = tm \<Longrightarrow> ready tm = h # hs \<Longrightarrow>
    run_step os s (set_run 0 (handler_begin h, set_timers (tm\<lparr>ready := hs\<rparr>) (pr_pool s), pr_store s) s)"
| thread_goes_on: "\<not> resting (pr_pcs s t) \<Longrightarrow>
    thread_step os (pr_pcs s t) (pr_pool s) (pr_store s) = Ok r \<Longrightarrow> run_step os s (set_run t r s)"

section \<open>Where a connection is\<close>

text \<open>The connection in the hands of a thread, and whether the thread has it referenced.\<close>

fun hand :: "pc \<Rightarrow> nat option" where
  "hand (Connect a j) = Some a"
| "hand (Having a ff j) = Some a"
| "hand (Referenced a ff) = Some a"
| "hand (Erased a) = Some a"
| "hand (Return a k) = Some a"
| "hand (Store a opn k) = Some a"
| "hand (Trying a h n) = Some a"
| "hand (Delete a k) = Some a"
| "hand _ = None"

fun refd :: "pc \<Rightarrow> bool" where
  "refd (Referenced a ff) = True"
| "refd (Erased a) = True"
| "refd _ = False"

fun pc_ok :: "pc \<Rightarrow> bool" where
  "pc_ok (Delete a k) \<longleftrightarrow> hand k = None \<and> pc_ok k"
| "pc_ok _ \<longleftrightarrow> True"

datatype place = PFree | PAlloc | PClosed | PHand nat

definition at_place :: "conn_pool \<Rightarrow> (nat \<Rightarrow> pc) \<Rightarrow> nat \<Rightarrow> place \<Rightarrow> bool" where
  "at_place p pcs a pl = (case pl of PFree \<Rightarrow> a \<in> set (free_conns p) | PAlloc \<Rightarrow> a \<in> set (allocated_conns p)
     | PClosed \<Rightarrow> a \<in> set (closed_conns p) | PHand t \<Rightarrow> hand (pcs t) = Some a)"

definition place_refd :: "(nat \<Rightarrow> pc) \<Rightarrow> place \<Rightarrow> bool" where
  "place_refd pcs pl = (case pl of PFree \<Rightarrow> False | PAlloc \<Rightarrow> True | PClosed \<Rightarrow> False | PHand t \<Rightarrow> refd (pcs t))"

text \<open>An object has one place and no address without an object has any.\<close>

definition addr_ok :: "conn_pool \<Rightarrow> (nat \<Rightarrow> pc) \<Rightarrow> 'w cstore \<Rightarrow> nat \<Rightarrow> bool" where
  "addr_ok p pcs m a = (case cs_conns m a of None \<Rightarrow> \<forall>q. \<not> at_place p pcs a q
     | Some c \<Rightarrow> \<exists>pl. (\<forall>q. at_place p pcs a q \<longleftrightarrow> q = pl) \<and> (tc_in_use c \<longleftrightarrow> place_refd pcs pl))"

definition core :: "conn_pool \<Rightarrow> (nat \<Rightarrow> pc) \<Rightarrow> 'w cstore \<Rightarrow> bool" where
  "core p pcs m \<longleftrightarrow> ptr_ok (free_conns p) \<and> ptr_ok (allocated_conns p) \<and> ptr_ok (closed_conns p)
     \<and> (\<forall>a \<in> dom (cs_conns m). a < cs_next m) \<and> (\<forall>t. pc_ok (pcs t)) \<and> (\<forall>a. addr_ok p pcs m a)"

lemma all_place: "(\<forall>q. P q) \<longleftrightarrow> P PFree \<and> P PAlloc \<and> P PClosed \<and> (\<forall>t. P (PHand t))"
  by (metis place.exhaust)

lemma ex_place: "(\<exists>q. P q) \<longleftrightarrow> P PFree \<or> P PAlloc \<or> P PClosed \<or> (\<exists>t. P (PHand t))"
  by (metis place.exhaust)

lemma addr_ok_None: "cs_conns m a = None \<Longrightarrow> addr_ok p pcs m a \<longleftrightarrow>
    a \<notin> set (free_conns p) \<and> a \<notin> set (allocated_conns p) \<and> a \<notin> set (closed_conns p) \<and> (\<forall>t. hand (pcs t) \<noteq> Some a)"
  by (simp add: addr_ok_def all_place at_place_def)

lemma addr_ok_free: "cs_conns m a = Some c \<Longrightarrow> a \<in> set (free_conns p) \<Longrightarrow> addr_ok p pcs m a \<longleftrightarrow>
    a \<notin> set (allocated_conns p) \<and> a \<notin> set (closed_conns p) \<and> (\<forall>t. hand (pcs t) \<noteq> Some a) \<and> \<not> tc_in_use c"
  by (auto simp: addr_ok_def all_place ex_place at_place_def place_refd_def)

lemma addr_ok_alloc: "cs_conns m a = Some c \<Longrightarrow> a \<in> set (allocated_conns p) \<Longrightarrow> addr_ok p pcs m a \<longleftrightarrow>
    a \<notin> set (free_conns p) \<and> a \<notin> set (closed_conns p) \<and> (\<forall>t. hand (pcs t) \<noteq> Some a) \<and> tc_in_use c"
  by (auto simp: addr_ok_def all_place ex_place at_place_def place_refd_def)

lemma addr_ok_closed: "cs_conns m a = Some c \<Longrightarrow> a \<in> set (closed_conns p) \<Longrightarrow> addr_ok p pcs m a \<longleftrightarrow>
    a \<notin> set (free_conns p) \<and> a \<notin> set (allocated_conns p) \<and> (\<forall>t. hand (pcs t) \<noteq> Some a) \<and> \<not> tc_in_use c"
  by (auto simp: addr_ok_def all_place ex_place at_place_def place_refd_def)

lemma addr_ok_hand: "cs_conns m a = Some c \<Longrightarrow> hand (pcs t) = Some a \<Longrightarrow> addr_ok p pcs m a \<longleftrightarrow>
    a \<notin> set (free_conns p) \<and> a \<notin> set (allocated_conns p) \<and> a \<notin> set (closed_conns p)
      \<and> (\<forall>u. u \<noteq> t \<longrightarrow> hand (pcs u) \<noteq> Some a) \<and> (tc_in_use c \<longleftrightarrow> refd (pcs t))"
  by (auto simp: addr_ok_def all_place ex_place at_place_def place_refd_def)

lemma core_object:
  assumes "core p pcs m" and "at_place p pcs a pl"
  shows "\<exists>c. cs_conns m a = Some c"
proof -
  have "addr_ok p pcs m a" using assms(1) by (simp add: core_def)
  with assms(2) show ?thesis by (cases "cs_conns m a") (auto simp: addr_ok_def)
qed

lemma addr_ok_in_use:
  assumes "addr_ok p pcs m a" and "cs_conns m a = Some c"
  shows "tc_in_use c \<longleftrightarrow> a \<in> set (allocated_conns p) \<or> (\<exists>t. hand (pcs t) = Some a \<and> refd (pcs t))"
proof -
  from assms obtain pl where pl: "\<And>q. at_place p pcs a q \<longleftrightarrow> q = pl" "tc_in_use c \<longleftrightarrow> place_refd pcs pl"
    by (auto simp: addr_ok_def)
  have "a \<in> set (allocated_conns p) \<longleftrightarrow> pl = PAlloc" "\<And>t. hand (pcs t) = Some a \<longleftrightarrow> pl = PHand t"
    using pl(1) [of PAlloc] pl(1) [of "PHand _"] by (auto simp: at_place_def)
  with pl(2) show ?thesis by (cases pl) (simp_all add: place_refd_def)
qed

text \<open>What concerns other addresses only stays.\<close>

lemma addr_ok_frame:
  assumes "addr_ok p pcs m b" and "hand (pcs t) \<noteq> Some b" and "hand c \<noteq> Some b"
    and "b \<in> set (free_conns p') \<longleftrightarrow> b \<in> set (free_conns p)"
    and "b \<in> set (allocated_conns p') \<longleftrightarrow> b \<in> set (allocated_conns p)"
    and "b \<in> set (closed_conns p') \<longleftrightarrow> b \<in> set (closed_conns p)"
    and "cs_conns m' b = cs_conns m b"
  shows "addr_ok p' (pcs(t := c)) m' b"
proof -
  have a: "at_place p' (pcs(t := c)) b q \<longleftrightarrow> at_place p pcs b q" for q
    using assms(2-6) by (cases q) (auto simp: at_place_def)
  have r: "place_refd (pcs(t := c)) q \<longleftrightarrow> place_refd pcs q" if "at_place p pcs b q" for q
    using that assms(2) by (cases q) (auto simp: at_place_def place_refd_def)
  show ?thesis
    using assms(1) r unfolding addr_ok_def a assms(7) by (auto split: option.splits)
qed

lemma core_move:
  assumes inv: "core p pcs m"
    and lists: "ptr_ok (free_conns p')" "ptr_ok (allocated_conns p')" "ptr_ok (closed_conns p')"
    and bound: "\<forall>b \<in> dom (cs_conns m'). b < cs_next m'"
    and pc: "pc_ok c" "hand (pcs t) = None \<or> hand (pcs t) = Some a" "hand c = None \<or> hand c = Some a"
    and others: "\<And>b. b \<noteq> a \<Longrightarrow> (b \<in> set (free_conns p') \<longleftrightarrow> b \<in> set (free_conns p))
      \<and> (b \<in> set (allocated_conns p') \<longleftrightarrow> b \<in> set (allocated_conns p))
      \<and> (b \<in> set (closed_conns p') \<longleftrightarrow> b \<in> set (closed_conns p)) \<and> cs_conns m' b = cs_conns m b"
    and here: "addr_ok p' (pcs(t := c)) m' a"
  shows "core p' (pcs(t := c)) m'"
proof -
  have "addr_ok p' (pcs(t := c)) m' b" for b
  proof (cases "b = a")
    case True
    then show ?thesis using here by simp
  next
    case False
    have "addr_ok p pcs m b" using inv by (simp add: core_def)
    then show ?thesis by (rule addr_ok_frame) (use False pc others [OF False] in auto)
  qed
  with inv lists bound pc(1) show ?thesis by (simp add: core_def)
qed

section \<open>The moves of a connection\<close>

lemma core_lists: "core p pcs m \<Longrightarrow> ptr_ok (free_conns p) \<and> ptr_ok (allocated_conns p) \<and> ptr_ok (closed_conns p)"
  by (simp add: core_def)

lemma core_bound: "core p pcs m \<Longrightarrow> a \<in> dom (cs_conns m) \<Longrightarrow> a < cs_next m"
  by (simp add: core_def)

lemma core_addr: "core p pcs m \<Longrightarrow> addr_ok p pcs m a"
  by (simp add: core_def)

lemma core_pc: "core p pcs m \<Longrightarrow> pc_ok (pcs t)"
  by (simp add: core_def)

text \<open>The thread goes on with the same connection, or still without one.\<close>

lemma core_keep:
  assumes inv: "core p pcs m" and s: "same_sets p p'" and h: "hand c = hand (pcs t)"
    and r: "refd c = refd (pcs t)" and k: "pc_ok c"
  shows "core p' (pcs(t := c)) m"
proof -
  have "at_place p' (pcs(t := c)) b q \<longleftrightarrow> at_place p pcs b q" for b q
    using s h by (cases q) (auto simp: at_place_def same_sets_def)
  moreover have "place_refd (pcs(t := c)) q \<longleftrightarrow> place_refd pcs q" for q
    using r by (cases q) (auto simp: place_refd_def)
  ultimately have "addr_ok p' (pcs(t := c)) m b \<longleftrightarrow> addr_ok p pcs m b" for b
    by (simp add: addr_ok_def split: option.split)
  with inv s k show ?thesis by (simp add: core_def same_sets_def)
qed

lemma core_take_free:
  assumes inv: "core p pcs m" and t: "hand (pcs t) = None" and a: "a \<in> set (free_conns p)"
    and c: "hand c = Some a" "\<not> refd c" "pc_ok c"
  shows "core (p\<lparr>free_conns := ptr_erase a (free_conns p)\<rparr>) (pcs(t := c)) m"
proof -
  note l = core_lists [OF inv]
  obtain x where x: "cs_conns m a = Some x" using core_object [OF inv, of a PFree] a by (auto simp: at_place_def)
  show ?thesis
  proof (rule core_move [OF inv, where a = a])
    show "addr_ok (p\<lparr>free_conns := ptr_erase a (free_conns p)\<rparr>) (pcs(t := c)) m a"
      using core_addr [OF inv, of a] x a c l
      by (simp add: addr_ok_free addr_ok_hand [where t = t] std_simps)
  qed (use l t c inv in \<open>auto simp: std_simps core_bound\<close>)
qed

lemma core_take_closed:
  assumes inv: "core p pcs m" and t: "hand (pcs t) = None" and a: "a \<in> set (closed_conns p)"
    and c: "hand c = Some a" "\<not> refd c" "pc_ok c"
  shows "core (p\<lparr>closed_conns := ptr_erase a (closed_conns p)\<rparr>) (pcs(t := c)) m"
proof -
  note l = core_lists [OF inv]
  obtain x where x: "cs_conns m a = Some x" using core_object [OF inv, of a PClosed] a by (auto simp: at_place_def)
  show ?thesis
  proof (rule core_move [OF inv, where a = a])
    show "addr_ok (p\<lparr>closed_conns := ptr_erase a (closed_conns p)\<rparr>) (pcs(t := c)) m a"
      using core_addr [OF inv, of a] x a c l
      by (simp add: addr_ok_closed addr_ok_hand [where t = t] std_simps)
  qed (use l t c inv in \<open>auto simp: std_simps core_bound\<close>)
qed

lemma core_take_alloc:
  assumes inv: "core p pcs m" and t: "hand (pcs t) = None" and a: "a \<in> set (allocated_conns p)"
    and c: "hand c = Some a" "refd c" "pc_ok c"
  shows "core (p\<lparr>allocated_conns := ptr_erase a (allocated_conns p)\<rparr>) (pcs(t := c)) m"
proof -
  note l = core_lists [OF inv]
  obtain x where x: "cs_conns m a = Some x" using core_object [OF inv, of a PAlloc] a by (auto simp: at_place_def)
  show ?thesis
  proof (rule core_move [OF inv, where a = a])
    show "addr_ok (p\<lparr>allocated_conns := ptr_erase a (allocated_conns p)\<rparr>) (pcs(t := c)) m a"
      using core_addr [OF inv, of a] x a c l
      by (simp add: addr_ok_alloc addr_ok_hand [where t = t] std_simps)
  qed (use l t c inv in \<open>auto simp: std_simps core_bound\<close>)
qed

text \<open>The hand is emptied into a set.\<close>

lemma core_hand:
  assumes "core p pcs m" and "hand (pcs t) = Some a"
  shows "\<exists>x. cs_conns m a = Some x \<and> a \<notin> set (free_conns p) \<and> a \<notin> set (allocated_conns p)
    \<and> a \<notin> set (closed_conns p) \<and> (\<forall>u. u \<noteq> t \<longrightarrow> hand (pcs u) \<noteq> Some a) \<and> (tc_in_use x \<longleftrightarrow> refd (pcs t))"
proof -
  obtain x where "cs_conns m a = Some x"
    using core_object [OF assms(1), of a "PHand t"] assms(2) by (auto simp: at_place_def)
  with core_addr [OF assms(1), of a] assms(2) show ?thesis by (simp add: addr_ok_hand [where t = t])
qed

lemma core_store:
  assumes inv: "core p pcs m" and t: "hand (pcs t) = Some a" "\<not> refd (pcs t)" and c: "hand c = None" "pc_ok c"
  shows "core (p\<lparr>free_conns := ptr_insert a (free_conns p)\<rparr>) (pcs(t := c)) m"
    and "core (p\<lparr>closed_conns := ptr_insert a (closed_conns p)\<rparr>) (pcs(t := c)) m"
proof -
  note l = core_lists [OF inv]
  from core_hand [OF inv t(1)] t(2) obtain x where x: "cs_conns m a = Some x" "\<not> tc_in_use x"
    "a \<notin> set (free_conns p)" "a \<notin> set (allocated_conns p)" "a \<notin> set (closed_conns p)"
    "\<forall>u. u \<noteq> t \<longrightarrow> hand (pcs u) \<noteq> Some a" by blast
  show "core (p\<lparr>free_conns := ptr_insert a (free_conns p)\<rparr>) (pcs(t := c)) m"
  proof (rule core_move [OF inv, where a = a])
    show "addr_ok (p\<lparr>free_conns := ptr_insert a (free_conns p)\<rparr>) (pcs(t := c)) m a"
      using x c by (simp add: addr_ok_free std_simps)
  qed (use l t c inv in \<open>auto simp: std_simps core_bound\<close>)
  show "core (p\<lparr>closed_conns := ptr_insert a (closed_conns p)\<rparr>) (pcs(t := c)) m"
  proof (rule core_move [OF inv, where a = a])
    show "addr_ok (p\<lparr>closed_conns := ptr_insert a (closed_conns p)\<rparr>) (pcs(t := c)) m a"
      using x c by (simp add: addr_ok_closed std_simps)
  qed (use l t c inv in \<open>auto simp: std_simps core_bound\<close>)
qed

lemma core_alloc:
  assumes inv: "core p pcs m" and t: "hand (pcs t) = Some a" "refd (pcs t)" and c: "hand c = None" "pc_ok c"
  shows "core (p\<lparr>allocated_conns := ptr_insert a (allocated_conns p)\<rparr>) (pcs(t := c)) m"
proof -
  note l = core_lists [OF inv]
  from core_hand [OF inv t(1)] t(2) obtain x where x: "cs_conns m a = Some x" "tc_in_use x"
    "a \<notin> set (free_conns p)" "a \<notin> set (allocated_conns p)" "a \<notin> set (closed_conns p)"
    "\<forall>u. u \<noteq> t \<longrightarrow> hand (pcs u) \<noteq> Some a" by blast
  show ?thesis
  proof (rule core_move [OF inv, where a = a])
    show "addr_ok (p\<lparr>allocated_conns := ptr_insert a (allocated_conns p)\<rparr>) (pcs(t := c)) m a"
      using x c by (simp add: addr_ok_alloc std_simps)
  qed (use l t c inv in \<open>auto simp: std_simps core_bound\<close>)
qed

text \<open>The object changes, a new one appears, or it is destroyed.\<close>

lemma core_only:
  assumes inv: "core p pcs m" and k: "only a m m'"
  shows "core p pcs m'"
proof -
  from k obtain c c' where c: "cs_conns m a = Some c" "cs_conns m' = (cs_conns m)(a \<mapsto> c')"
    "tc_in_use c' = tc_in_use c" "cs_next m' = cs_next m" by (auto simp: only_def)
  have "addr_ok p pcs m' b \<longleftrightarrow> addr_ok p pcs m b" for b using c by (simp add: addr_ok_def)
  with inv c show ?thesis by (auto simp: core_def)
qed

lemma core_ref:
  assumes inv: "core p pcs m" and t: "hand (pcs t) = Some a" and c: "hand c = Some a" "pc_ok c"
    and x: "cs_conns m a = Some x"
  shows "core p (pcs(t := c)) (tc_set a (x\<lparr>tc_in_use := refd c\<rparr>) m)"
proof (rule core_move [OF inv, where a = a])
  show "addr_ok p (pcs(t := c)) (tc_set a (x\<lparr>tc_in_use := refd c\<rparr>) m) a"
    using core_hand [OF inv t] c by (auto simp: addr_ok_hand [where t = t] tc_set_def)
  show "\<forall>b \<in> dom (cs_conns (tc_set a (x\<lparr>tc_in_use := refd c\<rparr>) m)). b < cs_next (tc_set a (x\<lparr>tc_in_use := refd c\<rparr>) m)"
    using core_bound [OF inv] x by (auto simp: tc_set_def)
qed (use core_lists [OF inv] t c in \<open>auto simp: tc_set_def\<close>)

lemma core_new:
  assumes inv: "core p pcs m" and os: "open_opens os" and auto: "cf_auto_connect cfg"
    and t: "hand (pcs t) = None" and c: "\<And>a. hand (c a) = Some a \<and> \<not> refd (c a) \<and> pc_ok (c a)"
  shows "\<exists>a m'. tc_new os cfg m = Ok (a, m') \<and> core p (pcs(t := c a)) m'"
proof -
  let ?a = "cs_next m"
  let ?x = "\<lparr>tc_config = cfg, tc_status = kTCClosed, tc_in_use = False\<rparr>"
  let ?m1 = "m\<lparr>cs_conns := (cs_conns m)(?a \<mapsto> ?x), cs_next := Suc ?a, cs_world := tr_setup os ?a cfg (cs_world m)\<rparr>"
  have fresh: "cs_conns m ?a = None" using core_bound [OF inv, of ?a] by (cases "cs_conns m ?a") auto
  have 1: "core p (pcs(t := c ?a)) ?m1"
  proof (rule core_move [OF inv, where a = ?a])
    show "addr_ok p (pcs(t := c ?a)) ?m1 ?a"
      using core_addr [OF inv, of ?a] fresh c by (simp add: addr_ok_None addr_ok_hand [where t = t])
    show "\<forall>b \<in> dom (cs_conns ?m1). b < cs_next ?m1" using core_bound [OF inv] by (auto simp: less_Suc_eq)
  qed (use core_lists [OF inv] t c in auto)
  obtain ok m' where "tc_connect os ?a ?m1 = Ok (ok, m')" "only ?a ?m1 m'"
    using tc_connect_runs [of ?m1 ?a ?x os] os by auto
  with core_only [OF 1] auto show ?thesis by (simp add: tc_new_def Let_def)
qed

lemma core_delete:
  assumes inv: "core p pcs m" and t: "hand (pcs t) = Some a" "\<not> refd (pcs t)" and c: "hand c = None" "pc_ok c"
  shows "\<exists>m'. tc_destroy os a m = Ok m' \<and> core p (pcs(t := c)) m'"
proof -
  from core_hand [OF inv t(1)] t(2) obtain x where x: "cs_conns m a = Some x" "\<not> tc_in_use x" by blast
  obtain m1 where m1: "tc_close os a m = Ok m1" "only a m m1" using tc_close_runs [OF x(1), of os] by blast
  have i: "core p pcs m1" by (rule core_only [OF inv m1(2)])
  let ?m = "m1\<lparr>cs_conns := (cs_conns m1)(a := None)\<rparr>"
  have "core p (pcs(t := c)) ?m"
  proof (rule core_move [OF i, where a = a])
    show "addr_ok p (pcs(t := c)) ?m a" using core_hand [OF i t(1)] c by (auto simp: addr_ok_None)
    show "\<forall>b \<in> dom (cs_conns ?m). b < cs_next ?m" using core_bound [OF i] by (auto split: if_splits)
  qed (use core_lists [OF i] t c in auto)
  moreover have "tc_destroy os a m = Ok ?m" using x m1 by (simp add: tc_destroy_def tc_at_def)
  ultimately show ?thesis by blast
qed

lemma core_check_alive:
  assumes inv: "core p pcs m" and a: "cs_conns m a = Some x"
  shows "\<exists>ok m'. check_alive os 1 a m = Ok (ok, m') \<and> core p pcs m'"
proof -
  obtain b where b: "tc_is_open os a m = Ok b" using tc_is_open_runs [OF a] by blast
  obtain r w where r: "tr_get_status os a (cs_world m) = (r, w)" by (cases "tr_get_status os a (cs_world m)")
  let ?m = "m\<lparr>cs_world := w\<rparr>"
  have k: "core p pcs ?m" by (rule core_only [OF inv only_world [OF a]])
  have "cs_conns ?m a = Some x" using a by simp
  from tc_close_runs [OF this, of os] obtain m2 where m2: "tc_close os a ?m = Ok m2" "only a ?m m2" by blast
  with core_only [OF k m2(2)] inv k b r show ?thesis
    by (cases b; cases r) (auto split: bool.split)
qed

section \<open>A step goes on and keeps the places\<close>

text \<open>What a step of thread \<open>t\<close> must do.\<close>

definition goes_on ::
  "nat \<Rightarrow> conn_pool \<Rightarrow> (nat \<Rightarrow> pc) \<Rightarrow> (pc \<times> conn_pool \<times> 'w cstore) outcome \<Rightarrow> bool" where
  "goes_on t p pcs r \<longleftrightarrow> (\<exists>c p' m'. r = Ok (c, p', m') \<and> core p' (pcs(t := c)) m' \<and> cp_config p' = cp_config p)"

lemma goes_onI: "core p' (pcs(t := c)) m' \<Longrightarrow> cp_config p' = cp_config p \<Longrightarrow> goes_on t p pcs (Ok (c, p', m'))"
  by (auto simp: goes_on_def)

lemma after_store_free [simp]: "hand (after_store k) = None" "\<not> refd (after_store k)" "pc_ok (after_store k)"
  by (cases k; simp add: after_store_def)+

lemma config_simps [simp]:
  "cp_config (record_status ok p) = cp_config p" "cp_config (set_update_status p) = cp_config p"
  "cp_config (set_quick_update_status p) = cp_config p" "cp_config (set_reclaim_connections p) = cp_config p"
  "cp_config (set_timers tm p) = cp_config p"
  by (simp_all add: record_status_def set_update_status_def rearm_update_def set_quick_update_status_def
      set_reclaim_connections_def set_timers_def)

lemma reclaim_plan_facts:
  "hand (fst (reclaim_plan p)) = None" "\<not> refd (fst (reclaim_plan p))" "pc_ok (fst (reclaim_plan p))"
  "same_sets p (snd (reclaim_plan p))" "cp_config (snd (reclaim_plan p)) = cp_config p"
  by (simp_all add: reclaim_plan_def Let_def)

lemma goes_on_keep:
  assumes "core p pcs m" and "same_sets p p'" and "cp_config p' = cp_config p"
    and "hand c = hand (pcs t)" and "refd c = refd (pcs t)" and "pc_ok c"
  shows "goes_on t p pcs (Ok (c, p', m))"
  by (rule goes_onI [OF core_keep]) (use assms in auto)

lemma goes_on_only:
  assumes inv: "core p pcs m" and r: "r = Ok (c, p, m')" and k: "only a m m'"
    and c: "hand c = hand (pcs t)" "refd c = refd (pcs t)" "pc_ok c"
  shows "goes_on t p pcs r"
  unfolding r by (rule goes_on_keep [OF core_only [OF inv k]]) (simp_all add: c)

lemma goes_on_take:
  assumes "core p pcs m" and "hand (pcs t) = None" and "hand c = Some a" "\<not> refd c" "pc_ok c"
  shows "free_conns p = a # as \<Longrightarrow> goes_on t p pcs (Ok (c, p\<lparr>free_conns := as\<rparr>, m))"
    and "closed_conns p = a # as \<Longrightarrow> goes_on t p pcs (Ok (c, p\<lparr>closed_conns := as\<rparr>, m))"
  using core_take_free [OF assms(1,2) _ assms(3-5)] core_take_closed [OF assms(1,2) _ assms(3-5)]
  by (auto intro!: goes_onI)

lemma having_get_goes_on:
  assumes inv: "core p pcs m" and t: "pcs t = Having a ff JGet"
  shows "goes_on t p pcs (thread_step os (pcs t) p m)"
proof -
  have h: "hand (pcs t) = Some a" using t by simp
  from core_hand [OF inv h] t obtain x where x: "cs_conns m a = Some x" "\<not> tc_in_use x" by auto
  obtain b where b: "tc_is_open os a m = Ok b" using tc_is_open_runs [OF x(1)] by blast
  show ?thesis
  proof (cases b)
    case True
    have "core p (pcs(t := Referenced a ff)) (tc_set a (x\<lparr>tc_in_use := refd (Referenced a ff)\<rparr>) m)"
      by (rule core_ref [OF inv h _ _ x(1)]) simp_all
    with True t x b show ?thesis by (auto simp: tc_get_def tc_at_def intro!: goes_onI)
  next
    case False
    with t x b show ?thesis by (simp add: tc_get_def tc_at_def goes_on_keep [OF inv])
  qed
qed

lemma erased_goes_on:
  assumes inv: "core p pcs m" and t: "pcs t = Erased a"
  shows "goes_on t p pcs (thread_step os (pcs t) p m)"
proof -
  have h: "hand (pcs t) = Some a" using t by simp
  from core_hand [OF inv h] t obtain x where x: "cs_conns m a = Some x" "tc_in_use x" by auto
  have "core p (pcs(t := Return a APut)) (tc_set a (x\<lparr>tc_in_use := refd (Return a APut)\<rparr>) m)"
    by (rule core_ref [OF inv h _ _ x(1)]) simp_all
  with t x show ?thesis by (auto simp: tc_put_def tc_at_def intro!: goes_onI)
qed

lemma any_thread_goes_on:
  assumes inv: "core p pcs m" and os: "open_opens os" and auto: "cf_auto_connect (cp_config p)"
  shows "goes_on t p pcs (thread_step os (pcs t) p m)"
proof -
  note keep = goes_on_keep [OF inv]
  note take = goes_on_take [OF inv]
  show ?thesis
  proof (cases "pcs t")
    case (Look j)
    then show ?thesis by (simp add: keep take split: list.split)
  next
    case (Create j)
    then show ?thesis by (simp add: keep take split: list.split)
  next
    case (Connect a j)
    from core_hand [OF inv, of t a] Connect obtain x where "cs_conns m a = Some x" by auto
    from tc_connect_runs [OF this os] obtain ok m' where "tc_connect os a m = Ok (ok, m')" "only a m m'" by blast
    with Connect show ?thesis by (intro goes_on_only [OF inv, where a = a and c = "Having a False j" and m' = m']) simp_all
  next
    case (Make j)
    from core_new [OF inv os auto, of t "\<lambda>a. Having a False j"] Make show ?thesis
      by (auto intro!: goes_onI)
  next
    case (Having a ff j)
    then show ?thesis
      using having_get_goes_on [OF inv, of t a ff os] by (cases j) (simp_all add: keep)
  next
    case (Referenced a ff)
    have "core (p\<lparr>allocated_conns := ptr_insert a (allocated_conns p)\<rparr>) (pcs(t := Idle (Some a))) m"
      by (rule core_alloc [OF inv]) (simp_all add: Referenced)
    then have "core (p\<lparr>allocated_conns := ptr_insert a (allocated_conns p), got_from_free := x\<rparr>) (pcs(t := Idle (Some a))) m"
      "core (p\<lparr>allocated_conns := ptr_insert a (allocated_conns p), got_from_created := x\<rparr>) (pcs(t := Idle (Some a))) m" for x
      using core_keep [where t = t and c = "Idle (Some a)"] by fastforce+
    with Referenced show ?thesis by (auto simp: Let_def intro!: goes_onI)
  next
    case (Erased a)
    then show ?thesis using erased_goes_on [OF inv] by simp
  next
    case (Return a k)
    from core_hand [OF inv, of t a] Return obtain x where "cs_conns m a = Some x" by auto
    from tc_is_open_runs [OF this] obtain b where "tc_is_open os a m = Ok b" by blast
    with Return show ?thesis by (simp add: keep)
  next
    case (Store a opn k)
    with core_store [OF inv, of t a "after_store k"] show ?thesis by (auto intro!: goes_onI)
  next
    case (Trying a h n)
    show ?thesis
    proof (cases n)
      case (Suc k)
      from core_hand [OF inv, of t a] Trying obtain x where "cs_conns m a = Some x" by auto
      from core_check_alive [OF inv this, of os] obtain ok m' where "check_alive os 1 a m = Ok (ok, m')" "core p pcs m'"
        by blast
      with Trying Suc show ?thesis by (simp add: goes_on_keep del: check_alive.simps)
    qed (simp add: Trying keep)
  next
    case (Delete a k)
    have "pc_ok (Delete a k)" using core_pc [OF inv, of t] Delete by simp
    with core_delete [OF inv, of t a k os] Delete show ?thesis by (auto intro!: goes_onI)
  next
    case (Refill n cs)
    then show ?thesis by (cases n) (simp_all add: keep)
  next
    case (FreeLoop n cs)
    then show ?thesis by (cases n) (simp_all add: keep take split: list.split)
  next
    case (CloseLoop n)
    then show ?thesis by (cases n) (simp_all add: keep take split: list.split)
  next
    case Reclaim
    then show ?thesis by (simp add: keep reclaim_plan_facts)
  next
    case (Rearm h)
    then show ?thesis by (cases h) (simp_all add: keep)
  qed (simp_all add: keep)
qed

section \<open>The handlers of the timers\<close>

definition job_handler :: "job \<Rightarrow> probe_handler option" where
  "job_handler j = (case j of JGet \<Rightarrow> None | JProbe h \<Rightarrow> Some h | JRefill _ _ \<Rightarrow> Some HReclaim)"

definition after_handler :: "afterwards \<Rightarrow> probe_handler option" where
  "after_handler k = (case k of AGet \<Rightarrow> None | APut \<Rightarrow> None | AProbe h _ \<Rightarrow> Some h | ARefill _ _ \<Rightarrow> Some HReclaim)"

text \<open>The handler a thread runs.\<close>

fun busy :: "pc \<Rightarrow> probe_handler option" where
  "busy (Idle r) = None"
| "busy (Look j) = job_handler j"
| "busy (Create j) = job_handler j"
| "busy (Connect a j) = job_handler j"
| "busy (Make j) = job_handler j"
| "busy (Having a ff j) = job_handler j"
| "busy (Referenced a ff) = None"
| "busy (Erased a) = None"
| "busy (Return a k) = after_handler k"
| "busy (Store a opn k) = after_handler k"
| "busy (Trying a h n) = Some h"
| "busy (Record h ok) = Some h"
| "busy (Rearm h) = Some h"
| "busy (Delete a k) = busy k"
| "busy _ = Some HReclaim"

text \<open>How often a handler waits for its timer, waits for the probe thread or runs there.\<close>

definition scheduled :: "probe_handler \<Rightarrow> conn_pool \<Rightarrow> pc \<Rightarrow> nat" where
  "scheduled h p c = count_list (pending p) h + (if busy c = Some h then 1 else 0)"

lemma busy_after_store: "busy (after_store k) = after_handler k"
  by (cases k) (simp_all add: after_store_def after_handler_def)

lemma pending_record: "pending (record_status ok p) = pending p"
  by (simp add: record_status_def pending_def)

lemma reclaim_plan_busy:
  "busy (fst (reclaim_plan p)) = Some HReclaim" "pending (snd (reclaim_plan p)) = pending p"
  by (simp_all add: reclaim_plan_def Let_def)

lemma thread_step_scheduled:
  assumes step: "thread_step os c p m = Ok (c', p', m')" and h: "h \<noteq> HQuick"
  shows "scheduled h p' c' = scheduled h p c" and "busy c' = busy c \<or> busy c' = None"
proof -
  have "scheduled h p' c' = scheduled h p c \<and> (busy c' = busy c \<or> busy c' = None)"
  proof (cases c)
    case (Having a ff j)
    then show ?thesis using step by (cases j) (auto simp: scheduled_def job_handler_def after_handler_def outcome_simps split: if_splits)
  next
    case (Trying a g n)
    then show ?thesis using step
      by (cases n) (auto simp: scheduled_def after_handler_def outcome_simps simp del: check_alive.simps split: if_splits)
  next
    case (Refill n cs)
    then show ?thesis using step by (cases n) (auto simp: scheduled_def job_handler_def)
  next
    case (FreeLoop n cs)
    then show ?thesis using step by (cases n) (auto simp: scheduled_def split: list.splits)
  next
    case (CloseLoop n)
    then show ?thesis using step by (cases n) (auto simp: scheduled_def split: list.splits)
  next
    case Reclaim
    then show ?thesis using step by (auto simp: scheduled_def reclaim_plan_busy)
  next
    case (Rearm g)
    then show ?thesis using step h
      by (cases g) (auto simp: scheduled_def set_update_status_def set_quick_update_status_def)
  next
    case (Record g ok)
    then show ?thesis using step h by (cases g) (auto simp: scheduled_def pending_record)
  qed (use step in \<open>auto simp: scheduled_def busy_after_store job_handler_def after_handler_def outcome_simps Let_def
      split: list.splits\<close>)
  then show "scheduled h p' c' = scheduled h p c" and "busy c' = busy c \<or> busy c' = None" by auto
qed

section \<open>The invariant of the threads\<close>

definition run_inv :: "'w transport_os \<Rightarrow> 'w pool_run \<Rightarrow> bool" where
  "run_inv os s \<longleftrightarrow> (open_opens os \<longrightarrow> core (pr_pool s) (pr_pcs s) (pr_store s)
     \<and> cf_auto_connect (cp_config (pr_pool s))
     \<and> (\<forall>h. h \<noteq> HQuick \<longrightarrow> scheduled h (pr_pool s) (pr_pcs s 0) = 1)
     \<and> (\<forall>t. t \<noteq> 0 \<longrightarrow> busy (pr_pcs s t) = None \<or> busy (pr_pcs s t) = Some HQuick))"

lemma run_invI:
  assumes "core p pcs m" and "cf_auto_connect (cp_config p)"
    and "\<And>h. h \<noteq> HQuick \<Longrightarrow> scheduled h p (pcs 0) = 1"
    and "\<And>t. t \<noteq> 0 \<Longrightarrow> busy (pcs t) = None \<or> busy (pcs t) = Some HQuick"
  shows "run_inv os \<lparr>pr_pool = p, pr_store = m, pr_pcs = pcs\<rparr>"
  using assms by (simp add: run_inv_def)

text \<open>A user starts a method.\<close>

lemma run_inv_user:
  assumes inv: "run_inv os s" and os: "open_opens os" and u: "u \<noteq> 0" and c: "core p' ((pr_pcs s)(u := c)) m'"
    and p: "cp_config p' = cp_config (pr_pool s)" "pending p' = pending (pr_pool s)"
    and b: "busy c = None \<or> busy c = Some HQuick"
  shows "run_inv os (set_run u (c, p', m') s)"
proof -
  have "busy (((pr_pcs s)(u := c)) t) = None \<or> busy (((pr_pcs s)(u := c)) t) = Some HQuick" if "t \<noteq> 0" for t
    using inv os b that by (cases "t = u") (simp_all add: run_inv_def)
  then show ?thesis
    unfolding set_run_def prod.case
    using inv os u c p by (intro run_invI) (simp_all add: run_inv_def scheduled_def)
qed

lemma run_init_inv:
  assumes "run_init os cfg mn mx s"
  shows "run_inv os s"
proof (cases "open_opens os")
  case True
  let ?p = "pr_pool s" and ?m = "pr_store s"
  have init: "cp_init os cfg mn mx (?p, ?m)" and pcs: "pr_pcs s = (\<lambda>_. Idle None)"
    using assms by (auto simp: run_init_def)
  from cp_new_sys_inv [OF init] True have i: "cp_inv {} ?p ?m" "pool_ready os ?p"
    "dom (cs_conns ?m) = own ?p" "timers_ok ?p" by (simp_all add: cp_sys_inv_def)
  have "addr_ok ?p (pr_pcs s) ?m a" for a
  proof (cases "cs_conns ?m a")
    case None
    then have "a \<notin> own ?p" using i(3) by (auto simp: domIff)
    with None show ?thesis by (simp add: addr_ok_None own_def pcs)
  next
    case (Some c)
    then have a: "a \<in> own ?p" using i(3) by auto
    with i(1) Some have "tc_in_use c \<longleftrightarrow> a \<in> set (allocated_conns ?p)" by (auto simp: cp_inv_def)
    with a i(1) Some show ?thesis
      unfolding own_def cp_inv_def
      by (elim UnE) (auto simp: addr_ok_free addr_ok_alloc addr_ok_closed pcs)
  qed
  with i(1) have "core ?p (pr_pcs s) ?m" by (simp add: core_def cp_inv_def pcs)
  moreover have "scheduled h ?p (pr_pcs s 0) = 1" if "h \<noteq> HQuick" for h
    using that i(4) by (cases h) (simp_all add: scheduled_def timers_ok_def pcs)
  ultimately show ?thesis using i(2) by (simp add: run_inv_def pool_ready_def pcs)
qed (simp add: run_inv_def)

lemma resting_facts: "resting c \<Longrightarrow> hand c = None \<and> \<not> refd c \<and> busy c = None"
  by (cases c) (simp_all add: resting_def)

lemma probe_due_facts:
  "probe_due p p' \<Longrightarrow> same_sets p p' \<and> cp_config p' = cp_config p
     \<and> count_list (pending p') h = count_list (pending p) h"
  by (induction rule: probe_due.induct) (auto simp: pending_split)

lemma run_step_inv:
  assumes inv: "run_inv os s" and step: "run_step os s t"
  shows "run_inv os t"
proof (cases "open_opens os")
  case os: True
  have c: "core (pr_pool s) (pr_pcs s) (pr_store s)" and auto: "cf_auto_connect (cp_config (pr_pool s))"
    and sch: "\<And>h. h \<noteq> HQuick \<Longrightarrow> scheduled h (pr_pool s) (pr_pcs s 0) = 1"
    and usr: "\<And>t. t \<noteq> 0 \<Longrightarrow> busy (pr_pcs s t) = None \<or> busy (pr_pcs s t) = Some HQuick"
    using inv os by (auto simp: run_inv_def)
  from step show ?thesis
  proof cases
    case (call_get u)
    have "core (pr_pool s) ((pr_pcs s)(u := Look JGet)) (pr_store s)"
      by (rule core_keep [OF c]) (use resting_facts [OF call_get(3)] in simp_all)
    then show ?thesis
      unfolding call_get(1) by (rule run_inv_user [OF inv os call_get(2)]) (simp_all add: job_handler_def)
  next
    case (call_put u a c' p')
    have "core p' ((pr_pcs s)(u := c')) (pr_store s)"
      using core_take_alloc [OF c _ call_put(4), of u "Erased a"] resting_facts [OF call_put(3)] call_put(5)
      by (auto simp: put_begin_def)
    moreover have "cp_config p' = cp_config (pr_pool s)" "pending p' = pending (pr_pool s)" "busy c' = None"
      using call_put(5) by (auto simp: put_begin_def)
    ultimately show ?thesis
      unfolding call_put(1) by (intro run_inv_user [OF inv os call_put(2)]) simp_all
  next
    case (call_close u a c' m')
    obtain x where "cs_conns (pr_store s) a = Some x"
      using core_object [OF c, of a PAlloc] call_close(4) by (auto simp: at_place_def)
    from tc_close_runs [OF this, of os] call_close(5) have k: "only a (pr_store s) m'" and c': "c' = Rearm HQuick"
      by (auto simp: close_begin_def)
    have "core (pr_pool s) ((pr_pcs s)(u := c')) m'"
      by (rule core_keep [OF core_only [OF c k]]) (use resting_facts [OF call_close(3)] c' in simp_all)
    then show ?thesis
      unfolding call_close(1) by (rule run_inv_user [OF inv os call_close(2)]) (simp_all add: c')
  next
    case (timer_due p')
    note d = probe_due_facts [OF timer_due(2)]
    have "core p' ((pr_pcs s)(0 := pr_pcs s 0)) (pr_store s)"
      by (rule core_keep [OF c]) (use d core_pc [OF c] in simp_all)
    then have k: "core p' (pr_pcs s) (pr_store s)" by simp
    show ?thesis
      unfolding timer_due(1) run_inv_def using k d auto usr sch by (simp add: scheduled_def)
  next
    case (handler_starts tm h hs)
    let ?p = "set_timers (tm\<lparr>ready := hs\<rparr>) (pr_pool s)"
    note r = resting_facts [OF handler_starts(2)]
    have b: "hand (handler_begin h) = None" "\<not> refd (handler_begin h)" "pc_ok (handler_begin h)"
      "busy (handler_begin h) = Some h" by (cases h; simp add: handler_begin_def job_handler_def)+
    have "core ?p ((pr_pcs s)(0 := handler_begin h)) (pr_store s)"
      by (rule core_keep [OF c]) (use r b in simp_all)
    moreover have "scheduled k ?p (handler_begin h) = scheduled k (pr_pool s) (pr_pcs s 0)" for k
      using r b handler_starts(4) pending_split [OF handler_starts(3)] by (simp add: scheduled_def)
    ultimately show ?thesis
      unfolding handler_starts(1) set_run_def prod.case
      using auto sch usr by (intro run_invI) (simp_all del: One_nat_def)
  next
    case (thread_goes_on u r)
    obtain c' p' m' where r: "r = (c', p', m')" by (cases r)
    from thread_goes_on(3) any_thread_goes_on [OF c os auto, of u] r
    have "core p' ((pr_pcs s)(u := c')) m'" "cp_config p' = cp_config (pr_pool s)" by (auto simp: goes_on_def)
    moreover note e = thread_step_scheduled [OF thread_goes_on(3) [unfolded r]]
    have "scheduled h p' (((pr_pcs s)(u := c')) 0) = 1" if h: "h \<noteq> HQuick" for h
    proof (cases "u = 0")
      case True
      with e(1) [OF h] sch [OF h] show ?thesis by simp
    next
      case False
      with usr [OF False] h have "busy (pr_pcs s u) \<noteq> Some h" "busy c' \<noteq> Some h"
        using e(2) [of HUpdate] by auto
      with e(1) [OF h] sch [OF h] False show ?thesis by (simp add: scheduled_def)
    qed
    moreover have "busy (((pr_pcs s)(u := c')) v) = None \<or> busy (((pr_pcs s)(u := c')) v) = Some HQuick"
      if "v \<noteq> 0" for v
      using usr [OF that] e(2) [of HUpdate] by auto
    ultimately show ?thesis
      unfolding thread_goes_on(1) set_run_def r prod.case
      using auto by (intro run_invI) (simp_all only:)
  qed
qed (simp add: run_inv_def)

interpretation pool_threads: step_system "run_init os cfg mn mx" "run_step os" "run_inv os"
  for os :: "'w transport_os" and cfg mn mx
  by unfold_locales (auto intro: run_init_inv run_step_inv)

lemma reachable_core:
  assumes "open_opens os" and "reach (run_init os cfg mn mx) (run_step os) s"
  shows "core (pr_pool s) (pr_pcs s) (pr_store s)" and "cf_auto_connect (cp_config (pr_pool s))"
    and "\<And>h. h \<noteq> HQuick \<Longrightarrow> scheduled h (pr_pool s) (pr_pcs s 0) = 1"
  using pool_threads.reachable_inv [OF assms(2)] assms(1) by (simp_all add: run_inv_def)

text \<open>A step touches the object in the thread's hand, or makes a new one.\<close>

lemma thread_step_frame:
  assumes step: "thread_step os c p m = Ok (c', p', m')" and b: "cs_conns m b \<noteq> None" "hand c \<noteq> Some b"
    and bound: "\<forall>a \<in> dom (cs_conns m). a < cs_next m"
  shows "cs_conns m' b = cs_conns m b"
proof -
  have close: "cs_conns m2 b = cs_conns m1 b" if "tc_close os a m1 = Ok m2" "a \<noteq> b" for a m1 m2
    using that by (auto simp: tc_close_def tc_at_def assert_open_def tc_set_def outcome_simps split: if_splits option.splits)
  have connect: "cs_conns m2 b = cs_conns m1 b" if r: "tc_connect os a m1 = Ok (ok, m2)" "a \<noteq> b" for a ok m1 m2
  proof -
    from r(1) obtain m3 x where m3: "tc_close os a m1 = Ok m3" "cs_conns m3 a = Some x"
      by (auto simp: tc_connect_def tc_at_def outcome_simps split: option.splits)
    obtain y w where "tr_open os a (cs_world m3) = (y, w)" by (cases "tr_open os a (cs_world m3)")
    with r m3 close [OF m3(1) r(2)] show ?thesis
      by (auto simp: tc_connect_def tc_at_def assert_open_def tc_set_def outcome_simps split: if_splits)
  qed
  show ?thesis
  proof (cases c)
    case (Make j)
    have "b < cs_next m" using bound b(1) by auto
    with Make step connect show ?thesis
      by (auto simp: tc_new_def Let_def outcome_simps split: if_splits)
  next
    case (Having a ff j)
    then show ?thesis using step b
      by (cases j) (auto simp: tc_get_def tc_at_def tc_set_def outcome_simps split: if_splits option.splits)
  next
    case (Trying a h n)
    then show ?thesis using step b close
      by (cases n) (auto simp: outcome_simps split: if_splits option.splits prod.splits bool.splits)
  next
    case (Refill n cs)
    then show ?thesis using step by (cases n) auto
  next
    case (FreeLoop n cs)
    then show ?thesis using step by (cases n) (auto split: list.splits)
  next
    case (CloseLoop n)
    then show ?thesis using step by (cases n) (auto split: list.splits)
  qed (use step b close connect in \<open>auto simp: tc_put_def tc_at_def tc_set_def tc_destroy_def Let_def outcome_simps
      split: list.splits option.splits\<close>)
qed

text \<open>A pool whose user 1 holds its connection, about to take a reference, while user 2 calls
  \<open>get\<close> and the probe thread starts a check.\<close>

lemma lab_threads:
  "\<exists>s. reach (run_init lab_tr lab_cfg 1 2) (run_step lab_tr) s \<and> pr_pcs s 0 = Look (JProbe HUpdate)
     \<and> pr_pcs s 1 = Having 1 True JGet \<and> pr_pcs s 2 = Look JGet"
proof -
  let ?R = "reach (run_init lab_tr lab_cfg 1 2) (run_step lab_tr)"
  obtain p m where p: "cp_new lab_tr lab_cfg 1 2 lab_store = Ok (p, m)" "free_conns p = [1]"
    "update_waits (cp_timers p) = [HUpdate]" "ready (cp_timers p) = []" by (simp add: lab_run)
  let ?s0 = "\<lparr>pr_pool = p, pr_store = m, pr_pcs = (\<lambda>_. Idle None)\<rparr>"
  have "run_init lab_tr lab_cfg 1 2 ?s0"
    using p(1) by (auto simp: run_init_def cp_init_def lab_store_def intro!: exI [of _ lab_store])
  then have r0: "?R ?s0" by (rule reach_init)
  let ?p1 = "set_timers ((cp_timers p)\<lparr>update_waits := [], ready := [HUpdate]\<rparr>) p"
  have "probe_due p ?p1" using update_expires [of p "cp_timers p" HUpdate "[]"] p by simp
  from reach_step [OF r0 timer_due, of ?p1] this have r1: "?R (?s0\<lparr>pr_pool := ?p1\<rparr>)" by simp
  let ?p2 = "set_timers ((cp_timers ?p1)\<lparr>ready := []\<rparr>) ?p1"
  let ?s2 = "set_run 0 (handler_begin HUpdate, ?p2, m) (?s0\<lparr>pr_pool := ?p1\<rparr>)"
  have "run_step lab_tr (?s0\<lparr>pr_pool := ?p1\<rparr>) ?s2"
    using handler_starts [of "?s0\<lparr>pr_pool := ?p1\<rparr>" "cp_timers ?p1" HUpdate "[]" lab_tr]
    by (simp add: resting_def set_timers_def)
  with r1 have r2: "?R ?s2" by (rule reach_step)
  let ?s3 = "set_run 1 (Look JGet, pr_pool ?s2, pr_store ?s2) ?s2"
  have r3: "?R ?s3" by (rule reach_step [OF r2 call_get]) (simp_all add: set_run_def resting_def)
  let ?s4 = "set_run 2 (Look JGet, pr_pool ?s3, pr_store ?s3) ?s3"
  have r4: "?R ?s4" by (rule reach_step [OF r3 call_get]) (simp_all add: set_run_def resting_def)
  let ?s5 = "set_run 1 (Having 1 True JGet, (pr_pool ?s4)\<lparr>free_conns := []\<rparr>, pr_store ?s4) ?s4"
  have "?R ?s5"
    by (rule reach_step [OF r4 thread_goes_on]) (simp_all add: set_run_def resting_def set_timers_def p(2))
  moreover have "pr_pcs ?s5 0 = Look (JProbe HUpdate)" "pr_pcs ?s5 1 = Having 1 True JGet" "pr_pcs ?s5 2 = Look JGet"
    by (simp_all add: set_run_def handler_begin_def)
  ultimately show ?thesis by blast
qed

section \<open>Properties\<close>

text \<open>C22: However the users of a connection pool and its probe thread interleave, no critical section
  and no use of a connection fails an assertion or touches a destroyed object: every thread inside a
  method can take its next step, and a connection in use can always be closed.\<close>

theorem pool_threads_never_fail:
  assumes "open_opens os" and "reach (run_init os cfg mn mx) (run_step os) s"
  shows "(\<forall>t. \<exists>c p m. thread_step os (pr_pcs s t) (pr_pool s) (pr_store s) = Ok (c, p, m))
    \<and> (\<forall>a \<in> set (allocated_conns (pr_pool s)). \<exists>c m. close_begin os a (pr_store s) = Ok (c, m))"
proof (intro conjI allI ballI)
  note core = reachable_core [OF assms]
  fix t
  show "\<exists>c p m. thread_step os (pr_pcs s t) (pr_pool s) (pr_store s) = Ok (c, p, m)"
    using any_thread_goes_on [OF core(1) assms(1) core(2), of t] by (auto simp: goes_on_def)
next
  fix a assume "a \<in> set (allocated_conns (pr_pool s))"
  then obtain x where "cs_conns (pr_store s) a = Some x"
    using core_object [OF reachable_core(1) [OF assms], of a PAlloc] by (auto simp: at_place_def)
  from tc_close_runs [OF this, of os] show "\<exists>c m. close_begin os a (pr_store s) = Ok (c, m)"
    by (auto simp: close_begin_def)
qed

theorem pool_threads_never_fail_witness:
  "\<exists>s c p m. reach (run_init lab_tr lab_cfg 1 2) (run_step lab_tr) s \<and> pr_pcs s 1 = Having 1 True JGet
     \<and> pr_pcs s 2 = Look JGet \<and> thread_step lab_tr (pr_pcs s 1) (pr_pool s) (pr_store s) = Ok (c, p, m)"
  using lab_threads pool_threads_never_fail [OF lab_tr_opens] by blast

text \<open>C21: However the threads interleave, every connection object is in exactly one place, one of the
  three sets or the hands of one thread, nothing else is in them, and it is referenced exactly when
  it is allocated or its thread is between the reference and the set; the step of a thread changes no
  object but the one in its hands.\<close>

theorem pool_threads_exclusive:
  assumes "open_opens os" and "reach (run_init os cfg mn mx) (run_step os) s"
  shows "dom (cs_conns (pr_store s)) = own (pr_pool s) \<union> {a. \<exists>t. hand (pr_pcs s t) = Some a}
    \<and> distinct (free_conns (pr_pool s) @ allocated_conns (pr_pool s) @ closed_conns (pr_pool s))
    \<and> (\<forall>t a. hand (pr_pcs s t) = Some a \<longrightarrow> a \<notin> own (pr_pool s) \<and> (\<forall>u. hand (pr_pcs s u) = Some a \<longrightarrow> u = t))
    \<and> (\<forall>a c. cs_conns (pr_store s) a = Some c \<longrightarrow> (tc_in_use c \<longleftrightarrow>
         a \<in> set (allocated_conns (pr_pool s)) \<or> (\<exists>t. hand (pr_pcs s t) = Some a \<and> refd (pr_pcs s t))))
    \<and> (\<forall>t c p m a. thread_step os (pr_pcs s t) (pr_pool s) (pr_store s) = Ok (c, p, m) \<longrightarrow>
         cs_conns (pr_store s) a \<noteq> None \<longrightarrow> hand (pr_pcs s t) \<noteq> Some a \<longrightarrow> cs_conns m a = cs_conns (pr_store s) a)"
    (is "?D \<and> ?S \<and> ?H \<and> ?R \<and> ?F")
proof (intro conjI)
  note core = reachable_core(1) [OF assms]
  have places: "a \<in> dom (cs_conns (pr_store s)) \<longleftrightarrow> (\<exists>q. at_place (pr_pool s) (pr_pcs s) a q)" for a
    using core_addr [OF core, of a] by (auto simp: addr_ok_def split: option.splits)
  have one: "q = r" if "at_place (pr_pool s) (pr_pcs s) a q" "at_place (pr_pool s) (pr_pcs s) a r" for a q r
    using core_addr [OF core, of a] that by (auto simp: addr_ok_def split: option.splits)
  have own: "a \<in> own (pr_pool s) \<longleftrightarrow> at_place (pr_pool s) (pr_pcs s) a PFree \<or> at_place (pr_pool s) (pr_pcs s) a PAlloc
      \<or> at_place (pr_pool s) (pr_pcs s) a PClosed" for a by (auto simp: own_def at_place_def)
  have hand: "hand (pr_pcs s t) = Some a \<longleftrightarrow> at_place (pr_pool s) (pr_pcs s) a (PHand t)" for t a
    by (simp add: at_place_def)
  show ?D using places by (intro set_eqI) (simp add: own hand ex_place disj_assoc)
  have "distinct xs" if "ptr_ok xs" for xs :: "nat list" using set_ok_distinct [OF that] by simp
  moreover have "set (free_conns (pr_pool s)) \<inter> set (allocated_conns (pr_pool s)) = {}"
    "set (free_conns (pr_pool s)) \<inter> set (closed_conns (pr_pool s)) = {}"
    "set (allocated_conns (pr_pool s)) \<inter> set (closed_conns (pr_pool s)) = {}"
    using one [of _ PFree PAlloc] one [of _ PFree PClosed] one [of _ PAlloc PClosed] by (auto simp: at_place_def)
  ultimately show ?S using core_lists [OF core] by auto
  show ?H using one unfolding own hand by blast
  show ?R using addr_ok_in_use [OF core_addr [OF core]] by blast
  show ?F using thread_step_frame core_bound [OF core] by blast
qed

theorem pool_threads_exclusive_witness:
  "\<exists>s. reach (run_init lab_tr lab_cfg 1 2) (run_step lab_tr) s \<and> pr_pcs s 2 = Look JGet
     \<and> hand (pr_pcs s 1) = Some 1 \<and> 1 \<in> dom (cs_conns (pr_store s)) \<and> 1 \<notin> own (pr_pool s)"
proof -
  obtain s where s: "reach (run_init lab_tr lab_cfg 1 2) (run_step lab_tr) s" "pr_pcs s 1 = Having 1 True JGet"
    "pr_pcs s 2 = Look JGet" using lab_threads by blast
  then have "hand (pr_pcs s 1) = Some 1" by simp
  with s pool_threads_exclusive [OF lab_tr_opens s(1)] show ?thesis by blast
qed

text \<open>C23: However the threads interleave, the periodic check of the status and the reclaiming stay
  scheduled: each either waits for its timer, is ready to run or runs, exactly once.\<close>

theorem probe_handlers_scheduled:
  assumes "open_opens os" and "reach (run_init os cfg mn mx) (run_step os) s"
  shows "count_list (pending (pr_pool s)) HUpdate + (if busy (pr_pcs s 0) = Some HUpdate then 1 else 0) = 1
    \<and> count_list (pending (pr_pool s)) HReclaim + (if busy (pr_pcs s 0) = Some HReclaim then 1 else 0) = 1"
  using reachable_core(3) [OF assms, of HUpdate] reachable_core(3) [OF assms, of HReclaim]
  by (simp add: scheduled_def)

theorem probe_handlers_scheduled_witness:
  "\<exists>s. reach (run_init lab_tr lab_cfg 1 2) (run_step lab_tr) s \<and> pr_pcs s 0 = Look (JProbe HUpdate)
     \<and> count_list (pending (pr_pool s)) HUpdate = 0 \<and> count_list (pending (pr_pool s)) HReclaim = 1"
proof -
  obtain s where s: "reach (run_init lab_tr lab_cfg 1 2) (run_step lab_tr) s" "pr_pcs s 0 = Look (JProbe HUpdate)"
    using lab_threads by blast
  have "busy (pr_pcs s 0) = Some HUpdate" using s(2) by (simp add: job_handler_def)
  with s probe_handlers_scheduled [OF lab_tr_opens s(1)] show ?thesis by auto
qed

end
