(* ===== verification/ThriftPoolThreads.thy ===== *)
theory ThriftPoolThreads
  imports ThriftPoolSystem ConnPoolThreads
begin

text \<open>
  \<open>ThriftPool\<close> (src/sync/thrift\_pool.h) with its threads and its two mutexes: the methods take
  \<open>mutex_\<close> and \<open>remove_queue_mutex_\<close> in steps of their own; what \<open>get\<close>, \<open>put\<close> and \<open>close\<close> do in the pool of one
  server runs by the critical sections of that pool; and the thread that destroys removed servers
  looks at one pool at a time.
\<close>

section \<open>Program counters\<close>

datatype mutex = Mutex | Queue_Mutex

text \<open>The methods; \<open>put\<close> and \<open>close\<close> with a client that is not NULL.  \<open>get_options\<close>, which reads the pools as
  \<open>get_stat\<close> does, is left out.\<close>

datatype tp_call = CGet | CPut nat | CClose nat | CAdd string int | CUpdate "string list" "int list"
  | CRemove string int | CTotal int | CStatus | CHealth | CStat | CDestroy

datatype tp_value = VVoid | VConn "nat option" | VBool bool | VStatus kTCStatus | VHealth nat | VStat string

text \<open>What follows the work in the pool of a server: \<open>get\<close>, \<open>put\<close> of a connection, \<open>close\<close>.\<close>

datatype tp_errand = Getting | Putting nat | Closing

text \<open>
  Where a thread is: \<open>Rest\<close>, with what its last call returned.  Waiting for \<open>mutex_\<close>: \<open>Enter\<close>, and \<open>Retotal\<close> with
  the other mutex held.  Waiting for \<open>remove_queue_mutex_\<close>: \<open>UpdateQueue\<close> and \<open>Dropping\<close> with \<open>mutex_\<close> held,
  \<open>Removed\<close> and \<open>TurnStart\<close> without.
\<close>

datatype tp_pc = Rest tp_value | Enter tp_call | Inside tp_call | InPool tp_errand nat pc
  | UpdateQueue "string list" "int list" | Updating "string list" "int list"
  | Removed nat | Queueing nat | Retotal int | Retotaling int
  | Dropping "nat list" | DropOne nat "nat list" | Stopping | Joining
  | TurnStart | Turn nat | TurnDelete nat nat

fun resting :: "tp_pc \<Rightarrow> bool" where
  "resting (Rest v) = True"
| "resting _ = False"

text \<open>\<open>update_servers\<close> compares the sizes before it locks anything.\<close>

definition tp_begin :: "tp_call \<Rightarrow> tp_pc" where
  "tp_begin c = (case c of CUpdate hosts ports \<Rightarrow> if length hosts \<noteq> length ports then Rest (VBool False) else Enter c
     | _ \<Rightarrow> Enter c)"

fun wants :: "tp_pc \<Rightarrow> mutex option" where
  "wants (Enter c) = Some Mutex"
| "wants (Retotal n) = Some Mutex"
| "wants (UpdateQueue hosts ports) = Some Queue_Mutex"
| "wants (Removed i) = Some Queue_Mutex"
| "wants (Dropping (i # ps)) = Some Queue_Mutex"
| "wants TurnStart = Some Queue_Mutex"
| "wants _ = None"

fun holds :: "mutex \<Rightarrow> tp_pc \<Rightarrow> bool" where
  "holds Mutex (Inside c) = True"
| "holds Mutex (InPool k i c) = True"
| "holds Mutex (UpdateQueue hosts ports) = True"
| "holds Mutex (Updating hosts ports) = True"
| "holds Mutex (Retotaling n) = True"
| "holds Mutex (Dropping ps) = True"
| "holds Mutex (DropOne i ps) = True"
| "holds Queue_Mutex (Updating hosts ports) = True"
| "holds Queue_Mutex (Queueing i) = True"
| "holds Queue_Mutex (Retotal n) = True"
| "holds Queue_Mutex (Retotaling n) = True"
| "holds Queue_Mutex (DropOne i ps) = True"
| "holds Queue_Mutex (Turn k) = True"
| "holds Queue_Mutex (TurnDelete i k) = True"
| "holds _ _ = False"

text \<open>Once the mutex is there.\<close>

fun granted :: "tp_pc \<Rightarrow> tp_pc" where
  "granted (Enter c) = Inside c"
| "granted (Retotal n) = Retotaling n"
| "granted (UpdateQueue hosts ports) = Updating hosts ports"
| "granted (Removed i) = Queueing i"
| "granted (Dropping (i # ps)) = DropOne i ps"
| "granted TurnStart = Turn 0"
| "granted c = c"

section \<open>Steps\<close>

definition resting_with :: "('r \<Rightarrow> tp_value) \<Rightarrow> ('r \<times> thrift_pool \<times> 'w pool_heap) outcome \<Rightarrow> (tp_pc \<times> thrift_pool \<times> 'w pool_heap) outcome" where
  "resting_with v r = map_ok (\<lambda>(x, s). (Rest (v x), s)) r"

definition void :: "'s outcome \<Rightarrow> (unit \<times> 's) outcome" where
  "void r = map_ok (Pair ()) r"

abbreviation done_with :: "(thrift_pool \<times> 'w pool_heap) outcome \<Rightarrow> (tp_pc \<times> thrift_pool \<times> 'w pool_heap) outcome" where
  "done_with r \<equiv> resting_with (\<lambda>_. VVoid) (void r)"

text \<open>\<open>get\<close> up to the call of the pool's \<open>get\<close>: the pool, if one is connected.\<close>

definition get_select :: "thrift_pool \<Rightarrow> 'w pool_heap \<Rightarrow> (nat option \<times> thrift_pool) outcome" where
  "get_select t h =
     bind_outcome (pool_connected h (tp_localhost t)) (\<lambda>local.
       case (if local then tp_localhost t else None) of
         Some i \<Rightarrow> Ok (Some i, t)
       | None \<Rightarrow>
           if tp_pools t = [] then Ok (None, t)
           else bind_outcome (select_pool h (length (tp_pools t)) (tp_pools t, tp_index t) None) (\<lambda>(r, idx).
                map_ok (\<lambda>up. (if up then r else None, t\<lparr>tp_index := idx\<rparr>)) (pool_connected h r)))"

text \<open>\<open>remove_server\<close> up to the end of its first region.\<close>

definition remove_found ::
  "string \<Rightarrow> int \<Rightarrow> thrift_pool \<Rightarrow> 'w pool_heap \<Rightarrow> (tp_pc \<times> thrift_pool \<times> 'w pool_heap) outcome" where
  "remove_found host port t h = map_ok (\<lambda>r. case r of
       None \<Rightarrow> (Rest VVoid, t, h)
     | Some i \<Rightarrow> (Removed i, t\<lparr>tp_localhost := (if tp_localhost_name t = host then None else tp_localhost t),
                   tp_pools := remove1 i (tp_pools t)\<rparr>, h)) (find_server h (host, port) (tp_pools t))"

text \<open>The pool of the connection, from the map: \<open>f\<close> is what is done with it.\<close>

definition with_pool_of ::
  "nat \<Rightarrow> (nat \<Rightarrow> conn_pool \<Rightarrow> (tp_pc \<times> thrift_pool \<times> 'w pool_heap) outcome) \<Rightarrow> thrift_pool \<Rightarrow> 'w pool_heap
     \<Rightarrow> (tp_pc \<times> thrift_pool \<times> 'w pool_heap) outcome" where
  "with_pool_of a f t h = (case map_of (tp_conn_map t) a of
       None \<Rightarrow> Ok (Rest (VBool False), t, h)
     | Some i \<Rightarrow> bind_outcome (pool_at h i) (f i))"

definition tp_inside ::
  "'w tp_env \<Rightarrow> tp_call \<Rightarrow> thrift_pool \<Rightarrow> 'w pool_heap \<Rightarrow> (tp_pc \<times> thrift_pool \<times> 'w pool_heap) outcome" where
  "tp_inside env c t h = (case c of
       CGet \<Rightarrow> map_ok (\<lambda>(r, t). case r of None \<Rightarrow> (Rest (VConn None), t, h)
         | Some i \<Rightarrow> (InPool Getting i (Look JGet), t, h)) (get_select t h)
     | CPut a \<Rightarrow> with_pool_of a (\<lambda>i p.
         Ok (InPool (Putting a) i (fst (put_begin a p)), t, pool_put i (snd (put_begin a p), pm_conns h) h)) t h
     | CClose a \<Rightarrow> with_pool_of a (\<lambda>i p.
         map_ok (\<lambda>(c, m). (InPool Closing i c, t, pool_put i (p, m) h)) (close_begin (te_os env) a (pm_conns h))) t h
     | CAdd host port \<Rightarrow> resting_with VBool (add_server (te_os env) host port t h)
     | CUpdate hosts ports \<Rightarrow> Ok (UpdateQueue hosts ports, t, h)
     | CRemove host port \<Rightarrow> remove_found host port t h
     | CTotal n \<Rightarrow> done_with (set_total_conn env n t h)
     | CStatus \<Rightarrow> resting_with VStatus (map_ok (\<lambda>v. (v, t, h)) (tp_get_status t h))
     | CHealth \<Rightarrow> resting_with VHealth (map_ok (\<lambda>v. (v, t, h)) (tp_get_health t h))
     | CStat \<Rightarrow> resting_with VStat (map_ok (\<lambda>v. (v, t, h)) (tp_get_stat t h))
     | CDestroy \<Rightarrow> Ok (Dropping (tp_pools t), t, h))"

text \<open>After the work in the pool, which gave \<open>r\<close>.\<close>

fun errand_done :: "tp_errand \<Rightarrow> nat \<Rightarrow> nat option \<Rightarrow> thrift_pool \<Rightarrow> tp_value \<times> thrift_pool" where
  "errand_done Getting i None t = (VConn None, t)"
| "errand_done Getting i (Some a) t = (VConn (Some a), t\<lparr>tp_conn_map := map_put a i (tp_conn_map t)\<rparr>)"
| "errand_done (Putting a) i r t = (VBool True, t\<lparr>tp_conn_map := set_erase fst a (tp_conn_map t)\<rparr>)"
| "errand_done Closing i r t = (VBool True, t)"

text \<open>One pool of the queue.\<close>

definition turn_act :: "nat \<Rightarrow> thrift_pool \<Rightarrow> 'w pool_heap \<Rightarrow> (tp_pc \<times> thrift_pool \<times> 'w pool_heap) outcome" where
  "turn_act k t h =
     (if k < length (tp_queue t) then
        map_ok (\<lambda>p. if can_be_destroyed p
            then (TurnDelete (tp_queue t ! k) k, t\<lparr>tp_queue := take k (tp_queue t) @ drop (Suc k) (tp_queue t)\<rparr>, h)
            else (Turn (Suc k), t, h)) (pool_at h (tp_queue t ! k))
      else if \<not> tp_stop_flag t \<and> tp_queue t = [] then Ok (Rest VVoid, t\<lparr>tp_thread := Returned\<rparr>, h)
      else Ok (TurnStart, t, h))"

fun tp_act ::
  "'w tp_env \<Rightarrow> tp_pc \<Rightarrow> thrift_pool \<Rightarrow> 'w pool_heap \<Rightarrow> (tp_pc \<times> thrift_pool \<times> 'w pool_heap) outcome" where
  "tp_act env (Inside c) t h = tp_inside env c t h"
| "tp_act env (InPool k i (Idle r)) t h = Ok (Rest (fst (errand_done k i r t)), snd (errand_done k i r t), h)"
| "tp_act env (InPool k i c) t h = bind_outcome (pool_at h i) (\<lambda>p.
     map_ok (\<lambda>(c, s). (InPool k i c, t, pool_put i s h)) (thread_step (te_os env) c p (pm_conns h)))"
| "tp_act env (Updating hosts ports) t h = resting_with VBool (update_servers (te_os env) hosts ports t h)"
| "tp_act env (Queueing i) t h = Ok (Retotal (tp_total_conn t), t\<lparr>tp_queue := tp_queue t @ [i]\<rparr>, h)"
| "tp_act env (Retotaling n) t h = done_with (set_total_conn env n t h)"
| "tp_act env (Dropping []) t h = Ok (Stopping, t\<lparr>tp_pools := []\<rparr>, h)"
| "tp_act env (DropOne i ps) t h = Ok (Dropping ps, t\<lparr>tp_queue := tp_queue t @ [i]\<rparr>, h)"
| "tp_act env Stopping t h = Ok (if tp_thread t = No_Thread then Rest VVoid else Joining, stop_remove_thread_begin t, h)"
| "tp_act env Joining t h = Ok (if join_returns t then Rest VVoid else Joining,
     if join_returns t then t\<lparr>tp_thread := No_Thread\<rparr> else t, h)"
| "tp_act env (Turn k) t h = turn_act k t h"
| "tp_act env (TurnDelete i k) t h = bind_outcome (pool_at h i) (\<lambda>p.
     map_ok (\<lambda>m. (Turn k, t, h\<lparr>pm_pools := (pm_pools h)(i := None), pm_conns := m\<rparr>))
       (cp_destroy (te_os env) p (pm_conns h)))"
| "tp_act env c t h = Ok (c, t, h)"

section \<open>A thread that runs alone\<close>

definition tp_once ::
  "'w tp_env \<Rightarrow> tp_pc \<times> thrift_pool \<times> 'w pool_heap \<Rightarrow> (tp_pc \<times> thrift_pool \<times> 'w pool_heap) outcome" where
  "tp_once env s = (case s of (c, t, h) \<Rightarrow> if wants c \<noteq> None then Ok (granted c, t, h) else tp_act env c t h)"

fun tp_alone ::
  "'w tp_env \<Rightarrow> nat \<Rightarrow> tp_pc \<times> thrift_pool \<times> 'w pool_heap \<Rightarrow> (tp_pc \<times> thrift_pool \<times> 'w pool_heap) outcome" where
  "tp_alone env 0 s = Ok s"
| "tp_alone env (Suc n) s = bind_outcome (tp_once env s) (tp_alone env n)"

definition tp_ends ::
  "'w tp_env \<Rightarrow> tp_pc \<times> thrift_pool \<times> 'w pool_heap \<Rightarrow> (tp_pc \<times> thrift_pool \<times> 'w pool_heap) outcome \<Rightarrow> bool" where
  "tp_ends env s r \<longleftrightarrow> (\<exists>n. \<forall>k. tp_alone env (n + k) s = r)"

lemma tp_ends_rest: "tp_ends env (Rest v, t, h) (Ok (Rest v, t, h))"
proof -
  have "tp_alone env k (Rest v, t, h) = Ok (Rest v, t, h)" for k by (induction k) (simp_all add: tp_once_def)
  then show ?thesis by (simp add: tp_ends_def)
qed

lemma tp_ends_step:
  assumes "\<And>s'. tp_once env s = Ok s' \<Longrightarrow> tp_ends env s' (f s')"
  shows "tp_ends env s (bind_outcome (tp_once env s) f)"
proof (cases "tp_once env s")
  case (Ok s')
  from assms [OF Ok] obtain n where "\<forall>k. tp_alone env (n + k) s' = f s'" by (auto simp: tp_ends_def)
  then have "tp_alone env (Suc n + k) s = f s'" for k using Ok by simp
  with Ok show ?thesis unfolding tp_ends_def by (intro exI [of _ "Suc n"]) simp
next
  case Abort
  then have "tp_alone env (Suc 0 + k) s = Abort" for k by simp
  with Abort show ?thesis unfolding tp_ends_def by (intro exI [of _ "Suc 0"]) simp
next
  case Undef
  then have "tp_alone env (Suc 0 + k) s = Undef" for k by simp
  with Undef show ?thesis unfolding tp_ends_def by (intro exI [of _ "Suc 0"]) simp
qed

lemma tp_ends_next: "tp_once env s = Ok s' \<Longrightarrow> tp_ends env s' r \<Longrightarrow> tp_ends env s r"
  using tp_ends_step [of env s "\<lambda>_. r"] by simp

lemma tp_ends_map:
  assumes "tp_once env s = map_ok g x" and "\<And>y. x = Ok y \<Longrightarrow> tp_ends env (g y) (f y)"
  shows "tp_ends env s (bind_outcome x f)"
proof (cases x)
  case (Ok y)
  with assms(1) have "tp_once env s = Ok (g y)" by simp
  from tp_ends_next [OF this assms(2) [OF Ok]] Ok show ?thesis by simp
next
  case Abort
  with assms(1) show ?thesis using tp_ends_step [of env s "\<lambda>_. Abort"] by simp
next
  case Undef
  with assms(1) show ?thesis using tp_ends_step [of env s "\<lambda>_. Undef"] by simp
qed

lemma tp_ends_last:
  assumes "tp_once env s = resting_with v r"
  shows "tp_ends env s (resting_with v r)"
proof -
  have "tp_ends env s (bind_outcome r (\<lambda>(x, t, h). Ok (Rest (v x), t, h)))"
    by (rule tp_ends_map [OF assms [unfolded resting_with_def]]) (auto simp: tp_ends_rest)
  moreover have "bind_outcome r (\<lambda>(x, t, h). Ok (Rest (v x), t, h)) = resting_with v r"
    by (cases r) (simp_all add: resting_with_def split_beta)
  ultimately show ?thesis by simp
qed

text \<open>A method that is one region of \<open>mutex_\<close>.\<close>

lemma region_ends:
  assumes "tp_begin c = Enter c" and "tp_ends env (Inside c, t, h) r"
  shows "tp_ends env (tp_begin c, t, h) r"
  by (rule tp_ends_next [where s' = "(Inside c, t, h)"]) (simp_all add: assms tp_once_def)

lemma simple_ends:
  assumes "tp_begin c = Enter c" and "tp_inside env c t h = resting_with v r"
  shows "tp_ends env (tp_begin c, t, h) (resting_with v r)"
  by (rule region_ends [OF assms(1) tp_ends_last]) (simp add: tp_once_def assms(2))

text \<open>The critical sections in the pool of one server.\<close>

lemma pool_put_twice [simp]: "pool_put i s (pool_put i s' h) = pool_put i s h"
  by (simp add: pool_put_def)

lemma pool_put_same: "pm_pools h i = Some p \<Longrightarrow> pool_put i (p, pm_conns h) h = h"
  by (simp add: pool_put_def fun_upd_idem)

lemma pool_put_at [simp]: "pm_pools (pool_put i s h) i = Some (fst s)" "pm_conns (pool_put i s h) = snd s"
  by (simp_all add: pool_put_def)

definition errand_result ::
  "tp_errand \<Rightarrow> nat \<Rightarrow> thrift_pool \<Rightarrow> 'w pool_heap \<Rightarrow> pc \<times> conn_pool \<times> 'w cstore \<Rightarrow> (tp_pc \<times> thrift_pool \<times> 'w pool_heap) outcome" where
  "errand_result k i t h x = (case x of (Idle r, s) \<Rightarrow>
       Ok (Rest (fst (errand_done k i r t)), snd (errand_done k i r t), pool_put i s h) | _ \<Rightarrow> Undef)"

lemma in_pool_once:
  assumes "pm_pools h i = Some p" and "\<nexists>r. c = Idle r"
  shows "tp_once env (InPool k i c, t, h)
    = map_ok (\<lambda>(c, s). (InPool k i c, t, pool_put i s h)) (thread_step (te_os env) c p (pm_conns h))"
  using assms by (cases c) (simp_all add: tp_once_def pool_at_def)

lemma in_pool_ends:
  assumes "pm_pools h i = Some p" and "\<And>c' p' m'. thread_run (te_os env) n c p (pm_conns h) = Ok (c', p', m') \<Longrightarrow> \<exists>r. c' = Idle r"
  shows "tp_ends env (InPool k i c, t, h) (bind_outcome (thread_run (te_os env) n c p (pm_conns h)) (errand_result k i t h))"
  using assms
proof (induction n arbitrary: c p h)
  case 0
  from 0(2) obtain r where c: "c = Idle r" by auto
  have "tp_once env (InPool k i c, t, h) = Ok (Rest (fst (errand_done k i r t)), snd (errand_done k i r t), h)"
    by (simp add: c tp_once_def)
  from tp_ends_next [OF this tp_ends_rest] show ?case using 0(1) by (simp add: c errand_result_def pool_put_same)
next
  case (Suc n)
  show ?case
  proof (cases "\<exists>r. c = Idle r")
    case True
    then have "thread_run (te_os env) (Suc n) c p (pm_conns h) = thread_run (te_os env) n c p (pm_conns h)" by auto
    with Suc.IH [OF Suc.prems(1), of c] Suc.prems(2) show ?thesis by simp
  next
    case False
    have "tp_ends env (InPool k i c, t, h) (bind_outcome (thread_step (te_os env) c p (pm_conns h))
        (\<lambda>(c, p, m). bind_outcome (thread_run (te_os env) n c p m) (errand_result k i t h)))"
    proof (rule tp_ends_map [OF in_pool_once [OF Suc.prems(1)]])
      fix y assume y: "thread_step (te_os env) c p (pm_conns h) = Ok y"
      obtain c1 p1 m1 where [simp]: "y = (c1, p1, m1)" by (cases y)
      let ?h = "pool_put i (p1, m1) h"
      have "errand_result k i t ?h = errand_result k i t h" by (auto simp: errand_result_def fun_eq_iff split: pc.split)
      moreover have "tp_ends env (InPool k i c1, t, ?h)
          (bind_outcome (thread_run (te_os env) n c1 p1 (pm_conns ?h)) (errand_result k i t ?h))"
      proof (rule Suc.IH)
        show "pm_pools ?h i = Some p1" by simp
        fix c' p' m'
        assume "thread_run (te_os env) n c1 p1 (pm_conns ?h) = Ok (c', p', m')"
        then show "\<exists>r. c' = Idle r" using Suc.prems(2) [of c' p' m'] y by simp
      qed
      ultimately show "tp_ends env (case y of (c, s) \<Rightarrow> (InPool k i c, t, pool_put i s h))
          (case y of (c, p, m) \<Rightarrow> bind_outcome (thread_run (te_os env) n c p m) (errand_result k i t h))" by simp
    qed (use False in blast)
    moreover have "bind_outcome (thread_run (te_os env) (Suc n) c p (pm_conns h)) (errand_result k i t h)
        = bind_outcome (thread_step (te_os env) c p (pm_conns h)) (\<lambda>(c, p, m). bind_outcome (thread_run (te_os env) n c p m) (errand_result k i t h))"
      by (cases "thread_step (te_os env) c p (pm_conns h)") auto
    ultimately show ?thesis by simp
  qed
qed

lemma errand_ends:
  assumes p: "pm_pools h i = Some p" and e: "ends (te_os env) c p (pm_conns h) r"
    and idle: "\<And>c' s. r = Ok (c', s) \<Longrightarrow> \<exists>x. c' = Idle x"
  shows "tp_ends env (InPool k i c, t, h) (bind_outcome r (errand_result k i t h))"
proof -
  from e obtain n where n: "thread_run (te_os env) n c p (pm_conns h) = r" unfolding ends_def by (metis add.right_neutral)
  from in_pool_ends [OF p, of env n c k t] idle show ?thesis unfolding n by blast
qed

lemma idle_with_Ok: "idle_with r = Ok (c, s) \<Longrightarrow> \<exists>x. c = Idle x"
  by (cases r) auto

lemma get_result_Ok: "get_result r = Ok (c, s) \<Longrightarrow> \<exists>x. c = Idle x"
  by (cases r) (auto simp: get_result_def)

section \<open>The methods of a thread that runs alone\<close>

lemma tp_get_select:
  "tp_get os t h = bind_outcome (get_select t h) (\<lambda>(r, t). case r of None \<Rightarrow> Ok (None, t, h) | Some i \<Rightarrow> get_from os i t h)"
proof (cases "pool_connected h (tp_localhost t)")
  case (Ok local)
  show ?thesis
  proof (cases "if local then tp_localhost t else None")
    case None
    show ?thesis
    proof (cases "select_pool h (length (tp_pools t)) (tp_pools t, tp_index t) None")
      case sel: (Ok x)
      obtain r idx where [simp]: "x = (r, idx)" by (cases x)
      show ?thesis by (cases "pool_connected h r") (simp_all add: tp_get_def get_select_def Ok None sel)
    qed (simp_all add: tp_get_def get_select_def Ok None)
  qed (simp add: tp_get_def get_select_def Ok)
qed (simp_all add: tp_get_def get_select_def)

lemma get_ends: "tp_ends env (tp_begin CGet, t, h) (resting_with VConn (tp_get (te_os env) t h))"
proof (rule region_ends)
  let ?f = "\<lambda>(r, t). resting_with VConn (case r of None \<Rightarrow> Ok (None, t, h) | Some i \<Rightarrow> get_from (te_os env) i t h)"
  have "tp_ends env (Inside CGet, t, h) (bind_outcome (get_select t h) ?f)"
  proof (rule tp_ends_map [where g = "\<lambda>(r, t). case r of None \<Rightarrow> (Rest (VConn None), t, h)
         | Some i \<Rightarrow> (InPool Getting i (Look JGet), t, h)"])
    fix y :: "nat option \<times> thrift_pool"
    obtain r t' where y: "y = (r, t')" by (cases y)
    have "tp_ends env (InPool Getting i (Look JGet), t', h) (resting_with VConn (get_from (te_os env) i t' h))" for i
    proof (cases "pm_pools h i")
      case None
      then show ?thesis using tp_ends_step [of env "(InPool Getting i (Look JGet), t', h)" "\<lambda>_. Undef"]
        by (simp add: tp_once_def pool_at_def get_from_def resting_with_def)
    next
      case (Some p)
      have "bind_outcome (get_result (cp_get (te_os env) p (pm_conns h))) (errand_result Getting i t' h)
          = resting_with VConn (get_from (te_os env) i t' h)"
        by (cases "cp_get (te_os env) p (pm_conns h)")
          (auto simp: get_result_def errand_result_def get_from_def pool_at_def Some resting_with_def split: option.split)
      with errand_ends [where k = Getting and t = t' and env = env, OF Some get_alone get_result_Ok] show ?thesis by simp
    qed
    then show "tp_ends env (case y of (r, t) \<Rightarrow> case r of None \<Rightarrow> (Rest (VConn None), t, h)
        | Some i \<Rightarrow> (InPool Getting i (Look JGet), t, h)) (?f y)"
      by (cases r) (simp_all add: y resting_with_def tp_ends_rest)
  qed (simp add: tp_once_def tp_inside_def)
  moreover have "bind_outcome (get_select t h) ?f = resting_with VConn (tp_get (te_os env) t h)"
    by (cases "get_select t h") (auto simp: tp_get_select resting_with_def)
  ultimately show "tp_ends env (Inside CGet, t, h) (resting_with VConn (tp_get (te_os env) t h))" by simp
qed (simp add: tp_begin_def)

text \<open>A method that looks for the pool of its connection.\<close>

lemma pool_of_ends:
  assumes b: "tp_begin c = Enter c" and i: "tp_inside env c t h = with_pool_of a f t h"
    and none: "map_of (tp_conn_map t) a = None \<Longrightarrow> r = Ok (False, t, h)"
    and some: "\<And>i. map_of (tp_conn_map t) a = Some i \<Longrightarrow>
      tp_ends env (Inside c, t, h) (resting_with VBool r)"
  shows "tp_ends env (tp_begin c, t, h) (resting_with VBool r)"
proof (rule region_ends [OF b])
  show "tp_ends env (Inside c, t, h) (resting_with VBool r)"
  proof (cases "map_of (tp_conn_map t) a")
    case None
    with i have "tp_once env (Inside c, t, h) = Ok (Rest (VBool False), t, h)" by (simp add: tp_once_def with_pool_of_def)
    from tp_ends_next [OF this tp_ends_rest] show ?thesis by (simp add: none [OF None] resting_with_def)
  qed (rule some)
qed

lemma put_ends: "tp_ends env (tp_begin (CPut a), t, h) (resting_with VBool (tp_put (te_os env) (Some a) t h))"
proof (rule pool_of_ends)
  fix i assume i: "map_of (tp_conn_map t) a = Some i"
  let ?k = "Putting a"
  let ?f = "\<lambda>p. bind_outcome (idle_with (cp_put (te_os env) (Some a) p (pm_conns h))) (errand_result ?k i t h)"
  have "tp_ends env (Inside (CPut a), t, h) (bind_outcome (pool_at h i) ?f)"
  proof (rule tp_ends_map [where g = "\<lambda>p. (InPool ?k i (fst (put_begin a p)), t, pool_put i (snd (put_begin a p), pm_conns h) h)"])
    show "tp_once env (Inside (CPut a), t, h)
        = map_ok (\<lambda>p. (InPool ?k i (fst (put_begin a p)), t, pool_put i (snd (put_begin a p), pm_conns h) h)) (pool_at h i)"
      by (cases "pool_at h i") (simp_all add: i tp_once_def tp_inside_def with_pool_of_def)
    fix p
    let ?h = "pool_put i (snd (put_begin a p), pm_conns h) h"
    have "errand_result ?k i t ?h = errand_result ?k i t h" by (auto simp: errand_result_def fun_eq_iff split: pc.split)
    moreover have "ends (te_os env) (fst (put_begin a p)) (snd (put_begin a p)) (pm_conns ?h)
        (idle_with (cp_put (te_os env) (Some a) p (pm_conns h)))" using put_alone [of "te_os env" a p "pm_conns h"] by simp
    ultimately show "tp_ends env (InPool ?k i (fst (put_begin a p)), t, ?h) (?f p)"
      using errand_ends [of ?h i "snd (put_begin a p)" env "fst (put_begin a p)" _ ?k t, OF _ _ idle_with_Ok] by simp
  qed
  moreover have "bind_outcome (pool_at h i) ?f = resting_with VBool (tp_put (te_os env) (Some a) t h)"
  proof (cases "pool_at h i")
    case (Ok p)
    then show ?thesis
      by (cases "cp_put (te_os env) (Some a) p (pm_conns h)") (auto simp: i tp_put_def resting_with_def errand_result_def)
  qed (simp_all add: tp_put_def resting_with_def i)
  ultimately show "tp_ends env (Inside (CPut a), t, h) (resting_with VBool (tp_put (te_os env) (Some a) t h))" by simp
qed (simp_all add: tp_begin_def tp_inside_def tp_put_def)

lemma close_ends:
  "tp_ends env (tp_begin (CClose a), t, h) (resting_with VBool (map_ok (\<lambda>(b, h). (b, t, h)) (tp_close (te_os env) (Some a) t h)))"
proof (rule pool_of_ends)
  fix i assume i: "map_of (tp_conn_map t) a = Some i"
  let ?r = "resting_with VBool (map_ok (\<lambda>(b, h). (b, t, h)) (tp_close (te_os env) (Some a) t h))"
  let ?f = "\<lambda>p. bind_outcome (idle_with (cp_close (te_os env) (Some a) p (pm_conns h))) (errand_result Closing i t h)"
  show "tp_ends env (Inside (CClose a), t, h) ?r"
  proof (cases "pool_at h i")
    case (Ok p)
    then have p: "pm_pools h i = Some p" by (simp add: pool_at_def split: option.splits)
    let ?g = "\<lambda>m. errand_result Closing i t h (Idle None, set_quick_update_status p, m)"
    have "tp_ends env (Inside (CClose a), t, h) (bind_outcome (tc_close (te_os env) a (pm_conns h)) ?g)"
    proof (rule tp_ends_map [where g = "\<lambda>m. (InPool Closing i (Rearm HQuick), t, pool_put i (p, m) h)"])
      show "tp_once env (Inside (CClose a), t, h)
          = map_ok (\<lambda>m. (InPool Closing i (Rearm HQuick), t, pool_put i (p, m) h)) (tc_close (te_os env) a (pm_conns h))"
        using Ok by (cases "tc_close (te_os env) a (pm_conns h)")
          (simp_all add: i tp_once_def tp_inside_def with_pool_of_def close_begin_def)
      fix m
      let ?h = "pool_put i (p, m) h"
      have "ends (te_os env) (Rearm HQuick) p (pm_conns ?h) (Ok (Idle None, set_quick_update_status p, m))"
        by (rule ends_next [OF _ ends_idle]) simp
      from errand_ends [where k = Closing and t = t and i = i, OF _ this]
      show "tp_ends env (InPool Closing i (Rearm HQuick), t, ?h) (?g m)" by (simp add: errand_result_def)
    qed
    moreover have "bind_outcome (tc_close (te_os env) a (pm_conns h)) ?g = ?r"
      using Ok by (cases "tc_close (te_os env) a (pm_conns h)")
        (simp_all add: i tp_close_def cp_close_def resting_with_def errand_result_def)
    ultimately show ?thesis by simp
  next
    case Abort
    then show ?thesis by (simp add: pool_at_def split: option.splits)
  next
    case Undef
    then show ?thesis using tp_ends_step [of env "(Inside (CClose a), t, h)" "\<lambda>_. Undef"]
      by (simp add: i tp_once_def tp_inside_def with_pool_of_def tp_close_def resting_with_def)
  qed
qed (simp_all add: tp_begin_def tp_inside_def tp_close_def)

lemma remove_ends: "tp_ends env (tp_begin (CRemove host port), t, h) (done_with (remove_server env host port t h))"
proof (rule tp_ends_next)
  show "tp_once env (tp_begin (CRemove host port), t, h) = Ok (Inside (CRemove host port), t, h)"
    by (simp add: tp_once_def tp_begin_def)
  let ?rest = "\<lambda>i. let t = t\<lparr>tp_localhost := (if tp_localhost_name t = host then None else tp_localhost t),
                     tp_pools := remove1 i (tp_pools t), tp_queue := tp_queue t @ [i]\<rparr>
           in set_total_conn env (tp_total_conn t) t h"
  have "tp_ends env (Inside (CRemove host port), t, h) (bind_outcome (find_server h (host, port) (tp_pools t))
      (\<lambda>r. case r of None \<Rightarrow> Ok (Rest VVoid, t, h) | Some i \<Rightarrow> done_with (?rest i)))"
  proof (rule tp_ends_map [where g = "\<lambda>r. case r of None \<Rightarrow> (Rest VVoid, t, h)
       | Some i \<Rightarrow> (Removed i, t\<lparr>tp_localhost := (if tp_localhost_name t = host then None else tp_localhost t),
                   tp_pools := remove1 i (tp_pools t)\<rparr>, h)"])
    show "tp_once env (Inside (CRemove host port), t, h) = map_ok (\<lambda>r. case r of None \<Rightarrow> (Rest VVoid, t, h)
       | Some i \<Rightarrow> (Removed i, t\<lparr>tp_localhost := (if tp_localhost_name t = host then None else tp_localhost t),
                   tp_pools := remove1 i (tp_pools t)\<rparr>, h)) (find_server h (host, port) (tp_pools t))"
      by (simp add: tp_once_def tp_inside_def remove_found_def)
    fix r assume "find_server h (host, port) (tp_pools t) = Ok r"
    show "tp_ends env (case r of None \<Rightarrow> (Rest VVoid, t, h)
       | Some i \<Rightarrow> (Removed i, t\<lparr>tp_localhost := (if tp_localhost_name t = host then None else tp_localhost t),
                   tp_pools := remove1 i (tp_pools t)\<rparr>, h))
       (case r of None \<Rightarrow> Ok (Rest VVoid, t, h) | Some i \<Rightarrow> done_with (?rest i))"
    proof (cases r)
      case (Some i)
      let ?t = "t\<lparr>tp_localhost := (if tp_localhost_name t = host then None else tp_localhost t),
          tp_pools := remove1 i (tp_pools t)\<rparr>"
      let ?t' = "?t\<lparr>tp_queue := tp_queue ?t @ [i]\<rparr>"
      have "tp_ends env (Retotaling (tp_total_conn ?t), ?t', h) (done_with (set_total_conn env (tp_total_conn ?t) ?t' h))"
        by (rule tp_ends_last) (simp add: tp_once_def)
      then have "tp_ends env (Retotal (tp_total_conn ?t), ?t', h) (done_with (set_total_conn env (tp_total_conn ?t) ?t' h))"
        by (rule tp_ends_next [rotated]) (simp add: tp_once_def)
      then have "tp_ends env (Queueing i, ?t, h) (done_with (set_total_conn env (tp_total_conn ?t) ?t' h))"
        by (rule tp_ends_next [rotated]) (simp add: tp_once_def)
      then have "tp_ends env (Removed i, ?t, h) (done_with (set_total_conn env (tp_total_conn ?t) ?t' h))"
        by (rule tp_ends_next [rotated]) (simp add: tp_once_def)
      with Some show ?thesis by (simp add: Let_def)
    qed (simp add: tp_ends_rest)
  qed
  moreover have "bind_outcome (find_server h (host, port) (tp_pools t))
      (\<lambda>r. case r of None \<Rightarrow> Ok (Rest VVoid, t, h) | Some i \<Rightarrow> done_with (?rest i)) = done_with (remove_server env host port t h)"
    by (cases "find_server h (host, port) (tp_pools t)")
      (auto simp: remove_server_def resting_with_def void_def Let_def split: option.split)
  ultimately show "tp_ends env (Inside (CRemove host port), t, h) (done_with (remove_server env host port t h))" by simp
qed

lemma update_ends:
  "tp_ends env (tp_begin (CUpdate hosts ports), t, h) (resting_with VBool (update_servers (te_os env) hosts ports t h))"
proof (cases "length hosts = length ports")
  case False
  then show ?thesis by (simp add: tp_begin_def update_servers_def resting_with_def tp_ends_rest)
next
  case True
  let ?r = "resting_with VBool (update_servers (te_os env) hosts ports t h)"
  have "tp_ends env (Updating hosts ports, t, h) ?r" by (rule tp_ends_last) (simp add: tp_once_def)
  then have "tp_ends env (UpdateQueue hosts ports, t, h) ?r" by (rule tp_ends_next [rotated]) (simp add: tp_once_def)
  then have "tp_ends env (Inside (CUpdate hosts ports), t, h) ?r"
    by (rule tp_ends_next [rotated]) (simp add: tp_once_def tp_inside_def)
  then have "tp_ends env (Enter (CUpdate hosts ports), t, h) ?r" by (rule tp_ends_next [rotated]) (simp add: tp_once_def)
  with True show ?thesis by (simp add: tp_begin_def)
qed

text \<open>The methods that are one region.\<close>

lemma add_ends: "tp_ends env (tp_begin (CAdd host port), t, h) (resting_with VBool (add_server (te_os env) host port t h))"
  and total_ends: "tp_ends env (tp_begin (CTotal n), t, h) (done_with (set_total_conn env n t h))"
  and status_ends: "tp_ends env (tp_begin CStatus, t, h) (resting_with VStatus (map_ok (\<lambda>v. (v, t, h)) (tp_get_status t h)))"
  and health_ends: "tp_ends env (tp_begin CHealth, t, h) (resting_with VHealth (map_ok (\<lambda>v. (v, t, h)) (tp_get_health t h)))"
  and stat_ends: "tp_ends env (tp_begin CStat, t, h) (resting_with VStat (map_ok (\<lambda>v. (v, t, h)) (tp_get_stat t h)))"
  by (rule simple_ends; simp add: tp_begin_def tp_inside_def)+

text \<open>One turn of the thread that destroys removed servers.\<close>

lemma tp_gets_map:
  assumes "tp_once env s = map_ok g x" and "\<And>y. x = Ok y \<Longrightarrow> \<exists>n. tp_alone env n (g y) = f y"
  shows "\<exists>n. tp_alone env n s = bind_outcome x f"
proof (cases x)
  case (Ok y)
  from assms(2) [OF Ok] obtain n where "tp_alone env n (g y) = f y" by blast
  with assms(1) Ok show ?thesis by (intro exI [of _ "Suc n"]) simp
qed (use assms(1) in \<open>intro exI [of _ "Suc 0"], simp\<close>)+

definition turn_result ::
  "thrift_pool \<Rightarrow> nat list \<times> 'w pool_heap \<Rightarrow> tp_pc \<times> thrift_pool \<times> 'w pool_heap" where
  "turn_result t s = (if \<not> tp_stop_flag t \<and> fst s = []
     then (Rest VVoid, t\<lparr>tp_queue := fst s, tp_thread := Returned\<rparr>, snd s) else (TurnStart, t\<lparr>tp_queue := fst s\<rparr>, snd s))"

lemma turn_gets:
  "\<exists>n. tp_alone env n (Turn (length pre), t\<lparr>tp_queue := pre @ rest\<rparr>, h)
     = map_ok (\<lambda>(q, h). turn_result t (pre @ q, h)) (remove_pass (te_os env) rest h)"
proof (induction rest arbitrary: pre h)
  case Nil
  have "tp_alone env (Suc 0) (Turn (length pre), t\<lparr>tp_queue := pre\<rparr>, h) = Ok (turn_result t (pre, h))"
    by (simp add: tp_once_def turn_act_def turn_result_def)
  then show ?case by (intro exI [of _ "Suc 0"]) simp
next
  case (Cons i rest)
  let ?t = "t\<lparr>tp_queue := pre @ i # rest\<rparr>"
  let ?f = "\<lambda>p. if can_be_destroyed p
      then bind_outcome (cp_destroy (te_os env) p (pm_conns h)) (\<lambda>m. map_ok (\<lambda>(q, h). turn_result t (pre @ q, h))
        (remove_pass (te_os env) rest (h\<lparr>pm_pools := (pm_pools h)(i := None), pm_conns := m\<rparr>)))
      else map_ok (\<lambda>(q, h). turn_result t (pre @ i # q, h)) (remove_pass (te_os env) rest h)"
  have "\<exists>n. tp_alone env n (Turn (length pre), ?t, h) = bind_outcome (pool_at h i) ?f"
  proof (rule tp_gets_map [where g = "\<lambda>p. if can_be_destroyed p
      then (TurnDelete i (length pre), t\<lparr>tp_queue := pre @ rest\<rparr>, h) else (Turn (Suc (length pre)), ?t, h)"])
    show "tp_once env (Turn (length pre), ?t, h) = map_ok (\<lambda>p. if can_be_destroyed p
        then (TurnDelete i (length pre), t\<lparr>tp_queue := pre @ rest\<rparr>, h) else (Turn (Suc (length pre)), ?t, h)) (pool_at h i)"
      by (cases "pool_at h i") (simp_all add: tp_once_def turn_act_def)
    fix p assume p: "pool_at h i = Ok p"
    show "\<exists>n. tp_alone env n (if can_be_destroyed p then (TurnDelete i (length pre), t\<lparr>tp_queue := pre @ rest\<rparr>, h)
        else (Turn (Suc (length pre)), ?t, h)) = ?f p"
    proof (cases "can_be_destroyed p")
      case True
      have "\<exists>n. tp_alone env n (TurnDelete i (length pre), t\<lparr>tp_queue := pre @ rest\<rparr>, h)
          = bind_outcome (cp_destroy (te_os env) p (pm_conns h)) (\<lambda>m. map_ok (\<lambda>(q, h). turn_result t (pre @ q, h))
        (remove_pass (te_os env) rest (h\<lparr>pm_pools := (pm_pools h)(i := None), pm_conns := m\<rparr>)))"
        by (rule tp_gets_map [where g = "\<lambda>m. (Turn (length pre), t\<lparr>tp_queue := pre @ rest\<rparr>,
              h\<lparr>pm_pools := (pm_pools h)(i := None), pm_conns := m\<rparr>)"])
          (simp_all add: tp_once_def p Cons.IH)
      with True show ?thesis by simp
    next
      case False
      with Cons.IH [of "pre @ [i]" h] show ?thesis by simp
    qed
  qed
  moreover have "bind_outcome (pool_at h i) ?f
      = map_ok (\<lambda>(q, h). turn_result t (pre @ q, h)) (remove_pass (te_os env) (i # rest) h)"
    by (cases "pool_at h i") (auto simp: map_ok_bind map_ok_comp split_beta')
  ultimately show ?case by simp
qed

lemma turn_alone:
  assumes "tp_thread t = Running"
  shows "\<exists>n. tp_alone env n (TurnStart, t, h)
    = map_ok (\<lambda>(t, h). (if tp_thread t = Returned then Rest VVoid else TurnStart, t, h)) (remove_thread_turn (te_os env) t h)"
proof -
  obtain n where n: "tp_alone env n (Turn 0, t, h)
      = map_ok (\<lambda>(q, h). turn_result t (q, h)) (remove_pass (te_os env) (tp_queue t) h)"
    using turn_gets [where env = env and pre = "[]" and t = t and rest = "tp_queue t" and h = h] by auto
  have "tp_alone env (Suc n) (TurnStart, t, h)
      = map_ok (\<lambda>(q, h). turn_result t (q, h)) (remove_pass (te_os env) (tp_queue t) h)"
    using n by (simp add: tp_once_def)
  also have "\<dots> = map_ok (\<lambda>(t, h). (if tp_thread t = Returned then Rest VVoid else TurnStart, t, h)) (remove_thread_turn (te_os env) t h)"
    using assms unfolding remove_thread_turn_def map_ok_comp
    by (intro arg_cong [of _ _ "\<lambda>f. map_ok f (remove_pass (te_os env) (tp_queue t) h)"]) (auto simp: turn_result_def fun_eq_iff)
  finally show ?thesis by blast
qed

text \<open>The destructor, up to the join and, when the thread has returned, to its end.\<close>

lemma dropping_alone:
  "\<exists>n. tp_alone env n (Dropping ps, t, h) = Ok (Stopping, t\<lparr>tp_queue := tp_queue t @ ps, tp_pools := []\<rparr>, h)"
proof (induction ps arbitrary: t)
  case Nil
  show ?case by (intro exI [of _ "Suc 0"]) (simp add: tp_once_def)
next
  case (Cons i ps)
  from Cons [of "t\<lparr>tp_queue := tp_queue t @ [i]\<rparr>"] obtain n where
    "tp_alone env n (Dropping ps, t\<lparr>tp_queue := tp_queue t @ [i]\<rparr>, h)
      = Ok (Stopping, t\<lparr>tp_queue := tp_queue t @ i # ps, tp_pools := []\<rparr>, h)" by auto
  then show ?case by (intro exI [of _ "Suc (Suc n)"]) (simp add: tp_once_def)
qed

lemma tp_alone_add:
  "tp_alone env n s = Ok s' \<Longrightarrow> tp_alone env (n + k) s = tp_alone env k s'"
  by (induction n arbitrary: s) (auto simp: outcome_simps)

lemma destroy_alone:
  "\<exists>n. tp_alone env n (tp_begin CDestroy, t, h)
    = Ok (if tp_thread t = No_Thread then Rest VVoid else Joining, tp_destroy_begin t, h)"
proof -
  obtain n where "tp_alone env n (Dropping (tp_pools t), t, h)
      = Ok (Stopping, t\<lparr>tp_queue := tp_queue t @ tp_pools t, tp_pools := []\<rparr>, h)" using dropping_alone by blast
  from tp_alone_add [OF this, of "Suc 0"] have "tp_alone env (n + 1) (Dropping (tp_pools t), t, h)
      = Ok (if tp_thread t = No_Thread then Rest VVoid else Joining, tp_destroy_begin t, h)"
    by (simp add: tp_once_def tp_destroy_begin_def)
  then show ?thesis by (intro exI [of _ "Suc (Suc (n + 1))"]) (simp add: tp_once_def tp_begin_def tp_inside_def)
qed

lemma joining_alone: "tp_thread t \<noteq> Running \<Longrightarrow> tp_alone env (Suc 0) (Joining, t, h) = Ok (Rest VVoid, t\<lparr>tp_thread := No_Thread\<rparr>, h)"
  by (simp add: tp_once_def join_returns_def)

text \<open>C16: A thread that calls a method of a pool of servers while no other runs takes the mutexes and the
  regions of the pools one by one and computes what the sequential definition of the method gives,
  the value returned and failures included: get, put, close, add\_server, update\_servers, remove\_server,
  set\_total\_conn, get\_status, get\_health and get\_stat.  The destructor comes to its join, which
  returns when the removing thread has ended; and one turn of that thread, which looks at one pool
  at a time, is the turn of the sequential model.\<close>

theorem thrift_pool_methods_compose:
  "(\<exists>n. \<forall>k. tp_alone env (n + k) (tp_begin CGet, t, h) = resting_with VConn (tp_get (te_os env) t h))
   \<and> (\<exists>n. \<forall>k. tp_alone env (n + k) (tp_begin (CPut a), t, h) = resting_with VBool (tp_put (te_os env) (Some a) t h))
   \<and> (\<exists>n. \<forall>k. tp_alone env (n + k) (tp_begin (CClose a), t, h)
        = resting_with VBool (map_ok (\<lambda>(b, h). (b, t, h)) (tp_close (te_os env) (Some a) t h)))
   \<and> (\<exists>n. \<forall>k. tp_alone env (n + k) (tp_begin (CAdd host port), t, h)
        = resting_with VBool (add_server (te_os env) host port t h))
   \<and> (\<exists>n. \<forall>k. tp_alone env (n + k) (tp_begin (CUpdate hosts ports), t, h)
        = resting_with VBool (update_servers (te_os env) hosts ports t h))
   \<and> (\<exists>n. \<forall>k. tp_alone env (n + k) (tp_begin (CRemove host port), t, h) = done_with (remove_server env host port t h))
   \<and> (\<exists>n. \<forall>k. tp_alone env (n + k) (tp_begin (CTotal amount), t, h) = done_with (set_total_conn env amount t h))
   \<and> (\<exists>n. \<forall>k. tp_alone env (n + k) (tp_begin CStatus, t, h) = resting_with VStatus (map_ok (\<lambda>v. (v, t, h)) (tp_get_status t h)))
   \<and> (\<exists>n. \<forall>k. tp_alone env (n + k) (tp_begin CHealth, t, h) = resting_with VHealth (map_ok (\<lambda>v. (v, t, h)) (tp_get_health t h)))
   \<and> (\<exists>n. \<forall>k. tp_alone env (n + k) (tp_begin CStat, t, h) = resting_with VStat (map_ok (\<lambda>v. (v, t, h)) (tp_get_stat t h)))
   \<and> (\<exists>n. tp_alone env n (tp_begin CDestroy, t, h)
        = Ok (if tp_thread t = No_Thread then Rest VVoid else Joining, tp_destroy_begin t, h))
   \<and> tp_alone env (Suc 0) (Joining, t\<lparr>tp_thread := Returned\<rparr>, h) = Ok (Rest VVoid, t\<lparr>tp_thread := No_Thread\<rparr>, h)
   \<and> tp_alone env (Suc 0) (Joining, t\<lparr>tp_thread := Running\<rparr>, h) = Ok (Joining, t\<lparr>tp_thread := Running\<rparr>, h)
   \<and> (\<exists>n. tp_alone env n (TurnStart, t\<lparr>tp_thread := Running\<rparr>, h)
        = map_ok (\<lambda>(t, h). (if tp_thread t = Returned then Rest VVoid else TurnStart, t, h))
            (remove_thread_turn (te_os env) (t\<lparr>tp_thread := Running\<rparr>) h))"
proof -
  have join: "tp_alone env (Suc 0) (Joining, t\<lparr>tp_thread := Returned\<rparr>, h) = Ok (Rest VVoid, t\<lparr>tp_thread := No_Thread\<rparr>, h)"
    "tp_alone env (Suc 0) (Joining, t\<lparr>tp_thread := Running\<rparr>, h) = Ok (Joining, t\<lparr>tp_thread := Running\<rparr>, h)"
    by (simp_all add: tp_once_def join_returns_def)
  note parts = get_ends [of env t h, unfolded tp_ends_def] put_ends [of env a t h, unfolded tp_ends_def]
    close_ends [of env a t h, unfolded tp_ends_def] update_ends [of env hosts ports t h, unfolded tp_ends_def]
    add_ends [of env host port t h, unfolded tp_ends_def] total_ends [of env amount t h, unfolded tp_ends_def]
    status_ends [of env t h, unfolded tp_ends_def] health_ends [of env t h, unfolded tp_ends_def]
    stat_ends [of env t h, unfolded tp_ends_def] remove_ends [of env host port t h, unfolded tp_ends_def] destroy_alone [of env t h]
    turn_alone [of "t\<lparr>tp_thread := Running\<rparr>" env h, simplified]
  show ?thesis by (intro conjI parts join)
qed

end
