(* ===== verification/ThriftPoolThreadsSpec.thy ===== *)
theory ThriftPoolThreadsSpec
  imports ThriftPoolThreads
begin

text \<open>
  The threads of a \<open>ThriftPool\<close> (src/sync/thrift\_pool.h) interleave: users that call its methods, the
  thread that destroys removed servers and the probe threads of the servers.  The mutexes exclude each
  other's holders; a sequential run is a run of the threads; \<open>remove_server\<close> takes the mutexes in the
  opposite order of \<open>update_servers\<close> and the destructor, which is the only way the threads can deadlock;
  and a server can be destroyed under a \<open>put\<close> that is still running in it.
\<close>

section \<open>The threads of a pool of servers\<close>

record 'w tp_run =
  rn_pool :: thrift_pool
  rn_heap :: "'w pool_heap"
  rn_owner :: "mutex \<Rightarrow> nat option"
  rn_pcs :: "nat \<Rightarrow> tp_pc"

text \<open>Thread \<open>t\<close> goes to \<open>c\<close> and gives up the mutexes that \<open>c\<close> does not hold.\<close>

definition go_to :: "nat \<Rightarrow> tp_pc \<times> thrift_pool \<times> 'w pool_heap \<Rightarrow> 'w tp_run \<Rightarrow> 'w tp_run" where
  "go_to t r s = (case r of (c, p, h) \<Rightarrow> \<lparr>rn_pool = p, rn_heap = h,
     rn_owner = (\<lambda>x. if rn_owner s x = Some t \<and> \<not> holds x c then None else rn_owner s x),
     rn_pcs = (rn_pcs s)(t := c)\<rparr>)"

text \<open>Thread 0 is the one that destroys removed servers.\<close>

definition tp_run_init :: "'w tp_env \<Rightarrow> 'w tp_run \<Rightarrow> bool" where
  "tp_run_init env s \<longleftrightarrow> tp_init env (rn_pool s, rn_heap s) \<and> rn_owner s = (\<lambda>_. None)
     \<and> rn_pcs s = (\<lambda>_. Rest VVoid)(0 := TurnStart)"

inductive tp_run_step :: "'w tp_env \<Rightarrow> 'w tp_run \<Rightarrow> 'w tp_run \<Rightarrow> bool" for env where
  method_called: "t \<noteq> 0 \<Longrightarrow> resting (rn_pcs s t) \<Longrightarrow>
    tp_run_step env s (s\<lparr>rn_pcs := (rn_pcs s)(t := tp_begin call)\<rparr>)"
| mutex_taken: "wants (rn_pcs s t) = Some x \<Longrightarrow> rn_owner s x = None \<Longrightarrow>
    tp_run_step env s (s\<lparr>rn_owner := (rn_owner s)(x := Some t), rn_pcs := (rn_pcs s)(t := granted (rn_pcs s t))\<rparr>)"
| thread_acts: "wants (rn_pcs s t) = None \<Longrightarrow> \<not> resting (rn_pcs s t) \<Longrightarrow>
    tp_act env (rn_pcs s t) (rn_pool s) (rn_heap s) = Ok r \<Longrightarrow> tp_run_step env s (go_to t r s)"
| probe_acts: "pm_pools (rn_heap s) i = Some p \<Longrightarrow> probe_step (te_os env) (p, pm_conns (rn_heap s)) v \<Longrightarrow>
    tp_run_step env s (s\<lparr>rn_heap := pool_put i v (rn_heap s)\<rparr>)"

section \<open>Mutual exclusion\<close>

definition locks_ok :: "'w tp_run \<Rightarrow> bool" where
  "locks_ok s \<longleftrightarrow> (\<forall>x t. rn_owner s x = Some t \<longleftrightarrow> holds x (rn_pcs s t))"

lemma begin_holds [simp]: "\<not> holds x (tp_begin c)" "\<not> holds x (Rest v)"
  by (cases x; cases c; simp add: tp_begin_def)+

lemma granted_holds: "wants c = Some x \<Longrightarrow> holds y (granted c) \<longleftrightarrow> y = x \<or> holds y c"
  and wants_not_held: "wants c = Some x \<Longrightarrow> \<not> holds x c"
  by (cases c rule: wants.cases; cases y; auto)+

lemma resting_free: "resting c \<Longrightarrow> wants c = None" "resting c \<Longrightarrow> \<not> holds x c"
  by (cases c; cases x; simp)+

text \<open>No action takes a mutex.\<close>

lemma inside_holds: "tp_inside env c t h = Ok (c', t', h') \<Longrightarrow> holds x c' \<Longrightarrow> x = Mutex"
  by (cases c; cases x)
    (auto simp: tp_inside_def resting_with_def remove_found_def with_pool_of_def outcome_simps split: option.splits)

lemma act_holds:
  assumes act: "tp_act env c t h = Ok (c', t', h')" and x: "holds x c'"
  shows "holds x c"
proof (cases c)
  case (Inside call)
  with act x inside_holds [of env call t h c' t' h' x] show ?thesis by simp
next
  case (InPool k i d)
  have "holds x c' \<Longrightarrow> x = Mutex" using act InPool by (cases d; cases x) (auto simp: outcome_simps)
  with InPool x show ?thesis by simp
next
  case (Dropping ps)
  with act x show ?thesis by (cases ps; cases x) auto
next
  case (Turn k)
  with act x show ?thesis by (cases x) (auto simp: turn_act_def outcome_simps split: if_splits)
qed (use act x in \<open>cases x; auto simp: resting_with_def outcome_simps split: if_splits\<close>)+

lemma run_init_locks: "tp_run_init env s \<Longrightarrow> locks_ok s"
  by (auto simp: tp_run_init_def locks_ok_def)

lemma run_step_locks:
  assumes ok: "locks_ok s" and step: "tp_run_step env s s'"
  shows "locks_ok s'"
  using step
proof cases
  case (method_called t call)
  with ok show ?thesis by (auto simp: locks_ok_def resting_free)
next
  case (mutex_taken t x)
  have "holds y (granted (rn_pcs s t)) \<longleftrightarrow> y = x \<or> holds y (rn_pcs s t)" for y by (rule granted_holds [OF mutex_taken(2)])
  moreover have "\<not> holds x (rn_pcs s u)" for u using ok mutex_taken(3) by (metis locks_ok_def option.distinct(1))
  ultimately show ?thesis using ok mutex_taken by (auto simp: locks_ok_def)
next
  case (thread_acts t r)
  obtain c p h where r: "r = (c, p, h)" by (cases r)
  have kept: "holds y c \<Longrightarrow> rn_owner s y = Some t" for y using act_holds thread_acts(4) r ok unfolding locks_ok_def by blast
  have "rn_owner s' y = Some u \<longleftrightarrow> holds y (rn_pcs s' u)" for y u
  proof (cases "u = t")
    case True
    then show ?thesis using kept [of y] thread_acts(1) r by (auto simp: go_to_def)
  next
    case False
    have "rn_owner s y = Some u \<longleftrightarrow> holds y (rn_pcs s u)" using ok by (simp add: locks_ok_def)
    then show ?thesis using False thread_acts(1) r by (auto simp: go_to_def)
  qed
  then show ?thesis by (simp add: locks_ok_def)
next
  case (probe_acts i p v)
  with ok show ?thesis by (simp add: locks_ok_def)
qed

interpretation thrift_pool_threads: step_system "tp_run_init env" "tp_run_step env" locks_ok
  for env :: "'w tp_env"
  by unfold_locales (auto intro: run_init_locks run_step_locks)

section \<open>Waiting\<close>

definition waits_for :: "'w tp_run \<Rightarrow> nat \<Rightarrow> nat \<Rightarrow> bool" where
  "waits_for s t u \<longleftrightarrow> (\<exists>x. wants (rn_pcs s t) = Some x \<and> rn_owner s x = Some u)"

text \<open>\<open>u\<close> is in \<open>remove_server\<close> and holds \<open>remove_queue_mutex_\<close>, \<open>v\<close> is in \<open>update_servers\<close> or in the destructor
  and holds \<open>mutex_\<close>; each waits for the other.\<close>

definition deadlocked :: "'w tp_run \<Rightarrow> nat \<Rightarrow> nat \<Rightarrow> bool" where
  "deadlocked s u v \<longleftrightarrow> (\<exists>n. rn_pcs s u = Retotal n) \<and> rn_owner s Queue_Mutex = Some u
     \<and> ((\<exists>hosts ports. rn_pcs s v = UpdateQueue hosts ports) \<or> (\<exists>i ps. rn_pcs s v = Dropping (i # ps)))
     \<and> rn_owner s Mutex = Some v"

text \<open>Who wants one mutex and holds the other.\<close>

lemma wants_and_holds:
  "wants c = Some Mutex \<Longrightarrow> holds Queue_Mutex c \<Longrightarrow> \<exists>n. c = Retotal n"
  "wants c = Some Queue_Mutex \<Longrightarrow> holds Mutex c \<Longrightarrow>
     (\<exists>hosts ports. c = UpdateQueue hosts ports) \<or> (\<exists>i ps. c = Dropping (i # ps))"
  by (cases c rule: wants.cases; auto)+

lemma waiting_cases:
  assumes ok: "locks_ok s" and t: "waits_for s t u" and u: "waits_for s u v" and v: "waits_for s v w"
  shows "deadlocked s u v \<or> deadlocked s v u"
proof -
  obtain x where x: "wants (rn_pcs s t) = Some x" "rn_owner s x = Some u" using t by (auto simp: waits_for_def)
  obtain y where y: "wants (rn_pcs s u) = Some y" "rn_owner s y = Some v" using u by (auto simp: waits_for_def)
  obtain z where z: "wants (rn_pcs s v) = Some z" "rn_owner s z = Some w" using v by (auto simp: waits_for_def)
  have h: "holds x (rn_pcs s u)" "holds y (rn_pcs s v)" using ok x(2) y(2) by (simp_all add: locks_ok_def)
  have "x \<noteq> y" "y \<noteq> z" using wants_not_held [OF y(1)] wants_not_held [OF z(1)] h by blast+
  with x y z h wants_and_holds [of "rn_pcs s u"] wants_and_holds [of "rn_pcs s v"] show ?thesis
    by (cases x; cases y; cases z) (auto simp: deadlocked_def)
qed

text \<open>A deadlock is for ever, for everyone who wants either mutex.\<close>

lemma deadlocked_step:
  assumes d: "deadlocked s u v" and step: "tp_run_step env s s'"
  shows "deadlocked s' u v \<and> rn_pcs s' u = rn_pcs s u \<and> rn_pcs s' v = rn_pcs s v
    \<and> (\<forall>t. wants (rn_pcs s t) \<noteq> None \<longrightarrow> rn_pcs s' t = rn_pcs s t)"
proof -
  obtain n where u: "rn_pcs s u = Retotal n" and q: "rn_owner s Queue_Mutex = Some u" and m: "rn_owner s Mutex = Some v"
    using d by (auto simp: deadlocked_def)
  have v: "wants (rn_pcs s v) = Some Queue_Mutex" using d by (auto simp: deadlocked_def)
  have taken: "rn_owner s x \<noteq> None" for x using q m by (cases x) simp_all
  from step show ?thesis
  proof cases
    case (method_called t call)
    then have "t \<noteq> u" "t \<noteq> v" using u v by (auto simp: resting_free)
    moreover have "wants (rn_pcs s t) = None" using method_called by (simp add: resting_free)
    ultimately show ?thesis using method_called(1) d by (auto simp: deadlocked_def)
  next
    case (mutex_taken t x)
    with taken show ?thesis by blast
  next
    case (thread_acts t r)
    then have t: "t \<noteq> u" "t \<noteq> v" using u v by auto
    with thread_acts d q m show ?thesis by (cases r) (auto simp: deadlocked_def go_to_def)
  next
    case (probe_acts i p w)
    with d show ?thesis by (simp add: deadlocked_def)
  qed
qed

section \<open>Schedules\<close>

text \<open>A schedule that can be run: thread \<open>t\<close> calls a method or goes one step on, the timer of a pool's
  status check is due, a pool's probe thread runs the handler that is ready.\<close>

datatype move = Calls nat tp_call | Goes nat | Due nat | Probes nat

definition probe_due :: "conn_pool \<Rightarrow> conn_pool option" where
  "probe_due p = (let t = cp_timers p in case update_waits t of [] \<Rightarrow> None
     | h # hs \<Rightarrow> Some (set_timers (t\<lparr>update_waits := hs, ready := ready t @ [h]\<rparr>) p))"

definition probe_goes :: "'w transport_os \<Rightarrow> conn_pool \<Rightarrow> 'w cstore \<Rightarrow> (conn_pool \<times> 'w cstore) option" where
  "probe_goes os p m = (let t = cp_timers p in case ready t of [] \<Rightarrow> None
     | h # hs \<Rightarrow> (case run_probe os h (set_timers (t\<lparr>ready := hs\<rparr>) p) m of Ok v \<Rightarrow> Some v | _ \<Rightarrow> None))"

definition move_to :: "'w tp_env \<Rightarrow> move \<Rightarrow> 'w tp_run \<Rightarrow> 'w tp_run option" where
  "move_to env v s = (case v of
       Calls t call \<Rightarrow> if t \<noteq> 0 \<and> resting (rn_pcs s t) then Some (s\<lparr>rn_pcs := (rn_pcs s)(t := tp_begin call)\<rparr>) else None
     | Goes t \<Rightarrow> (case wants (rn_pcs s t) of
           Some x \<Rightarrow> if rn_owner s x = None
             then Some (s\<lparr>rn_owner := (rn_owner s)(x := Some t), rn_pcs := (rn_pcs s)(t := granted (rn_pcs s t))\<rparr>) else None
         | None \<Rightarrow> if resting (rn_pcs s t) then None
             else (case tp_act env (rn_pcs s t) (rn_pool s) (rn_heap s) of Ok r \<Rightarrow> Some (go_to t r s) | _ \<Rightarrow> None))
     | Due i \<Rightarrow> (case pm_pools (rn_heap s) i of None \<Rightarrow> None | Some p \<Rightarrow>
         map_option (\<lambda>p. s\<lparr>rn_heap := pool_put i (p, pm_conns (rn_heap s)) (rn_heap s)\<rparr>) (probe_due p))
     | Probes i \<Rightarrow> (case pm_pools (rn_heap s) i of None \<Rightarrow> None | Some p \<Rightarrow>
         map_option (\<lambda>v. s\<lparr>rn_heap := pool_put i v (rn_heap s)\<rparr>) (probe_goes (te_os env) p (pm_conns (rn_heap s)))))"

fun moves :: "'w tp_env \<Rightarrow> move list \<Rightarrow> 'w tp_run \<Rightarrow> 'w tp_run option" where
  "moves env [] s = Some s"
| "moves env (v # vs) s = (case move_to env v s of None \<Rightarrow> None | Some s \<Rightarrow> moves env vs s)"

lemma probe_due_step: "probe_due p = Some q \<Longrightarrow> probe_step os (p, m) (q, m)"
  by (auto simp: probe_due_def Let_def split: list.splits intro: update_due)

lemma probe_goes_step: "probe_goes os p m = Some x \<Longrightarrow> probe_step os (p, m) x"
  by (auto simp: probe_goes_def Let_def split: list.splits outcome.splits intro: probe_run)

lemma move_step:
  assumes "move_to env v s = Some s'"
  shows "tp_run_step env s s'"
proof (cases v)
  case (Calls t call)
  with assms method_called [of t s env call] show ?thesis by (simp add: move_to_def split: if_splits)
next
  case (Goes t)
  with assms mutex_taken [of s t] thread_acts [of s t env] show ?thesis
    by (auto simp: move_to_def split: option.splits if_splits outcome.splits)
next
  case (Due i)
  with assms obtain p q where p: "pm_pools (rn_heap s) i = Some p" "probe_due p = Some q"
    "s' = s\<lparr>rn_heap := pool_put i (q, pm_conns (rn_heap s)) (rn_heap s)\<rparr>"
    by (auto simp: move_to_def split: option.splits)
  then have "probe_step (te_os env) (p, pm_conns (rn_heap s)) (q, pm_conns (rn_heap s))"
    by (simp add: probe_due_step)
  with p show ?thesis by (simp add: probe_acts)
next
  case (Probes i)
  with assms obtain p x where p: "pm_pools (rn_heap s) i = Some p" "probe_goes (te_os env) p (pm_conns (rn_heap s)) = Some x"
    "s' = s\<lparr>rn_heap := pool_put i x (rn_heap s)\<rparr>"
    by (auto simp: move_to_def split: option.splits)
  then have "probe_step (te_os env) (p, pm_conns (rn_heap s)) x"
    by (simp add: probe_goes_step)
  with p show ?thesis by (simp add: probe_acts)
qed

lemma moves_steps: "moves env vs s = Some s' \<Longrightarrow> (tp_run_step env)\<^sup>*\<^sup>* s s'"
  by (induction vs arbitrary: s) (auto split: option.splits intro: converse_rtranclp_into_rtranclp move_step)

lemma moves_reach:
  assumes "moves env vs s = Some s'" and "tp_run_init env s"
  shows "reach (tp_run_init env) (tp_run_step env) s'"
  using moves_steps [OF assms(1)] by (induction rule: rtranclp_induct) (auto intro: reach_step reach_init assms(2))

section \<open>Calls one after the other\<close>

text \<open>
  The states of \<open>tp_step\<close>, in which every method runs to its end, are states of the threads in which all
  users rest.
\<close>

definition between_calls :: "thrift_pool \<times> 'w pool_heap \<Rightarrow> 'w tp_run \<Rightarrow> bool" where
  "between_calls x s \<longleftrightarrow> rn_pool s = fst x \<and> rn_heap s = snd x \<and> rn_owner s = (\<lambda>_. None)
     \<and> (\<forall>t. t \<noteq> 0 \<longrightarrow> resting (rn_pcs s t)) \<and> (tp_thread (fst x) = Running \<longrightarrow> rn_pcs s 0 = TurnStart)"

lemma resting_iff: "resting c \<longleftrightarrow> (\<exists>v. c = Rest v)"
  by (cases c) auto

lemma once_run:
  assumes once: "tp_once env (c, p, h) = Ok (c', p', h')" and c: "rn_pcs s u = c" "rn_pool s = p" "rn_heap s = h"
    and own: "rn_owner s = (\<lambda>x. if holds x c then Some u else None)"
  shows "\<exists>s'. (tp_run_step env)\<^sup>*\<^sup>* s s' \<and> rn_pool s' = p' \<and> rn_heap s' = h' \<and> rn_pcs s' = (rn_pcs s)(u := c')
    \<and> rn_owner s' = (\<lambda>x. if holds x c' then Some u else None)"
proof (cases "wants c")
  case (Some x)
  with once have c': "c' = granted c" "p' = p" "h' = h" by (simp_all add: tp_once_def)
  have free: "rn_owner s x = None" using wants_not_held [OF Some] own by simp
  have "(rn_owner s)(x := Some u) = (\<lambda>x. if holds x (granted c) then Some u else None)"
    using granted_holds [OF Some] by (simp add: own fun_eq_iff)
  with mutex_taken [of s u x env] Some free c c' show ?thesis
    by (intro exI [of _ "s\<lparr>rn_owner := (rn_owner s)(x := Some u), rn_pcs := (rn_pcs s)(u := granted (rn_pcs s u))\<rparr>"])
      (simp add: r_into_rtranclp)
next
  case None
  show ?thesis
  proof (cases "resting c")
    case True
    with once None have "c' = c" "p' = p" "h' = h" by (auto simp: tp_once_def resting_iff)
    with c own show ?thesis by (intro exI [of _ s]) auto
  next
    case False
    from once None have a: "tp_act env c p h = Ok (c', p', h')" by (simp add: tp_once_def)
    have "rn_owner (go_to u (c', p', h') s) = (\<lambda>x. if holds x c' then Some u else None)"
      using act_holds [OF a] by (auto simp: go_to_def own fun_eq_iff)
    moreover have "tp_run_step env s (go_to u (c', p', h') s)" using thread_acts [of s u env] None False a c by simp
    ultimately show ?thesis
      by (intro exI [of _ "go_to u (c', p', h') s"]) (simp add: r_into_rtranclp go_to_def)
  qed
qed

lemma alone_run:
  assumes "tp_alone env n (c, p, h) = Ok (c', p', h')" and "rn_pcs s u = c" "rn_pool s = p" "rn_heap s = h"
    and "rn_owner s = (\<lambda>x. if holds x c then Some u else None)"
  shows "\<exists>s'. (tp_run_step env)\<^sup>*\<^sup>* s s' \<and> rn_pool s' = p' \<and> rn_heap s' = h' \<and> rn_pcs s' = (rn_pcs s)(u := c')
    \<and> rn_owner s' = (\<lambda>x. if holds x c' then Some u else None)"
  using assms
proof (induction n arbitrary: c p h s)
  case 0
  then show ?case by (intro exI [of _ s]) auto
next
  case (Suc n)
  from Suc.prems(1) obtain c1 p1 h1 where once: "tp_once env (c, p, h) = Ok (c1, p1, h1)"
    and rest: "tp_alone env n (c1, p1, h1) = Ok (c', p', h')" by (auto simp: outcome_simps)
  from once_run [OF once Suc.prems(2-5)] obtain s1 where s1: "(tp_run_step env)\<^sup>*\<^sup>* s s1" "rn_pool s1 = p1"
    "rn_heap s1 = h1" "rn_pcs s1 = (rn_pcs s)(u := c1)" "rn_owner s1 = (\<lambda>x. if holds x c1 then Some u else None)" by blast
  have u: "rn_pcs s1 u = c1" using s1(4) by simp
  from Suc.IH [OF rest u s1(2,3,5)] obtain s2 where s2: "(tp_run_step env)\<^sup>*\<^sup>* s1 s2" "rn_pool s2 = p'"
    "rn_heap s2 = h'" "rn_pcs s2 = (rn_pcs s1)(u := c')" "rn_owner s2 = (\<lambda>x. if holds x c' then Some u else None)" by blast
  have "(tp_run_step env)\<^sup>*\<^sup>* s s2" using s1(1) s2(1) by simp
  moreover have "rn_pcs s2 = (rn_pcs s)(u := c')" using s1(4) s2(4) by simp
  ultimately show ?case using s2(2,3,5) by blast
qed

text \<open>A call of a user that nobody disturbs.\<close>

lemma call_run:
  assumes b: "between_calls (t, h) s" and u: "u \<noteq> (0 :: nat)"
    and e: "tp_ends env (tp_begin call, t, h) (resting_with v r)" and r: "r = Ok (x, t', h')"
    and thr: "tp_thread t' = tp_thread t"
  shows "\<exists>s'. (tp_run_step env)\<^sup>*\<^sup>* s s' \<and> between_calls (t', h') s'"
proof -
  let ?s = "s\<lparr>rn_pcs := (rn_pcs s)(u := tp_begin call)\<rparr>"
  have one: "tp_run_step env s ?s" using b u by (intro method_called) (simp_all add: between_calls_def)
  obtain n where "tp_alone env n (tp_begin call, t, h) = Ok (Rest (v x), t', h')"
    using e unfolding tp_ends_def r resting_with_def by (metis add.right_neutral map_ok.simps(1) old.prod.case)
  from alone_run [OF this, of ?s u] b obtain s' where s': "(tp_run_step env)\<^sup>*\<^sup>* ?s s'" "rn_pool s' = t'" "rn_heap s' = h'"
    "rn_pcs s' = (rn_pcs ?s)(u := Rest (v x))" "rn_owner s' = (\<lambda>_. None)" by (auto simp: between_calls_def)
  have "between_calls (t', h') s'" using b u s' thr by (simp add: between_calls_def)
  with converse_rtranclp_into_rtranclp [of "tp_run_step env", OF one s'(1)] show ?thesis by blast
qed

text \<open>No method changes the removing thread.\<close>

lemma restore_thread: "restore_pools h ss is fs t = Ok (q, fs', t') \<Longrightarrow> tp_thread t' = tp_thread t"
  by (induction "is" arbitrary: fs t q) (fastforce simp: outcome_simps push_pool_def split: option.splits)+

lemma missing_thread: "add_missing os ss t h = Ok (t', h') \<Longrightarrow> tp_thread t' = tp_thread t"
  by (induction ss arbitrary: t h) (fastforce simp: outcome_simps push_pool_def split: if_splits)+

lemma total_thread: "set_total_conn env n t h = Ok (t', h') \<Longrightarrow> tp_thread t' = tp_thread t"
  by (auto simp: set_total_conn_def outcome_simps)

lemma methods_thread:
  "tp_get os t h = Ok (r, t', h') \<Longrightarrow> tp_thread t' = tp_thread t"
  "tp_put os c t h = Ok (b, t', h') \<Longrightarrow> tp_thread t' = tp_thread t"
  "add_server os host port t h = Ok (b, t', h') \<Longrightarrow> tp_thread t' = tp_thread t"
  "update_servers os hosts ports t h = Ok (b, t', h') \<Longrightarrow> tp_thread t' = tp_thread t"
  "remove_server env host port t h = Ok (t', h') \<Longrightarrow> tp_thread t' = tp_thread t"
  subgoal by (auto simp: tp_get_def get_from_def outcome_simps split: option.splits if_splits)
  subgoal by (auto simp: tp_put_def outcome_simps split: option.splits)
  subgoal by (auto simp: add_server_def push_pool_def outcome_simps split: if_splits)
  subgoal by (auto simp: update_servers_def Let_def outcome_simps split: if_splits dest!: restore_thread missing_thread)
  subgoal by (auto simp: remove_server_def Let_def outcome_simps split: option.splits dest!: total_thread)
  done

text \<open>One turn of the removing thread that nobody disturbs.\<close>

lemma turn_run:
  assumes b: "between_calls (t, h) s" and thr: "tp_thread t = Running"
    and r: "remove_thread_turn (te_os env) t h = Ok (t', h')"
  shows "\<exists>s'. (tp_run_step env)\<^sup>*\<^sup>* s s' \<and> between_calls (t', h') s'"
proof -
  let ?c = "if tp_thread t' = Returned then Rest VVoid else TurnStart"
  from turn_alone [OF thr, of env h] r obtain n where "tp_alone env n (TurnStart, t, h) = Ok (?c, t', h')" by auto
  from alone_run [OF this, of s 0] b thr obtain s' where s': "(tp_run_step env)\<^sup>*\<^sup>* s s'" "rn_pool s' = t'" "rn_heap s' = h'"
    "rn_pcs s' = (rn_pcs s)(0 := ?c)" "rn_owner s' = (\<lambda>_. None)" by (auto simp: between_calls_def)
  have "between_calls (t', h') s'" using b s' by (simp add: between_calls_def)
  with s'(1) show ?thesis by blast
qed

lemma seq_step_run:
  assumes step: "tp_step env (t, h) x" and b: "between_calls (t, h) s"
  shows "\<exists>s'. (tp_run_step env)\<^sup>*\<^sup>* s s' \<and> between_calls x s'"
proof -
  have same: ?thesis if "x = (t, h)" using b that by blast
  obtain t' h' where x: "x = (t', h')" by (cases x)
  show ?thesis
    using step
  proof cases
    case (tps_get r)
    then have "tp_get (te_os env) t h = Ok (r, t', h')" by (simp add: x)
    from call_run [OF b one_neq_zero get_ends this methods_thread(1) [OF this]] show ?thesis by (simp add: x)
  next
    case (tps_put c bo)
    show ?thesis
    proof (cases c)
      case None
      with tps_put same show ?thesis by (simp add: tp_put_def)
    next
      case (Some a)
      with tps_put have "tp_put (te_os env) (Some a) t h = Ok (bo, t', h')" by (simp add: x)
      from call_run [OF b one_neq_zero put_ends this methods_thread(2) [OF this]] show ?thesis by (simp add: x)
    qed
  next
    case (tps_close c bo h1)
    show ?thesis
    proof (cases c)
      case None
      with tps_close same show ?thesis by (simp add: tp_close_def)
    next
      case (Some a)
      have "map_ok (\<lambda>(b, h). (b, t, h)) (tp_close (te_os env) (Some a) t h) = Ok (bo, t, h1)" using tps_close Some by simp
      from call_run [OF b one_neq_zero close_ends this refl] tps_close show ?thesis by simp
    qed
  next
    case (tps_add host port bo)
    then have "add_server (te_os env) host port t h = Ok (bo, t', h')" by (simp add: x)
    from call_run [OF b one_neq_zero add_ends this methods_thread(3) [OF this]] show ?thesis by (simp add: x)
  next
    case (tps_update hosts ports bo)
    then have "update_servers (te_os env) hosts ports t h = Ok (bo, t', h')" by (simp add: x)
    from call_run [OF b one_neq_zero update_ends this methods_thread(4) [OF this]] show ?thesis by (simp add: x)
  next
    case (tps_remove host port)
    then have r: "remove_server env host port t h = Ok (t', h')" by (simp add: x)
    then have "void (remove_server env host port t h) = Ok ((), t', h')" by (simp add: void_def)
    from call_run [OF b one_neq_zero remove_ends this methods_thread(5) [OF r]] show ?thesis by (simp add: x)
  next
    case (tps_total n)
    then have r: "set_total_conn env n t h = Ok (t', h')" by (simp add: x)
    then have "void (set_total_conn env n t h) = Ok ((), t', h')" by (simp add: void_def)
    from call_run [OF b one_neq_zero total_ends this total_thread [OF r]] show ?thesis by (simp add: x)
  next
    case tps_turn
    with turn_run [OF b, of env t' h'] show ?thesis by (simp add: x)
  next
    case (tps_probe i p v)
    from b have h: "rn_heap s = h" by (simp add: between_calls_def)
    have "tp_run_step env s (s\<lparr>rn_heap := pool_put i v (rn_heap s)\<rparr>)"
      using probe_acts [of s i p env v] tps_probe by (simp add: h)
    moreover have "between_calls (t, pool_put i v h) (s\<lparr>rn_heap := pool_put i v (rn_heap s)\<rparr>)"
      using b by (simp add: between_calls_def)
    ultimately show ?thesis using tps_probe by (auto simp: x)
  qed
qed

lemma reach_star:
  "step\<^sup>*\<^sup>* s s' \<Longrightarrow> reach init step s \<Longrightarrow> reach init step s'"
  by (induction rule: rtranclp_induct) (auto intro: reach_step)

lemma reach_between:
  assumes "reach (tp_init env) (tp_step env) x"
  shows "\<exists>s. reach (tp_run_init env) (tp_run_step env) s \<and> between_calls x s"
  using assms
proof (induction rule: reach.induct)
  case (reach_init x)
  let ?s = "\<lparr>rn_pool = fst x, rn_heap = snd x, rn_owner = (\<lambda>_. None), rn_pcs = (\<lambda>_. Rest VVoid)(0 := TurnStart)\<rparr>"
  have "tp_run_init env ?s" using reach_init by (simp add: tp_run_init_def)
  then have "reach (tp_run_init env) (tp_run_step env) ?s" by (rule reach.reach_init)
  moreover have "between_calls x ?s" by (simp add: between_calls_def)
  ultimately show ?case by blast
next
  case (reach_step x y)
  then obtain s where s: "reach (tp_run_init env) (tp_run_step env) s" "between_calls x s" by blast
  obtain t h where x: "x = (t, h)" by (cases x)
  from seq_step_run [OF reach_step(2) [unfolded x] s(2) [unfolded x]] obtain s' where
    s': "(tp_run_step env)\<^sup>*\<^sup>* s s'" "between_calls y s'" by blast
  from reach_star [OF s'(1) s(1)] s'(2) show ?case by blast
qed

text \<open>For ever: the two threads stay where they are, and whoever wants a mutex waits for one of them.\<close>

definition stuck_forever :: "'w tp_env \<Rightarrow> 'w tp_run \<Rightarrow> nat \<Rightarrow> nat \<Rightarrow> bool" where
  "stuck_forever env s u v \<longleftrightarrow> deadlocked s u v
     \<and> (\<forall>s'. (tp_run_step env)\<^sup>*\<^sup>* s s' \<longrightarrow> deadlocked s' u v \<and> rn_pcs s' u = rn_pcs s u \<and> rn_pcs s' v = rn_pcs s v
        \<and> (\<forall>w. wants (rn_pcs s' w) \<noteq> None \<longrightarrow> waits_for s' w u \<or> waits_for s' w v)
        \<and> (\<forall>w. wants (rn_pcs s w) \<noteq> None \<longrightarrow> rn_pcs s' w = rn_pcs s w))"

lemma deadlocked_waits:
  assumes "deadlocked s u v" and "wants (rn_pcs s w) \<noteq> None"
  shows "waits_for s w u \<or> waits_for s w v"
proof -
  obtain x where x: "wants (rn_pcs s w) = Some x" using assms(2) by blast
  with assms(1) show ?thesis by (cases x) (auto simp: deadlocked_def waits_for_def)
qed

lemma deadlocked_stuck:
  assumes dead: "deadlocked s u v"
  shows "stuck_forever env s u v"
proof -
  have "deadlocked s' u v \<and> rn_pcs s' u = rn_pcs s u \<and> rn_pcs s' v = rn_pcs s v
    \<and> (\<forall>w. wants (rn_pcs s w) \<noteq> None \<longrightarrow> rn_pcs s' w = rn_pcs s w)" if "(tp_run_step env)\<^sup>*\<^sup>* s s'" for s'
    using that
  proof (induction rule: rtranclp_induct)
    case (step s1 s2)
    with deadlocked_step [of s1 u v env s2] show ?case by simp
  qed (simp add: dead)
  with dead deadlocked_waits show ?thesis unfolding stuck_forever_def by blast
qed

text \<open>One user at the start of \<open>remove_server\<close>'s second region, the other where it holds \<open>mutex_\<close>.\<close>

lemma deadlock_moves:
  assumes b: "between_calls (t, h) s" and uv: "u \<noteq> 0" "v \<noteq> 0" "u \<noteq> v"
    and found: "find_server h (host, port) (tp_pools t) = Ok (Some i)"
    and call: "tp_begin c = Enter c" "tp_inside env c t1 h = Ok (d, t1, h)" "holds Mutex d" "\<not> holds Queue_Mutex d"
    and t1: "t1 = t\<lparr>tp_localhost := (if tp_localhost_name t = host then None else tp_localhost t),
                   tp_pools := remove1 i (tp_pools t)\<rparr>"
  shows "\<exists>s'. moves env [Calls u (CRemove host port), Goes u, Goes u, Calls v c, Goes v, Goes v, Goes u, Goes u] s = Some s'
    \<and> rn_pcs s' u = Retotal (tp_total_conn t) \<and> rn_owner s' Queue_Mutex = Some u
    \<and> rn_pcs s' v = d \<and> rn_owner s' Mutex = Some v"
proof -
  note b = b [unfolded between_calls_def]
  have r: "resting (rn_pcs s u)" "resting (rn_pcs s v)" "rn_pool s = t" "rn_heap s = h" "rn_owner s = (\<lambda>_. None)"
    using b uv by simp_all
  have inside: "tp_inside env (CRemove host port) t h = Ok (Removed i, t1, h)"
    by (simp add: tp_inside_def remove_found_def found t1)
  show ?thesis using uv call
    by (simp add: move_to_def r inside tp_begin_def [of "CRemove host port"] go_to_def t1)
qed

lemma deadlock_reached:
  assumes start: "reach (tp_init env) (tp_step env) (t, h)" and uv: "u \<noteq> 0" "v \<noteq> 0" "u \<noteq> v"
    and found: "find_server h (host, port) (tp_pools t) = Ok (Some i)"
    and call: "tp_begin c = Enter c" "tp_inside env c t1 h = Ok (d, t1, h)" "\<not> holds Queue_Mutex d"
    and d: "(\<exists>hosts ports. d = UpdateQueue hosts ports) \<or> (\<exists>i ps. d = Dropping (i # ps))"
    and t1: "t1 = t\<lparr>tp_localhost := (if tp_localhost_name t = host then None else tp_localhost t),
                   tp_pools := remove1 i (tp_pools t)\<rparr>"
  shows "\<exists>s. reach (tp_run_init env) (tp_run_step env) s \<and> rn_pcs s v = d \<and> stuck_forever env s u v"
proof -
  obtain s where s: "reach (tp_run_init env) (tp_run_step env) s" "between_calls (t, h) s"
    using reach_between [OF start] by blast
  have held: "holds Mutex d" using d by auto
  from deadlock_moves [OF s(2) uv found call(1,2) held call(3) t1] obtain vs s' where s': "moves env vs s = Some s'"
    "rn_pcs s' u = Retotal (tp_total_conn t)" "rn_owner s' Queue_Mutex = Some u" "rn_pcs s' v = d" "rn_owner s' Mutex = Some v"
    by blast
  have "deadlocked s' u v" unfolding deadlocked_def using s'(2-) d by blast
  with reach_star [OF moves_steps [OF s'(1)] s(1)] s'(4) deadlocked_stuck show ?thesis by blast
qed

section \<open>A put against the removing thread\<close>

lemma put_enters:
  assumes b: "between_calls (t, h) s" and u: "u \<noteq> 0" and thr: "tp_thread t = Running"
    and a: "map_of (tp_conn_map t) a = Some i" and p: "pm_pools h i = Some p"
  shows "\<exists>s'. moves env [Calls u (CPut a), Goes u, Goes u] s = Some s'
    \<and> rn_pcs s' u = InPool (Putting a) i (fst (put_begin a p)) \<and> rn_pcs s' 0 = TurnStart \<and> rn_owner s' Queue_Mutex = None
    \<and> rn_pool s' = t \<and> rn_heap s' = pool_put i (snd (put_begin a p), pm_conns h) h"
proof -
  have r: "resting (rn_pcs s u)" "rn_pool s = t" "rn_heap s = h" "rn_owner s = (\<lambda>_. None)" "rn_pcs s 0 = TurnStart"
    using b u thr by (simp_all add: between_calls_def)
  have inside: "tp_inside env (CPut a) t h
      = Ok (InPool (Putting a) i (fst (put_begin a p)), t, pool_put i (snd (put_begin a p), pm_conns h) h)"
    by (simp add: tp_inside_def with_pool_of_def a pool_at_def p)
  show ?thesis using u by (simp add: move_to_def r inside tp_begin_def go_to_def)
qed

lemma turn_deletes:
  assumes s: "rn_pcs s 0 = TurnStart" "rn_owner s Queue_Mutex = None" and q: "tp_queue (rn_pool s) = i # q"
    and p: "pm_pools (rn_heap s) i = Some p" and free: "can_be_destroyed p"
    and m: "cp_destroy (te_os env) p (pm_conns (rn_heap s)) = Ok m"
  shows "\<exists>s'. moves env [Goes 0, Goes 0, Goes 0] s = Some s' \<and> pm_pools (rn_heap s') i = None
    \<and> (\<forall>t. t \<noteq> 0 \<longrightarrow> rn_pcs s' t = rn_pcs s t)"
  by (simp add: move_to_def s q p free m turn_act_def pool_at_def go_to_def)

lemma last_put_deletable:
  assumes p: "cp_inv {} p m" and a: "set (allocated_conns p) = {a}" and b: "put_begin a p = (c, p')"
  shows "can_be_destroyed p' \<and> (\<exists>m'. cp_destroy os p' m = Ok m')"
proof -
  have "ptr_ok (allocated_conns p)" using p by (simp add: cp_inv_def)
  then have "set (ptr_erase a (allocated_conns p)) = {}" using a by (simp add: ptr_set_erase)
  then have p': "p' = p\<lparr>allocated_conns := []\<rparr>" using b by (simp add: put_begin_def)
  have "cp_inv {} p' m" using p by (auto simp: cp_inv_def own_def p')
  from cp_destroy_runs [OF this, of os] show ?thesis by (auto simp: p' can_be_destroyed_def)
qed

text \<open>A run of one server: thread 1 adds it.\<close>

definition lab_start :: "nat tp_run" where
  "lab_start = \<lparr>rn_pool = lab_thrift_pool, rn_heap = lab_heap, rn_owner = (\<lambda>_. None), rn_pcs = (\<lambda>_. Rest VVoid)(0 := TurnStart)\<rparr>"

lemma lab_start_init: "tp_run_init lab_env lab_start"
proof -
  have "pm_pools lab_heap = Map.empty" "cs_conns (pm_conns lab_heap) = Map.empty"
    by (simp_all add: lab_heap_def lab_store_def)
  then have "tp_init lab_env (lab_thrift_pool, lab_heap)" unfolding tp_init_def lab_thrift_pool_def by blast
  then show ?thesis by (simp add: tp_run_init_def lab_start_def)
qed

definition lab_deadlock :: "move list" where
  "lab_deadlock = [Calls 1 (CAdd ''db1'' 9090), Goes 1, Goes 1, Calls 1 (CRemove ''db1'' 9090), Goes 1, Goes 1,
     Calls 2 (CUpdate [] []), Goes 2, Goes 2, Goes 1, Goes 1]"

lemma lab_deadlock_run: "case moves lab_env lab_deadlock lab_start of None \<Rightarrow> False
   | Some s \<Rightarrow> rn_pcs s 1 = Retotal 0 \<and> rn_owner s Queue_Mutex = Some 1
       \<and> rn_pcs s 2 = UpdateQueue [] [] \<and> rn_owner s Mutex = Some 2"
  by code_simp

text \<open>Two servers; and one server with a connection in use.\<close>

definition lab_two :: "(thrift_pool \<times> nat pool_heap) option" where
  "lab_two = (case add_server (te_os lab_env) ''db1'' 9090 lab_thrift_pool lab_heap of
     Ok (b, t, h) \<Rightarrow> (case add_server (te_os lab_env) ''db2'' 9090 t h of Ok (b, s) \<Rightarrow> Some s | _ \<Rightarrow> None)
   | _ \<Rightarrow> None)"

lemma lab_two_servers:
  "\<exists>t h. reach (tp_init lab_env) (tp_step lab_env) (t, h) \<and> find_server h (''db1'', 9090) (tp_pools t) = Ok (Some 0)
     \<and> remove1 0 (tp_pools t) = [1]"
proof -
  have run: "case lab_two of None \<Rightarrow> False | Some (t, h) \<Rightarrow>
      find_server h (''db1'', 9090) (tp_pools t) = Ok (Some 0) \<and> remove1 0 (tp_pools t) = [1]" by code_simp
  then obtain t h where l: "lab_two = Some (t, h)" by (auto split: option.splits)
  then obtain b1 t1 h1 b2 where a: "add_server (te_os lab_env) ''db1'' 9090 lab_thrift_pool lab_heap = Ok (b1, t1, h1)"
    "add_server (te_os lab_env) ''db2'' 9090 t1 h1 = Ok (b2, t, h)"
    unfolding lab_two_def by (auto split: outcome.splits)
  have "find_server h (''db1'', 9090) (tp_pools t) = Ok (Some 0) \<and> remove1 0 (tp_pools t) = [1]" using run unfolding l by simp
  with reach_step [OF reach_step [OF lab_thrift_pool_reach tps_add [OF a(1)]] tps_add [OF a(2)]] show ?thesis by blast
qed

definition lab_lent :: "(thrift_pool \<times> nat pool_heap) option" where
  "lab_lent = (case add_server (te_os lab_env) ''db1'' 9090 lab_thrift_pool lab_heap of
     Ok (b, t, h) \<Rightarrow> (case pm_pools h 0 of None \<Rightarrow> None | Some p \<Rightarrow> (case probe_due p of None \<Rightarrow> None | Some p \<Rightarrow>
       (case probe_goes (te_os lab_env) p (pm_conns h) of None \<Rightarrow> None | Some x \<Rightarrow>
         (case tp_get (te_os lab_env) t (pool_put 0 x h) of Ok (r, s) \<Rightarrow> Some s | _ \<Rightarrow> None))))
   | _ \<Rightarrow> None)"

lemma lab_lent_reach:
  "\<exists>t h. reach (tp_init lab_env) (tp_step lab_env) (t, h) \<and> tp_thread t = Running \<and> tp_queue t = [] \<and> tp_total_conn t = 0
     \<and> tp_conn_map t = [(1, 0)] \<and> find (\<lambda>i. addr_at h i = (''db1'', 9090)) (tp_pools t) = Some 0"
proof -
  have run: "case lab_lent of None \<Rightarrow> False | Some (t, h) \<Rightarrow> tp_thread t = Running \<and> tp_queue t = [] \<and> tp_total_conn t = 0
     \<and> tp_conn_map t = [(1, 0)] \<and> find (\<lambda>i. addr_at h i = (''db1'', 9090)) (tp_pools t) = Some 0" by code_simp
  then obtain t h where l: "lab_lent = Some (t, h)" by (auto split: option.splits)
  obtain b t0 h0 p q x r where a: "add_server (te_os lab_env) ''db1'' 9090 lab_thrift_pool lab_heap = Ok (b, t0, h0)"
    "pm_pools h0 0 = Some p" "probe_due p = Some q" "probe_goes (te_os lab_env) q (pm_conns h0) = Some x"
    "tp_get (te_os lab_env) t0 (pool_put 0 x h0) = Ok (r, t, h)"
    using l unfolding lab_lent_def by (auto split: outcome.splits option.splits prod.splits)
  let ?h = "pool_put 0 (q, pm_conns h0) h0"
  have r1: "reach (tp_init lab_env) (tp_step lab_env) (t0, ?h)"
    by (rule reach_step [OF reach_step [OF lab_thrift_pool_reach tps_add [OF a(1)]] tps_probe [OF a(2) probe_due_step [OF a(3)]]])
  have "tp_step lab_env (t0, ?h) (t0, pool_put 0 x ?h)"
    by (rule tps_probe [where p = q]) (simp_all add: probe_goes_step a(4))
  from reach_step [OF reach_step [OF r1 this] tps_get] a(5) have "reach (tp_init lab_env) (tp_step lab_env) (t, h)" by simp
  moreover have "tp_thread t = Running \<and> tp_queue t = [] \<and> tp_total_conn t = 0
     \<and> tp_conn_map t = [(1, 0)] \<and> find (\<lambda>i. addr_at h i = (''db1'', 9090)) (tp_pools t) = Some 0" using run unfolding l by simp
  ultimately show ?thesis by blast
qed

section \<open>Properties\<close>

text \<open>C13: Two threads of a ThriftPool are never in regions of the same mutex at once; and a thread that
  waits for a mutex waits for one that can go on, or for one that waits for one that can go on, unless
  remove\_server, which takes remove\_queue\_mutex\_ and then mutex\_, is in a deadlock with
  update\_servers or the destructor, which take them in the other order.\<close>

theorem only_remove_server_deadlocks:
  assumes "reach (tp_run_init env) (tp_run_step env) s"
  shows "(\<forall>x a b. holds x (rn_pcs s a) \<longrightarrow> holds x (rn_pcs s b) \<longrightarrow> a = b)
    \<and> (\<forall>t u. waits_for s t u \<longrightarrow> (\<forall>v. \<not> waits_for s u v)
        \<or> (\<exists>v. waits_for s u v \<and> ((\<forall>w. \<not> waits_for s v w) \<or> deadlocked s u v \<or> deadlocked s v u)))"
proof -
  have ok: "locks_ok s" by (rule thrift_pool_threads.reachable_inv [OF assms])
  then have "\<forall>x a b. holds x (rn_pcs s a) \<longrightarrow> holds x (rn_pcs s b) \<longrightarrow> a = b"
    by (metis locks_ok_def option.inject)
  with waiting_cases [OF ok] show ?thesis by blast
qed

theorem only_remove_server_deadlocks_witness:
  "\<exists>s. moves lab_env lab_deadlock lab_start = Some s \<and> (\<forall>b. holds Queue_Mutex (rn_pcs s b) \<longrightarrow> b = 1)"
proof -
  from lab_deadlock_run obtain s where s: "moves lab_env lab_deadlock lab_start = Some s" "rn_pcs s 1 = Retotal 0"
    by (cases "moves lab_env lab_deadlock lab_start") auto
  from only_remove_server_deadlocks [OF moves_reach [OF s(1) lab_start_init]]
  have "\<forall>x a b. holds x (rn_pcs s a) \<longrightarrow> holds x (rn_pcs s b) \<longrightarrow> a = b" ..
  moreover have "holds Queue_Mutex (rn_pcs s 1)" using s(2) by simp
  ultimately show ?thesis using s(1) by blast
qed

text \<open>C14: remove\_server can deadlock with update\_servers or the destructor: from every state of a pool
  of servers in which the server is listed, a thread that removes it and one that calls
  update\_servers, or the destructor while other servers are listed, can come to where each holds the
  mutex the other waits for.  That is for ever: the two stay where they are whatever the others do,
  and whoever wants one of the two mutexes, which every method and every turn of the removing thread
  does, waits for one of them.\<close>

theorem thrift_pool_deadlock_forever:
  assumes start: "reach (tp_init env) (tp_step env) (t, h)" and uv: "u \<noteq> 0" "v \<noteq> 0" "u \<noteq> v"
    and found: "find_server h (host, port) (tp_pools t) = Ok (Some i)"
    and len: "length hosts = length ports"
  shows "(\<exists>s. reach (tp_run_init env) (tp_run_step env) s \<and> rn_pcs s v = UpdateQueue hosts ports \<and> stuck_forever env s u v)
    \<and> (remove1 i (tp_pools t) \<noteq> [] \<longrightarrow> (\<exists>s. reach (tp_run_init env) (tp_run_step env) s
        \<and> rn_pcs s v = Dropping (remove1 i (tp_pools t)) \<and> stuck_forever env s u v))"
proof (intro conjI impI)
  show "\<exists>s. reach (tp_run_init env) (tp_run_step env) s \<and> rn_pcs s v = UpdateQueue hosts ports \<and> stuck_forever env s u v"
    by (rule deadlock_reached [OF start uv found, where c = "CUpdate hosts ports"])
      (simp_all add: tp_begin_def tp_inside_def len)
  assume "remove1 i (tp_pools t) \<noteq> []"
  then obtain j ps where ps: "remove1 i (tp_pools t) = j # ps" by (cases "remove1 i (tp_pools t)") auto
  show "\<exists>s. reach (tp_run_init env) (tp_run_step env) s \<and> rn_pcs s v = Dropping (remove1 i (tp_pools t)) \<and> stuck_forever env s u v"
    by (rule deadlock_reached [OF start uv found, where c = CDestroy]) (simp_all add: tp_begin_def tp_inside_def ps)
qed

theorem thrift_pool_deadlock_forever_witness:
  "\<exists>s s'. reach (tp_run_init lab_env) (tp_run_step lab_env) s \<and> deadlocked s 1 2 \<and> rn_pcs s 2 = UpdateQueue [''db3''] [80]
     \<and> reach (tp_run_init lab_env) (tp_run_step lab_env) s' \<and> deadlocked s' 1 2 \<and> rn_pcs s' 2 = Dropping [1]"
proof -
  from lab_two_servers obtain t h where t: "reach (tp_init lab_env) (tp_step lab_env) (t, h)"
    "find_server h (''db1'', 9090) (tp_pools t) = Ok (Some 0)" "remove1 0 (tp_pools t) = [1]" by blast
  have uv: "(1 :: nat) \<noteq> 0" "(2 :: nat) \<noteq> 0" "(1 :: nat) \<noteq> 2" by simp_all
  have len: "length [''db3''] = length [80 :: int]" by simp
  note both = thrift_pool_deadlock_forever [OF t(1) uv t(2) len]
  obtain s where s: "reach (tp_run_init lab_env) (tp_run_step lab_env) s" "rn_pcs s 2 = UpdateQueue [''db3''] [80]" "stuck_forever lab_env s 1 2"
    using both by blast
  obtain s' where s': "reach (tp_run_init lab_env) (tp_run_step lab_env) s'" "rn_pcs s' 2 = Dropping [1]" "stuck_forever lab_env s' 1 2"
    using both unfolding t(3) by blast
  have "deadlocked s 1 2" "deadlocked s' 1 2" using s(3) s'(3) by (simp_all add: stuck_forever_def)
  with s(1,2) s'(1,2) show ?thesis by blast
qed

text \<open>C15: put takes the connection off the list of those in use in its first region, before it is done
  with its pool.  From any state of a pool of servers in which the removing thread still runs, its queue
  is empty and the pool of one server lends a single connection: when that server is removed, the
  user who puts the connection back can have come past that region, the removing thread then find the
  pool unused and destroy it, and the rest of the put runs in freed memory.\<close>

theorem put_races_with_removal:
  assumes env: "open_opens (te_os env)" "limits_ok env" and start: "reach (tp_init env) (tp_step env) (t, h)"
    and running: "tp_thread t = Running" and queue: "tp_queue t = []" and u: "u \<noteq> 0"
    and found: "find (\<lambda>i. addr_at h i = (host, port)) (tp_pools t) = Some i"
    and limits: "tp_total_conn t = 0 \<or> tp_pools t \<noteq> [i]"
    and lent: "\<forall>b. map_of (tp_conn_map t) b = Some i \<longleftrightarrow> b = a"
  shows "\<exists>t1 h1 s1 s2. remove_server env host port t h = Ok (t1, h1)
    \<and> reach (tp_run_init env) (tp_run_step env) s1 \<and> rn_pool s1 = t1 \<and> tp_queue t1 = [i]
    \<and> rn_pcs s1 u = InPool (Putting a) i (Erased a) \<and> pm_pools (rn_heap s1) i \<noteq> None
    \<and> (tp_run_step env)\<^sup>*\<^sup>* s1 s2 \<and> rn_pcs s2 u = rn_pcs s1 u \<and> pm_pools (rn_heap s2) i = None
    \<and> tp_act env (rn_pcs s2 u) (rn_pool s2) (rn_heap s2) = Undef"
proof -
  have "\<not> (tp_total_conn t \<noteq> 0 \<and> tp_pools t = [i])" using limits by blast
  with remove_server_ok [OF env(2) reach_tp_ok [OF env start], of host port] found queue obtain t1 h1 where
    r: "remove_server env host port t h = Ok (t1, h1)" "tp_ok (te_os env) (t1, h1)" "tp_queue t1 = [i]"
      "tp_conn_map t1 = tp_conn_map t" by auto
  have lent1: "map_of (tp_conn_map t1) b = Some i \<longleftrightarrow> b = a" for b using lent r(4) by simp
  have agree: "b = a \<longleftrightarrow> (\<exists>p. pm_pools h1 i = Some p \<and> b \<in> set (allocated_conns p))" for b
    using tp_okD(3) [OF r(2)] unfolding map_agrees_def lent1 [symmetric] by blast
  then obtain p where p: "pm_pools h1 i = Some p" by blast
  have used: "set (allocated_conns p) = {a}" using agree p by auto
  obtain s0 where s0: "reach (tp_run_init env) (tp_run_step env) s0" "between_calls (t1, h1) s0"
    using reach_between [OF reach_step [OF start tps_remove [OF r(1)]]] by blast
  have thr: "tp_thread t1 = Running" using methods_thread(5) [OF r(1)] running by simp
  let ?p = "snd (put_begin a p)"
  from put_enters [OF s0(2) u thr lent1 [THEN iffD2, OF refl] p, of env] obtain vs s1 where
    s1: "moves env vs s0 = Some s1" "rn_pcs s1 u = InPool (Putting a) i (fst (put_begin a p))" "rn_pcs s1 0 = TurnStart"
      "rn_owner s1 Queue_Mutex = None" "rn_pool s1 = t1" "rn_heap s1 = pool_put i (?p, pm_conns h1) h1" by blast
  from last_put_deletable [OF heap_okD(1) [OF tp_okD(2) [OF r(2)] p] used, of _ _ "te_os env"] obtain m where
    d: "can_be_destroyed ?p" "cp_destroy (te_os env) ?p (pm_conns (rn_heap s1)) = Ok m"
    by (metis prod.collapse s1(6) pool_put_at(2) snd_conv)
  have q: "tp_queue (rn_pool s1) = i # []" and at: "pm_pools (rn_heap s1) i = Some ?p" using s1(5,6) r(3) by simp_all
  from turn_deletes [OF s1(3,4) q at d] obtain ws s2 where s2: "moves env ws s1 = Some s2" "pm_pools (rn_heap s2) i = None"
    "\<forall>t. t \<noteq> 0 \<longrightarrow> rn_pcs s2 t = rn_pcs s1 t" by blast
  have pc: "rn_pcs s1 u = InPool (Putting a) i (Erased a)" "rn_pcs s2 u = rn_pcs s1 u"
    using s1(2) s2(3) u by (simp_all add: put_begin_def)
  have "tp_act env (InPool (Putting a) i (Erased a)) (rn_pool s2) (rn_heap s2) = Undef" using s2(2) by (simp add: pool_at_def)
  then have "tp_act env (rn_pcs s2 u) (rn_pool s2) (rn_heap s2) = Undef" unfolding pc .
  with r(1,3) reach_star [OF moves_steps [OF s1(1)] s0(1)] s1(5) pc at moves_steps [OF s2(1)] s2(2) show ?thesis by blast
qed

theorem put_races_with_removal_witness:
  "\<exists>s. reach (tp_run_init lab_env) (tp_run_step lab_env) s \<and> rn_pcs s 1 = InPool (Putting 1) 0 (Erased 1)
     \<and> tp_act lab_env (rn_pcs s 1) (rn_pool s) (rn_heap s) = Undef"
proof -
  from lab_lent_reach obtain t h where t: "reach (tp_init lab_env) (tp_step lab_env) (t, h)"
    "tp_thread t = Running" "tp_queue t = []" "tp_total_conn t = 0" "tp_conn_map t = [(1, 0)]"
    "find (\<lambda>i. addr_at h i = (''db1'', 9090)) (tp_pools t) = Some 0" by blast
  have one: "(1 :: nat) \<noteq> 0" by simp
  have "\<forall>b. map_of (tp_conn_map t) b = Some 0 \<longleftrightarrow> b = 1" by (simp add: t(5))
  from put_races_with_removal [OF lab_env_ok t(1-3) one t(6) _ this] t(4) obtain s1 s2 where
    "reach (tp_run_init lab_env) (tp_run_step lab_env) s1" "rn_pcs s1 1 = InPool (Putting 1) 0 (Erased 1)"
    "(tp_run_step lab_env)\<^sup>*\<^sup>* s1 s2" "rn_pcs s2 1 = rn_pcs s1 1"
    "tp_act lab_env (rn_pcs s2 1) (rn_pool s2) (rn_heap s2) = Undef" by blast
  with reach_star show ?thesis by metis
qed

end
