(* ===== verification/Tools.thy ===== *)
theory Tools
  imports ServiceStatus ThriftConnection
begin

text \<open>
  What stands around the classes: the printing of addresses (src/async/async\_util.cpp), the
  command line tool that shuts a service down (src/fb303/fb303\_shutdown.cpp) and the statistics of
  the benchmark (src/sync/server\_benchmark.inl) with their reports.
\<close>

section \<open>Addresses\<close>

text \<open>The endpoints of a socket, or what the exception says; how an endpoint is printed.\<close>

record ('s, 'e) address_os =
  ad_local :: "'s \<Rightarrow> string + 'e"
  ad_remote :: "'s \<Rightarrow> string + 'e"
  ad_print :: "'e \<Rightarrow> string"

definition endpoint_to_string :: "('s, 'e) address_os \<Rightarrow> 'e \<Rightarrow> string" where
  "endpoint_to_string os e = ad_print os e"

definition socket_address_to_string :: "('s, 'e) address_os \<Rightarrow> 's option \<Rightarrow> string outcome" where
  "socket_address_to_string os socket = (case socket of
       None \<Rightarrow> Abort
     | Some s \<Rightarrow> Ok (case ad_local os s of
           Inl what \<Rightarrow> what
         | Inr l \<Rightarrow> (case ad_remote os s of
               Inl what \<Rightarrow> what
             | Inr r \<Rightarrow> ''local:'' @ ad_print os l @ '' '' @ ''remote:'' @ ad_print os r)))"

section \<open>The shutdown tool\<close>

text \<open>What boost::program\_options makes of the command line; an exception with its text.\<close>

datatype command_line = Help | Bad_Arguments string | Arguments string int bool

text \<open>\<open>sh_call\<close>: the call of \<open>shutdown\<close>, \<open>Some\<close> what its exception says.  \<open>sh_desc\<close>: the description of the
  options.\<close>

record 'w shutdown_os =
  sh_transport :: "'w transport_os"
  sh_call :: "nat \<Rightarrow> 'w \<Rightarrow> string option \<times> 'w"
  sh_desc :: string

definition newline :: string where
  "newline = [CHR 0x0A]"

definition shutdown_config :: "string \<Rightarrow> int \<Rightarrow> bool \<Rightarrow> tc_config" where
  "shutdown_config host port framed = \<lparr>cf_host = host, cf_port = port, cf_framed = framed, cf_auto_connect = True,
     cf_conn_timeout = 100, cf_send_timeout = 100, cf_recv_timeout = 100\<rparr>"

text \<open>With the client, a pointer that the code compares with NULL: what is printed.\<close>

definition shutdown_client ::
  "'w shutdown_os \<Rightarrow> string \<Rightarrow> int \<Rightarrow> nat option \<Rightarrow> 'w cstore \<Rightarrow> string \<times> 'w cstore" where
  "shutdown_client os host port client m = (case client of
       None \<Rightarrow> (''not connected'' @ newline, m)
     | Some c \<Rightarrow> (case sh_call os c (cs_world m) of
           (Some what, w) \<Rightarrow> (''caught: '' @ what @ newline, m\<lparr>cs_world := w\<rparr>)
         | (None, w) \<Rightarrow> (''shutdown '' @ host @ '':'' @ string_of_int port @ '' ok'' @ newline, m\<lparr>cs_world := w\<rparr>)))"

definition shutdown_main :: "'w shutdown_os \<Rightarrow> command_line \<Rightarrow> 'w cstore \<Rightarrow> (string \<times> 'w cstore) outcome" where
  "shutdown_main os args m = (case args of
       Help \<Rightarrow> Ok (sh_desc os @ newline, m)
     | Bad_Arguments what \<Rightarrow> Ok (''caught: '' @ what @ newline, m)
     | Arguments host port framed \<Rightarrow>
         bind_outcome (tc_new (sh_transport os) (shutdown_config host port framed) m) (\<lambda>(a, m).
         bind_outcome (tc_client (sh_transport os) a m) (\<lambda>(c, m).
           let (text, m) = shutdown_client os host port (Some c) m
           in map_ok (Pair text) (tc_destroy (sh_transport os) a m))))"

section \<open>The benchmark's statistics\<close>

text \<open>Times in microseconds.  \<open>bn_timer\<close>: \<open>dump_timer_\<close> waits.  \<open>bn_rtt\<close>: the map from round trip times to
  how often they were seen.\<close>

record bench =
  bn_begin :: int
  bn_end :: int
  bn_thread :: bool
  bn_timer :: bool
  bn_success :: int
  bn_failure :: int
  bn_rtt :: "(int \<times> int) list"

text \<open>
  \<open>bo_seconds\<close>: \<open>time_duration::seconds\<close>.  \<open>bo_quotient\<close>: the double quotient as \<open>%f\<close> prints it, \<open>bo_percent\<close>
  the float \<open>n * 100.0f / total\<close> as \<open>%4.2f\<close> does.
\<close>

record bench_os =
  bo_seconds :: "int \<Rightarrow> int"
  bo_quotient :: "int \<Rightarrow> int \<Rightarrow> string"
  bo_percent :: "nat \<Rightarrow> nat \<Rightarrow> string"

definition set_dump :: "bench \<Rightarrow> bench" where
  "set_dump s = s\<lparr>bn_timer := True\<rparr>"

definition bench_new :: "int \<Rightarrow> bench" where
  "bench_new now = (set_dump \<lparr>bn_begin = now, bn_end = 0, bn_thread = False, bn_timer = False,
     bn_success = 0, bn_failure = 0, bn_rtt = []\<rparr>)\<lparr>bn_thread := True\<rparr>"

definition inc_success :: "bench \<Rightarrow> bench outcome" where
  "inc_success s = map_ok (\<lambda>n. s\<lparr>bn_success := n\<rparr>) (i64 (bn_success s + 1))"

definition inc_failure :: "bench \<Rightarrow> bench outcome" where
  "inc_failure s = map_ok (\<lambda>n. s\<lparr>bn_failure := n\<rparr>) (i64 (bn_failure s + 1))"

definition round_rtt :: "int \<Rightarrow> int outcome" where
  "round_rtt ms = (if ms mod 10 \<noteq> 0 then bind_outcome (cdiv ms 10) (\<lambda>t. i32 (t * 10 + 10)) else Ok ms)"

definition inc_rtt :: "int \<Rightarrow> bench \<Rightarrow> bench outcome" where
  "inc_rtt ms s = bind_outcome (round_rtt ms) (\<lambda>ms.
     map_ok (\<lambda>n. s\<lparr>bn_rtt := map_put ms n (bn_rtt s)\<rparr>) (i64 (map_at 0 ms (bn_rtt s) + 1)))"

definition get_success :: "bench \<Rightarrow> int" where
  "get_success s = bn_success s"

definition get_failure :: "bench \<Rightarrow> int" where
  "get_failure s = bn_failure s"

section \<open>The reports\<close>

definition unsigned_long :: "int \<Rightarrow> string" where
  "unsigned_long n = string_of_nat (unat (word_of_int n :: u64))"

definition dump_qps :: "bench_os \<Rightarrow> int \<Rightarrow> bench \<Rightarrow> (string list \<times> bench) outcome" where
  "dump_qps os now s =
     (let seconds = bo_seconds os (now - bn_begin s)
      in map_ok (\<lambda>n. ([''Time cost: '' @ string_of_int seconds @ '' seconds'',
             ''Success: '' @ unsigned_long (bn_success s), ''Failure: '' @ unsigned_long (bn_failure s),
             ''Actual QPS: '' @ bo_quotient os n seconds,
             ''Actual successful QPS: '' @ bo_quotient os (bn_success s) seconds], s\<lparr>bn_end := now\<rparr>))
           (i64 (bn_success s + bn_failure s)))"

text \<open>\<open>%-5lu\<close>: filled with blanks on the right.\<close>

definition left_justified :: "nat \<Rightarrow> string \<Rightarrow> string" where
  "left_justified k s = s @ replicate (k - length s) CHR 0x20"

definition rtt_line :: "bench_os \<Rightarrow> nat \<Rightarrow> int \<Rightarrow> nat \<Rightarrow> nat \<Rightarrow> string" where
  "rtt_line os total_times ms accumulated once =
     ''< '' @ left_justified 5 (string_of_nat (unat (word_of_int ms :: u32)))
     @ '' ms, accumulative times: '' @ left_justified 5 (string_of_nat accumulated)
     @ '', percentage: %'' @ bo_percent os accumulated total_times
     @ '', times: '' @ left_justified 5 (string_of_nat once) @ '', percentage: %'' @ bo_percent os once total_times"

fun rtt_total :: "(int \<times> int) list \<Rightarrow> u64 \<Rightarrow> u64" where
  "rtt_total [] n = n"
| "rtt_total ((ms, k) # m) n = rtt_total m (n + word_of_int k)"

fun rtt_lines :: "bench_os \<Rightarrow> u64 \<Rightarrow> u64 \<Rightarrow> (int \<times> int) list \<Rightarrow> string list" where
  "rtt_lines os n acc [] = []"
| "rtt_lines os n acc ((ms, k) # m) =
     (let once = word_of_int k; acc = acc + once
      in rtt_line os (unat n) ms (unat acc) (unat once) # rtt_lines os n acc m)"

definition dump_rtt :: "bench_os \<Rightarrow> bench \<Rightarrow> string list" where
  "dump_rtt os s =
     (let n = rtt_total (bn_rtt s) 0
      in (''Total rtt statistics: '' @ left_justified 10 (string_of_nat (unat n))) # rtt_lines os n 0 (bn_rtt s))"

text \<open>The timer's handler, and the destructor, which also sets \<open>g_stop_flag\<close>.\<close>

definition bench_dump :: "bench_os \<Rightarrow> int \<Rightarrow> bench \<Rightarrow> (string list \<times> bench) outcome" where
  "bench_dump os now s = map_ok (\<lambda>(ls, s). (ls @ dump_rtt os s, set_dump s)) (dump_qps os now s)"

definition bench_destroy :: "bench_os \<Rightarrow> int \<Rightarrow> bench \<Rightarrow> (bool \<times> string list \<times> bench) outcome" where
  "bench_destroy os now s = map_ok (\<lambda>(ls, s). (True, ls @ dump_rtt os s, s))
     (dump_qps os now (s\<lparr>bn_thread := False\<rparr>))"

definition signal_handler :: "bool \<Rightarrow> bool" where
  "signal_handler g_stop_flag = True"

end
