(* ===== verification/ToolsSpec.thy ===== *)
theory ToolsSpec
  imports Tools
begin

text \<open>
  The shutdown tool never fails an assertion, closes what it opened and cannot say that it is not
  connected; the benchmark counts every call under its round trip time, its report accumulates the
  counts, and its rate is wrong after a minute.
\<close>

section \<open>The shutdown tool\<close>

lemma tc_client_runs:
  assumes c: "cs_conns m a = Some c" and os: "open_opens os"
  shows "\<exists>m'. tc_client os a m = Ok (a, m') \<and> only a m m'"
proof -
  obtain b where b: "tc_is_open os a m = Ok b" using tc_is_open_runs [OF c] by blast
  show ?thesis
  proof (cases b)
    case True
    with b only_refl [OF c] show ?thesis by (simp add: tc_client_def tc_reconnect_def)
  next
    case False
    with b tc_connect_runs [OF c os] show ?thesis by (auto simp: tc_client_def tc_reconnect_def)
  qed
qed

lemma tc_destroy_runs:
  assumes c: "cs_conns m a = Some c" "\<not> tc_in_use c"
  shows "\<exists>m'. tc_destroy os a m = Ok m' \<and> cs_conns m' = (cs_conns m)(a := None)"
proof -
  obtain m1 where m1: "tc_close os a m = Ok m1" "only a m m1" using tc_close_runs [OF c(1)] by blast
  then show ?thesis using c by (auto simp: tc_destroy_def tc_at_def only_def)
qed

text \<open>Whatever the network does, the tool prints that the service was shut down or what an exception
  says, and leaves no connection behind: \<open>client\<close> never gives NULL, so \<open>not connected\<close> is never printed.\<close>

theorem shutdown_main_result:
  assumes os: "open_opens (sh_transport os)" and new: "cs_conns m (cs_next m) = None"
  shows "\<exists>said m'. shutdown_main os (Arguments host port framed) m = Ok (said, m') \<and> cs_conns m' = cs_conns m
    \<and> (said = ''shutdown '' @ host @ '':'' @ string_of_int port @ '' ok'' @ newline
       \<or> (\<exists>what. said = ''caught: '' @ what @ newline))"
proof -
  let ?os = "sh_transport os" and ?a = "cs_next m"
  let ?cfg = "shutdown_config host port framed"
  let ?m1 = "m\<lparr>cs_conns := (cs_conns m)(?a \<mapsto> \<lparr>tc_config = ?cfg, tc_status = kTCClosed, tc_in_use = False\<rparr>),
       cs_next := Suc ?a, cs_world := tr_setup ?os ?a ?cfg (cs_world m)\<rparr>"
  obtain ok m2 where m2: "tc_connect ?os ?a ?m1 = Ok (ok, m2)" "only ?a ?m1 m2"
    using tc_connect_runs [OF _ os, of ?m1 ?a] by fastforce
  have n: "tc_new ?os ?cfg m = Ok (?a, m2)" using m2(1) by (simp add: tc_new_def shutdown_config_def Let_def)
  obtain c2 where c2: "cs_conns m2 = (cs_conns m)(?a \<mapsto> c2)" "\<not> tc_in_use c2" using m2(2) by (auto simp: only_def)
  then obtain m3 where m3: "tc_client ?os ?a m2 = Ok (?a, m3)" "only ?a m2 m3"
    using tc_client_runs [OF _ os, of m2 ?a c2] by auto
  obtain c3 where c3: "cs_conns m3 = (cs_conns m)(?a \<mapsto> c3)" "\<not> tc_in_use c3"
    using m3(2) c2 by (auto simp: only_def)
  obtain said m4 where m4: "shutdown_client os host port (Some ?a) m3 = (said, m4)"
    by (cases "shutdown_client os host port (Some ?a) m3")
  then have t: "cs_conns m4 = cs_conns m3" "said = ''shutdown '' @ host @ '':'' @ string_of_int port @ '' ok'' @ newline
       \<or> (\<exists>what. said = ''caught: '' @ what @ newline)"
    by (auto simp: shutdown_client_def split: prod.splits option.splits)
  then obtain m5 where m5: "tc_destroy ?os ?a m4 = Ok m5" "cs_conns m5 = (cs_conns m4)(?a := None)"
    using tc_destroy_runs [of m4 ?a c3 ?os] c3 by auto
  have "cs_conns m5 = cs_conns m" using m5(2) t(1) c3(1) new by (simp add: fun_upd_idem)
  moreover have "shutdown_main os (Arguments host port framed) m = Ok (said, m5)"
    using n m3(1) m4 m5(1) by (simp add: shutdown_main_def)
  ultimately show ?thesis using t(2) by blast
qed

section \<open>Round trip times\<close>

text \<open>The next multiple of ten; the last few values of an int overflow.\<close>

theorem rtt_bucket:
  assumes "0 \<le> ms" and "ms < 2 ^ 31"
  shows "round_rtt ms = (if ms mod 10 \<noteq> 0 \<and> 2147483640 < ms then Undef else Ok ((ms + 9) div 10 * 10))"
proof (cases "ms mod 10 = 0")
  case True
  then have "(ms + 9) div 10 * 10 = ms" by presburger
  with True show ?thesis by (simp add: round_rtt_def)
next
  case False
  have c: "cdiv ms 10 = Ok (ms div 10)" using assms by (intro cdiv_pos) simp_all
  have r: "0 < ms mod 10" "ms mod 10 < 10" using False pos_mod_sign [of 10 ms] by simp_all
  have "(ms + 9) div 10 = ms div 10 + 1"
    by (rule int_div_pos_eq [where r = "ms mod 10 - 1"]) (use r in \<open>simp_all add: algebra_simps\<close>)
  then have e: "ms div 10 * 10 + 10 = (ms + 9) div 10 * 10" by simp
  have "q * 10 + 10 < 2147483648 \<longleftrightarrow> q * 10 + r \<le> 2147483640" if r: "0 < r" "r < 10" for q r :: int
  proof -
    have "q * 10 + 10 < 2147483648 \<longleftrightarrow> q < 214748364" by linarith
    also have "\<dots> \<longleftrightarrow> q * 10 + r \<le> 2147483640" using r by linarith
    finally show ?thesis .
  qed
  from this [of "ms mod 10" "ms div 10"] have b: "ms div 10 * 10 + 10 < 2 ^ 31 \<longleftrightarrow> ms \<le> 2147483640"
    using r by simp
  have "- (2 ^ 31) \<le> ms div 10 * 10 + 10" using assms(1) by simp
  then have i: "i32 (ms div 10 * 10 + 10) = (if ms \<le> 2147483640 then Ok (ms div 10 * 10 + 10) else Undef)"
    unfolding i32_def b by (simp only: simp_thms)
  have "round_rtt ms = i32 (ms div 10 * 10 + 10)" using False by (simp add: round_rtt_def c)
  then show ?thesis using False unfolding i unfolding e by (auto simp: not_le)
qed

section \<open>Counting\<close>

datatype bench_event = Succeeded | Failed | Took int

definition bench_count :: "bench_event \<Rightarrow> bench \<Rightarrow> bench outcome" where
  "bench_count e s = (case e of Succeeded \<Rightarrow> inc_success s | Failed \<Rightarrow> inc_failure s | Took ms \<Rightarrow> inc_rtt ms s)"

fun bench_run :: "bench_event list \<Rightarrow> bench \<Rightarrow> bench outcome" where
  "bench_run [] s = Ok s"
| "bench_run (e # es) s = bind_outcome (bench_count e s) (bench_run es)"

definition bucket_of :: "int \<Rightarrow> int" where
  "bucket_of ms = (ms + 9) div 10 * 10"

definition in_bucket :: "int \<Rightarrow> bench_event \<Rightarrow> bool" where
  "in_bucket b e \<longleftrightarrow> (\<exists>ms. e = Took ms \<and> bucket_of ms = b)"

definition bench_counted :: "bench_event list \<Rightarrow> bench \<Rightarrow> bool" where
  "bench_counted es s \<longleftrightarrow> map_ok_std (bn_rtt s)
     \<and> get_success s = int (length (filter ((=) Succeeded) es)) \<and> get_failure s = int (length (filter ((=) Failed) es))
     \<and> (\<forall>b. map_at 0 b (bn_rtt s) = int (length (filter (in_bucket b) es)))"

lemma counts_fit: "length es < 2 ^ 63 - 1 \<Longrightarrow> i64 (int (length (filter P es)) + 1) = Ok (int (length (filter P es)) + 1)"
proof -
  assume l: "length es < 2 ^ 63 - 1"
  have "length (filter P es) \<le> length es" by simp
  then have "length (filter P es) < 2 ^ 63 - 1" using l by linarith
  then show "i64 (int (length (filter P es)) + 1) = Ok (int (length (filter P es)) + 1)" by (simp add: i64_def)
qed

lemma bench_count_counts:
  assumes s: "bench_counted es s" and l: "length es < 2 ^ 63 - 1"
    and e: "\<And>ms. e = Took ms \<Longrightarrow> 0 \<le> ms \<and> ms \<le> 2147483640"
  shows "\<exists>s'. bench_count e s = Ok s' \<and> bench_counted (es @ [e]) s'"
proof (cases e)
  case Succeeded
  with s counts_fit [OF l, of "(=) Succeeded"] show ?thesis
    by (auto simp: bench_count_def inc_success_def bench_counted_def get_success_def get_failure_def in_bucket_def)
next
  case Failed
  with s counts_fit [OF l, of "(=) Failed"] show ?thesis
    by (auto simp: bench_count_def inc_failure_def bench_counted_def get_success_def get_failure_def in_bucket_def)
next
  case (Took ms)
  have r: "round_rtt ms = Ok (bucket_of ms)" using e [OF Took] rtt_bucket [of ms] by (auto simp: bucket_of_def)
  let ?n = "map_at 0 (bucket_of ms) (bn_rtt s) + 1"
  let ?s = "s\<lparr>bn_rtt := map_put (bucket_of ms) ?n (bn_rtt s)\<rparr>"
  have "i64 ?n = Ok ?n" using s counts_fit [OF l, of "in_bucket (bucket_of ms)"] by (simp add: bench_counted_def)
  then have "bench_count e s = Ok ?s" by (simp add: bench_count_def Took inc_rtt_def r)
  moreover have "bench_counted (es @ [e]) ?s"
    using s by (auto simp: bench_counted_def get_success_def get_failure_def std_simps Took in_bucket_def)
  ultimately show ?thesis by blast
qed

text \<open>From a new benchmark every call is counted once, and every time in its bucket.\<close>

theorem bench_counts:
  assumes "length es < 2 ^ 63" and "\<And>ms. Took ms \<in> set es \<Longrightarrow> 0 \<le> ms \<and> ms \<le> 2147483640"
  shows "\<exists>s. bench_run es (bench_new now) = Ok s \<and> bench_counted es s"
proof -
  have "\<exists>s'. bench_run fs s = Ok s' \<and> bench_counted (ds @ fs) s'"
    if "bench_counted ds s" "length ds + length fs < 2 ^ 63" "\<And>ms. Took ms \<in> set fs \<Longrightarrow> 0 \<le> ms \<and> ms \<le> 2147483640"
    for ds fs s
    using that
  proof (induction fs arbitrary: ds s)
    case (Cons f fs)
    from bench_count_counts [OF Cons.prems(1), of f] Cons.prems(2,3) obtain s1 where
      "bench_count f s = Ok s1" "bench_counted (ds @ [f]) s1" by auto
    with Cons.IH [of "ds @ [f]" s1] Cons.prems(2,3) show ?case by simp
  qed simp
  from this [of "[]" "bench_new now" es] assms show ?thesis
    by (simp add: bench_counted_def bench_new_def set_dump_def get_success_def get_failure_def map_at_def)
qed

section \<open>The report\<close>

lemma rtt_total_sum:
  "(\<forall>p \<in> set m. 0 \<le> snd p) \<Longrightarrow> rtt_total m n = n + word_of_int (sum_list (map snd m))"
  by (induction m n rule: rtt_total.induct) (simp_all add: algebra_simps)

lemma unat_total:
  assumes "0 \<le> k" and "k < 2 ^ 64"
  shows "unat (word_of_int k :: u64) = nat k"
  using assms by (simp add: unat_eq_nat_uint uint_word_of_int take_bit_int_eq_self)

lemma rtt_lines_nth:
  assumes "\<forall>p \<in> set m. 0 \<le> snd p" and "0 \<le> acc" and "acc + sum_list (map snd m) < 2 ^ 64" and "i < length m"
  shows "rtt_lines os n (word_of_int acc) m ! i
    = rtt_line os (unat n) (fst (m ! i)) (nat (acc + sum_list (map snd (take (Suc i) m)))) (nat (snd (m ! i)))"
  using assms
proof (induction m arbitrary: acc i)
  case (Cons p m)
  obtain ms k where p: "p = (ms, k)" by (cases p)
  have k: "0 \<le> k" and s: "0 \<le> sum_list (map snd m)" using Cons.prems(1) by (auto simp: p intro!: sum_list_nonneg)
  have a: "word_of_int acc + word_of_int k = (word_of_int (acc + k) :: u64)" by simp
  show ?case
  proof (cases i)
    case 0
    have "acc + k < 2 ^ 64" "k < 2 ^ 64" using Cons.prems(2,3) k s by (auto simp: p)
    with 0 k Cons.prems(2) show ?thesis by (simp add: p Let_def unat_total del: of_int_add flip: of_int_add)
  next
    case (Suc j)
    with Cons.IH [of "acc + k" j] Cons.prems k show ?thesis by (simp add: p Let_def add.assoc flip: of_int_add)
  qed
qed simp

text \<open>Each line of the report shows a bucket, its count and the sum of the counts up to it; the last sum is
  the total of the first line.\<close>

theorem rtt_report:
  assumes "\<forall>p \<in> set (bn_rtt s). 0 \<le> snd p" and "sum_list (map snd (bn_rtt s)) < 2 ^ 64"
  shows "dump_rtt os s = (let m = bn_rtt s; n = nat (sum_list (map snd m))
     in (''Total rtt statistics: '' @ left_justified 10 (string_of_nat n))
        # map (\<lambda>i. rtt_line os n (fst (m ! i)) (nat (sum_list (map snd (take (Suc i) m)))) (nat (snd (m ! i)))) [0..<length m])"
proof -
  let ?m = "bn_rtt s"
  have pos: "0 \<le> sum_list (map snd ?m)" using assms(1) by (auto intro!: sum_list_nonneg)
  then have n: "unat (rtt_total ?m 0) = nat (sum_list (map snd ?m))"
    using rtt_total_sum [OF assms(1), of 0] unat_total [OF _ assms(2)] by simp
  have len: "length (rtt_lines os k acc m) = length m" for k acc m
    by (induction os k acc m rule: rtt_lines.induct) (simp_all add: Let_def)
  have "rtt_lines os (rtt_total ?m 0) 0 ?m = map (\<lambda>i. rtt_line os (nat (sum_list (map snd ?m))) (fst (?m ! i))
      (nat (sum_list (map snd (take (Suc i) ?m)))) (nat (snd (?m ! i)))) [0..<length ?m]"
    using rtt_lines_nth [OF assms(1), of 0] assms(2) n by (intro nth_equalityI) (simp_all add: len)
  then show ?thesis by (simp add: dump_rtt_def Let_def n)
qed

text \<open>\<open>time_duration::seconds\<close> is documented to give the seconds of the minute.\<close>

definition seconds_of_minute :: "bench_os \<Rightarrow> bool" where
  "seconds_of_minute os \<longleftrightarrow> (\<forall>d \<ge> 0. bo_seconds os d = d div 1000000 mod 60)"

theorem qps_after_a_minute:
  assumes "seconds_of_minute os" and "60000000 \<le> now - bn_begin s" and "now - bn_begin s < 61000000"
    and "dump_qps os now s = Ok (ls, s')"
  shows "hd ls = ''Time cost: 0 seconds'' \<and> ls ! 3 = ''Actual QPS: '' @ bo_quotient os (bn_success s + bn_failure s) 0"
proof -
  have "(now - bn_begin s) div 1000000 = 60"
    by (rule int_div_pos_eq [where r = "now - bn_begin s - 60000000"]) (use assms(2,3) in simp_all)
  then have "bo_seconds os (now - bn_begin s) = 0" using assms(1,2) by (simp add: seconds_of_minute_def)
  moreover have "string_of_int 0 = ''0''" by code_simp
  ultimately show ?thesis using assms(4) by (auto simp: dump_qps_def outcome_simps Let_def)
qed

end
