(* ===== verification/Spec2Isabelle.thy ===== *)
theory Spec2Isabelle
  imports AcceptLoop ServiceManager ThriftPoolSystem SyncServerSpec ThriftPoolTssSpec
    GeneratorClassesSpec AsyncFacebookBase ProcessStatPorts ClientServerSpec ConnPoolThreadsSpec
    ThriftPoolThreadsSpec ToolsSpec
begin

text \<open>
  A verification library for async\_thrift: asynchronous clients and servers for Thrift 0.5.0 on
  boost::asio, pools of connections and sockets with health probes, a service manager on top of
  them, synchronous servers with load shedding, and the fb303 monitoring classes.

  \<^bold>\<open>The program.\<close>  An asynchronous server (src/async/async\_server.cpp) accepts connections on a
  pool of io\_services and reads frames with the state machine of async\_connection.h; each frame goes
  to a processor, either Thrift's own or an AsyncProcessor the generator wrote
  (src/thrift\_0.5.0\_patch/t\_cpp\_generator.cc.inl).  A client (async\_client.cpp and its generated
  stubs) shares the framing.  AsioPool keeps connected sockets of endpoints and probes them in a
  thread; ServiceManager keeps the backends of services and takes their sockets from one AsioPool.
  On the synchronous side thrift\_pool.h has connections, pools of connections to one server, and
  pools of servers; thrift\_pool\_tss.h has pools with a connection per thread; threaded\_server.cpp and
  thread\_pool\_server.cpp are servers that close their port while they are overloaded.  src/fb303 has
  the status and statistics that all services offer.

  \<^bold>\<open>Theories and sources.\<close>
  \<^item> Prelude: the outcome type, decimal printing, reachability, and the locales step\_system (a
    step relation and an invariant), round\_robin (a cursor over a list) and lender (a pool and its
    users).  StdContainers: std::map and std::set as ordered lists.
  \<^item> AsyncException: async\_exception.h/.cpp, the error categories, codes and messages.
    IoServicePool: io\_service\_pool.h/.cpp.
  \<^item> AsyncConnection: async\_connection.h, the framing state machine, with a parser of byte streams
    as its specification and the locale frame\_consumer of what a derived class may do in its hooks.
    AsyncServer: the Connection of async\_server.cpp and async\_processor.cpp.  AcceptLoop: Impl and
    ConnManager of async\_server.cpp, with the objects in a heap.  AsyncClient: async\_client.h/.cpp and
    the stubs generated for a function.  ClientServer and ClientServerSpec: a client and a
    synchronous server joined by two byte streams, and the remote procedure call they implement.
  \<^item> GeneratedStubs: the processor the generator writes (process\_fn, process\_X, complete\_X), the
    numbers of the operations and fill\_result, for a service with any chain of base services.
    GeneratorText: the to\_string functions, signatures, type names and namespaces as text
    (t\_cpp\_generator.cc.inl and the functions of t\_cpp\_generator.cc it uses).  GeneratorClasses and
    GeneratorClassesSpec: the two files of the asynchronous classes as text, their braces and
    signatures, and their agreement with the tables of GeneratedStubs.
  \<^item> AsioPool and AsioPoolSpec: asio\_pool.h/.cpp, its critical sections, operations and probe, and
    their interleavings.  ServiceManager: service\_manager.h/.cpp with the nodes of the sets in a heap.
  \<^item> ThriftConnection, ThriftConnectionPool, ConnPoolInv, ConnPoolSpec, ThriftPool, ThriftPoolSpec,
    ThriftPoolSystem: the three classes of thrift\_pool.h, the invariant of each, and the systems of
    their operations and timer handlers.  ConnPoolThreads and ConnPoolThreadsSpec: the pool of
    connections once more, with threads that take one critical section or one use of a connection
    at a time, and their interleavings.  ThriftPoolThreads and ThriftPoolThreadsSpec: the pool of
    servers once more, with threads that take mutex\_ and remove\_queue\_mutex\_ one by one, the regions
    that get, put and close enter in the pool of one server one by one, and the thread that destroys
    removed servers pool by pool; every state of the sequential system is a state of the threads
    (reach\_between), and schedules that can be run (moves) lead from there to an interleaving.
  \<^item> ThriftPoolTss and ThriftPoolTssSpec: thrift\_pool\_tss.h and host.cpp.
  \<^item> SyncServer and SyncServerSpec: base\_server.cpp, threaded\_server.cpp and thread\_pool\_server.cpp.
  \<^item> ProcessStat: process\_stat.c on Linux.  ProcessStatPorts: its Windows and Cygwin parts, the
    printing of the test program and the system calls of eintr\_wrapper.h.  ServiceStatus: service\_base\_processor.h and
    service\_base\_handler.cpp.  AsyncFacebookBase: async\_facebook\_base.cpp.
  \<^item> Tools and ToolsSpec: async\_util.cpp, fb303\_shutdown.cpp and the statistics of
    server\_benchmark.inl with their reports.

  \<^bold>\<open>Conventions.\<close>  A class is a record, an enumeration a datatype, a member function a definition
  with the state passed explicitly.  A failed assert is Abort, undefined behaviour (a dangling
  pointer, a division by zero, a signed overflow, an overlapping memcpy, a lock taken twice) is Undef,
  anything else is Ok with the result and the new state.  Counters of type size\_t and uint32\_t are
  words, int64\_t and int values in arithmetic are integers with the overflow written out.  Objects that
  are shared or deleted by hand have addresses in a store.  Asynchronous operations are returned as
  actions, their completions are calls of the handlers.  Code outside the repository is an argument:
  sockets, transports, threads, clocks, name resolution and random numbers are records of functions
  over a threaded world, the answers of user code are arguments of the handlers.  What the
  code relies on there is a named hypothesis, e.g. open\_opens (a transport is open once open returned)
  or close\_local (closing one leaves the others open).

  \<^bold>\<open>Interfaces.\<close>  ordered\_set is what the components use of std::set.  frame\_consumer is
  interpreted for the hooks of the synchronous server's connection and of the client; step\_system for
  the synchronous connection, the client, the accept loop, the io\_service pool, AsioPool, the pool of
  connections and its threads, the pool of servers and its threads, the per-thread pool, the channel between client
  and server, and ThreadedServer; round\_robin for the
  io\_services and the rotation of the servers; lender for the pool of connections, the pool of servers
  and the per-thread pool; socket\_pool for AsioPool, as ServiceManager uses it; shedding for the loops
  of the two synchronous servers.

  \<^bold>\<open>What is shown.\<close>  Framing: however the bytes arrive, the frames processed are those the stream
  parses into; no assertion fails in a reachable connection.  Every client callback is invoked exactly
  once; client and server together refine a remote procedure call, and with two-way calls no handler
  of either reaches undefined behaviour, whether operations succeed or fail.  Connection objects, pooled sockets and pooled connections have one owner at a time, in every
  reachable state, and nothing is leaked or used after it was freed, for the pool of connections in
  every interleaving of its threads too; the threads of the pool of servers exclude each other and
  can deadlock only through remove\_server; pools keep their bounds; getting
  and putting back are inverse.  get of the service manager and of the pool of servers fails only when
  no backend is connected; update\_servers and set\_backend leave exactly the servers asked for.  The
  generated dispatch is a lookup in one table and every successful call is answered once.  Every function
  the generated header declares is defined in the generated source, the files are well bracketed, and
  the enumeration in the header has the values of the table.  The
  synchronous servers keep to their maximum, and a worker returns exactly when a turn leaves its loop
  for one of the reasons in the code.
  Statistics count what happened, costs and percentages keep their bounds, and numbers printed are
  read back.  Where the code does not do what it means to, the theorem states what it does
  (set\_backend\_dangling, remove\_thread\_inverted, thrift\_pool\_deadlock\_forever, put\_races\_with\_removal, error\_answers\_dropped, oneway\_then\_call\_undefined,
  start\_failure\_blocks\_stop, argument\_named\_ec, qps\_after\_a\_minute and others); the manifest lists these as findings.

  \<^bold>\<open>Termination.\<close>  All loops are structural recursions or have a measure, except the loop of a
  worker (SyncServer.task\_loop) and the repetition of an interrupted system call
  (ProcessStatPorts.no\_eintr), partial functions whose value is None when the loop does not end;
  task\_run\_ends and no\_eintr\_result say when they do.  thread\_run counts the steps of a thread, and
  pool\_threads\_compose shows that some number of them is enough; tp\_alone and
  thrift\_pool\_methods\_compose do so for the pool of servers.

  \<^bold>\<open>Not modelled.\<close>  Log output; the event loops and the joining of threads; interleavings inside an
  operation of the per-thread pool (its operations are atomic steps), and the probes of the servers
  between two statuses that one method of the pool of servers reads or two limits it sets, which is
  one step; get\_options among the calls of the threads, which reads as get\_stat does; the
  members set\_max\_conn and set\_min\_free\_conn that thrift\_pool.h calls and no class defines (they are
  parameters); the generator of Thrift itself and the adapter class that is compiled out; the test programs, the
  Python scripts and the build files, which are input and output around the classes above.
\<close>

end
